(* ===== verification/Prelude.thy ===== *)
theory Prelude
  imports Main "HOL-Library.Word" "HOL-Library.Monad_Syntax" "HOL-Library.Signed_Division"
begin

text \<open>
  What every component shares: the integer types of \<open>tinybase-types.h\<close>, the byte-addressed
  memory that \<open>u8*\<close> and \<open>void*\<close> point into, \<open>memcpy\<close> and \<open>memset\<close>, the assertions the
  component lemmas are stated with (\<open>bytes_at\<close>, \<open>mapped\<close>, \<open>region\<close>), and the induction rules
  for loops that count a machine word up or down.

  A result of \<open>None\<close> means that the C code has no defined result: it reads or writes a byte
  that is not mapped, overlaps the operands of \<open>memcpy\<close>, overflows a signed integer, shifts out
  of range, or does not return.
\<close>

unbundle bit_operations_syntax

section \<open>Machine types\<close>

type_synonym u8 = "8 word"
type_synonym u16 = "16 word"
type_synonym u32 = "32 word"
type_synonym u64 = "64 word"
type_synonym usz = "64 word"
type_synonym ptr = "64 word"

text \<open>The memory: \<open>None\<close> at an address that no object occupies.\<close>

type_synonym mem = "ptr \<Rightarrow> u8 option"

named_theorems mem_simps \<open>rewrite rules for loads, stores and the assertions on memory\<close>

definition USZ_MAX :: usz where
  "USZ_MAX = 0xFFFFFFFFFFFFFFFF"

definition INVALID_IDX :: usz where
  "INVALID_IDX = USZ_MAX"

lemma INVALID_IDX_eq: "INVALID_IDX = - 1"
  by (simp add: INVALID_IDX_def USZ_MAX_def)

text \<open>Signed 64-bit arithmetic: an overflow has no defined result.\<close>

definition chk64 :: "int \<Rightarrow> int option" where
  "chk64 x = (if - (2 ^ 63) \<le> x \<and> x < 2 ^ 63 then Some x else None)"

lemma chk64_Some [simp]: "- (2 ^ 63) \<le> x \<Longrightarrow> x < 2 ^ 63 \<Longrightarrow> chk64 x = Some x"
  by (simp add: chk64_def)

section \<open>Loops that count a word\<close>

lemma unat_Suc_less:
  fixes i n :: "'a::len word"
  assumes "i < n"
  shows "unat (i + 1) = Suc (unat i)"
proof -
  have "i \<noteq> - 1"
    using assms by (metis not_less word_order.extremum)
  then have "1 + i \<noteq> 0"
    by (metis add.commute eq_neg_iff_add_eq_0)
  then show ?thesis
    using unatSuc [of i] by (simp add: add.commute)
qed

lemma word_up_induct [case_names step]:
  fixes i n :: "'a::len word"
  assumes "\<And>i. (i < n \<Longrightarrow> P (i + 1)) \<Longrightarrow> P i"
  shows "P i"
proof (induction "unat n - unat i" arbitrary: i rule: less_induct)
  case less
  show ?case
  proof (rule assms)
    assume "i < n"
    then have "unat (i + 1) = Suc (unat i)"
      by (rule unat_Suc_less)
    with \<open>i < n\<close> show "P (i + 1)"
      by (intro less) (simp add: word_less_nat_alt)
  qed
qed

lemma word_down_induct [case_names step]:
  fixes i :: "'a::len word"
  assumes "\<And>i. (0 < i \<Longrightarrow> P (i - 1)) \<Longrightarrow> P i"
  shows "P i"
proof (induction "unat i" arbitrary: i rule: less_induct)
  case less
  show ?case
  proof (rule assms)
    assume "0 < i"
    then have "unat (i - 1) < unat i"
      by (simp add: unat_minus_one word_gt_0 unat_gt_0)
    then show "P (i - 1)" by (rule less)
  qed
qed

section \<open>Loads and stores\<close>

fun load_bytes :: "mem \<Rightarrow> ptr \<Rightarrow> nat \<Rightarrow> u8 list option" where
  "load_bytes m p 0 = Some []"
| "load_bytes m p (Suc n) = do { b \<leftarrow> m p; bs \<leftarrow> load_bytes m (p + 1) n; Some (b # bs) }"

definition store8 :: "mem \<Rightarrow> ptr \<Rightarrow> u8 \<Rightarrow> mem option" where
  "store8 m p b = (case m p of None \<Rightarrow> None | Some _ \<Rightarrow> Some (m(p \<mapsto> b)))"

fun store_bytes :: "mem \<Rightarrow> ptr \<Rightarrow> u8 list \<Rightarrow> mem option" where
  "store_bytes m p [] = Some m"
| "store_bytes m p (b # bs) = do { m' \<leftarrow> store8 m p b; store_bytes m' (p + 1) bs }"

text \<open>
  \<open>memset(p, v, n)\<close> and \<open>memcpy(dst, src, n)\<close> of the C library. The operands of \<open>memcpy\<close>
  must not overlap.
\<close>

definition memset :: "mem \<Rightarrow> ptr \<Rightarrow> u8 \<Rightarrow> usz \<Rightarrow> mem option" where
  "memset m p v n = store_bytes m p (replicate (unat n) v)"

definition overlap :: "ptr \<Rightarrow> ptr \<Rightarrow> usz \<Rightarrow> bool" where
  "overlap p q n \<longleftrightarrow> q - p < n \<or> p - q < n"

definition memcpy :: "mem \<Rightarrow> ptr \<Rightarrow> ptr \<Rightarrow> usz \<Rightarrow> mem option" where
  "memcpy m dst src n =
     (if overlap dst src n then None
      else do { bs \<leftarrow> load_bytes m src (unat n); store_bytes m dst bs })"

section \<open>Assertions on memory\<close>

text \<open>The bytes \<open>bs\<close> lie at \<open>p\<close>; \<open>n\<close> bytes are mapped at \<open>p\<close>; the addresses of \<open>n\<close> bytes at \<open>p\<close>.\<close>

definition bytes_at :: "mem \<Rightarrow> ptr \<Rightarrow> u8 list \<Rightarrow> bool" where
  "bytes_at m p bs \<longleftrightarrow> (\<forall>i<length bs. m (p + of_nat i) = Some (bs ! i))"

definition mapped :: "mem \<Rightarrow> ptr \<Rightarrow> nat \<Rightarrow> bool" where
  "mapped m p n \<longleftrightarrow> (\<forall>i<n. m (p + of_nat i) \<noteq> None)"

definition region :: "ptr \<Rightarrow> nat \<Rightarrow> ptr set" where
  "region p n = (\<lambda>i. p + of_nat i) ` {..<n}"

text \<open>The memory after \<open>bs\<close> has been stored at \<open>p\<close>, in closed form.\<close>

definition upd_bytes :: "mem \<Rightarrow> ptr \<Rightarrow> u8 list \<Rightarrow> mem" where
  "upd_bytes m p bs =
     (\<lambda>q. if unat (q - p) < length bs then Some (bs ! unat (q - p)) else m q)"

lemma bytes_at_Nil [simp]: "bytes_at m p []"
  by (simp add: bytes_at_def)

lemma bytes_at_Cons [simp]: "bytes_at m p (b # bs) \<longleftrightarrow> m p = Some b \<and> bytes_at m (p + 1) bs"
  unfolding bytes_at_def length_Cons All_less_Suc2 by (simp add: add.assoc)

lemma bytes_at_append [simp]:
  "bytes_at m p (as @ bs) \<longleftrightarrow> bytes_at m p as \<and> bytes_at m (p + of_nat (length as)) bs"
  by (induction as arbitrary: p) (auto simp: algebra_simps)

lemma bytes_at_nth: "bytes_at m p bs \<Longrightarrow> i < length bs \<Longrightarrow> m (p + of_nat i) = Some (bs ! i)"
  by (simp add: bytes_at_def)

lemma bytes_at_0: "bytes_at m p bs \<Longrightarrow> bs \<noteq> [] \<Longrightarrow> m p = Some (bs ! 0)"
  using bytes_at_nth [of m p bs 0] by simp

lemma bytes_at_word_nth:
  "bytes_at m p bs \<Longrightarrow> unat i < length bs \<Longrightarrow> m (p + i) = Some (bs ! unat i)"
  using bytes_at_nth [of m p bs "unat i"] by simp

lemma bytes_at_take: "bytes_at m p bs \<Longrightarrow> bytes_at m p (take k bs)"
  by (simp add: bytes_at_def)

lemma bytes_at_drop: "bytes_at m p bs \<Longrightarrow> k \<le> length bs \<Longrightarrow> bytes_at m (p + of_nat k) (drop k bs)"
  by (auto simp: bytes_at_def add.assoc simp flip: of_nat_add)

lemma mapped_0 [simp]: "mapped m p 0"
  by (simp add: mapped_def)

lemma mapped_Suc: "mapped m p (Suc n) \<longleftrightarrow> m p \<noteq> None \<and> mapped m (p + 1) n"
  unfolding mapped_def All_less_Suc2 by (simp add: add.assoc)

lemma mapped_numeral [simp]:
  "mapped m p (numeral k) \<longleftrightarrow> m p \<noteq> None \<and> mapped m (p + 1) (pred_numeral k)"
  by (simp add: numeral_eq_Suc mapped_Suc)

lemma mapped_Suc_0 [simp]: "mapped m p (Suc 0) \<longleftrightarrow> m p \<noteq> None"
  by (simp add: mapped_Suc)

lemma mapped_mono: "mapped m p n \<Longrightarrow> k \<le> n \<Longrightarrow> mapped m p k"
  by (auto simp: mapped_def)

lemma mapped_offset: "mapped m p n \<Longrightarrow> i + k \<le> n \<Longrightarrow> mapped m (p + of_nat i) k"
  by (auto simp: mapped_def add.assoc simp flip: of_nat_add)

lemma bytes_at_mapped: "bytes_at m p bs \<Longrightarrow> mapped m p (length bs)"
  by (auto simp: bytes_at_def mapped_def)

lemma mapped_bytes_at:
  assumes "mapped m p n"
  obtains bs where "length bs = n" "bytes_at m p bs"
proof
  show "length (map (\<lambda>i. the (m (p + of_nat i))) [0..<n]) = n" by simp
  show "bytes_at m p (map (\<lambda>i. the (m (p + of_nat i))) [0..<n])"
    using assms by (auto simp: bytes_at_def mapped_def)
qed

lemma load_bytes_Some: "load_bytes m p n = Some bs \<longleftrightarrow> length bs = n \<and> bytes_at m p bs"
proof (induction n arbitrary: p bs)
  case 0
  then show ?case by auto
next
  case (Suc n)
  then show ?case
    by (cases bs) (auto simp: bind_eq_Some_conv)
qed

lemma load_bytes_at [mem_simps]: "bytes_at m p bs \<Longrightarrow> n = length bs \<Longrightarrow> load_bytes m p n = Some bs"
  by (simp add: load_bytes_Some)

lemma unat_offset: "i < 2 ^ 64 \<Longrightarrow> unat (of_nat i :: 64 word) = i"
  by (simp add: unat_of_nat take_bit_nat_eq_self)

lemma in_region_iff: "n \<le> 2 ^ 64 \<Longrightarrow> q \<in> region p n \<longleftrightarrow> unat (q - p) < n"
proof -
  assume n: "n \<le> 2 ^ 64"
  show "q \<in> region p n \<longleftrightarrow> unat (q - p) < n"
  proof
    assume "q \<in> region p n"
    then show "unat (q - p) < n"
      using n by (auto simp: region_def unat_offset)
  next
    assume "unat (q - p) < n"
    moreover have "q = p + of_nat (unat (q - p))" by simp
    ultimately show "q \<in> region p n"
      unfolding region_def by blast
  qed
qed

lemma region_0 [simp]: "region p 0 = {}"
  by (simp add: region_def)

lemma region_Suc: "region p (Suc n) = insert p (region (p + 1) n)"
  unfolding region_def lessThan_Suc_eq_insert_0 by (force simp: image_iff algebra_simps)

lemma region_numeral [simp]: "region p (numeral k) = insert p (region (p + 1) (pred_numeral k))"
  by (simp add: numeral_eq_Suc region_Suc)

lemma region_Suc_0 [simp]: "region p (Suc 0) = {p}"
  by (simp add: region_Suc)

lemma region_append: "region p (a + b) = region p a \<union> region (p + of_nat a) b"
  by (induction a arbitrary: p) (auto simp: region_Suc algebra_simps)

lemma region_mono: "k \<le> n \<Longrightarrow> region p k \<subseteq> region p n"
  by (auto simp: region_def)

lemma region_offset: "i + k \<le> n \<Longrightarrow> region (p + of_nat i) k \<subseteq> region p n"
  using region_append [of p i k] region_mono [of "i + k" n p] by auto

lemma region_memI: "i < n \<Longrightarrow> p + of_nat i \<in> region p n"
  by (auto simp: region_def)

lemma region_disjD:
  assumes "region p n \<inter> region q k = {}" "i < n" "j < k"
  shows "p + of_nat i \<noteq> q + of_nat j"
  using assms region_memI [of i n p] region_memI [of j k q] by auto

lemma mapped_dom: "mapped m p n \<longleftrightarrow> region p n \<subseteq> dom m"
  by (auto simp: mapped_def region_def dom_def)

section \<open>Storing a run of bytes\<close>

lemma upd_bytes_Nil [simp]: "upd_bytes m p [] = m"
  by (simp add: upd_bytes_def)

lemma unat_lt_2p: "unat (n :: 64 word) < 2 ^ 64"
  using unsigned_less [of n, where ?'a = nat] by simp

lemma unat_le_2p: "unat (n :: 64 word) \<le> 2 ^ 64"
  using unat_lt_2p [of n] by simp

lemma unat_minus_one_offset:
  fixes p q :: ptr
  assumes "q \<noteq> p"
  shows "unat (q - p) = Suc (unat (q - (p + 1)))"
proof -
  have "q - p \<noteq> 0" using assms by simp
  then have "unat (q - p - 1) = unat (q - p) - 1" and "0 < unat (q - p)"
    by (simp_all add: unat_minus_one unat_gt_0)
  moreover have "q - p - 1 = q - (p + 1)" by simp
  ultimately show ?thesis by simp
qed

lemma unat_wrap_offset: "unat (p - (p + 1)) = 2 ^ 64 - 1" for p :: ptr
proof -
  have "p - (p + 1) = - 1" by simp
  then show ?thesis by (simp only: unsigned_minus_1_eq_mask mask_eq_exp_minus_1) simp
qed

lemma upd_bytes_Cons:
  assumes "length (b # bs) \<le> 2 ^ 64"
  shows "upd_bytes (m(p \<mapsto> b)) (p + 1) bs = upd_bytes m p (b # bs)"
proof
  fix q
  show "upd_bytes (m(p \<mapsto> b)) (p + 1) bs q = upd_bytes m p (b # bs) q"
  proof (cases "q = p")
    case True
    then show ?thesis
      using assms unat_wrap_offset [of p] by (simp add: upd_bytes_def)
  next
    case False
    then show ?thesis by (simp add: upd_bytes_def unat_minus_one_offset)
  qed
qed

lemma mapped_upd1: "mapped (m(p \<mapsto> b)) q n" if "mapped m q n"
  using that by (auto simp: mapped_def)

lemma store_bytes_upd [mem_simps]:
  "mapped m p (length bs) \<Longrightarrow> length bs \<le> 2 ^ 64 \<Longrightarrow> store_bytes m p bs = Some (upd_bytes m p bs)"
proof (induction bs arbitrary: m p)
  case Nil
  then show ?case by simp
next
  case (Cons b bs)
  then have "m p \<noteq> None" and "mapped (m(p \<mapsto> b)) (p + 1) (length bs)"
    by (auto simp: mapped_Suc mapped_upd1)
  then have "store_bytes (m(p \<mapsto> b)) (p + 1) bs = Some (upd_bytes (m(p \<mapsto> b)) (p + 1) bs)"
    using Cons.IH Cons.prems by simp
  with \<open>m p \<noteq> None\<close> Cons.prems show ?case
    by (auto simp: store8_def upd_bytes_Cons)
qed

lemma memcpy_unmapped:
  assumes "m dst = None" "0 < n"
  shows "memcpy m dst src n = None"
proof (cases "load_bytes m src (unat n)")
  case None
  then show ?thesis by (simp add: memcpy_def)
next
  case (Some bs)
  with assms(2) have "bs \<noteq> []" by (auto simp: load_bytes_Some word_gt_0 unat_eq_zero)
  with assms(1) Some show ?thesis by (cases bs) (simp_all add: memcpy_def store8_def)
qed

lemma upd_bytes_out: "q \<notin> region p (length bs) \<Longrightarrow> length bs \<le> 2 ^ 64 \<Longrightarrow> upd_bytes m p bs q = m q"
  by (simp add: upd_bytes_def in_region_iff)

lemma bytes_at_upd_same [mem_simps]: "length bs \<le> 2 ^ 64 \<Longrightarrow> bytes_at (upd_bytes m p bs) p bs"
  by (auto simp: bytes_at_def upd_bytes_def unat_offset)

lemma bytes_at_upd_disj [mem_simps]:
  assumes "region q (length cs) \<inter> region p (length bs) = {}" "length bs \<le> 2 ^ 64"
  shows "bytes_at (upd_bytes m p bs) q cs \<longleftrightarrow> bytes_at m q cs"
proof -
  have "upd_bytes m p bs (q + of_nat i) = m (q + of_nat i)" if "i < length cs" for i
    using assms that region_memI [of i "length cs" q] by (intro upd_bytes_out) auto
  then show ?thesis by (simp add: bytes_at_def)
qed

lemma two_blocks:
  assumes "region p (length as) \<inter> region q (length bs) = {}" "length as \<le> 2 ^ 64" "length bs \<le> 2 ^ 64"
  shows "bytes_at (upd_bytes (upd_bytes m p as) q bs) p as" "bytes_at (upd_bytes (upd_bytes m p as) q bs) q bs"
  using assms by (simp_all add: bytes_at_upd_disj bytes_at_upd_same)

lemma mapped_upd [mem_simps]: "mapped m q n \<Longrightarrow> mapped (upd_bytes m p bs) q n"
  by (auto simp: mapped_def upd_bytes_def)

lemma upd_bytes_append:
  assumes "length as + length bs \<le> 2 ^ 64"
  shows "upd_bytes (upd_bytes m p as) (p + of_nat (length as)) bs = upd_bytes m p (as @ bs)"
  using assms
proof (induction as arbitrary: m p)
  case Nil
  then show ?case by simp
next
  case (Cons a as)
  then have "upd_bytes (upd_bytes (m(p \<mapsto> a)) (p + 1) as) (p + 1 + of_nat (length as)) bs
      = upd_bytes (m(p \<mapsto> a)) (p + 1) (as @ bs)"
    by (intro Cons.IH) simp
  with Cons.prems show ?case
    using upd_bytes_Cons [of a as m p] upd_bytes_Cons [of a "as @ bs" m p]
    by (simp add: algebra_simps)
qed

lemma disj_not_overlap:
  assumes "region p (unat n) \<inter> region q (unat n) = {}"
  shows "\<not> overlap p q n"
proof
  have le: "unat n \<le> 2 ^ 64" by (rule unat_le_2p)
  assume "overlap p q n"
  then have "unat (q - p) < unat n \<or> unat (p - q) < unat n"
    by (simp add: overlap_def word_less_nat_alt)
  moreover have "0 < unat n \<Longrightarrow> p \<in> region p (unat n) \<and> q \<in> region q (unat n)"
    using le by (simp add: in_region_iff)
  ultimately have "region p (unat n) \<inter> region q (unat n) \<noteq> {}"
    using le in_region_iff [OF le, of q p] in_region_iff [OF le, of p q] by fastforce
  with assms show False by simp
qed

lemma memcpy_upd [mem_simps]:
  assumes "bytes_at m src bs" "length bs = unat n" "mapped m dst (unat n)"
    and "region dst (unat n) \<inter> region src (unat n) = {}"
  shows "memcpy m dst src n = Some (upd_bytes m dst bs)"
proof -
  have "length bs \<le> 2 ^ 64" using assms(2) unat_le_2p by metis
  with assms show ?thesis
    by (simp add: memcpy_def disj_not_overlap load_bytes_at store_bytes_upd)
qed

lemma memset_upd [mem_simps]:
  assumes "mapped m p (unat n)"
  shows "memset m p v n = Some (upd_bytes m p (replicate (unat n) v))"
proof -
  have "unat n \<le> 2 ^ 64" by (rule unat_le_2p)
  with assms show ?thesis by (simp add: memset_def store_bytes_upd)
qed

section \<open>Bits\<close>

text \<open>Equality of words bit by bit, over an explicit list of positions that \<open>simp\<close> unrolls.\<close>

lemma word_eq_bits:
  fixes a b :: "'a::len word"
  assumes "bit a 0 \<longleftrightarrow> bit b 0" "bit a 1 \<longleftrightarrow> bit b 1"
    and "\<forall>n\<in>set [2..<LENGTH('a)]. bit a n \<longleftrightarrow> bit b n"
  shows "a = b"
proof (rule bit_word_eqI)
  fix n assume "n < LENGTH('a)"
  then have "n = 0 \<or> n = 1 \<or> n \<in> set [2..<LENGTH('a)]"
    unfolding set_upt by (cases n) auto
  then show "bit a n \<longleftrightarrow> bit b n" using assms by metis
qed

lemma unat_exp: "k < LENGTH('a) \<Longrightarrow> unat (2 ^ k :: 'a::len word) = 2 ^ k"
  by (simp only: push_bit_of_1 [symmetric] unsigned_push_bit_eq unat_1)
    (simp add: push_bit_of_1 take_bit_nat_eq_self)

lemma least_bit_and_minus:
  fixes w :: "'a::len word"
  assumes "bit w k" "\<forall>j<k. \<not> bit w j"
  shows "w AND - w = 2 ^ k"
proof -
  let ?y = "drop_bit k w"
  have "k \<le> n" if "bit w n" for n
    using assms(2) that by (meson not_le)
  then have w: "w = push_bit k ?y"
    by (intro bit_word_eqI) (auto simp: bit_simps)
  have "odd ?y" using assms(1) by (simp add: drop_bit_eq_div bit_iff_odd)
  then have "set_bit 0 ?y = ?y"
    using assms(1) by (intro bit_word_eqI) (auto simp: bit_simps)
  then have "?y - 1 = unset_bit 0 ?y"
    by (simp only: set_bit_0 unset_bit_0 diff_eq_eq add.commute)
  then have "?y AND - ?y = ?y AND NOT (unset_bit 0 ?y)"
    by (simp add: minus_eq_not_minus_1)
  also have "\<dots> = 1"
    using assms(1) by (intro bit_word_eqI) (auto simp: bit_simps bit_1_iff)
  finally have "push_bit k ?y AND push_bit k (- ?y) = push_bit k 1"
    by (simp flip: push_bit_and)
  moreover have "- w = push_bit k (- ?y)"
    by (subst w) (simp add: push_bit_eq_mult)
  ultimately show ?thesis
    using w by (simp add: push_bit_of_1)
qed

lemma find_upt_Some:
  "List.find P [0..<n] = Some k \<longleftrightarrow> k < n \<and> P k \<and> (\<forall>j<k. \<not> P j)"
  by (auto simp: find_Some_iff)

lemma find_upt_None: "List.find P [0..<n] = None \<longleftrightarrow> (\<forall>k<n. \<not> P k)"
  by (auto simp: find_None_iff)

lemma find_rev_upt_Some:
  "List.find P (rev [0..<n]) = Some k \<longleftrightarrow> k < n \<and> P k \<and> (\<forall>j. k < j \<and> j < n \<longrightarrow> \<not> P j)"
  by (induction n) (auto simp: less_Suc_eq)

lemma find_rev_upt_None: "List.find P (rev [0..<n]) = None \<longleftrightarrow> (\<forall>k<n. \<not> P k)"
  by (auto simp: find_None_iff)

lemma and_not_exp_minus_1:
  fixes x :: "'a::len word"
  assumes "k < LENGTH('a)"
  shows "x AND NOT (2 ^ k - 1) = push_bit k (drop_bit k x)"
  unfolding mask_eq_exp_minus_1 [symmetric]
  by (rule bit_word_eqI) (auto simp: bit_simps)

lemma unat_push_drop:
  fixes x :: "'a::len word"
  assumes "k < LENGTH('a)"
  shows "unat (push_bit k (drop_bit k x)) = (unat x div 2 ^ k) * 2 ^ k"
proof -
  have "unat x div 2 ^ k * 2 ^ k \<le> unat x" by simp
  then have "unat x div 2 ^ k * 2 ^ k < 2 ^ LENGTH('a)"
    using unsigned_less [of x, where ?'a = nat] by linarith
  then show ?thesis
    unfolding unsigned_push_bit_eq unat_drop_bit_eq
    by (simp only: push_bit_eq_mult drop_bit_eq_div take_bit_nat_eq_self)
qed

lemma bit_imp_exp_le: "bit w k \<Longrightarrow> 2 ^ k \<le> unat w"
proof -
  assume "bit w k"
  then have "odd (unat w div 2 ^ k)"
    by (simp add: bit_unsigned_iff flip: bit_iff_odd)
  then have "unat w div 2 ^ k \<noteq> 0" by (metis even_zero)
  then show "2 ^ k \<le> unat w" by (simp add: div_eq_0_iff)
qed

lemma msb_bounds:
  fixes w :: "'a::len word"
  assumes "bit w k" and "\<And>j. k < j \<Longrightarrow> \<not> bit w j"
  shows "2 ^ k \<le> unat w \<and> unat w < 2 ^ Suc k"
proof
  show "2 ^ k \<le> unat w" by (rule bit_imp_exp_le) (rule assms(1))
  have "drop_bit (Suc k) w = 0"
    by (rule bit_word_eqI) (simp add: bit_simps assms(2))
  then have "unat w div 2 ^ Suc k = 0"
    by (metis unat_0 unat_drop_bit_eq drop_bit_eq_div)
  then show "unat w < 2 ^ Suc k" by (simp add: div_eq_0_iff)
qed

section \<open>Search loops\<close>

text \<open>
  The two shapes of the library's search loops, with the early return as a value.
  \<open>for_find i n test\<close> is \<open>for (; i < n; i++) if (test(i)) return i;\<close> and
  \<open>for_find_down i test\<close> is \<open>for (; i > 0; i--) if (test(i)) return i;\<close>.
  \<open>Some None\<close> is the loop that runs to its end.
\<close>

function for_find :: "usz \<Rightarrow> usz \<Rightarrow> (usz \<Rightarrow> bool option) \<Rightarrow> usz option option" where
  "for_find i n test =
     (if i < n
      then do { t \<leftarrow> test i; if t then Some (Some i) else for_find (i + 1) n test }
      else Some None)"
  by pat_completeness auto
termination
proof (relation "measure (\<lambda>(i, n, test). unat n - unat i)", goal_cases)
  case 1
  show ?case by simp
next
  case (2 i n test t)
  then show ?case by (simp add: unat_Suc_less word_less_nat_alt)
qed

function for_find_down :: "usz \<Rightarrow> (usz \<Rightarrow> bool option) \<Rightarrow> usz option option" where
  "for_find_down i test =
     (if 0 < i
      then do { t \<leftarrow> test i; if t then Some (Some i) else for_find_down (i - 1) test }
      else Some None)"
  by pat_completeness auto
termination
  by (relation "measure (\<lambda>(i, test). unat i)") (auto simp: measure_unat)

declare for_find.simps [simp del] for_find_down.simps [simp del]

lemma unat_less_SucD: "i < n \<Longrightarrow> unat i < unat n" for i n :: usz
  by (simp add: word_less_nat_alt)

lemma find_upt_rec:
  "List.find P [i..<n] = (if i < n then if P i then Some i else List.find P [Suc i..<n] else None)"
  by (simp add: upt_rec [of i n])

lemma for_find_eq:
  assumes "\<And>i. i < n \<Longrightarrow> test i = Some (P (unat i))"
  shows "for_find i n test = Some (map_option of_nat (List.find P [unat i..<unat n]))"
proof (induction i rule: word_up_induct [of n])
  case (step i)
  show ?case
  proof (cases "i < n")
    case True
    with step assms [OF True] show ?thesis
      by (subst for_find.simps, subst find_upt_rec)
        (simp add: unat_Suc_less unat_less_SucD)
  next
    case False
    then have "unat n \<le> unat i" by (simp add: word_less_nat_alt)
    with False show ?thesis by (subst for_find.simps) simp
  qed
qed

lemma find_rev_upt_rec:
  "List.find P (rev [0..<Suc n]) = (if P n then Some n else List.find P (rev [0..<n]))"
  by simp

lemma for_find_down_eq:
  assumes "\<And>j. 0 < j \<Longrightarrow> j \<le> i \<Longrightarrow> test j = Some (P (unat j))"
  shows "for_find_down i test = Some (map_option of_nat (List.find P (rev [1..<Suc (unat i)])))"
  using assms
proof (induction i rule: word_down_induct)
  case (step i)
  show ?case
  proof (cases "0 < i")
    case True
    have u: "unat i = Suc (unat (i - 1))"
      using True by (simp add: unat_minus_one word_gt_0 unat_gt_0)
    moreover have "for_find_down (i - 1) test
        = Some (map_option of_nat (List.find P (rev [1..<Suc (unat (i - 1))])))"
      using True step.prems by (intro step.IH) (auto simp: word_le_nat_alt u)
    moreover have "test i = Some (P (unat i))" using True step.prems by simp
    ultimately show ?thesis using True
      by (subst for_find_down.simps) simp
  next
    case False
    then have "i = 0" by (simp add: word_gt_0)
    then show ?thesis by (subst for_find_down.simps) simp
  qed
qed

text \<open>The index a search returns: \<open>INVALID_IDX\<close> when there is none.\<close>

definition idx_word :: "nat option \<Rightarrow> usz" where
  "idx_word r = (case r of None \<Rightarrow> INVALID_IDX | Some i \<Rightarrow> of_nat i)"

lemma idx_word_simps [simp]: "idx_word None = INVALID_IDX" "idx_word (Some i) = of_nat i"
  by (simp_all add: idx_word_def)

lemma of_nat_ne_INVALID: "i < 2 ^ 64 - 1 \<Longrightarrow> (of_nat i :: usz) \<noteq> INVALID_IDX"
proof
  assume "i < 2 ^ 64 - 1" and "(of_nat i :: usz) = INVALID_IDX"
  then have "unat (of_nat i :: usz) = unat INVALID_IDX" by simp
  with \<open>i < 2 ^ 64 - 1\<close> show False
    by (simp add: unat_offset INVALID_IDX_def USZ_MAX_def)
qed

text \<open>A word in the lower half reads the same signed and unsigned.\<close>

lemma sint_low: "unat p < 2 ^ 63 \<Longrightarrow> sint p = int (unat p)" for p :: "64 word"
proof -
  assume "unat p < 2 ^ 63"
  then have "int (unat p) < int (2 ^ 63)" by (simp only: of_nat_less_iff)
  then have lt: "uint p < 2 ^ 63" by simp
  then have "\<not> bit (uint p) 63" by (simp add: bit_iff_odd)
  then have "sint p = take_bit 63 (uint p)"
    by (simp add: sint_uint signed_take_bit_eq_if_positive)
  with lt show ?thesis by (simp add: take_bit_int_eq_self)
qed

end
