(* ===== verification/Types.thy ===== *)
theory Types
  imports Prelude
begin

text \<open>
  The helper functions and macros of \<open>src/tinybase-types.h\<close>: bit scans and masks, rounding,
  endianness swaps and digit counts. An \<open>i32\<close> index is an \<open>int\<close>, an \<open>isz\<close> is an \<open>int\<close> in the
  64-bit range; the fixed-width operands are words. The compiler builtins are those of GCC on
  x86-64, with the MSVC branch of \<open>GetFirstBitSet\<close> beside it.
\<close>

unbundle bit_operations_syntax

named_theorems types_defs \<open>definitions of the helper macros\<close>

section \<open>Macros\<close>

definition Abs :: "int \<Rightarrow> int option" where
  "Abs a = (if a < 0 then chk64 (- a) else Some a)"

definition Min :: "usz \<Rightarrow> usz \<Rightarrow> usz" where
  "Min a b = (if a \<le> b then a else b)"

definition Align :: "usz \<Rightarrow> usz \<Rightarrow> usz" where
  "Align value boundary = ((value - 1) AND NOT (boundary - 1)) + boundary"

definition FlipEndian16 :: "u32 \<Rightarrow> u32" where
  "FlipEndian16 i = (drop_bit 8 i AND 0xFF) OR (push_bit 8 i AND 0xFF00)"

definition FlipEndian16x2 :: "u32 \<Rightarrow> u32" where
  "FlipEndian16x2 i =
     FlipEndian16 (ucast (ucast i :: u16))
       OR push_bit 16 (FlipEndian16 (ucast (ucast (drop_bit 16 i) :: u16)))"

definition FlipEndian32 :: "u32 \<Rightarrow> u32" where
  "FlipEndian32 i =
     (drop_bit 24 i AND 0xFF) OR (drop_bit 8 i AND 0xFF00)
       OR (push_bit 8 i AND 0xFF0000) OR (push_bit 24 i AND 0xFF000000)"

definition FlipEndian64 :: "u64 \<Rightarrow> u64" where
  "FlipEndian64 i =
     (drop_bit 56 i AND 0xFF) OR (drop_bit 40 i AND 0xFF00)
       OR (drop_bit 24 i AND 0xFF0000) OR (drop_bit 8 i AND 0xFF000000)
       OR (push_bit 8 i AND 0xFF00000000) OR (push_bit 24 i AND 0xFF0000000000)
       OR (push_bit 40 i AND 0xFF000000000000) OR (push_bit 56 i AND 0xFF00000000000000)"

section \<open>Bit scans\<close>

text \<open>GCC's \<open>__builtin_ctz\<close> and \<open>__builtin_clzl\<close>: undefined at 0.\<close>

definition builtin_ctz :: "u32 \<Rightarrow> nat option" where
  "builtin_ctz w = List.find (bit w) [0..<32]"

definition builtin_clzl :: "u64 \<Rightarrow> nat option" where
  "builtin_clzl w = map_option (\<lambda>k. 63 - k) (List.find (bit w) (rev [0..<64]))"

definition GetFirstBitSet :: "u32 \<Rightarrow> int option" where
  "GetFirstBitSet m = map_option int (builtin_ctz m)"

definition MultiplyDeBruijnBitPosition :: "int list" where
  "MultiplyDeBruijnBitPosition =
     [0, 1, 28, 2, 29, 14, 24, 3, 30, 22, 20, 15, 25, 17, 4, 8,
      31, 27, 13, 23, 21, 19, 16, 7, 26, 12, 18, 6, 11, 5, 10, 9]"

definition GetFirstBitSet_MSVC :: "u32 \<Rightarrow> int" where
  "GetFirstBitSet_MSVC m =
     MultiplyDeBruijnBitPosition ! unat (drop_bit 27 ((m AND - m) * 0x077CB531))"

definition Patterns :: "u32 list" where
  "Patterns =
     [0xFFFFFFFE, 0xFFFFFFFD, 0xFFFFFFFB, 0xFFFFFFF7,
      0xFFFFFFEF, 0xFFFFFFDF, 0xFFFFFFBF, 0xFFFFFF7F,
      0xFFFFFEFF, 0xFFFFFDFF, 0xFFFFFBFF, 0xFFFFF7FF,
      0xFFFFEFFF, 0xFFFFDFFF, 0xFFFFBFFF, 0xFFFF7FFF,
      0xFFFEFFFF, 0xFFFDFFFF, 0xFFFBFFFF, 0xFFF7FFFF,
      0xFFEFFFFF, 0xFFDFFFFF, 0xFFBFFFFF, 0xFF7FFFFF,
      0xFEFFFFFF, 0xFDFFFFFF, 0xFBFFFFFF, 0xF7FFFFFF,
      0xEFFFFFFF, 0xDFFFFFFF, 0xBFFFFFFF, 0x7FFFFFFF]"

definition FlipBit :: "u32 \<Rightarrow> int \<Rightarrow> u32 option" where
  "FlipBit number bitIdx =
     (if 0 \<le> bitIdx \<and> bitIdx < 32 then Some (number AND Patterns ! nat bitIdx) else None)"

text \<open>\<open>Value &= ~(1UL << Bit)\<close>: the shift is done at 64 bits, then truncated.\<close>

definition ClearBit :: "u32 \<Rightarrow> int \<Rightarrow> u32 option" where
  "ClearBit value b =
     (if 0 \<le> b \<and> b < 64
      then Some (ucast ((ucast value :: u64) AND NOT (push_bit (nat b) 1)))
      else None)"

text \<open>\<open>(usz)(1 << (TrailingZero-1))\<close>: the shift is done in \<open>int\<close>, then sign-extended.\<close>

definition RoundDownToPow2 :: "u32 \<Rightarrow> usz option" where
  "RoundDownToPow2 value =
     do {
       lz \<leftarrow> builtin_clzl (scast value);
       let trailingZero = 64 - int lz;
       let sh = trailingZero - 1;
       if 0 \<le> sh \<and> sh < 32 then Some (scast (push_bit (nat sh) (1 :: u32))) else None
     }"

section \<open>Digit count\<close>

function NumberOfDigits_loop :: "int \<Rightarrow> usz \<Rightarrow> usz" where
  "NumberOfDigits_loop integer count =
     (let integer' = integer sdiv 10; count' = count + 1
      in if integer' \<noteq> 0 then NumberOfDigits_loop integer' count' else count')"
  by pat_completeness auto
termination
proof (relation "measure (\<lambda>(i, c). nat \<bar>i\<bar>)", goal_cases)
  case 1
  show ?case by simp
next
  case (2 i c i' c')
  then show ?case by (auto simp: signed_divide_int_def abs_mult sgn_mult)
qed

declare NumberOfDigits_loop.simps [simp del]

definition NumberOfDigits :: "int \<Rightarrow> usz" where
  "NumberOfDigits integer = NumberOfDigits_loop integer 0"

lemmas [types_defs] = Abs_def Min_def Align_def

section \<open>Correctness\<close>

lemma Align_eq_push_drop:
  assumes "k < 64"
  shows "Align v (2 ^ k) = push_bit k (drop_bit k (v - 1)) + 2 ^ k"
  unfolding Align_def using and_not_exp_minus_1 [of k "v - 1"] assms by simp

lemma Align_pow2:
  assumes "k < 64" "0 < v" "unat v + 2 ^ k \<le> 2 ^ 64"
  shows "unat (Align v (2 ^ k)) = ((unat v - 1) div 2 ^ k + 1) * 2 ^ k"
proof -
  have e: "unat (2 ^ k :: 64 word) = 2 ^ k"
    using assms(1) by (simp add: unat_exp)
  have "unat (v - 1) = unat v - 1" "0 < unat v"
    using assms(2) by (auto simp: unat_minus_one unat_gt_0)
  then have u: "unat (push_bit k (drop_bit k (v - 1))) = (unat v - 1) div 2 ^ k * 2 ^ k"
    using assms(1) by (simp add: unat_push_drop)
  have "(unat v - 1) div 2 ^ k * 2 ^ k \<le> unat v - 1" by simp
  with assms(3) \<open>0 < unat v\<close> have "(unat v - 1) div 2 ^ k * 2 ^ k + 2 ^ k < 2 ^ 64"
    by linarith
  then show ?thesis
    unfolding Align_eq_push_drop [OF assms(1)]
    by (subst unat_add_lem [THEN iffD1]) (simp_all add: u e)
qed

lemma builtin_ctz_Some:
  "builtin_ctz w = Some k \<longleftrightarrow> k < 32 \<and> bit w k \<and> (\<forall>j<k. \<not> bit w j)"
  by (simp add: builtin_ctz_def find_upt_Some)

lemma builtin_ctz_None: "builtin_ctz w = None \<longleftrightarrow> w = 0"
  by (auto simp: builtin_ctz_def find_upt_None intro!: bit_word_eqI)

lemma debruijn_table:
  "\<forall>k\<in>set [0..<32]. MultiplyDeBruijnBitPosition ! unat (drop_bit 27 ((2 ^ k :: u32) * 0x077CB531)) = int k"
  by code_simp

lemma Patterns_nth: "\<forall>k\<in>set [0..<32]. Patterns ! k = NOT (push_bit k 1)"
  by code_simp

lemma FlipBit_eq: "0 \<le> b \<Longrightarrow> b < 32 \<Longrightarrow> FlipBit n b = Some (n AND NOT (push_bit (nat b) 1))"
  using Patterns_nth by (auto simp: FlipBit_def)

lemma ClearBit_eq: "0 \<le> b \<Longrightarrow> b < 32 \<Longrightarrow> ClearBit n b = Some (n AND NOT (push_bit (nat b) 1))"
  unfolding ClearBit_def by (auto intro!: bit_word_eqI simp: bit_simps)

lemma FlipEndian16x2_twice: "FlipEndian16x2 (FlipEndian16x2 i) = i"
  by (rule word_eq_bits)
    (simp_all add: FlipEndian16x2_def FlipEndian16_def bit_simps)

lemma FlipEndian32_twice: "FlipEndian32 (FlipEndian32 i) = i"
  by (rule word_eq_bits) (simp_all add: FlipEndian32_def bit_simps)

lemma FlipEndian64_twice: "FlipEndian64 (FlipEndian64 i) = i"
  by (rule word_eq_bits) (simp_all add: FlipEndian64_def bit_simps)

lemma GetFirstBitSet_debruijn:
  assumes "m \<noteq> 0"
  shows "GetFirstBitSet m = Some (GetFirstBitSet_MSVC m)"
proof -
  obtain k where k: "builtin_ctz m = Some k"
    using assms builtin_ctz_None [of m] by blast
  then have "m AND - m = 2 ^ k" and "k \<in> set [0..<32]"
    using least_bit_and_minus [of m k] by (auto simp: builtin_ctz_Some)
  then show ?thesis
    using debruijn_table k by (simp add: GetFirstBitSet_def GetFirstBitSet_MSVC_def)
qed

lemma bit_below_31:
  fixes v :: u32
  assumes "v < 2 ^ 31" "bit v j"
  shows "j < 31"
proof (rule ccontr)
  assume "\<not> j < 31"
  then have "(2::nat) ^ 31 \<le> 2 ^ j" by (intro power_increasing) simp_all
  with bit_imp_exp_le [OF assms(2)] assms(1) show False
    by (simp add: word_less_nat_alt)
qed

lemma RoundDownToPow2_pow2:
  assumes "0 < v" "v < 2 ^ 31"
  shows "\<exists>k<31. RoundDownToPow2 v = Some (2 ^ k) \<and> 2 ^ k \<le> unat v \<and> unat v < 2 ^ Suc k"
proof -
  have bits: "bit (scast v :: u64) j \<longleftrightarrow> bit v j" for j
    using bit_below_31 [OF assms(2), of j] bit_below_31 [OF assms(2), of 31]
    by (auto simp: bit_simps min_def)
  have "v \<noteq> 0" using assms(1) by auto
  then obtain i where "bit v i" using bit_word_eqI [of v 0] by auto
  show ?thesis
  proof (cases "List.find (bit (scast v :: u64)) (rev [0..<64])")
    case None
    then have "\<not> bit v i" using bit_below_31 [OF assms(2), of i]
      by (auto simp: find_rev_upt_None bits)
    with \<open>bit v i\<close> show ?thesis by simp
  next
    case (Some k)
    then have k: "bit v k" "\<And>j. k < j \<Longrightarrow> \<not> bit v j"
      using bit_below_31 [OF assms(2)] by (auto simp: find_rev_upt_Some bits) fastforce
    have "k < 31" using bit_below_31 [OF assms(2) k(1)] .
    then have "(scast (push_bit k (1 :: u32)) :: u64) = push_bit k 1"
      by (intro bit_word_eqI) (auto simp: bit_simps bit_1_iff)
    moreover have "64 - int (63 - k) - 1 = int k" using \<open>k < 31\<close> by simp
    ultimately have "RoundDownToPow2 v = Some (push_bit k 1)"
      using Some \<open>k < 31\<close> by (simp add: RoundDownToPow2_def builtin_clzl_def Let_def, arith)
    then show ?thesis
      using msb_bounds [OF k] \<open>k < 31\<close> by (auto simp: push_bit_of_1)
  qed
qed

section \<open>Decimal digits\<close>

text \<open>The reference for the digit loops: the decimal digits, least significant first.\<close>

fun dec_rev :: "nat \<Rightarrow> nat list" where
  "dec_rev n = n mod 10 # (if n < 10 then [] else dec_rev (n div 10))"

declare dec_rev.simps [simp del]

lemma dec_rev_small: "n < 10 \<Longrightarrow> dec_rev n = [n]"
  by (subst dec_rev.simps) simp

lemma dec_rev_big: "10 \<le> n \<Longrightarrow> dec_rev n = n mod 10 # dec_rev (n div 10)"
  by (subst dec_rev.simps) simp

lemma dec_rev_nonempty [simp]: "dec_rev n \<noteq> []"
  by (subst dec_rev.simps) simp

lemma dec_rev_digits: "d \<in> set (dec_rev n) \<Longrightarrow> d < 10"
proof (induction n rule: dec_rev.induct)
  case (1 n)
  then show ?case by (cases "n < 10") (auto simp: dec_rev_small dec_rev_big)
qed

lemma length_dec_rev: "n < 10 ^ Suc k \<Longrightarrow> length (dec_rev n) \<le> Suc k"
proof (induction k arbitrary: n)
  case 0
  then show ?case by (simp add: dec_rev_small)
next
  case (Suc k)
  then have "n div 10 < 10 ^ Suc k" by (simp add: div_less_iff_less_mult mult.commute)
  with Suc.IH have "length (dec_rev (n div 10)) \<le> Suc k" by simp
  then show ?case by (cases "n < 10") (auto simp: dec_rev_small dec_rev_big)
qed

lemma length_dec_rev_lower: "length (dec_rev n) = Suc (Suc k) \<Longrightarrow> 10 ^ Suc k \<le> n"
proof (induction k arbitrary: n)
  case 0
  then show ?case by (cases "n < 10") (auto simp: dec_rev_small)
next
  case (Suc k)
  then have "10 \<le> n" by (cases "n < 10") (auto simp: dec_rev_small)
  with Suc have "10 ^ Suc k \<le> n div 10" by (simp add: dec_rev_big)
  then show ?case by (simp add: less_eq_div_iff_mult_less_eq mult.commute)
qed

lemma nat_abs_sdiv: "nat \<bar>i sdiv 10\<bar> = nat \<bar>i\<bar> div 10"
  by (auto simp: signed_divide_int_def abs_mult sgn_if nat_div_distrib)

lemma NumberOfDigits_loop_eq: "NumberOfDigits_loop i c = c + of_nat (length (dec_rev (nat \<bar>i\<bar>)))"
proof (induction i c rule: NumberOfDigits_loop.induct)
  case (1 i c)
  have z: "i sdiv 10 = 0 \<longleftrightarrow> nat \<bar>i\<bar> < 10"
    using nat_abs_sdiv [of i] by (auto simp: div_eq_0_iff)
  show ?case
  proof (cases "nat \<bar>i\<bar> < 10")
    case True
    with z show ?thesis by (simp add: NumberOfDigits_loop.simps [of i] dec_rev_small)
  next
    case False
    with z "1" show ?thesis
      by (simp add: NumberOfDigits_loop.simps [of i] dec_rev_big nat_abs_sdiv)
  qed
qed

lemma NumberOfDigits_eq: "NumberOfDigits i = of_nat (length (dec_rev (nat \<bar>i\<bar>)))"
  by (simp add: NumberOfDigits_def NumberOfDigits_loop_eq)

lemma length_dec_rev_isz: "n \<le> 2 ^ 63 \<Longrightarrow> length (dec_rev n) \<le> 19"
proof -
  assume "n \<le> 2 ^ 63"
  then have "n < 10 ^ Suc 18" by simp
  from length_dec_rev [OF this] show ?thesis by simp
qed

end
