(* ===== verification/Buffers.thy ===== *)
theory Buffers
  imports Types
begin

text \<open>
  Creating and editing buffers, and arenas (\<open>src/tinybase-memory.c\<close>, lines 1 to 90 and 434 to
  448). A \<open>buffer\<close> is passed and returned as a value; the bytes it points to are in the memory.
  The operations that take a \<open>buffer*\<close> are polymorphic in the rest of the record, so that a
  string (a buffer with an encoding) can be passed where the code passes \<open>&Dst->Buffer\<close>.
\<close>

unbundle bit_operations_syntax

record buffer =
  Base :: ptr
  WriteCur :: usz
  Size :: usz

definition Buffer :: "ptr \<Rightarrow> usz \<Rightarrow> usz \<Rightarrow> buffer" where
  "Buffer p w s = \<lparr>Base = p, WriteCur = w, Size = s\<rparr>"

lemma Buffer_sel [simp]:
  "Base (Buffer p w s) = p" "WriteCur (Buffer p w s) = w" "Size (Buffer p w s) = s"
  by (simp_all add: Buffer_def)

section \<open>Operations\<close>

definition ClearBuffer :: "mem \<Rightarrow> 'a buffer_scheme \<Rightarrow> (mem \<times> 'a buffer_scheme) option" where
  "ClearBuffer m buf =
     (if Base buf \<noteq> 0
      then do { m' \<leftarrow> memset m (Base buf) 0 (Size buf); Some (m', buf\<lparr>WriteCur := 0\<rparr>) }
      else Some (m, buf))"

definition AdvanceBuffer :: "'a buffer_scheme \<Rightarrow> usz \<Rightarrow> 'a buffer_scheme" where
  "AdvanceBuffer buf numBytes =
     buf\<lparr>Base := Base buf + numBytes, WriteCur := WriteCur buf - numBytes\<rparr>"

definition CopyData :: "mem \<Rightarrow> ptr \<Rightarrow> usz \<Rightarrow> ptr \<Rightarrow> usz \<Rightarrow> (bool \<times> mem) option" where
  "CopyData m dst dstSize src srcSize =
     (if dstSize \<ge> srcSize
      then do { m' \<leftarrow> memcpy m dst src srcSize; Some (True, m') }
      else Some (False, m))"

definition AppendDataToBuffer ::
  "mem \<Rightarrow> ptr \<Rightarrow> usz \<Rightarrow> 'a buffer_scheme \<Rightarrow> (bool \<times> mem \<times> 'a buffer_scheme) option" where
  "AppendDataToBuffer m src srcSize dst =
     do {
       (r, m') \<leftarrow> CopyData m (Base dst + WriteCur dst) (Size dst - WriteCur dst) src srcSize;
       Some (r, m', if r then dst\<lparr>WriteCur := WriteCur dst + srcSize\<rparr> else dst)
     }"

definition AppendBufferToBuffer ::
  "mem \<Rightarrow> 'b buffer_scheme \<Rightarrow> 'a buffer_scheme \<Rightarrow> (bool \<times> mem \<times> 'a buffer_scheme) option" where
  "AppendBufferToBuffer m src dst =
     do {
       (r, m') \<leftarrow> CopyData m (Base dst + WriteCur dst) (Size dst - WriteCur dst)
                    (Base src) (WriteCur src);
       Some (r, m', if r then dst\<lparr>WriteCur := WriteCur dst + WriteCur src\<rparr> else dst)
     }"

function NTimes_loop ::
  "mem \<Rightarrow> 'b buffer_scheme \<Rightarrow> usz \<Rightarrow> 'a buffer_scheme \<Rightarrow> (mem \<times> 'a buffer_scheme) option" where
  "NTimes_loop m src count dst =
     (if count \<noteq> 0
      then do {
        (r, m') \<leftarrow> CopyData m (Base dst + WriteCur dst) (Size dst - WriteCur dst)
                     (Base src) (WriteCur src);
        NTimes_loop m' src (count - 1) (dst\<lparr>WriteCur := WriteCur dst + WriteCur src\<rparr>)
      }
      else Some (m, dst))"
  by pat_completeness auto
termination
  by (relation "measure (\<lambda>(m, src, count, dst). unat count)") (auto simp: measure_unat)

declare NTimes_loop.simps [simp del]

definition AppendBufferToBufferNTimes ::
  "mem \<Rightarrow> 'b buffer_scheme \<Rightarrow> usz \<Rightarrow> 'a buffer_scheme \<Rightarrow> (bool \<times> mem \<times> 'a buffer_scheme) option"
  where
  "AppendBufferToBufferNTimes m src count dst =
     (let totalSizeToWrite = WriteCur src * count;
          remainingSize = Size dst - WriteCur dst
      in if totalSizeToWrite \<le> remainingSize
         then do { (m', dst') \<leftarrow> NTimes_loop m src count dst; Some (True, m', dst') }
         else Some (False, m, dst))"

definition PushIntoArena :: "'a buffer_scheme \<Rightarrow> usz \<Rightarrow> ptr \<times> 'a buffer_scheme" where
  "PushIntoArena arena n =
     (if WriteCur arena + n \<le> Size arena
      then (Base arena + WriteCur arena, arena\<lparr>WriteCur := WriteCur arena + n\<rparr>)
      else (0, arena))"

section \<open>Assertions\<close>

text \<open>
  \<open>holds m b xs\<close>: the written part of \<open>b\<close> is \<open>xs\<close>. \<open>buf_ok m b\<close>: the whole space of \<open>b\<close> is
  mapped and the cursor is inside it. \<open>append_result\<close> is the contract of every append: all of
  the bytes when they fit in the remaining space, otherwise nothing.
\<close>

definition holds :: "mem \<Rightarrow> 'a buffer_scheme \<Rightarrow> u8 list \<Rightarrow> bool" where
  "holds m b xs \<longleftrightarrow> length xs = unat (WriteCur b) \<and> bytes_at m (Base b) xs"

definition buf_ok :: "mem \<Rightarrow> 'a buffer_scheme \<Rightarrow> bool" where
  "buf_ok m b \<longleftrightarrow> WriteCur b \<le> Size b \<and> mapped m (Base b) (unat (Size b))"

definition space :: "'a buffer_scheme \<Rightarrow> nat" where
  "space b = unat (Size b) - unat (WriteCur b)"

abbreviation buf_region :: "'a buffer_scheme \<Rightarrow> ptr set" where
  "buf_region b \<equiv> region (Base b) (unat (Size b))"

definition append_result ::
  "mem \<Rightarrow> 'a buffer_scheme \<Rightarrow> u8 list \<Rightarrow> bool \<times> mem \<times> 'a buffer_scheme" where
  "append_result m d bs =
     (if length bs \<le> space d
      then (True, upd_bytes m (Base d + WriteCur d) bs,
            d\<lparr>WriteCur := WriteCur d + of_nat (length bs)\<rparr>)
      else (False, m, d))"

lemma unat_space: "buf_ok m b \<Longrightarrow> unat (Size b - WriteCur b) = space b"
  by (simp add: buf_ok_def space_def unat_sub)

lemma space_plus: "buf_ok m b \<Longrightarrow> unat (WriteCur b) + space b = unat (Size b)"
  by (simp add: buf_ok_def space_def word_le_nat_alt)

lemma space_lt: "space b < 2 ^ 64"
  using unat_lt_2p [of "Size b"] by (simp add: space_def)

lemma unat_WriteCur_add:
  assumes "buf_ok m d" "n \<le> space d"
  shows "unat (WriteCur d + of_nat n) = unat (WriteCur d) + n"
proof -
  have "unat (of_nat n :: usz) = n" using assms(2) space_lt [of d] by (simp add: unat_offset)
  moreover have "unat (WriteCur d) + n < 2 ^ 64"
    using assms space_plus [OF assms(1)] unat_lt_2p [of "Size d"] by linarith
  ultimately show ?thesis by (subst unat_add_lem [THEN iffD1]) simp_all
qed

text \<open>The unused space of a buffer is mapped, and a part of its region.\<close>

lemma tail_mapped: "buf_ok m d \<Longrightarrow> n \<le> space d \<Longrightarrow> mapped m (Base d + WriteCur d) n"
  using mapped_offset [of m "Base d" "unat (Size d)" "unat (WriteCur d)" n] space_plus [of m d]
  by (simp add: buf_ok_def)

lemma tail_region: "buf_ok m d \<Longrightarrow> n \<le> space d \<Longrightarrow> region (Base d + WriteCur d) n \<subseteq> buf_region d"
  using region_offset [of "unat (WriteCur d)" n "unat (Size d)" "Base d"] space_plus [of m d]
  by simp

lemma region_split_disj:
  assumes "a + b \<le> 2 ^ 64"
  shows "region p a \<inter> region (p + of_nat a) b = {}"
proof -
  have False if "i < a" "j < b" and eq: "p + of_nat i = p + of_nat a + (of_nat j :: ptr)" for i j
  proof -
    have "(of_nat i :: ptr) = of_nat (a + j)" using eq by simp
    then have "unat (of_nat i :: ptr) = unat (of_nat (a + j) :: ptr)" by simp
    with that(1,2) assms have "i = a + j" by (simp only: unat_offset)
    with that(1) show False by simp
  qed
  then show ?thesis by (auto simp: region_def)
qed

lemma head_tail_disj:
  assumes "buf_ok m d" "n \<le> space d"
  shows "region (Base d) (unat (WriteCur d)) \<inter> region (Base d + WriteCur d) n = {}"
  using region_split_disj [of "unat (WriteCur d)" n "Base d"] assms space_plus [OF assms(1)]
    unat_le_2p [of "Size d"] by simp

section \<open>The append contract\<close>

lemma append_fits:
  assumes "append_result m d bs = (True, m', d')"
  shows "length bs \<le> space d" "m' = upd_bytes m (Base d + WriteCur d) bs"
    "d' = d\<lparr>WriteCur := WriteCur d + of_nat (length bs)\<rparr>"
  using assms by (auto simp: append_result_def split: if_splits)

lemma append_fails: "append_result m d bs = (False, m', d') \<Longrightarrow> space d < length bs \<and> m' = m \<and> d' = d"
  by (auto simp: append_result_def split: if_splits)

lemma append_holds:
  assumes "buf_ok m d" "holds m d xs" "append_result m d bs = (True, m', d')"
  shows "holds m' d' (xs @ bs)"
proof -
  note f = append_fits [OF assms(3)]
  have le: "length bs \<le> 2 ^ 64" using f(1) space_lt [of d] by simp
  have "bytes_at m' (Base d) xs"
    using assms(2) head_tail_disj [OF assms(1) f(1)] le
    by (simp add: f(2) holds_def bytes_at_upd_disj)
  moreover have "bytes_at m' (Base d + WriteCur d) bs"
    using le by (simp add: f(2) bytes_at_upd_same)
  ultimately show ?thesis
    using assms(2) unat_WriteCur_add [OF assms(1) f(1)] by (simp add: holds_def f(3))
qed

lemma append_buf_ok:
  assumes "buf_ok m d" "append_result m d bs = (r, m', d')"
  shows "buf_ok m' d'"
proof (cases "length bs \<le> space d")
  case True
  with assms(2) have "m' = upd_bytes m (Base d + WriteCur d) bs"
    and "d' = d\<lparr>WriteCur := WriteCur d + of_nat (length bs)\<rparr>"
    by (auto simp: append_result_def)
  with assms(1) True show ?thesis
    using unat_WriteCur_add [OF assms(1) True] space_plus [OF assms(1)]
    by (simp add: buf_ok_def mapped_upd word_le_nat_alt)
next
  case False
  with assms show ?thesis by (simp add: append_result_def)
qed

lemma append_frame:
  assumes "buf_ok m d" "append_result m d bs = (r, m', d')" "q \<notin> buf_region d"
  shows "m' q = m q"
proof (cases "length bs \<le> space d")
  case True
  have "q \<notin> region (Base d + WriteCur d) (length bs)"
    using tail_region [OF assms(1) True] assms(3) by auto
  moreover have "length bs \<le> 2 ^ 64" using True space_lt [of d] by simp
  ultimately show ?thesis using assms(2) True by (auto simp: append_result_def upd_bytes_out)
next
  case False
  with assms show ?thesis by (simp add: append_result_def)
qed

lemma append_append:
  assumes "buf_ok m d" "append_result m d xs = (True, m', d')" "length xs + length ys \<le> space d"
  shows "append_result m' d' ys = append_result m d (xs @ ys)"
proof -
  note f = append_fits [OF assms(2)]
  have sp: "space d' = space d - length xs"
    using unat_WriteCur_add [OF assms(1) f(1)] by (simp add: space_def f(3))
  have "length xs + length ys \<le> 2 ^ 64" using assms(3) space_lt [of d] by simp
  then have "upd_bytes m' (Base d + WriteCur d + of_nat (length xs)) ys
      = upd_bytes m (Base d + WriteCur d) (xs @ ys)"
    by (simp add: f(2) upd_bytes_append)
  then show ?thesis
    using assms(3) sp f(1) by (simp add: append_result_def f(3) add.assoc)
qed

lemma append_Nil: "append_result m d [] = (True, m, d)"
  by (simp add: append_result_def)

section \<open>The interface of the append operations\<close>

text \<open>
  Every function of the library that writes at the end of a buffer has this contract: under its
  precondition it appends its payload when that fits, and otherwise changes nothing. \<open>repeat_op\<close>
  runs such an operation a number of times.
\<close>

primrec repeat_op ::
  "(mem \<Rightarrow> 'a buffer_scheme \<Rightarrow> (bool \<times> mem \<times> 'a buffer_scheme) option) \<Rightarrow> nat \<Rightarrow>
   mem \<Rightarrow> 'a buffer_scheme \<Rightarrow> (mem \<times> 'a buffer_scheme) option" where
  "repeat_op f 0 m d = Some (m, d)"
| "repeat_op f (Suc n) m d = do { (r, m', d') \<leftarrow> f m d; repeat_op f n m' d' }"

locale appender =
  fixes f :: "mem \<Rightarrow> 'a buffer_scheme \<Rightarrow> (bool \<times> mem \<times> 'a buffer_scheme) option"
    and pre :: "mem \<Rightarrow> 'a buffer_scheme \<Rightarrow> bool"
    and payload :: "u8 list"
  assumes f_eq: "buf_ok m d \<Longrightarrow> pre m d \<Longrightarrow> f m d = Some (append_result m d payload)"
    and pre_stable:
      "buf_ok m d \<Longrightarrow> pre m d \<Longrightarrow> append_result m d payload = (True, m', d') \<Longrightarrow> pre m' d'"
begin

lemma success:
  assumes "buf_ok m d" "pre m d" "holds m d xs" "length payload \<le> space d"
  shows "\<exists>m' d'. f m d = Some (True, m', d') \<and> holds m' d' (xs @ payload) \<and> buf_ok m' d'
    \<and> Base d' = Base d \<and> Size d' = Size d \<and> (\<forall>q. q \<notin> buf_region d \<longrightarrow> m' q = m q)"
proof -
  obtain m' d' where r: "append_result m d payload = (True, m', d')"
    using assms(4) by (auto simp: append_result_def)
  show ?thesis
    using f_eq [OF assms(1,2)] append_holds [OF assms(1,3) r] append_buf_ok [OF assms(1) r]
      append_frame [OF assms(1) r] append_fits(3) [OF r] r by auto
qed

lemma failure:
  assumes "buf_ok m d" "pre m d" "space d < length payload"
  shows "f m d = Some (False, m, d)"
  using f_eq [OF assms(1,2)] assms(3) by (simp add: append_result_def)

lemma repeat_fits:
  assumes "buf_ok m d" "pre m d" "n * length payload \<le> space d"
  shows "repeat_op f n m d = Some (snd (append_result m d (concat (replicate n payload))))"
  using assms
proof (induction n arbitrary: m d)
  case 0
  then show ?case by (simp add: append_Nil)
next
  case (Suc n)
  then have fit: "length payload + length (concat (replicate n payload)) \<le> space d"
    by (simp add: length_concat sum_list_replicate)
  obtain m' d' where r: "append_result m d payload = (True, m', d')"
    using fit by (auto simp: append_result_def)
  have "space d' = space d - length payload"
    using unat_WriteCur_add [OF Suc.prems(1) append_fits(1) [OF r]] append_fits(3) [OF r]
    by (simp add: space_def)
  then have "repeat_op f n m' d' = Some (snd (append_result m' d' (concat (replicate n payload))))"
    using Suc.prems append_buf_ok [OF Suc.prems(1) r] pre_stable [OF Suc.prems(1,2) r]
    by (intro Suc.IH) auto
  then show ?case
    using f_eq [OF Suc.prems(1,2)] r append_append [OF Suc.prems(1) r fit] by simp
qed

end

section \<open>The operations meet the contract\<close>

lemma CopyData_fits:
  assumes "srcSize \<le> dstSize" "bytes_at m src bs" "length bs = unat srcSize"
    "mapped m dst (length bs)" "region dst (length bs) \<inter> region src (length bs) = {}"
  shows "CopyData m dst dstSize src srcSize = Some (True, upd_bytes m dst bs)"
  using assms by (simp add: CopyData_def memcpy_upd)

lemma CopyData_small: "dstSize < srcSize \<Longrightarrow> CopyData m dst dstSize src srcSize = Some (False, m)"
  by (auto simp: CopyData_def)

lemma AppendBufferToBuffer_data:
  "AppendBufferToBuffer m src d = AppendDataToBuffer m (Base src) (WriteCur src) d"
  by (simp add: AppendBufferToBuffer_def AppendDataToBuffer_def)

lemma AppendDataToBuffer_eq:
  assumes ok: "buf_ok m d" and src: "bytes_at m src bs" "length bs = unat n"
    and disj: "buf_region d \<inter> region src (length bs) = {}"
  shows "AppendDataToBuffer m src n d = Some (append_result m d bs)"
proof (cases "length bs \<le> space d")
  case True
  then have "n \<le> Size d - WriteCur d"
    using src(2) by (simp add: word_le_nat_alt unat_space [OF ok])
  then have "CopyData m (Base d + WriteCur d) (Size d - WriteCur d) src n
      = Some (True, upd_bytes m (Base d + WriteCur d) bs)"
    using src tail_mapped [OF ok True] tail_region [OF ok True] disj
    by (intro CopyData_fits) auto
  moreover have "n = of_nat (length bs)" by (simp add: src(2))
  ultimately show ?thesis
    using True by (simp add: AppendDataToBuffer_def append_result_def)
next
  case False
  then have "Size d - WriteCur d < n"
    using src(2) by (simp add: word_less_nat_alt unat_space [OF ok])
  with False show ?thesis
    by (simp add: AppendDataToBuffer_def append_result_def CopyData_small)
qed

text \<open>The source stays readable while the destination is written.\<close>

lemma append_src_stable:
  assumes "buf_ok m d" "append_result m d bs = (r, m', d')"
    and "buf_region d \<inter> region src (length xs) = {}" "bytes_at m src xs"
  shows "bytes_at m' src xs"
  using assms(4) append_frame [OF assms(1,2)] assms(3) region_memI
  unfolding bytes_at_def by (metis disjoint_iff)

interpretation data: appender "\<lambda>m d. AppendDataToBuffer m src n d"
  "\<lambda>m d. bytes_at m src bs \<and> length bs = unat n \<and> buf_region d \<inter> region src (length bs) = {}" bs
  for src n bs
proof (unfold_locales, goal_cases)
  case (1 m d)
  then show ?case by (intro AppendDataToBuffer_eq) auto
next
  case (2 m d m' d')
  then show ?case using append_src_stable [OF 2(1,3), of src bs] append_fits(3) [OF 2(3)] by auto
qed

interpretation buf: appender "\<lambda>m d. AppendBufferToBuffer m src d"
  "\<lambda>m d. holds m src bs \<and> buf_region d \<inter> region (Base src) (length bs) = {}" bs
  for src :: "'b buffer_scheme" and bs
proof (unfold_locales, goal_cases)
  case (1 m d)
  then show ?case
    unfolding AppendBufferToBuffer_data holds_def by (intro AppendDataToBuffer_eq) auto
next
  case (2 m d m' d')
  then show ?case
    using append_src_stable [OF 2(1,3), of "Base src" bs] append_fits(3) [OF 2(3)]
    by (auto simp: holds_def)
qed

lemma NTimes_loop_eq:
  assumes "buf_ok m d" "holds m src bs" "buf_region d \<inter> region (Base src) (length bs) = {}"
    and "unat count * length bs \<le> space d"
  shows "NTimes_loop m src count d = Some (snd (append_result m d (concat (replicate (unat count) bs))))"
proof -
  have "NTimes_loop m src count d = repeat_op (\<lambda>m d. AppendBufferToBuffer m src d) (unat count) m d"
    using assms
  proof (induction "unat count" arbitrary: m d count)
    case 0
    then have "count = 0" by (simp add: unat_eq_zero)
    then show ?case by (subst NTimes_loop.simps) simp
  next
    case (Suc k)
    then have ne: "count \<noteq> 0" by (metis nat.distinct(1) unat_0)
    then have k: "unat (count - 1) = k" using Suc.hyps(2) by (simp add: unat_minus_one)
    have fit: "length bs \<le> space d"
      using Suc.hyps(2) Suc.prems(4) by (metis le_add1 mult_Suc order_trans)
    then obtain m' d' where r: "append_result m d bs = (True, m', d')"
      by (auto simp: append_result_def)
    have app: "AppendBufferToBuffer m src d = Some (True, m', d')"
      using buf.f_eq [of m d src bs] Suc.prems r by simp
    then obtain r' where copy: "CopyData m (Base d + WriteCur d) (Size d - WriteCur d) (Base src)
        (WriteCur src) = Some (True, m')" and d': "d' = d\<lparr>WriteCur := WriteCur d + WriteCur src\<rparr>"
      by (auto simp: AppendBufferToBuffer_def bind_eq_Some_conv split: if_splits)
    have "space d' = space d - length bs"
      using unat_WriteCur_add [OF Suc.prems(1) fit] append_fits(3) [OF r] by (simp add: space_def)
    then have "k * length bs \<le> space d'"
      using Suc.hyps(2) Suc.prems(4) by (metis add_diff_cancel_left' diff_le_mono mult_Suc)
    then have "NTimes_loop m' src (count - 1) d'
        = repeat_op (\<lambda>m d. AppendBufferToBuffer m src d) (unat (count - 1)) m' d'"
      using Suc.prems k append_buf_ok [OF Suc.prems(1) r] d'
        buf.pre_stable [of m d src bs m' d'] r
      by (intro Suc.hyps(1)) auto
    then show ?case
      using ne copy app k d' by (subst NTimes_loop.simps) (simp flip: Suc.hyps(2))
  qed
  then show ?thesis
    using buf.repeat_fits [of m d src bs "unat count"] assms by simp
qed

lemma AppendBufferToBufferNTimes_eq:
  assumes "buf_ok m d" "holds m src bs" "buf_region d \<inter> region (Base src) (length bs) = {}"
    and "unat count * length bs < 2 ^ 64"
  shows "AppendBufferToBufferNTimes m src count d
    = Some (append_result m d (concat (replicate (unat count) bs)))"
proof -
  have len: "length (concat (replicate (unat count) bs)) = unat count * length bs"
    by (simp add: length_concat sum_list_replicate)
  have "unat (WriteCur src * count) = unat count * length bs"
    using assms(2,4) by (subst unat_mult_lem [THEN iffD1]) (simp_all add: holds_def mult.commute)
  then have test: "WriteCur src * count \<le> Size d - WriteCur d \<longleftrightarrow> unat count * length bs \<le> space d"
    by (simp add: word_le_nat_alt unat_space [OF assms(1)])
  show ?thesis
  proof (cases "unat count * length bs \<le> space d")
    case True
    then show ?thesis
      using test NTimes_loop_eq [OF assms(1,2,3) True] len
      by (simp add: AppendBufferToBufferNTimes_def append_result_def)
  next
    case False
    then show ?thesis using test len
      by (simp add: AppendBufferToBufferNTimes_def append_result_def)
  qed
qed

interpretation ntimes: appender "\<lambda>m d. AppendBufferToBufferNTimes m src count d"
  "\<lambda>m d. holds m src bs \<and> buf_region d \<inter> region (Base src) (length bs) = {}
     \<and> unat count * length bs < 2 ^ 64" "concat (replicate (unat count) bs)"
  for src :: "'b buffer_scheme" and count bs
proof (unfold_locales, goal_cases)
  case (1 m d)
  then show ?case by (intro AppendBufferToBufferNTimes_eq) auto
next
  case (2 m d m' d')
  then show ?case
    using append_src_stable [OF 2(1,3), of "Base src" bs] append_fits(3) [OF 2(3)]
    by (auto simp: holds_def)
qed

section \<open>Arenas\<close>

lemma PushIntoArena_room:
  assumes "unat (WriteCur a) + unat n < 2 ^ 64" "WriteCur a \<le> Size a"
  shows "PushIntoArena a n =
    (if unat n \<le> space a then (Base a + WriteCur a, a\<lparr>WriteCur := WriteCur a + n\<rparr>) else (0, a))"
proof -
  have "unat (WriteCur a + n) = unat (WriteCur a) + unat n"
    using assms(1) by (subst unat_add_lem [THEN iffD1]) simp_all
  then show ?thesis
    using assms(2) by (auto simp: PushIntoArena_def word_le_nat_alt space_def)
qed

text \<open>The blocks that a sequence of pushes returns, the refused ones left out.\<close>

fun push_all :: "'a buffer_scheme \<Rightarrow> usz list \<Rightarrow> (ptr \<times> usz) list" where
  "push_all a [] = []"
| "push_all a (n # ns) =
     (let (p, a') = PushIntoArena a n
      in if p = 0 then push_all a' ns else (p, n) # push_all a' ns)"

definition apart :: "ptr \<times> usz \<Rightarrow> ptr \<times> usz \<Rightarrow> bool" where
  "apart x y \<longleftrightarrow> region (fst x) (unat (snd x)) \<inter> region (fst y) (unat (snd y)) = {}"

lemma push_all_blocks:
  assumes "WriteCur a \<le> Size a" "\<forall>n\<in>set ns. unat (Size a) + unat n < 2 ^ 64"
  shows "sorted_wrt apart (push_all a ns) \<and>
    (\<forall>(p, n)\<in>set (push_all a ns). region p (unat n) \<subseteq> region (Base a + WriteCur a) (space a))"
  using assms
proof (induction ns arbitrary: a)
  case Nil
  then show ?case by simp
next
  case (Cons n ns)
  have lt: "unat (WriteCur a) + unat n < 2 ^ 64"
    using Cons.prems by (auto simp: word_le_nat_alt)
  show ?case
  proof (cases "unat n \<le> space a")
    case False
    then show ?thesis
      using Cons PushIntoArena_room [OF lt Cons.prems(1)] by simp
  next
    case True
    let ?a' = "a\<lparr>WriteCur := WriteCur a + n\<rparr>" and ?p = "Base a + WriteCur a"
    have u: "unat (WriteCur a + n) = unat (WriteCur a) + unat n"
      using lt by (subst unat_add_lem [THEN iffD1]) simp_all
    have le: "WriteCur ?a' \<le> Size ?a'"
      using True Cons.prems(1) u by (simp add: word_le_nat_alt space_def)
    have sp: "space ?a' = space a - unat n" using u by (simp add: space_def)
    have IH: "sorted_wrt apart (push_all ?a' ns) \<and> (\<forall>(p, k)\<in>set (push_all ?a' ns).
        region p (unat k) \<subseteq> region (?p + of_nat (unat n)) (space a - unat n))"
      using Cons.IH [OF le] Cons.prems(2) sp by (simp add: algebra_simps)
    have split: "region ?p (space a)
        = region ?p (unat n) \<union> region (?p + of_nat (unat n)) (space a - unat n)"
      using region_append [of ?p "unat n" "space a - unat n"] True by simp
    have "region ?p (unat n) \<inter> region (?p + of_nat (unat n)) (space a - unat n) = {}"
      using region_split_disj [of "unat n" "space a - unat n" ?p] True space_lt [of a] by simp
    then have "\<forall>x\<in>set (push_all ?a' ns). apart (?p, n) x"
      using IH by (fastforce simp: apart_def)
    moreover have "region ?p (unat n) \<subseteq> region ?p (space a)"
      using split by blast
    moreover have "\<forall>(p, k)\<in>set (push_all ?a' ns). region p (unat k) \<subseteq> region ?p (space a)"
      using IH split by blast
    ultimately show ?thesis
      using IH True PushIntoArena_room [OF lt Cons.prems(1)] by (cases "?p = 0") simp_all
  qed
qed

lemma PushIntoArena_wrap:
  assumes "WriteCur a \<le> Size a" "2 ^ 64 \<le> unat (WriteCur a) + unat n"
  shows "WriteCur a + n < WriteCur a" "WriteCur a + n \<le> Size a"
proof -
  have "unat (WriteCur a + n) = unat (WriteCur a) + unat n - 2 ^ 64"
    using assms(2) unat_lt_2p [of "WriteCur a"] unat_lt_2p [of n]
    by (simp add: unat_plus_if')
  moreover have "unat (WriteCur a) + unat n - 2 ^ 64 < unat (WriteCur a)"
    using assms(2) unat_lt_2p [of n] by linarith
  ultimately show lt: "WriteCur a + n < WriteCur a" by (simp add: word_less_nat_alt)
  show "WriteCur a + n \<le> Size a" using lt assms(1) by (meson less_imp_le order_trans)
qed

lemma wrap_minus_half:
  fixes s :: usz
  assumes "s < 2 ^ 63"
  shows "2 ^ 63 \<le> s - 2 ^ 63"
proof -
  have "unat s < 2 ^ 63" using assms by (simp add: word_less_nat_alt)
  then have "unat (s - 2 ^ 63) = unat s + 2 ^ 63"
    by (subst unat_sub_if') simp
  then show ?thesis by (simp add: word_le_nat_alt)
qed

section \<open>Clearing and advancing\<close>

lemma ClearBuffer_eq:
  assumes "buf_ok m b" "Base b \<noteq> 0"
  shows "ClearBuffer m b
    = Some (upd_bytes m (Base b) (replicate (unat (Size b)) 0), b\<lparr>WriteCur := 0\<rparr>)"
  using assms by (simp add: ClearBuffer_def buf_ok_def memset_upd)

lemma holds_Advance:
  assumes "holds m b xs" "k \<le> WriteCur b"
  shows "holds m (AdvanceBuffer b k) (drop (unat k) xs)"
proof -
  have "unat k \<le> length xs" using assms by (simp add: holds_def word_le_nat_alt)
  then have "bytes_at m (Base b + of_nat (unat k)) (drop (unat k) xs)"
    using assms(1) by (intro bytes_at_drop) (auto simp: holds_def)
  then show ?thesis
    using assms by (simp add: holds_def AdvanceBuffer_def unat_sub)
qed

lemma space_Advance:
  assumes "WriteCur b \<le> Size b" "k \<le> WriteCur b"
  shows "space (AdvanceBuffer b k) = space b + unat k"
  using assms by (simp add: space_def AdvanceBuffer_def unat_sub word_le_nat_alt)

section \<open>Properties\<close>

text \<open>
  C25: \<open>AppendBufferToBuffer\<close> (hence the whole family that appends through \<open>CopyData\<close>) is
  all-or-nothing: when the source fits in the remaining space it returns true, the buffer then
  holds its old content followed by the source, and no byte outside the buffer changes; otherwise
  it returns false and changes neither the memory nor the cursor.
\<close>

theorem AppendBufferToBuffer_correct:
  assumes "buf_ok m dst" "holds m src bs" "holds m dst xs"
    and "buf_region dst \<inter> region (Base src) (length bs) = {}"
  shows "if length bs \<le> space dst
    then \<exists>m' dst'. AppendBufferToBuffer m src dst = Some (True, m', dst')
      \<and> holds m' dst' (xs @ bs) \<and> buf_ok m' dst' \<and> Base dst' = Base dst
      \<and> Size dst' = Size dst \<and> (\<forall>q. q \<notin> buf_region dst \<longrightarrow> m' q = m q)
    else AppendBufferToBuffer m src dst = Some (False, m, dst)"
  using buf.success [of m dst src bs xs] buf.failure [of m dst src bs] assms by auto

definition ex_mem :: mem where
  "ex_mem = [0x10 \<mapsto> 1, 0x11 \<mapsto> 2, 0x20 \<mapsto> 7, 0x21 \<mapsto> 0, 0x22 \<mapsto> 0, 0x23 \<mapsto> 0]"

definition ex_src :: buffer where
  "ex_src = Buffer 0x10 2 0"

definition ex_dst :: buffer where
  "ex_dst = Buffer 0x20 1 4"

lemma ex_facts:
  "buf_ok ex_mem ex_dst" "holds ex_mem ex_src [1, 2]" "holds ex_mem ex_dst [7]"
  "buf_region ex_dst \<inter> region (Base ex_src) (length [1, 2 :: u8]) = {}"
  by (simp_all add: ex_mem_def ex_src_def ex_dst_def buf_ok_def holds_def region_Suc)

theorem AppendBufferToBuffer_correct_witness:
  "\<exists>m' dst'. AppendBufferToBuffer ex_mem ex_src ex_dst = Some (True, m', dst')
    \<and> holds m' dst' [7, 1, 2]"
proof -
  have "length [1, 2 :: u8] \<le> space ex_dst" by (simp add: space_def ex_dst_def)
  then show ?thesis
    using AppendBufferToBuffer_correct [OF ex_facts] by (simp only: if_True) auto
qed

text \<open>
  \<open>AppendBufferToBufferNTimes\<close>, as long as the total size does not wrap around, appends
  \<open>count\<close> copies of the source when they all fit, and nothing at all when they do not.
\<close>

theorem AppendBufferToBufferNTimes_correct:
  assumes "buf_ok m dst" "holds m src bs" "holds m dst xs"
    and "buf_region dst \<inter> region (Base src) (length bs) = {}"
    and "unat count * length bs < 2 ^ 64"
  shows "if unat count * length bs \<le> space dst
    then \<exists>m' dst'. AppendBufferToBufferNTimes m src count dst = Some (True, m', dst')
      \<and> holds m' dst' (xs @ concat (replicate (unat count) bs)) \<and> buf_ok m' dst'
      \<and> (\<forall>q. q \<notin> buf_region dst \<longrightarrow> m' q = m q)
    else AppendBufferToBufferNTimes m src count dst = Some (False, m, dst)"
proof -
  have "length (concat (replicate (unat count) bs)) = unat count * length bs"
    by (simp add: length_concat sum_list_replicate)
  then show ?thesis
    using ntimes.success [of m dst src bs count xs] ntimes.failure [of m dst src bs count] assms
    by auto
qed

theorem AppendBufferToBufferNTimes_correct_witness:
  "AppendBufferToBufferNTimes ex_mem ex_src 2 ex_dst = Some (False, ex_mem, ex_dst)"
proof -
  have "\<not> unat (2 :: usz) * length [1, 2 :: u8] \<le> space ex_dst"
    by (simp add: space_def ex_dst_def)
  moreover have "unat (2 :: usz) * length [1, 2 :: u8] < 2 ^ 64" by simp
  ultimately show ?thesis
    using AppendBufferToBufferNTimes_correct [OF ex_facts, of 2] by (simp only: if_False)
qed

text \<open>
  C24: the blocks that a sequence of \<open>PushIntoArena\<close> calls grants are pairwise disjoint and lie
  in the space that was free at the start, provided no single request wraps the cursor around.
\<close>

theorem arena_blocks_disjoint:
  assumes "WriteCur arena \<le> Size arena"
    and "\<forall>n\<in>set ns. unat (Size arena) + unat n < 2 ^ 64"
  shows "sorted_wrt apart (push_all arena ns) \<and>
    (\<forall>(p, n)\<in>set (push_all arena ns).
       region p (unat n) \<subseteq> region (Base arena + WriteCur arena) (space arena))"
  using assms by (rule push_all_blocks)

theorem arena_blocks_disjoint_witness:
  "push_all (Buffer 0x100 0 8) [3, 7, 4] = [(0x100, 3), (0x103, 4)]
    \<and> sorted_wrt apart (push_all (Buffer 0x100 0 8) [3, 7, 4])"
proof -
  have "sorted_wrt apart (push_all (Buffer 0x100 0 8) [3, 7, 4])"
    using arena_blocks_disjoint [of "Buffer 0x100 0 8" "[3, 7, 4]"] by simp
  then show ?thesis by (simp add: PushIntoArena_def)
qed

text \<open>
  \<open>PushIntoArena\<close> adds the requested size to the cursor without checking for wrap-around: a
  request that wraps is granted although it does not fit, and moves the cursor backwards, over
  blocks already handed out.
\<close>

theorem PushIntoArena_wraps:
  assumes "WriteCur arena \<le> Size arena" "2 ^ 64 \<le> unat (WriteCur arena) + unat n"
  shows "fst (PushIntoArena arena n) = Base arena + WriteCur arena
    \<and> WriteCur (snd (PushIntoArena arena n)) < WriteCur arena"
  using PushIntoArena_wrap [OF assms] by (simp add: PushIntoArena_def)

theorem PushIntoArena_wraps_witness:
  "WriteCur (snd (PushIntoArena (Buffer 0x100 16 32) 0xFFFFFFFFFFFFFFF8)) < 16"
  using PushIntoArena_wraps [of "Buffer 0x100 16 32" "0xFFFFFFFFFFFFFFF8"] by simp

text \<open>
  \<open>AdvanceBuffer\<close> drops the first \<open>k\<close> bytes of the content but leaves \<open>Size\<close> as it is,
  so the remaining space grows by \<open>k\<close> (the header says that \<open>Size\<close> shrinks too): a later append
  may run \<open>k\<close> bytes past the end of the memory the buffer was made for.
\<close>

theorem AdvanceBuffer_drops:
  assumes "holds m b xs" "WriteCur b \<le> Size b" "k \<le> WriteCur b"
  shows "holds m (AdvanceBuffer b k) (drop (unat k) xs)
    \<and> Size (AdvanceBuffer b k) = Size b \<and> space (AdvanceBuffer b k) = space b + unat k"
  using holds_Advance [OF assms(1,3)] space_Advance [OF assms(2,3)]
  by (simp add: AdvanceBuffer_def)

theorem AdvanceBuffer_drops_witness:
  "holds ex_mem (AdvanceBuffer ex_dst 1) [] \<and> space (AdvanceBuffer ex_dst 1) = space ex_dst + 1"
proof -
  have "WriteCur ex_dst \<le> Size ex_dst" "1 \<le> WriteCur ex_dst" by (simp_all add: ex_dst_def)
  from AdvanceBuffer_drops [OF ex_facts(3) this] show ?thesis by simp
qed

text \<open>
  \<open>ClearBuffer\<close> empties a buffer: the cursor is 0, every byte of the buffer's space is 0, and
  no byte outside it changes.
\<close>

theorem ClearBuffer_zeroes:
  assumes "buf_ok m b" "Base b \<noteq> 0"
  shows "\<exists>m' b'. ClearBuffer m b = Some (m', b') \<and> WriteCur b' = 0 \<and> buf_ok m' b'
    \<and> bytes_at m' (Base b) (replicate (unat (Size b)) 0)
    \<and> (\<forall>q. q \<notin> buf_region b \<longrightarrow> m' q = m q)"
proof -
  have "unat (Size b) \<le> 2 ^ 64" by (rule unat_le_2p)
  then show ?thesis
    using assms(1) unfolding ClearBuffer_eq [OF assms]
    by (auto simp: buf_ok_def mapped_upd bytes_at_upd_same upd_bytes_out)
qed

theorem ClearBuffer_zeroes_witness:
  "\<exists>m' b'. ClearBuffer ex_mem ex_dst = Some (m', b') \<and> bytes_at m' 0x20 (replicate 4 0)"
proof -
  have "Base ex_dst = 0x20" "unat (Size ex_dst) = 4" by (simp_all add: ex_dst_def)
  then show ?thesis using ClearBuffer_zeroes [OF ex_facts(1)] by auto
qed

text \<open>
  The size check of \<open>AppendBufferToBufferNTimes\<close> multiplies without checking for wrap-around:
  with a source of 2^63 bytes and a count of 2 the product is 0 and passes, the cursor runs away
  from the buffer, and the second copy writes outside it: no defined result, where the header
  promises false.
\<close>

theorem AppendBufferToBufferNTimes_wraps:
  assumes "WriteCur src = 2 ^ 63" "WriteCur dst \<le> Size dst" "space dst < 2 ^ 63"
    and "m (Base dst + WriteCur dst + 2 ^ 63) = None"
  shows "AppendBufferToBufferNTimes m src 2 dst = None"
proof -
  let ?d = "dst\<lparr>WriteCur := WriteCur dst + 2 ^ 63\<rparr>"
  have s: "Size dst - WriteCur dst < 2 ^ 63"
    using assms(2,3) by (simp add: word_less_nat_alt unat_sub space_def)
  then have "CopyData m (Base dst + WriteCur dst) (Size dst - WriteCur dst) (Base src)
      (WriteCur src) = Some (False, m)"
    unfolding assms(1) by (rule CopyData_small)
  then have "NTimes_loop m src 2 dst = NTimes_loop m src 1 ?d"
    by (subst NTimes_loop.simps) (simp add: assms(1))
  moreover have "CopyData m (Base ?d + WriteCur ?d) (Size ?d - WriteCur ?d) (Base src)
      (WriteCur src) = None"
    using memcpy_unmapped [of m "Base dst + WriteCur dst + 2 ^ 63"] assms(4)
      wrap_minus_half [OF s]
    by (simp add: CopyData_def assms(1) diff_diff_eq add.assoc)
  then have "NTimes_loop m src 1 ?d = None"
    by (subst NTimes_loop.simps) simp
  moreover have "WriteCur src * 2 = 0" unfolding assms(1) by code_simp
  ultimately show ?thesis unfolding AppendBufferToBufferNTimes_def Let_def by simp
qed

theorem AppendBufferToBufferNTimes_wraps_witness:
  "AppendBufferToBufferNTimes ex_mem (Buffer 0x10 (2 ^ 63) 0) 2 ex_dst = None"
proof -
  have "ex_mem (Base ex_dst + WriteCur ex_dst + 2 ^ 63) = None"
    by (simp add: ex_mem_def ex_dst_def)
  then show ?thesis
    using AppendBufferToBufferNTimes_wraps [of "Buffer 0x10 (2 ^ 63) 0" ex_dst ex_mem]
    by (simp add: ex_dst_def space_def)
qed

end
