(* ===== verification/Query.thy ===== *)
theory Query
  imports Buffers
begin

text \<open>
  The queries of \<open>src/tinybase-memory.c\<close>, lines 81 to 432: comparison, search of a byte and
  search of a run of bytes, forwards and backwards, and \<open>ReplaceByteInBuffer\<close>. The code calls
  two of the searches through function pointers that \<open>InitBuffersArch\<close> may redirect to SIMD
  versions; here they are the fields of \<open>dispatch\<close>, and what a client relies on is a locale over
  them.
\<close>

unbundle bit_operations_syntax

section \<open>Flags\<close>

definition RETURN_BOOL :: u32 where "RETURN_BOOL = 0x1"
definition RETURN_IDX_FIND :: u32 where "RETURN_IDX_FIND = 0x2"
definition RETURN_IDX_AFTER :: u32 where "RETURN_IDX_AFTER = 0x4"
definition RETURN_IDX_DIFF :: u32 where "RETURN_IDX_DIFF = 0x8"
definition RETURN_PTR_FIND :: u32 where "RETURN_PTR_FIND = 0x10"
definition RETURN_PTR_AFTER :: u32 where "RETURN_PTR_AFTER = 0x20"
definition RETURN_PTR_DIFF :: u32 where "RETURN_PTR_DIFF = 0x40"
definition SEARCH_REVERSE :: u32 where "SEARCH_REVERSE = 0x80"

lemmas flag_defs = RETURN_BOOL_def RETURN_IDX_FIND_def RETURN_IDX_AFTER_def RETURN_IDX_DIFF_def
  RETURN_PTR_FIND_def RETURN_PTR_AFTER_def RETURN_PTR_DIFF_def SEARCH_REVERSE_def

abbreviation has_flag :: "u32 \<Rightarrow> u32 \<Rightarrow> bool" where
  "has_flag flags f \<equiv> flags AND f \<noteq> 0"

section \<open>Compare\<close>

definition ComparePtrSimple :: "mem \<Rightarrow> ptr \<Rightarrow> ptr \<Rightarrow> usz \<Rightarrow> ptr option" where
  "ComparePtrSimple m ptrA ptrB amountToCompare =
     do {
       r \<leftarrow> for_find 0 amountToCompare
              (\<lambda>idx. do { a \<leftarrow> m (ptrA + idx); b \<leftarrow> m (ptrB + idx); Some (a \<noteq> b) });
       Some (case r of Some idx \<Rightarrow> ptrA + idx | None \<Rightarrow> ptrA + amountToCompare)
     }"

definition CompareIdx :: "mem \<Rightarrow> buffer \<Rightarrow> buffer \<Rightarrow> usz \<Rightarrow> usz option" where
  "CompareIdx m A B amountToCompare =
     do { r \<leftarrow> ComparePtrSimple m (Base A) (Base B) amountToCompare; Some (r - Base A) }"

definition CompareBool :: "mem \<Rightarrow> buffer \<Rightarrow> buffer \<Rightarrow> usz \<Rightarrow> bool option" where
  "CompareBool m A B amountToCompare =
     do { r \<leftarrow> CompareIdx m A B amountToCompare; Some (r = amountToCompare) }"

definition CompareBuffers :: "mem \<Rightarrow> buffer \<Rightarrow> buffer \<Rightarrow> usz \<Rightarrow> u32 \<Rightarrow> usz option" where
  "CompareBuffers m A B amountToCompare flag =
     (if has_flag flag RETURN_BOOL then map_option of_bool (CompareBool m A B amountToCompare)
      else if has_flag flag RETURN_IDX_DIFF then CompareIdx m A B amountToCompare
      else ComparePtrSimple m (Base A) (Base B) amountToCompare)"

definition EqualBuffers :: "mem \<Rightarrow> buffer \<Rightarrow> buffer \<Rightarrow> bool option" where
  "EqualBuffers m A B =
     (if WriteCur A = WriteCur B
      then if WriteCur A = 0 then Some True
           else do {
             a0 \<leftarrow> m (Base A); b0 \<leftarrow> m (Base B);
             if a0 = b0
             then do {
               a1 \<leftarrow> m (Base A + (WriteCur A - 1)); b1 \<leftarrow> m (Base B + (WriteCur B - 1));
               if a1 = b1
               then do { i \<leftarrow> CompareIdx m A B (WriteCur A); Some (WriteCur A = i) }
               else Some False
             }
             else Some False
           }
      else Some False)"

section \<open>Search of a byte\<close>

definition ByteInBufferIdxSimple :: "mem \<Rightarrow> u8 \<Rightarrow> buffer \<Rightarrow> usz option" where
  "ByteInBufferIdxSimple m needle haystack =
     do {
       r \<leftarrow> for_find 0 (WriteCur haystack)
              (\<lambda>idx. do { b \<leftarrow> m (Base haystack + idx); Some (needle = b) });
       Some (case r of Some idx \<Rightarrow> idx | None \<Rightarrow> INVALID_IDX)
     }"

definition ReverseByteInBufferIdxSimple :: "mem \<Rightarrow> u8 \<Rightarrow> buffer \<Rightarrow> usz option" where
  "ReverseByteInBufferIdxSimple m needle haystack =
     (if WriteCur haystack > 0
      then do {
        r \<leftarrow> for_find_down (WriteCur haystack - 1)
               (\<lambda>idx. do { b \<leftarrow> m (Base haystack + idx); Some (b = needle) });
        case r of
          Some idx \<Rightarrow> Some idx
        | None \<Rightarrow> do { b \<leftarrow> m (Base haystack); Some (if b = needle then 0 else INVALID_IDX) }
      }
      else Some INVALID_IDX)"

section \<open>Search of a run of bytes\<close>

text \<open>The test of the search loops: first byte, last byte, then the whole run.\<close>

definition NeedleAt :: "mem \<Rightarrow> buffer \<Rightarrow> ptr \<Rightarrow> usz \<Rightarrow> bool option" where
  "NeedleAt m needle haystackPtr idx =
     do {
       h0 \<leftarrow> m (haystackPtr + idx); n0 \<leftarrow> m (Base needle);
       if h0 = n0
       then do {
         h1 \<leftarrow> m (haystackPtr + (idx + WriteCur needle - 1));
         n1 \<leftarrow> m (Base needle + (WriteCur needle - 1));
         if h1 = n1
         then EqualBuffers m (Buffer (haystackPtr + idx) (WriteCur needle) 0) needle
         else Some False
       }
       else Some False
     }"

definition BufferInBufferIdxSimple :: "mem \<Rightarrow> buffer \<Rightarrow> buffer \<Rightarrow> usz option" where
  "BufferInBufferIdxSimple m needle haystack =
     (if WriteCur haystack \<ge> WriteCur needle
      then do {
        r \<leftarrow> for_find 0 (WriteCur haystack - WriteCur needle + 1) (NeedleAt m needle (Base haystack));
        Some (case r of Some idx \<Rightarrow> idx | None \<Rightarrow> INVALID_IDX)
      }
      else Some INVALID_IDX)"

definition ReverseBufferInBufferIdxSimple :: "mem \<Rightarrow> buffer \<Rightarrow> buffer \<Rightarrow> usz option" where
  "ReverseBufferInBufferIdxSimple m needle haystack =
     (if WriteCur haystack \<ge> WriteCur needle
      then do {
        r \<leftarrow> for_find_down (WriteCur haystack - WriteCur needle) (NeedleAt m needle (Base haystack));
        case r of
          Some idx \<Rightarrow> Some idx
        | None \<Rightarrow> do { t \<leftarrow> NeedleAt m needle (Base haystack) 0; Some (if t then 0 else INVALID_IDX) }
      }
      else Some INVALID_IDX)"

section \<open>Function pointers and the public searches\<close>

record dispatch =
  ByteInBufferIdx :: "mem \<Rightarrow> u8 \<Rightarrow> buffer \<Rightarrow> usz option"
  BufferInBufferIdx :: "mem \<Rightarrow> buffer \<Rightarrow> buffer \<Rightarrow> usz option"

definition default_dispatch :: dispatch where
  "default_dispatch =
     \<lparr>ByteInBufferIdx = ByteInBufferIdxSimple, BufferInBufferIdx = BufferInBufferIdxSimple\<rparr>"

text \<open>
  The five result conventions of each search. The reverse searches go through pointers that are
  never redirected; they take \<open>d\<close> as the others do.
\<close>

definition ByteInBufferIdxFind :: "dispatch \<Rightarrow> mem \<Rightarrow> u8 \<Rightarrow> buffer \<Rightarrow> usz option" where
  "ByteInBufferIdxFind d m needle haystack = ByteInBufferIdx d m needle haystack"

definition ByteInBufferIdxAfter :: "dispatch \<Rightarrow> mem \<Rightarrow> u8 \<Rightarrow> buffer \<Rightarrow> usz option" where
  "ByteInBufferIdxAfter d m needle haystack =
     do {
       idx \<leftarrow> ByteInBufferIdx d m needle haystack;
       Some (if idx \<noteq> INVALID_IDX then idx + 1 else idx)
     }"

definition ByteInBufferPtrFind :: "dispatch \<Rightarrow> mem \<Rightarrow> u8 \<Rightarrow> buffer \<Rightarrow> usz option" where
  "ByteInBufferPtrFind d m needle haystack =
     do {
       idx \<leftarrow> ByteInBufferIdx d m needle haystack;
       Some (if idx \<noteq> INVALID_IDX then Base haystack + idx else 0)
     }"

definition ByteInBufferPtrAfter :: "dispatch \<Rightarrow> mem \<Rightarrow> u8 \<Rightarrow> buffer \<Rightarrow> usz option" where
  "ByteInBufferPtrAfter d m needle haystack =
     do {
       idx \<leftarrow> ByteInBufferIdx d m needle haystack;
       Some (if idx \<noteq> INVALID_IDX then Base haystack + idx + 1 else 0)
     }"

definition ByteInBufferBool :: "dispatch \<Rightarrow> mem \<Rightarrow> u8 \<Rightarrow> buffer \<Rightarrow> usz option" where
  "ByteInBufferBool d m needle haystack =
     do {
       idx \<leftarrow> ByteInBufferIdx d m needle haystack;
       Some (of_bool (idx \<noteq> INVALID_IDX))
     }"

definition ReverseByteInBufferIdxFind :: "dispatch \<Rightarrow> mem \<Rightarrow> u8 \<Rightarrow> buffer \<Rightarrow> usz option" where
  "ReverseByteInBufferIdxFind d m needle haystack = ReverseByteInBufferIdxSimple m needle haystack"

definition ReverseByteInBufferIdxAfter :: "dispatch \<Rightarrow> mem \<Rightarrow> u8 \<Rightarrow> buffer \<Rightarrow> usz option" where
  "ReverseByteInBufferIdxAfter d m needle haystack =
     do {
       idx \<leftarrow> ReverseByteInBufferIdxSimple m needle haystack;
       Some (if idx \<noteq> INVALID_IDX then idx + 1 else idx)
     }"

definition ReverseByteInBufferPtrFind :: "dispatch \<Rightarrow> mem \<Rightarrow> u8 \<Rightarrow> buffer \<Rightarrow> usz option" where
  "ReverseByteInBufferPtrFind d m needle haystack =
     do {
       idx \<leftarrow> ReverseByteInBufferIdxSimple m needle haystack;
       Some (if idx \<noteq> INVALID_IDX then Base haystack + idx else 0)
     }"

definition ReverseByteInBufferPtrAfter :: "dispatch \<Rightarrow> mem \<Rightarrow> u8 \<Rightarrow> buffer \<Rightarrow> usz option" where
  "ReverseByteInBufferPtrAfter d m needle haystack =
     do {
       idx \<leftarrow> ReverseByteInBufferIdxSimple m needle haystack;
       Some (if idx \<noteq> INVALID_IDX then Base haystack + idx + 1 else 0)
     }"

definition ReverseByteInBufferBool :: "dispatch \<Rightarrow> mem \<Rightarrow> u8 \<Rightarrow> buffer \<Rightarrow> usz option" where
  "ReverseByteInBufferBool d m needle haystack =
     do {
       idx \<leftarrow> ReverseByteInBufferIdxSimple m needle haystack;
       Some (of_bool (idx \<noteq> INVALID_IDX))
     }"

definition ByteInBuffer :: "dispatch \<Rightarrow> mem \<Rightarrow> u8 \<Rightarrow> buffer \<Rightarrow> u32 \<Rightarrow> usz option" where
  "ByteInBuffer d m needle haystack flags =
     (if has_flag flags SEARCH_REVERSE
      then (if has_flag flags RETURN_BOOL then ReverseByteInBufferBool d m needle haystack
           else if has_flag flags RETURN_IDX_FIND then ReverseByteInBufferIdxFind d m needle haystack
           else if has_flag flags RETURN_IDX_AFTER then ReverseByteInBufferIdxAfter d m needle haystack
           else if has_flag flags RETURN_PTR_AFTER then ReverseByteInBufferPtrAfter d m needle haystack
           else ReverseByteInBufferPtrFind d m needle haystack)
      else (if has_flag flags RETURN_BOOL then ByteInBufferBool d m needle haystack
           else if has_flag flags RETURN_IDX_FIND then ByteInBufferIdxFind d m needle haystack
           else if has_flag flags RETURN_IDX_AFTER then ByteInBufferIdxAfter d m needle haystack
           else if has_flag flags RETURN_PTR_AFTER then ByteInBufferPtrAfter d m needle haystack
           else ByteInBufferPtrFind d m needle haystack))"

definition BufferInBufferIdxFind :: "dispatch \<Rightarrow> mem \<Rightarrow> buffer \<Rightarrow> buffer \<Rightarrow> usz option" where
  "BufferInBufferIdxFind d m needle haystack = BufferInBufferIdx d m needle haystack"

definition BufferInBufferIdxAfter :: "dispatch \<Rightarrow> mem \<Rightarrow> buffer \<Rightarrow> buffer \<Rightarrow> usz option" where
  "BufferInBufferIdxAfter d m needle haystack =
     do {
       idx \<leftarrow> BufferInBufferIdx d m needle haystack;
       Some (if idx \<noteq> INVALID_IDX then idx + WriteCur needle else idx)
     }"

definition BufferInBufferPtrFind :: "dispatch \<Rightarrow> mem \<Rightarrow> buffer \<Rightarrow> buffer \<Rightarrow> usz option" where
  "BufferInBufferPtrFind d m needle haystack =
     do {
       idx \<leftarrow> BufferInBufferIdx d m needle haystack;
       Some (if idx \<noteq> INVALID_IDX then Base haystack + idx else 0)
     }"

definition BufferInBufferPtrAfter :: "dispatch \<Rightarrow> mem \<Rightarrow> buffer \<Rightarrow> buffer \<Rightarrow> usz option" where
  "BufferInBufferPtrAfter d m needle haystack =
     do {
       idx \<leftarrow> BufferInBufferIdx d m needle haystack;
       Some (if idx \<noteq> INVALID_IDX then Base haystack + idx + WriteCur needle else 0)
     }"

definition BufferInBufferBool :: "dispatch \<Rightarrow> mem \<Rightarrow> buffer \<Rightarrow> buffer \<Rightarrow> usz option" where
  "BufferInBufferBool d m needle haystack =
     do {
       idx \<leftarrow> BufferInBufferIdx d m needle haystack;
       Some (of_bool (idx \<noteq> INVALID_IDX))
     }"

definition ReverseBufferInBufferIdxFind :: "dispatch \<Rightarrow> mem \<Rightarrow> buffer \<Rightarrow> buffer \<Rightarrow> usz option" where
  "ReverseBufferInBufferIdxFind d m needle haystack = ReverseBufferInBufferIdxSimple m needle haystack"

definition ReverseBufferInBufferIdxAfter :: "dispatch \<Rightarrow> mem \<Rightarrow> buffer \<Rightarrow> buffer \<Rightarrow> usz option" where
  "ReverseBufferInBufferIdxAfter d m needle haystack =
     do {
       idx \<leftarrow> ReverseBufferInBufferIdxSimple m needle haystack;
       Some (if idx \<noteq> INVALID_IDX then idx + WriteCur needle else idx)
     }"

definition ReverseBufferInBufferPtrFind :: "dispatch \<Rightarrow> mem \<Rightarrow> buffer \<Rightarrow> buffer \<Rightarrow> usz option" where
  "ReverseBufferInBufferPtrFind d m needle haystack =
     do {
       idx \<leftarrow> ReverseBufferInBufferIdxSimple m needle haystack;
       Some (if idx \<noteq> INVALID_IDX then Base haystack + idx else 0)
     }"

definition ReverseBufferInBufferPtrAfter :: "dispatch \<Rightarrow> mem \<Rightarrow> buffer \<Rightarrow> buffer \<Rightarrow> usz option" where
  "ReverseBufferInBufferPtrAfter d m needle haystack =
     do {
       idx \<leftarrow> ReverseBufferInBufferIdxSimple m needle haystack;
       Some (if idx \<noteq> INVALID_IDX then Base haystack + idx + WriteCur needle else 0)
     }"

definition ReverseBufferInBufferBool :: "dispatch \<Rightarrow> mem \<Rightarrow> buffer \<Rightarrow> buffer \<Rightarrow> usz option" where
  "ReverseBufferInBufferBool d m needle haystack =
     do {
       idx \<leftarrow> ReverseBufferInBufferIdxSimple m needle haystack;
       Some (of_bool (idx \<noteq> INVALID_IDX))
     }"

definition BufferInBuffer :: "dispatch \<Rightarrow> mem \<Rightarrow> buffer \<Rightarrow> buffer \<Rightarrow> u32 \<Rightarrow> usz option" where
  "BufferInBuffer d m needle haystack flags =
     (if has_flag flags SEARCH_REVERSE
      then (if has_flag flags RETURN_BOOL then ReverseBufferInBufferBool d m needle haystack
           else if has_flag flags RETURN_IDX_FIND then ReverseBufferInBufferIdxFind d m needle haystack
           else if has_flag flags RETURN_IDX_AFTER then ReverseBufferInBufferIdxAfter d m needle haystack
           else if has_flag flags RETURN_PTR_AFTER then ReverseBufferInBufferPtrAfter d m needle haystack
           else ReverseBufferInBufferPtrFind d m needle haystack)
      else (if has_flag flags RETURN_BOOL then BufferInBufferBool d m needle haystack
           else if has_flag flags RETURN_IDX_FIND then BufferInBufferIdxFind d m needle haystack
           else if has_flag flags RETURN_IDX_AFTER then BufferInBufferIdxAfter d m needle haystack
           else if has_flag flags RETURN_PTR_AFTER then BufferInBufferPtrAfter d m needle haystack
           else BufferInBufferPtrFind d m needle haystack))"

lemmas ByteInBuffer_defs = ByteInBuffer_def
  ByteInBufferBool_def
  ByteInBufferIdxFind_def
  ByteInBufferIdxAfter_def
  ByteInBufferPtrFind_def
  ByteInBufferPtrAfter_def
  ReverseByteInBufferBool_def
  ReverseByteInBufferIdxFind_def
  ReverseByteInBufferIdxAfter_def
  ReverseByteInBufferPtrFind_def
  ReverseByteInBufferPtrAfter_def

lemmas BufferInBuffer_defs = BufferInBuffer_def
  BufferInBufferBool_def
  BufferInBufferIdxFind_def
  BufferInBufferIdxAfter_def
  BufferInBufferPtrFind_def
  BufferInBufferPtrAfter_def
  ReverseBufferInBufferBool_def
  ReverseBufferInBufferIdxFind_def
  ReverseBufferInBufferIdxAfter_def
  ReverseBufferInBufferPtrFind_def
  ReverseBufferInBufferPtrAfter_def

definition DataInBuffer :: "dispatch \<Rightarrow> mem \<Rightarrow> ptr \<Rightarrow> usz \<Rightarrow> buffer \<Rightarrow> u32 \<Rightarrow> usz option" where
  "DataInBuffer d m needle needleSize haystack flags =
     BufferInBuffer d m (Buffer needle needleSize 0) haystack flags"

text \<open>
  The loop of \<open>ReplaceByteInBuffer\<close> resumes at the byte it has just written, so it may not end.
\<close>

partial_function (option) ReplaceByteInBuffer ::
  "dispatch \<Rightarrow> mem \<Rightarrow> u8 \<Rightarrow> u8 \<Rightarrow> buffer \<Rightarrow> mem option" where
  "ReplaceByteInBuffer d m oldByte newByte buf =
     do {
       foundIdx \<leftarrow> ByteInBuffer d m oldByte buf RETURN_IDX_FIND;
       if foundIdx \<noteq> INVALID_IDX
       then do {
         m' \<leftarrow> store8 m (Base buf + foundIdx) newByte;
         ReplaceByteInBuffer d m' oldByte newByte (AdvanceBuffer buf foundIdx)
       }
       else Some m
     }"

section \<open>What the searches find\<close>

definition first_idx :: "(u8 \<Rightarrow> bool) \<Rightarrow> u8 list \<Rightarrow> nat option" where
  "first_idx P xs = List.find (\<lambda>i. P (xs ! i)) [0..<length xs]"

definition last_idx :: "(u8 \<Rightarrow> bool) \<Rightarrow> u8 list \<Rightarrow> nat option" where
  "last_idx P xs = List.find (\<lambda>i. P (xs ! i)) (rev [0..<length xs])"

definition first_diff :: "u8 list \<Rightarrow> u8 list \<Rightarrow> nat \<Rightarrow> nat" where
  "first_diff xs ys n =
     (case List.find (\<lambda>i. xs ! i \<noteq> ys ! i) [0..<n] of None \<Rightarrow> n | Some i \<Rightarrow> i)"

definition match_at :: "u8 list \<Rightarrow> u8 list \<Rightarrow> nat \<Rightarrow> bool" where
  "match_at ns hs i \<longleftrightarrow> take (length ns) (drop i hs) = ns"

definition first_match :: "u8 list \<Rightarrow> u8 list \<Rightarrow> nat option" where
  "first_match ns hs = List.find (match_at ns hs) [0..<Suc (length hs)]"

definition last_match :: "u8 list \<Rightarrow> u8 list \<Rightarrow> nat option" where
  "last_match ns hs = List.find (match_at ns hs) (rev [0..<Suc (length hs)])"

text \<open>The word a search returns under each flag, for a needle of \<open>n\<close> bytes.\<close>

definition search_result :: "u32 \<Rightarrow> ptr \<Rightarrow> usz \<Rightarrow> nat option \<Rightarrow> usz" where
  "search_result flags base n r =
     (if has_flag flags RETURN_BOOL then of_bool (r \<noteq> None)
      else if has_flag flags RETURN_IDX_FIND then idx_word r
      else if has_flag flags RETURN_IDX_AFTER
        then (case r of None \<Rightarrow> INVALID_IDX | Some i \<Rightarrow> of_nat i + n)
      else if has_flag flags RETURN_PTR_AFTER
        then (case r of None \<Rightarrow> 0 | Some i \<Rightarrow> base + of_nat i + n)
      else (case r of None \<Rightarrow> 0 | Some i \<Rightarrow> base + of_nat i))"

lemma match_at_length: "match_at ns hs i \<Longrightarrow> ns \<noteq> [] \<Longrightarrow> i + length ns \<le> length hs"
proof -
  assume "match_at ns hs i" and "ns \<noteq> []"
  then have "length (take (length ns) (drop i hs)) = length ns" by (simp add: match_at_def)
  then have "length ns \<le> length hs - i" by simp
  then show ?thesis using \<open>ns \<noteq> []\<close> by (cases ns) auto
qed

lemma match_at_nth:
  assumes "i + length ns \<le> length hs"
  shows "match_at ns hs i \<longleftrightarrow> (\<forall>j<length ns. hs ! (i + j) = ns ! j)"
  using assms by (auto simp: match_at_def list_eq_iff_nth_eq)

lemma first_idx_less: "first_idx P xs = Some i \<Longrightarrow> i < length xs"
  by (simp add: first_idx_def find_upt_Some)

lemma last_idx_less: "last_idx P xs = Some i \<Longrightarrow> i < length xs"
  by (simp add: last_idx_def find_rev_upt_Some)

lemma find_upt_restrict:
  assumes "n \<le> k" "\<And>i. P i \<Longrightarrow> i < n"
  shows "List.find P [0..<k] = List.find P [0..<n]"
proof (cases "List.find P [0..<n]")
  case None
  then have "List.find P [0..<k] = None" using assms(2) by (auto simp: find_upt_None)
  with None show ?thesis by simp
next
  case (Some i)
  then have "List.find P [0..<k] = Some i" using assms(1) by (auto simp: find_upt_Some)
  with Some show ?thesis by simp
qed

lemma find_rev_upt_restrict:
  assumes "n \<le> k" "\<And>i. P i \<Longrightarrow> i < n"
  shows "List.find P (rev [0..<k]) = List.find P (rev [0..<n])"
proof (cases "List.find P (rev [0..<n])")
  case None
  then have "List.find P (rev [0..<k]) = None" using assms(2) by (auto simp: find_rev_upt_None)
  with None show ?thesis by simp
next
  case (Some i)
  then have "List.find P (rev [0..<k]) = Some i" using assms by (auto simp: find_rev_upt_Some)
  with Some show ?thesis by simp
qed

section \<open>Correctness of the loops\<close>

lemma holds_nth: "holds m b xs \<Longrightarrow> i < WriteCur b \<Longrightarrow> m (Base b + i) = Some (xs ! unat i)"
  using bytes_at_word_nth [of m "Base b" xs i] by (auto simp: holds_def word_less_nat_alt)

lemma for_find_0:
  assumes "\<And>i. i < n \<Longrightarrow> test i = Some (P (unat i))"
  shows "for_find 0 n test = Some (map_option of_nat (List.find P [0..<unat n]))"
  using for_find_eq [of n test P 0] assms by simp

lemma ComparePtrSimple_eq:
  assumes "bytes_at m p xs" "bytes_at m q ys" "unat n \<le> length xs" "unat n \<le> length ys"
  shows "ComparePtrSimple m p q n = Some (p + of_nat (first_diff xs ys (unat n)))"
proof -
  have "for_find 0 n (\<lambda>idx. do { a \<leftarrow> m (p + idx); b \<leftarrow> m (q + idx); Some (a \<noteq> b) })
      = Some (map_option of_nat (List.find (\<lambda>i. xs ! i \<noteq> ys ! i) [0..<unat n]))"
    using assms by (intro for_find_0) (simp add: bytes_at_word_nth word_less_nat_alt)
  then show ?thesis
    by (simp add: ComparePtrSimple_def first_diff_def split: option.split)
qed

lemma first_diff_eq_n: "first_diff xs ys n = n \<longleftrightarrow> (\<forall>i<n. xs ! i = ys ! i)"
  by (auto simp: first_diff_def find_upt_Some find_upt_None split: option.split)

lemma first_diff_le: "first_diff xs ys n \<le> n"
  by (auto simp: first_diff_def find_upt_Some split: option.split)

lemma first_diff_all: "length xs = length ys \<Longrightarrow> first_diff xs ys (length xs) = length xs \<longleftrightarrow> xs = ys"
  by (auto simp: first_diff_eq_n list_eq_iff_nth_eq)

lemma CompareIdx_eq:
  assumes "bytes_at m (Base A) xs" "bytes_at m (Base B) ys" "unat n \<le> length xs" "unat n \<le> length ys"
  shows "CompareIdx m A B n = Some (of_nat (first_diff xs ys (unat n)))"
  by (simp add: CompareIdx_def ComparePtrSimple_eq [OF assms])

lemma of_nat_first_diff: "of_nat (first_diff xs ys (unat n)) = n \<longleftrightarrow> first_diff xs ys (unat n) = unat n"
  for n :: usz
proof -
  have "first_diff xs ys (unat n) < 2 ^ 64"
    using first_diff_le [of xs ys "unat n"] unat_lt_2p [of n] by linarith
  then have "unat (of_nat (first_diff xs ys (unat n)) :: usz) = first_diff xs ys (unat n)"
    by (rule unat_offset)
  then show ?thesis by (simp add: word_unat_eq_iff)
qed

lemma unat_pred: "0 < n \<Longrightarrow> Suc (unat (n - 1)) = unat n" for n :: usz
  using measure_unat [of n] by (simp add: unat_minus_one word_gt_0)

lemma minus_one_less: "0 < n \<Longrightarrow> n - 1 < n" for n :: usz
  using unat_pred [of n] by (simp add: word_less_nat_alt)

lemma EqualBuffers_eq:
  assumes "holds m A xs" "holds m B ys"
  shows "EqualBuffers m A B = Some (xs = ys)"
proof (cases "WriteCur A = WriteCur B")
  case False
  then have "unat (WriteCur A) \<noteq> unat (WriteCur B)" by (simp add: word_unat_eq_iff)
  with False show ?thesis using assms by (auto simp: EqualBuffers_def holds_def)
next
  case eq: True
  show ?thesis
  proof (cases "WriteCur A = 0")
    case True
    then show ?thesis using assms eq by (simp add: EqualBuffers_def holds_def)
  next
    case False
    then have pos: "0 < WriteCur A" by (simp add: word_gt_0)
    note last = minus_one_less [OF pos]
    have len: "length xs = unat (WriteCur A)" "length ys = unat (WriteCur A)"
      using assms eq by (auto simp: holds_def)
    have ci: "CompareIdx m A B (WriteCur A) = Some (of_nat (first_diff xs ys (unat (WriteCur A))))"
      using assms len by (intro CompareIdx_eq) (auto simp: holds_def)
    have idx: "of_nat (first_diff xs ys (unat (WriteCur A))) = WriteCur A \<longleftrightarrow> xs = ys"
      unfolding of_nat_first_diff using len first_diff_all [of xs ys] by simp
    have a: "m (Base A) = Some (xs ! 0)" "m (Base A + (WriteCur A - 1)) = Some (xs ! unat (WriteCur A - 1))"
      using holds_nth [OF assms(1) pos] holds_nth [OF assms(1) last] by simp_all
    have b: "m (Base B) = Some (ys ! 0)" "m (Base B + (WriteCur A - 1)) = Some (ys ! unat (WriteCur A - 1))"
      using holds_nth [OF assms(2), of 0] holds_nth [OF assms(2), of "WriteCur A - 1"] pos last
      unfolding eq by simp_all
    show ?thesis
      unfolding EqualBuffers_def eq [symmetric] a b ci
      using False idx by auto
  qed
qed

lemma ByteInBufferIdxSimple_eq:
  assumes "holds m h xs"
  shows "ByteInBufferIdxSimple m c h = Some (idx_word (first_idx ((=) c) xs))"
proof -
  have "for_find 0 (WriteCur h) (\<lambda>idx. do { b \<leftarrow> m (Base h + idx); Some (c = b) })
      = Some (map_option of_nat (List.find (\<lambda>i. c = xs ! i) [0..<unat (WriteCur h)]))"
    using assms by (intro for_find_0) (simp add: holds_nth)
  then show ?thesis
    using assms by (simp add: ByteInBufferIdxSimple_def first_idx_def idx_word_def holds_def
        split: option.split)
qed

lemma find_snoc:
  "List.find P (xs @ [x])
    = (case List.find P xs of Some i \<Rightarrow> Some i | None \<Rightarrow> if P x then Some x else None)"
  by (induction xs) auto

lemma find_rev_from_1:
  "List.find P (rev [0..<Suc n])
    = (case List.find P (rev [1..<Suc n]) of Some i \<Rightarrow> Some i | None \<Rightarrow> if P 0 then Some 0 else None)"
proof -
  have "[0..<Suc n] = 0 # [1..<Suc n]" by (subst upt_conv_Cons) simp_all
  then have "rev [0..<Suc n] = rev [1..<Suc n] @ [0]" by (simp only: rev.simps)
  then show ?thesis by (simp only: find_snoc)
qed

lemma ReverseByteInBufferIdxSimple_eq:
  assumes "holds m h xs"
  shows "ReverseByteInBufferIdxSimple m c h = Some (idx_word (last_idx ((=) c) xs))"
proof (cases "WriteCur h > 0")
  case True
  have len: "length xs = Suc (unat (WriteCur h - 1))"
    using assms unat_pred [OF True] by (simp add: holds_def)
  have "for_find_down (WriteCur h - 1) (\<lambda>idx. do { b \<leftarrow> m (Base h + idx); Some (b = c) })
      = Some (map_option of_nat (List.find (\<lambda>i. c = xs ! i) (rev [1..<Suc (unat (WriteCur h - 1))])))"
  proof (rule for_find_down_eq)
    fix j assume "j \<le> WriteCur h - 1"
    then have "j < WriteCur h" using minus_one_less [OF True] by simp
    then show "do { b \<leftarrow> m (Base h + j); Some (b = c) } = Some (c = xs ! unat j)"
      by (subst holds_nth [OF assms]) auto
  qed
  then show ?thesis
    using True holds_nth [OF assms True]
    unfolding ReverseByteInBufferIdxSimple_def last_idx_def len find_rev_from_1
    by (simp add: eq_commute [of c] split: option.split)
next
  case False
  then show ?thesis using assms
    by (simp add: ReverseByteInBufferIdxSimple_def last_idx_def holds_def word_gt_0)
qed

lemma holds_sub:
  assumes "holds m h hs" "unat idx + unat w \<le> length hs"
  shows "holds m (Buffer (Base h + idx) w s) (take (unat w) (drop (unat idx) hs))"
proof -
  have "bytes_at m (Base h + of_nat (unat idx)) (drop (unat idx) hs)"
    using assms by (intro bytes_at_drop) (auto simp: holds_def)
  then show ?thesis using assms(2) by (simp add: holds_def bytes_at_take)
qed

lemma NeedleAt_eq:
  assumes n: "holds m n ns" "ns \<noteq> []" and h: "holds m h hs" and fit: "unat idx + length ns \<le> length hs"
  shows "NeedleAt m n (Base h) idx = Some (match_at ns hs (unat idx))"
proof -
  let ?s = "Buffer (Base h + idx) (WriteCur n) 0"
  let ?xs = "take (length ns) (drop (unat idx) hs)"
  have len: "length ns = unat (WriteCur n)" using n by (simp add: holds_def)
  have pos: "0 < WriteCur n" using n(2) len by (auto simp: word_gt_0)
  have s: "holds m ?s ?xs"
    unfolding len using h fit len by (intro holds_sub) simp_all
  have e: "EqualBuffers m ?s n = Some (?xs = ns)" by (rule EqualBuffers_eq [OF s n(1)])
  have "m (Base h + idx) = Some (?xs ! 0)"
    and "m (Base h + (idx + WriteCur n - 1)) = Some (?xs ! unat (WriteCur n - 1))"
    using holds_nth [OF s, of 0] holds_nth [OF s, of "WriteCur n - 1"] pos minus_one_less [OF pos]
    by (simp_all add: algebra_simps)
  moreover have "m (Base n) = Some (ns ! 0)"
    and "m (Base n + (WriteCur n - 1)) = Some (ns ! unat (WriteCur n - 1))"
    using holds_nth [OF n(1), of 0] holds_nth [OF n(1) minus_one_less [OF pos]] pos by simp_all
  ultimately show ?thesis
    unfolding NeedleAt_def match_at_def e by auto
qed

lemma holds_bound: "holds m h xs \<Longrightarrow> length xs < 2 ^ 64"
  using unat_lt_2p [of "WriteCur h"] by (simp add: holds_def)

lemma range_unat:
  assumes "holds m n ns" "ns \<noteq> []" "holds m h hs" "WriteCur n \<le> WriteCur h"
  shows "unat (WriteCur h - WriteCur n) = length hs - length ns"
    and "unat (WriteCur h - WriteCur n + 1) = Suc (length hs - length ns)"
    and "length ns \<le> length hs"
proof -
  show le: "length ns \<le> length hs" and d: "unat (WriteCur h - WriteCur n) = length hs - length ns"
    using assms by (auto simp: holds_def unat_sub word_le_nat_alt)
  have "length hs - length ns < length hs" using le assms(2) by (cases ns) auto
  then have "WriteCur h - WriteCur n < WriteCur h"
    using d assms(3) by (simp add: word_less_nat_alt holds_def)
  then show "unat (WriteCur h - WriteCur n + 1) = Suc (length hs - length ns)"
    using unat_Suc_less d by metis
qed

lemma first_match_range:
  assumes "ns \<noteq> []" "length ns \<le> length hs"
  shows "first_match ns hs = List.find (match_at ns hs) [0..<Suc (length hs - length ns)]"
  unfolding first_match_def
  using match_at_length [OF _ assms(1)] assms(2) by (intro find_upt_restrict) force+

lemma last_match_range:
  assumes "ns \<noteq> []" "length ns \<le> length hs"
  shows "last_match ns hs = List.find (match_at ns hs) (rev [0..<Suc (length hs - length ns)])"
  unfolding last_match_def
  using match_at_length [OF _ assms(1)] assms(2) by (intro find_rev_upt_restrict) force+

lemma no_match:
  assumes "ns \<noteq> []" "length hs < length ns"
  shows "first_match ns hs = None" "last_match ns hs = None"
  using match_at_length [OF _ assms(1)] assms(2)
  by (force simp: first_match_def last_match_def find_None_iff)+

lemma BufferInBufferIdxSimple_eq:
  assumes n: "holds m n ns" "ns \<noteq> []" and h: "holds m h hs"
  shows "BufferInBufferIdxSimple m n h = Some (idx_word (first_match ns hs))"
proof (cases "WriteCur n \<le> WriteCur h")
  case True
  note r = range_unat [OF n h True]
  have "for_find 0 (WriteCur h - WriteCur n + 1) (NeedleAt m n (Base h))
      = Some (map_option of_nat (List.find (match_at ns hs) [0..<unat (WriteCur h - WriteCur n + 1)]))"
  proof (rule for_find_0)
    fix i assume "i < WriteCur h - WriteCur n + 1"
    then have "unat i + length ns \<le> length hs" using r by (simp add: word_less_nat_alt)
    then show "NeedleAt m n (Base h) i = Some (match_at ns hs (unat i))"
      using n h by (intro NeedleAt_eq)
  qed
  then show ?thesis
    using True unfolding BufferInBufferIdxSimple_def r first_match_range [OF n(2) r(3)]
    by (simp add: idx_word_def split: option.split)
next
  case False
  then have "length hs < length ns" using n h by (simp add: holds_def word_le_nat_alt)
  with False n(2) show ?thesis by (simp add: BufferInBufferIdxSimple_def no_match)
qed

lemma ReverseBufferInBufferIdxSimple_eq:
  assumes n: "holds m n ns" "ns \<noteq> []" and h: "holds m h hs"
  shows "ReverseBufferInBufferIdxSimple m n h = Some (idx_word (last_match ns hs))"
proof (cases "WriteCur n \<le> WriteCur h")
  case True
  note r = range_unat [OF n h True]
  have test: "NeedleAt m n (Base h) i = Some (match_at ns hs (unat i))"
    if "i \<le> WriteCur h - WriteCur n" for i
  proof -
    have "unat i + length ns \<le> length hs" using that r by (simp add: word_le_nat_alt)
    then show ?thesis using n h by (intro NeedleAt_eq)
  qed
  then have "for_find_down (WriteCur h - WriteCur n) (NeedleAt m n (Base h))
      = Some (map_option of_nat
          (List.find (match_at ns hs) (rev [1..<Suc (unat (WriteCur h - WriteCur n))])))"
    by (intro for_find_down_eq)
  then show ?thesis
    using True test [of 0]
    unfolding ReverseBufferInBufferIdxSimple_def last_match_range [OF n(2) r(3)] find_rev_from_1 r
    by (simp split: option.split)
next
  case False
  then have "length hs < length ns" using n h by (simp add: holds_def word_le_nat_alt)
  with False n(2) show ?thesis by (simp add: ReverseBufferInBufferIdxSimple_def no_match)
qed

lemma match_index:
  assumes "ns \<noteq> []"
  shows "first_match ns hs = Some i \<Longrightarrow> match_at ns hs i \<and> i < length hs"
    and "last_match ns hs = Some i \<Longrightarrow> match_at ns hs i \<and> i < length hs"
proof -
  have *: "i < length hs" if "match_at ns hs i"
    using match_at_length [OF that assms] assms by (cases ns) simp_all
  show "first_match ns hs = Some i \<Longrightarrow> match_at ns hs i \<and> i < length hs"
    unfolding first_match_def find_upt_Some using * by blast
  show "last_match ns hs = Some i \<Longrightarrow> match_at ns hs i \<and> i < length hs"
    unfolding last_match_def find_rev_upt_Some using * by blast
qed

text \<open>One step of \<open>ReplaceByteInBuffer\<close> on the content.\<close>

lemma holds_store:
  assumes "holds m b xs" "i < length xs" "m' = m(Base b + of_nat i \<mapsto> v)"
  shows "holds m' b (xs[i := v])"
proof -
  have "m' (Base b + of_nat j) = Some (xs[i := v] ! j)" if "j < length xs" for j
  proof (cases "j = i")
    case True
    then show ?thesis using assms by simp
  next
    case False
    have "(of_nat j :: usz) \<noteq> of_nat i"
      using False that assms(2) holds_bound [OF assms(1)]
      by (metis (no_types, opaque_lifting) order.strict_trans unat_offset)
    then show ?thesis
      using assms that False bytes_at_nth [of m "Base b" xs j] by (simp add: holds_def)
  qed
  then show ?thesis using assms(1) by (simp add: holds_def bytes_at_def)
qed

lemma first_idx_None: "first_idx ((=) c) xs = None \<longleftrightarrow> c \<notin> set xs"
  by (auto simp: first_idx_def find_upt_None in_set_conv_nth)

lemma first_idx_Some:
  "first_idx ((=) c) xs = Some i \<longleftrightarrow> i < length xs \<and> xs ! i = c \<and> c \<notin> set (take i xs)"
  by (auto simp: first_idx_def find_upt_Some in_set_conv_nth)

definition subst_byte :: "u8 \<Rightarrow> u8 \<Rightarrow> u8 \<Rightarrow> u8" where
  "subst_byte old new x = (if x = old then new else x)"

lemma subst_byte_id: "old \<notin> set xs \<Longrightarrow> map (subst_byte old new) xs = xs"
  by (induction xs) (auto simp: subst_byte_def)

lemma subst_split:
  assumes "i < length xs" "xs ! i = old" "old \<notin> set (take i xs)" "old \<noteq> new"
  shows "map (subst_byte old new) xs = take i xs @ map (subst_byte old new) (drop i (xs[i := new]))"
    and "count_list (drop i (xs[i := new])) old < count_list xs old"
proof -
  have xs: "xs = take i xs @ old # drop (Suc i) xs" using id_take_nth_drop [OF assms(1)] assms(2) by simp
  have d: "drop i (xs[i := new]) = new # drop (Suc i) xs"
    using assms(1) by (simp add: drop_update_swap Cons_nth_drop_Suc flip: nth_drop)
      (simp add: Cons_nth_drop_Suc [symmetric])
  show "map (subst_byte old new) xs = take i xs @ map (subst_byte old new) (drop i (xs[i := new]))"
    by (subst xs) (simp add: d subst_byte_id assms(3), simp add: subst_byte_def)
  show "count_list (drop i (xs[i := new])) old < count_list xs old"
    using assms(4) by (subst (2) xs) (auto simp add: d assms(3) count_list_append)
qed

section \<open>What a client relies on: the interface of the function pointers\<close>

text \<open>
  \<open>ok\<close> is what an implementation needs of the memory around the haystack: nothing for the
  portable loops, the mapped rest of the last and first chunk for the SIMD ones. It must survive
  a store into the haystack and \<open>AdvanceBuffer\<close>.
\<close>

locale byte_dispatch =
  fixes d :: dispatch and ok :: "mem \<Rightarrow> buffer \<Rightarrow> bool"
  assumes byte_eq:
      "ok m h \<Longrightarrow> holds m h xs \<Longrightarrow> ByteInBufferIdx d m c h = Some (idx_word (first_idx ((=) c) xs))"
    and ok_stable:
      "ok m h \<Longrightarrow> dom m \<subseteq> dom m' \<Longrightarrow> k \<le> WriteCur h \<Longrightarrow> ok m' (AdvanceBuffer h k)"
begin

lemma forward:
  assumes "ok m h" "holds m h xs" "\<not> has_flag flags SEARCH_REVERSE"
  shows "ByteInBuffer d m c h flags
    = Some (search_result flags (Base h) 1 (first_idx ((=) c) xs))"
proof (cases "first_idx ((=) c) xs")
  case None
  then show ?thesis using assms byte_eq [OF assms(1,2), of c]
    by (simp add: ByteInBuffer_defs search_result_def)
next
  case (Some i)
  then have "(of_nat i :: usz) \<noteq> INVALID_IDX"
    using first_idx_less [OF Some] holds_bound [OF assms(2)] by (intro of_nat_ne_INVALID) simp
  with Some show ?thesis using assms byte_eq [OF assms(1,2), of c]
    by (simp add: ByteInBuffer_defs search_result_def)
qed

lemma found:
  assumes "ok m b" "holds m b xs" "first_idx ((=) old) xs = Some i"
  shows "ByteInBuffer d m old b RETURN_IDX_FIND = Some (of_nat i)"
    and "(of_nat i :: usz) \<noteq> INVALID_IDX"
    and "\<exists>m'. store8 m (Base b + of_nat i) new = Some m'
      \<and> (\<forall>q. q \<noteq> Base b + of_nat i \<longrightarrow> m' q = m q)
      \<and> holds m' (AdvanceBuffer b (of_nat i)) (drop i (xs[i := new]))
      \<and> ok m' (AdvanceBuffer b (of_nat i))"
proof -
  have i: "i < length xs" using assms(3) by (simp add: first_idx_Some)
  have lt: "i < 2 ^ 64" using i holds_bound [OF assms(2)] by simp
  have u: "unat (of_nat i :: usz) = i" by (rule unat_offset [OF lt])
  show "(of_nat i :: usz) \<noteq> INVALID_IDX"
    using i holds_bound [OF assms(2)] by (intro of_nat_ne_INVALID) simp
  show "ByteInBuffer d m old b RETURN_IDX_FIND = Some (of_nat i)"
    using forward [OF assms(1,2), of RETURN_IDX_FIND old] assms(3)
    by (simp add: search_result_def flag_defs)
  have cur: "of_nat i \<le> WriteCur b"
    using i assms(2) by (simp add: word_le_nat_alt u holds_def)
  let ?m' = "m(Base b + of_nat i \<mapsto> new)"
  have b: "m (Base b + of_nat i) = Some (xs ! i)"
    using assms(2) i by (simp add: holds_def bytes_at_nth)
  then have "store8 m (Base b + of_nat i) new = Some ?m'" by (simp add: store8_def)
  moreover have "holds ?m' (AdvanceBuffer b (of_nat i)) (drop i (xs[i := new]))"
    using holds_Advance [OF holds_store [OF assms(2) i refl] cur] u by simp
  moreover have "ok ?m' (AdvanceBuffer b (of_nat i))"
    using b by (intro ok_stable [OF assms(1) _ cur]) auto
  ultimately show "\<exists>m'. store8 m (Base b + of_nat i) new = Some m'
      \<and> (\<forall>q. q \<noteq> Base b + of_nat i \<longrightarrow> m' q = m q)
      \<and> holds m' (AdvanceBuffer b (of_nat i)) (drop i (xs[i := new]))
      \<and> ok m' (AdvanceBuffer b (of_nat i))" by auto
qed

lemma replace:
  assumes "ok m b" "holds m b xs" "old \<noteq> new"
  shows "\<exists>m'. ReplaceByteInBuffer d m old new b = Some m'
    \<and> holds m' b (map (subst_byte old new) xs)
    \<and> (\<forall>q. q \<notin> region (Base b) (length xs) \<longrightarrow> m' q = m q)"
  using assms
proof (induction "count_list xs old" arbitrary: m b xs rule: less_induct)
  case less
  show ?case
  proof (cases "first_idx ((=) old) xs")
    case None
    then have "ByteInBuffer d m old b RETURN_IDX_FIND = Some INVALID_IDX"
      using forward [OF less.prems(1,2), of RETURN_IDX_FIND old]
      by (simp add: search_result_def flag_defs)
    then have "ReplaceByteInBuffer d m old new b = Some m"
      by (subst ReplaceByteInBuffer.simps) simp
    with None less.prems show ?thesis by (simp add: first_idx_None subst_byte_id)
  next
    case (Some i)
    then have i: "i < length xs" "xs ! i = old" "old \<notin> set (take i xs)"
      by (simp_all add: first_idx_Some)
    let ?b = "AdvanceBuffer b (of_nat i)" and ?ys = "drop i (xs[i := new])"
    note fd = found [OF less.prems(1,2) Some]
    obtain m1 where m1: "\<forall>q. q \<noteq> Base b + of_nat i \<longrightarrow> m1 q = m q"
        "store8 m (Base b + of_nat i) new = Some m1" "holds m1 ?b ?ys" "ok m1 ?b"
      using fd(3) [of new] by blast
    then have run: "ReplaceByteInBuffer d m old new b = ReplaceByteInBuffer d m1 old new ?b"
      using fd(1,2) by (subst ReplaceByteInBuffer.simps) simp
    note sp = subst_split [OF i less.prems(3)]
    obtain m' where m': "ReplaceByteInBuffer d m1 old new ?b = Some m'"
        "holds m' ?b (map (subst_byte old new) ?ys)"
        "\<forall>q. q \<notin> region (Base ?b) (length ?ys) \<longrightarrow> m' q = m1 q"
      using less.hyps [OF sp(2) m1(4,3) less.prems(3)] by auto
    have base: "Base ?b = Base b + of_nat i" by (simp add: AdvanceBuffer_def)
    have reg: "region (Base b) (length xs) = region (Base b) i \<union> region (Base ?b) (length ?ys)"
      using region_append [of "Base b" i "length xs - i"] i(1) by (simp add: base)
    have disj: "region (Base b) i \<inter> region (Base ?b) (length ?ys) = {}"
      using region_split_disj [of i "length xs - i" "Base b"] i(1) holds_bound [OF less.prems(2)]
      by (simp add: base)
    have "Base b + of_nat i \<in> region (Base ?b) (length ?ys)"
      using region_memI [of 0 "length ?ys" "Base ?b"] i(1) by (simp add: base)
    then have frame: "m' q = m q" if "q \<notin> region (Base ?b) (length ?ys)" for q
      using that m'(3) m1(1) by metis
    have "m' (Base b + of_nat j) = Some (take i xs ! j)" if "j < i" for j
    proof -
      have "m' (Base b + of_nat j) = m (Base b + of_nat j)"
        using disj region_memI [OF that, of "Base b"] by (intro frame) auto
      then show ?thesis
        using that i(1) less.prems(2) by (simp add: holds_def bytes_at_nth)
    qed
    then have "bytes_at m' (Base b) (take i xs)"
      using i(1) by (simp add: bytes_at_def)
    moreover have "bytes_at m' (Base b + of_nat i) (map (subst_byte old new) ?ys)"
      using m'(2) by (simp add: holds_def base)
    ultimately have "bytes_at m' (Base b) (map (subst_byte old new) xs)"
      using i(1) unfolding sp(1) by simp
    then have "holds m' b (map (subst_byte old new) xs)"
      using less.prems(2) by (simp add: holds_def)
    moreover have "\<forall>q. q \<notin> region (Base b) (length xs) \<longrightarrow> m' q = m q"
      using reg frame by auto
    ultimately show ?thesis using run m'(1) by auto
  qed
qed

text \<open>Replacing a byte by itself: the loop finds the byte it has just written, for ever.\<close>

lemma replace_same:
  assumes "ReplaceByteInBuffer d m c c b = Some m'" "ok m b" "holds m b xs"
  shows "c \<notin> set xs"
proof -
  let ?P = "\<lambda>e m old new b m'. \<forall>xs. e = d \<longrightarrow> new = old \<longrightarrow> ok m b \<longrightarrow> holds m b xs \<longrightarrow> old \<notin> set xs"
  have "?P d m c c b m'"
  proof (rule ReplaceByteInBuffer.raw_induct [where P = ?P, OF _ assms(1)], intro allI impI)
    fix f e m old new b m' xs
    assume IH: "\<And>e m old new b m'. f e m old new b = Some m' \<Longrightarrow> ?P e m old new b m'"
      and run: "do {
          foundIdx \<leftarrow> ByteInBuffer e m old b RETURN_IDX_FIND;
          if foundIdx \<noteq> INVALID_IDX
          then do { m' \<leftarrow> store8 m (Base b + foundIdx) new; f e m' old new (AdvanceBuffer b foundIdx) }
          else Some m } = Some m'"
      and e: "e = d" and same: "new = old" and ok: "ok m b" and h: "holds m b xs"
    show "old \<notin> set xs"
    proof (cases "first_idx ((=) old) xs")
      case None
      then show ?thesis by (simp only: first_idx_None not_False_eq_True)
    next
      case (Some i)
      then have i: "i < length xs" "xs ! i = old" by (simp_all add: first_idx_Some)
      note fd = found [OF ok h Some]
      obtain m1 where m1: "store8 m (Base b + of_nat i) new = Some m1"
          "holds m1 (AdvanceBuffer b (of_nat i)) (drop i (xs[i := new]))"
          "ok m1 (AdvanceBuffer b (of_nat i))"
        using fd(3) [of new] by blast
      have "f d m1 old new (AdvanceBuffer b (of_nat i)) = Some m'"
        using run fd(1,2) m1(1) by (simp add: e)
      from IH [OF this] have "old \<notin> set (drop i (xs[i := new]))" using same m1(2,3) by blast
      moreover have "drop i (xs[i := new]) ! 0 = old" using i same by simp
      then have "old \<in> set (drop i (xs[i := new]))"
        using i nth_mem [of 0 "drop i (xs[i := new])"] by simp
      ultimately show ?thesis by simp
    qed
  qed
  with assms(2,3) show ?thesis by blast
qed

end

locale search_dispatch = byte_dispatch +
  assumes buffer_eq:
    "ok m h \<Longrightarrow> holds m n ns \<Longrightarrow> ns \<noteq> [] \<Longrightarrow> holds m h hs \<Longrightarrow>
       BufferInBufferIdx d m n h = Some (idx_word (first_match ns hs))"
begin

lemma match_forward:
  assumes "ok m h" "holds m n ns" "ns \<noteq> []" "holds m h hs" "\<not> has_flag flags SEARCH_REVERSE"
  shows "BufferInBuffer d m n h flags
    = Some (search_result flags (Base h) (WriteCur n) (first_match ns hs))"
proof (cases "first_match ns hs")
  case None
  then show ?thesis using assms(5) buffer_eq [OF assms(1-4)]
    by (simp add: BufferInBuffer_defs search_result_def)
next
  case (Some i)
  have "i < length hs" using match_index [OF assms(3)] Some by simp
  then have "(of_nat i :: usz) \<noteq> INVALID_IDX"
    using holds_bound [OF assms(4)] by (intro of_nat_ne_INVALID) simp
  with Some show ?thesis using assms(5) buffer_eq [OF assms(1-4)]
    by (simp add: BufferInBuffer_defs search_result_def)
qed

end

interpretation simple: search_dispatch default_dispatch "\<lambda>_ _. True"
  by unfold_locales
    (auto simp: default_dispatch_def ByteInBufferIdxSimple_eq BufferInBufferIdxSimple_eq)

text \<open>The reverse searches do not depend on the function pointers.\<close>

lemma byte_reverse:
  assumes "holds m h xs" "has_flag flags SEARCH_REVERSE"
  shows "ByteInBuffer d m c h flags
    = Some (search_result flags (Base h) 1 (last_idx ((=) c) xs))"
proof (cases "last_idx ((=) c) xs")
  case None
  then show ?thesis using assms ReverseByteInBufferIdxSimple_eq [OF assms(1), of c]
    by (simp add: ByteInBuffer_defs search_result_def)
next
  case (Some i)
  then have "(of_nat i :: usz) \<noteq> INVALID_IDX"
    using last_idx_less [OF Some] holds_bound [OF assms(1)] by (intro of_nat_ne_INVALID) simp
  with Some show ?thesis using assms ReverseByteInBufferIdxSimple_eq [OF assms(1), of c]
    by (simp add: ByteInBuffer_defs search_result_def)
qed

lemma match_reverse:
  assumes "holds m n ns" "ns \<noteq> []" "holds m h hs" "has_flag flags SEARCH_REVERSE"
  shows "BufferInBuffer d m n h flags
    = Some (search_result flags (Base h) (WriteCur n) (last_match ns hs))"
proof (cases "last_match ns hs")
  case None
  then show ?thesis using assms(4) ReverseBufferInBufferIdxSimple_eq [OF assms(1-3)]
    by (simp add: BufferInBuffer_defs search_result_def)
next
  case (Some i)
  have "i < length hs" using match_index [OF assms(2)] Some by simp
  then have "(of_nat i :: usz) \<noteq> INVALID_IDX"
    using holds_bound [OF assms(3)] by (intro of_nat_ne_INVALID) simp
  with Some show ?thesis using assms(4) ReverseBufferInBufferIdxSimple_eq [OF assms(1-3)]
    by (simp add: BufferInBuffer_defs search_result_def)
qed

section \<open>Properties\<close>

text \<open>
  C22: \<open>ByteInBuffer\<close> returns, for every combination of flags, the first occurrence of the byte (the
  last one with \<open>SEARCH_REVERSE\<close>) in the convention the flags ask for: a boolean, an index or a
  pointer, at the byte or after it. When there is none, the result is false for a boolean, \<open>INVALID_IDX\<close>
  for an index and 0 for both kinds of pointer, also with \<open>RETURN_PTR_AFTER\<close>, for which the header
  documents \<open>INVALID_IDX\<close>.
\<close>

theorem ByteInBuffer_correct:
  assumes "holds m h xs"
  shows "ByteInBuffer default_dispatch m c h flags = Some (search_result flags (Base h) 1
    (if has_flag flags SEARCH_REVERSE then last_idx ((=) c) xs else first_idx ((=) c) xs))"
  using simple.forward [OF TrueI assms] byte_reverse [OF assms] by auto

definition ex_text :: mem where
  "ex_text = [0x10 \<mapsto> 5, 0x11 \<mapsto> 6, 0x12 \<mapsto> 5, 0x13 \<mapsto> 6, 0x14 \<mapsto> 7, 0x20 \<mapsto> 5, 0x21 \<mapsto> 6]"

definition ex_hay :: buffer where
  "ex_hay = Buffer 0x10 5 5"

definition ex_needle :: buffer where
  "ex_needle = Buffer 0x20 2 2"

lemma ex_text_holds: "holds ex_text ex_hay [5, 6, 5, 6, 7]" "holds ex_text ex_needle [5, 6]"
  by (simp_all add: holds_def ex_text_def ex_hay_def ex_needle_def)

theorem ByteInBuffer_correct_witness:
  "ByteInBuffer default_dispatch ex_text 6 ex_hay (RETURN_IDX_FIND OR SEARCH_REVERSE) = Some 3
   \<and> ByteInBuffer default_dispatch ex_text 6 ex_hay RETURN_PTR_AFTER = Some 0x12"
proof -
  have "last_idx ((=) 6) [5, 6, 5, 6, 7] = Some 3" "first_idx ((=) 6) [5, 6, 5, 6, 7 :: u8] = Some 1"
    by (simp_all add: last_idx_def first_idx_def upt_rec)
  then show ?thesis
    using ByteInBuffer_correct [OF ex_text_holds(1), of 6 "RETURN_IDX_FIND OR SEARCH_REVERSE"]
      ByteInBuffer_correct [OF ex_text_holds(1), of 6 RETURN_PTR_AFTER]
    by (simp add: search_result_def flag_defs ex_hay_def)
qed

text \<open>
  C21: \<open>BufferInBuffer\<close>, for a needle that is not empty, returns under every combination of flags the
  first match of the needle (the last one with \<open>SEARCH_REVERSE\<close>), in the same conventions: after the
  match is the offset, or the pointer, of the match plus the length of the needle (435 for a needle of 35
  bytes found at 400, where the header says 436), and 0 is the result of \<open>RETURN_PTR_AFTER\<close> without a match,
  where the header says \<open>INVALID_IDX\<close>.
\<close>

theorem BufferInBuffer_correct:
  assumes "holds m n ns" "ns \<noteq> []" "holds m h hs"
  shows "BufferInBuffer default_dispatch m n h flags = Some (search_result flags (Base h) (WriteCur n)
    (if has_flag flags SEARCH_REVERSE then last_match ns hs else first_match ns hs))"
  using simple.match_forward [OF TrueI assms] match_reverse [OF assms] by auto

theorem BufferInBuffer_correct_witness:
  "BufferInBuffer default_dispatch ex_text ex_needle ex_hay RETURN_IDX_AFTER = Some 2
   \<and> BufferInBuffer default_dispatch ex_text ex_needle ex_hay (RETURN_IDX_FIND OR SEARCH_REVERSE) = Some 2"
proof -
  have "first_match [5, 6] [5, 6, 5, 6, 7 :: u8] = Some 0"
    "last_match [5, 6] [5, 6, 5, 6, 7 :: u8] = Some 2"
    by (simp_all add: first_match_def last_match_def match_at_def upt_rec)
  then show ?thesis
    using BufferInBuffer_correct [OF ex_text_holds(2) _ ex_text_holds(1), of RETURN_IDX_AFTER]
      BufferInBuffer_correct [OF ex_text_holds(2) _ ex_text_holds(1),
        of "RETURN_IDX_FIND OR SEARCH_REVERSE"]
    by (simp add: search_result_def flag_defs ex_needle_def)
qed

text \<open>
  \<open>EqualBuffers\<close>, with its shortcuts on the lengths and on the first and last bytes, decides
  equality of the contents.
\<close>

theorem EqualBuffers_correct:
  assumes "holds m A xs" "holds m B ys"
  shows "EqualBuffers m A B = Some (xs = ys)"
  using assms by (rule EqualBuffers_eq)

theorem EqualBuffers_correct_witness:
  "EqualBuffers ex_text (Buffer 0x12 2 0) ex_needle = Some True
   \<and> EqualBuffers ex_text ex_hay ex_needle = Some False"
proof -
  have "holds ex_text (Buffer 0x12 2 0) [5, 6]" by (simp add: holds_def ex_text_def)
  from EqualBuffers_correct [OF this ex_text_holds(2)] EqualBuffers_correct [OF ex_text_holds]
  show ?thesis by simp
qed

text \<open>
  \<open>CompareBuffers\<close> returns the first index below \<open>n\<close> at which the buffers differ, as a
  boolean, an index or a pointer into the first, and \<open>n\<close> when there is none. It bounds \<open>n\<close> by
  nothing: the contract needs \<open>n\<close> bytes of content in both.
\<close>

theorem CompareBuffers_correct:
  assumes "holds m A xs" "holds m B ys" "unat n \<le> length xs" "unat n \<le> length ys"
  shows "CompareBuffers m A B n flag =
    Some (if has_flag flag RETURN_BOOL then of_bool (take (unat n) xs = take (unat n) ys)
          else if has_flag flag RETURN_IDX_DIFF then of_nat (first_diff xs ys (unat n))
          else Base A + of_nat (first_diff xs ys (unat n)))"
proof -
  have at: "bytes_at m (Base A) xs" "bytes_at m (Base B) ys" using assms by (simp_all add: holds_def)
  have "first_diff xs ys (unat n) = unat n \<longleftrightarrow> take (unat n) xs = take (unat n) ys"
    using assms(3,4) by (auto simp: first_diff_eq_n list_eq_iff_nth_eq)
  then show ?thesis
    unfolding CompareBuffers_def CompareBool_def CompareIdx_eq [OF at assms(3,4)]
      ComparePtrSimple_eq [OF at assms(3,4)]
    by (simp add: of_nat_first_diff)
qed

theorem CompareBuffers_correct_witness:
  "CompareBuffers ex_text ex_hay (Buffer 0x12 3 0) 3 RETURN_IDX_DIFF = Some 2"
proof -
  have "holds ex_text (Buffer 0x12 3 0) [5, 6, 7]" by (simp add: holds_def ex_text_def)
  moreover have "first_diff [5, 6, 5, 6, 7] [5, 6, 7 :: u8] 3 = 2"
    by (simp add: first_diff_def upt_rec)
  ultimately show ?thesis
    using CompareBuffers_correct [OF ex_text_holds(1), of "Buffer 0x12 3 0" "[5, 6, 7]" 3]
    by (simp add: flag_defs)
qed

text \<open>
  C28: \<open>ReplaceByteInBuffer\<close>, when the two bytes differ, terminates, replaces every occurrence of the
  old byte, and changes nothing else, inside or outside the buffer.
\<close>

theorem ReplaceByteInBuffer_correct:
  assumes "holds m b xs" "old \<noteq> new"
  shows "\<exists>m'. ReplaceByteInBuffer default_dispatch m old new b = Some m'
    \<and> holds m' b (map (subst_byte old new) xs)
    \<and> (\<forall>q. q \<notin> region (Base b) (length xs) \<longrightarrow> m' q = m q)"
  using simple.replace [OF TrueI assms] .

theorem ReplaceByteInBuffer_correct_witness:
  "\<exists>m'. ReplaceByteInBuffer default_dispatch ex_text 5 9 ex_hay = Some m'
    \<and> holds m' ex_hay [9, 6, 9, 6, 7]"
  using ReplaceByteInBuffer_correct [OF ex_text_holds(1), of 5 9] by (auto simp: subst_byte_def)

text \<open>
  \<open>ReplaceByteInBuffer\<close> with twice the same byte never returns when that byte occurs: the loop
  resumes at the byte it has just written and finds it again.
\<close>

theorem ReplaceByteInBuffer_same_diverges:
  assumes "holds m b xs" "c \<in> set xs"
  shows "ReplaceByteInBuffer default_dispatch m c c b = None"
  using simple.replace_same [OF _ TrueI assms(1), of c] assms(2)
  by (cases "ReplaceByteInBuffer default_dispatch m c c b") auto

theorem ReplaceByteInBuffer_same_diverges_witness:
  "ReplaceByteInBuffer default_dispatch ex_text 7 7 ex_hay = None"
  using ReplaceByteInBuffer_same_diverges [OF ex_text_holds(1), of 7] by simp

text \<open>
  An empty needle makes \<open>BufferInBuffer\<close> read the byte before the needle: with nothing mapped
  there, and equal first bytes, the search has no defined result.
\<close>

theorem BufferInBuffer_empty_needle:
  assumes "WriteCur n = 0" "WriteCur h \<noteq> - 1" "m (Base h) = m (Base n)" "m (Base n - 1) = None"
  shows "BufferInBuffer default_dispatch m n h RETURN_IDX_FIND = None"
proof -
  have "NeedleAt m n (Base h) 0 = None"
    using assms by (auto simp: NeedleAt_def split: bind_splits)
  moreover have "0 < WriteCur h + 1"
    using assms(2) by (simp add: word_gt_0 eq_neg_iff_add_eq_0)
  ultimately have "for_find 0 (WriteCur h + 1) (NeedleAt m n (Base h)) = None"
    by (subst for_find.simps) simp
  then show ?thesis
    using assms(1)
    by (simp add: BufferInBuffer_defs flag_defs default_dispatch_def BufferInBufferIdxSimple_def)
qed

theorem BufferInBuffer_empty_needle_witness:
  "BufferInBuffer default_dispatch ex_text (Buffer 0x20 0 0) ex_hay RETURN_IDX_FIND = None"
  using BufferInBuffer_empty_needle [of "Buffer 0x20 0 0" ex_hay ex_text]
  by (simp add: ex_text_def ex_hay_def)

end
