(* ===== verification/Simd.thy ===== *)
theory Simd
  imports Query
begin

text \<open>
  The x86-64 searches of \<open>src/tinybase-memory.c\<close>, lines 450 to 768, and \<open>InitBuffersArch\<close>, which
  redirects the function pointers of the portable searches to them. A vector register is the list
  of its bytes; the intrinsics used are the loads (\<open>_mm_load_si128\<close> wants an aligned address),
  the comparison of bytes and \<open>movemask\<close>. The lemmas show that the byte searches and the SSE3
  search of a run of bytes implement the interface of \<open>Query\<close>, hence the same results as the
  portable loops; the AVX2 search of a run of bytes does not, and the properties say where.
\<close>

unbundle bit_operations_syntax

section \<open>Intrinsics\<close>

datatype simd = SSE2 | AVX2

definition XMM128_SIZE :: usz where "XMM128_SIZE = 0x10"
definition XMM256_SIZE :: usz where "XMM256_SIZE = 0x20"

definition xmm_size :: "simd \<Rightarrow> usz" where
  "xmm_size r = (case r of SSE2 \<Rightarrow> XMM128_SIZE | AVX2 \<Rightarrow> XMM256_SIZE)"

definition loadu :: "simd \<Rightarrow> mem \<Rightarrow> ptr \<Rightarrow> u8 list option" where
  "loadu r m p = load_bytes m p (unat (xmm_size r))"

definition load_si128 :: "mem \<Rightarrow> ptr \<Rightarrow> u8 list option" where
  "load_si128 m p = (if p AND 0xF = 0 then loadu SSE2 m p else None)"

text \<open>The loads of the byte searches: aligned for SSE2, unaligned for AVX2.\<close>

definition chunk :: "simd \<Rightarrow> mem \<Rightarrow> ptr \<Rightarrow> u8 list option" where
  "chunk r m p = (case r of SSE2 \<Rightarrow> load_si128 m p | AVX2 \<Rightarrow> loadu AVX2 m p)"

text \<open>\<open>movemask_epi8(cmpeq_epi8(set1_epi8(c), x))\<close>.\<close>

definition cmpeq_movemask :: "u8 \<Rightarrow> u8 list \<Rightarrow> u32" where
  "cmpeq_movemask c bs = horner_sum of_bool 2 (map ((=) c) bs)"

text \<open>\<open>memcmp(p, q, n) == 0\<close>.\<close>

definition memcmp_eq :: "mem \<Rightarrow> ptr \<Rightarrow> ptr \<Rightarrow> usz \<Rightarrow> bool option" where
  "memcmp_eq m p q n =
     do { xs \<leftarrow> load_bytes m p (unat n); ys \<leftarrow> load_bytes m q (unat n); Some (xs = ys) }"

text \<open>\<open>(isz)p - (isz)q\<close>, a signed subtraction.\<close>

definition ptr_diff :: "ptr \<Rightarrow> ptr \<Rightarrow> usz option" where
  "ptr_diff p q = map_option word_of_int (chk64 (sint p - sint q))"

section \<open>Search of a byte\<close>

lemma unat_minus_less: "k \<le> n \<Longrightarrow> 0 < k \<Longrightarrow> unat (n - k) < unat n" for n k :: usz
  by (simp add: unat_sub word_le_nat_alt word_less_nat_alt)

lemma xmm_size_pos [simp]: "0 < xmm_size r"
  by (cases r) (simp_all add: xmm_size_def XMM128_SIZE_def XMM256_SIZE_def)

function Chunk_loop :: "simd \<Rightarrow> mem \<Rightarrow> u8 \<Rightarrow> ptr \<Rightarrow> u32 \<Rightarrow> usz \<Rightarrow> (ptr \<times> u32 \<times> usz) option" where
  "Chunk_loop r m needle init bits remainingSize =
     (if remainingSize \<ge> xmm_size r \<and> bits = 0
      then do {
        bs \<leftarrow> chunk r m (init + xmm_size r);
        Chunk_loop r m needle (init + xmm_size r) (cmpeq_movemask needle bs)
          (remainingSize - xmm_size r)
      }
      else Some (init, bits, remainingSize))"
  by pat_completeness auto
termination
  by (relation "measure (\<lambda>(r, m, c, p, w, n). unat n)") (auto intro: unat_minus_less)

declare Chunk_loop.simps [simp del]

definition ByteInBufferIdxSIMD :: "simd \<Rightarrow> mem \<Rightarrow> u8 \<Rightarrow> buffer \<Rightarrow> usz option" where
  "ByteInBufferIdxSIMD r m needle haystack =
     do {
       (foundIdx, partialIdx, rest) \<leftarrow>
         (if WriteCur haystack > xmm_size r
          then do {
            let init = (0 - xmm_size r) AND Base haystack;
            bs \<leftarrow> chunk r m init;
            let offset = (xmm_size r - 1) AND Base haystack;
            let bits = cmpeq_movemask needle bs AND push_bit (unat offset) (NOT 0);
            let remainingSize = WriteCur haystack - (xmm_size r - offset);
            (init, bits, remainingSize) \<leftarrow> Chunk_loop r m needle init bits remainingSize;
            if bits \<noteq> 0
            then do {
              k \<leftarrow> GetFirstBitSet bits;
              d \<leftarrow> ptr_diff init (Base haystack);
              Some (d + word_of_int k, 0, haystack)
            }
            else do {
              d \<leftarrow> ptr_diff (init + xmm_size r) (Base haystack);
              Some (INVALID_IDX, d,
                haystack\<lparr>Base := init + xmm_size r, WriteCur := remainingSize\<rparr>)
            }
          }
          else Some (INVALID_IDX, 0, haystack));
       if foundIdx = INVALID_IDX
       then do {
         t \<leftarrow> for_find 0 (WriteCur rest)
                (\<lambda>idx. do { b \<leftarrow> m (Base rest + idx); Some (b = needle) });
         Some (case t of Some idx \<Rightarrow> idx + partialIdx | None \<Rightarrow> INVALID_IDX)
       }
       else Some foundIdx
     }"

definition ByteInBufferIdxAVX2 :: "mem \<Rightarrow> u8 \<Rightarrow> buffer \<Rightarrow> usz option" where
  "ByteInBufferIdxAVX2 = ByteInBufferIdxSIMD AVX2"

definition ByteInBufferIdxSSE2 :: "mem \<Rightarrow> u8 \<Rightarrow> buffer \<Rightarrow> usz option" where
  "ByteInBufferIdxSSE2 = ByteInBufferIdxSIMD SSE2"

section \<open>Search of a run of bytes\<close>

lemma clear_lowest_less:
  fixes w :: u32
  assumes "bit w i" "i < 32"
  shows "unat (w AND NOT (push_bit i 1)) < unat w"
proof -
  have "w AND NOT (push_bit i 1) = unset_bit i w"
    by (rule bit_word_eqI) (auto simp: bit_simps bit_1_iff)
  then have e: "w AND NOT (push_bit i 1) = w - 2 ^ i"
    using assms(1) by (simp add: unset_bit_eq)
  have "2 ^ i \<le> unat w" using assms(1) by (rule bit_imp_exp_le)
  moreover have "unat (2 ^ i :: u32) = 2 ^ i" using assms(2) by (simp add: unat_exp)
  moreover have "(0::nat) < 2 ^ i" by simp
  ultimately have "unat w - 2 ^ i < unat w" by linarith
  with \<open>2 ^ i \<le> unat w\<close> \<open>unat (2 ^ i :: u32) = 2 ^ i\<close> show ?thesis
    unfolding e by (simp add: unat_sub word_le_nat_alt)
qed

lemma first_bit_clear_less:
  assumes "GetFirstBitSet w = Some k" "ClearBit w k = Some w' \<or> FlipBit w k = Some w'"
  shows "unat w' < unat w"
proof -
  obtain i where i: "k = int i" "i < 32" "bit w i"
    using assms(1) by (auto simp: GetFirstBitSet_def builtin_ctz_Some)
  then have "w' = w AND NOT (push_bit i 1)"
    using assms(2) by (auto simp: ClearBit_eq FlipBit_eq)
  with clear_lowest_less [OF i(3,2)] show ?thesis by (simp only:)
qed

text \<open>
  The test of one candidate of a chunk, and the loop over the candidates, lowest bit first: the
  remaining length at the match, or \<open>None\<close> when no bit is left.
\<close>

definition Candidate_test ::
  "mem \<Rightarrow> buffer \<Rightarrow> u8 \<Rightarrow> ptr \<Rightarrow> usz \<Rightarrow> usz \<Rightarrow> bool option" where
  "Candidate_test m needle needleEnd haystackPtr tempRemaining matchIdx =
     (if tempRemaining \<ge> WriteCur needle
      then do {
        e \<leftarrow> m (haystackPtr + (matchIdx + WriteCur needle - 1));
        if e = needleEnd
        then EqualBuffers m (Buffer (haystackPtr + matchIdx) (WriteCur needle) 0) needle
        else Some False
      }
      else Some False)"

function Candidates :: "mem \<Rightarrow> buffer \<Rightarrow> u8 \<Rightarrow> ptr \<Rightarrow> usz \<Rightarrow> u32 \<Rightarrow> usz option option" where
  "Candidates m needle needleEnd haystackPtr haystackRemaining bits =
     (if bits \<noteq> 0
      then (case GetFirstBitSet bits of
          None \<Rightarrow> None
        | Some matchIdx \<Rightarrow>
            (let tempRemaining = haystackRemaining - word_of_int matchIdx in
             case Candidate_test m needle needleEnd haystackPtr tempRemaining
                    (word_of_int matchIdx) of
               None \<Rightarrow> None
             | Some True \<Rightarrow> Some (Some tempRemaining)
             | Some False \<Rightarrow>
                 (case ClearBit bits matchIdx of
                    None \<Rightarrow> None
                  | Some bits' \<Rightarrow>
                      Candidates m needle needleEnd haystackPtr haystackRemaining bits')))
      else Some None)"
  by pat_completeness auto
termination
  by (relation "measure (\<lambda>(m, n, e, p, r, w). unat w)") (auto intro: first_bit_clear_less)

declare Candidates.simps [simp del]

function SSE3_loop ::
  "mem \<Rightarrow> buffer \<Rightarrow> u8 \<Rightarrow> u8 \<Rightarrow> ptr \<Rightarrow> usz \<Rightarrow> (ptr \<times> usz + usz) option" where
  "SSE3_loop m needle firstChar needleEnd haystackPtr haystackRemaining =
     (if haystackRemaining \<ge> XMM128_SIZE \<and> haystackRemaining \<ge> WriteCur needle
      then do {
        bs \<leftarrow> loadu SSE2 m haystackPtr;
        r \<leftarrow> Candidates m needle needleEnd haystackPtr haystackRemaining (cmpeq_movemask firstChar bs);
        (case r of
           Some tempRemaining \<Rightarrow> Some (Inr tempRemaining)
         | None \<Rightarrow> SSE3_loop m needle firstChar needleEnd (haystackPtr + XMM128_SIZE)
                     (haystackRemaining - XMM128_SIZE))
      }
      else Some (Inl (haystackPtr, haystackRemaining)))"
  by pat_completeness auto
termination
  by (relation "measure (\<lambda>(m, n, f, e, p, r). unat r)")
    (auto intro: unat_minus_less simp: XMM128_SIZE_def)

declare SSE3_loop.simps [simp del]

text \<open>The scalar loop on what is left. With an empty needle it does not end by its own condition.\<close>

partial_function (option) SSE3_tail ::
  "mem \<Rightarrow> buffer \<Rightarrow> u8 \<Rightarrow> ptr \<Rightarrow> ptr \<Rightarrow> usz \<Rightarrow> usz option" where
  "SSE3_tail m needle needleEnd start haystackPtr haystackRemaining =
     (if haystackRemaining \<ge> WriteCur needle
      then do {
        h0 \<leftarrow> m haystackPtr; n0 \<leftarrow> m (Base needle);
        found \<leftarrow> (if h0 = n0
                  then do {
                    h1 \<leftarrow> m (haystackPtr + (WriteCur needle - 1));
                    if h1 = needleEnd
                    then EqualBuffers m (Buffer haystackPtr (WriteCur needle) 0) needle
                    else Some False
                  }
                  else Some False);
        if found then Some (haystackPtr - start)
        else SSE3_tail m needle needleEnd start (haystackPtr + 1) (haystackRemaining - 1)
      }
      else Some INVALID_IDX)"

definition BufferInBufferIdxSSE3 :: "mem \<Rightarrow> buffer \<Rightarrow> buffer \<Rightarrow> usz option" where
  "BufferInBufferIdxSSE3 m needle haystack =
     (if WriteCur haystack \<ge> WriteCur needle
      then do {
        needleEnd \<leftarrow> m (Base needle + (WriteCur needle - 1));
        firstChar \<leftarrow> m (Base needle);
        r \<leftarrow> SSE3_loop m needle firstChar needleEnd (Base haystack) (WriteCur haystack);
        (case r of
           Inr tempRemaining \<Rightarrow> Some (WriteCur haystack - tempRemaining)
         | Inl (haystackPtr, haystackRemaining) \<Rightarrow>
             SSE3_tail m needle needleEnd (Base haystack) haystackPtr haystackRemaining)
      }
      else Some INVALID_IDX)"

text \<open>
  The AVX2 search. As in the code, the last byte of the needle is compared with itself, so the
  candidates are those of the first byte, and both loops stop before the last position.
\<close>

function AVX2_candidates :: "mem \<Rightarrow> buffer \<Rightarrow> ptr \<Rightarrow> u32 \<Rightarrow> ptr option option" where
  "AVX2_candidates m needle p bits =
     (if bits \<noteq> 0
      then (case GetFirstBitSet bits of
          None \<Rightarrow> None
        | Some bitPos \<Rightarrow>
            (case memcmp_eq m (p + word_of_int bitPos) (Base needle) (WriteCur needle) of
               None \<Rightarrow> None
             | Some True \<Rightarrow> Some (Some (p + word_of_int bitPos))
             | Some False \<Rightarrow>
                 (case FlipBit bits bitPos of
                    None \<Rightarrow> None
                  | Some bits' \<Rightarrow> AVX2_candidates m needle p bits')))
      else Some None)"
  by pat_completeness auto
termination
  by (relation "measure (\<lambda>(m, n, p, w). unat w)") (auto intro: first_bit_clear_less)

declare AVX2_candidates.simps [simp del]

text \<open>
  The loop over chunks, from \<open>p\<close> to \<open>stop\<close>: \<open>Inr\<close> a match, \<open>Inl\<close> the pointer at the end. The
  pointer may pass the end of the address space, so the loop is a partial function.
\<close>

partial_function (option) AVX2_loop ::
  "mem \<Rightarrow> buffer \<Rightarrow> u8 \<Rightarrow> u8 \<Rightarrow> ptr \<Rightarrow> ptr \<Rightarrow> (ptr + ptr) option" where
  "AVX2_loop m needle firstByte lastByte stop p =
     (if p < stop
      then do {
        firstBlock \<leftarrow> loadu AVX2 m p;
        lastBlock \<leftarrow> loadu AVX2 m (p + (WriteCur needle - 1));
        let firstCmp = cmpeq_movemask firstByte firstBlock;
        let lastCmp = cmpeq_movemask lastByte (replicate 32 lastByte);
        r \<leftarrow> AVX2_candidates m needle p (firstCmp AND lastCmp);
        (case r of
           Some start \<Rightarrow> Some (Inr start)
         | None \<Rightarrow> AVX2_loop m needle firstByte lastByte stop (p + 32))
      }
      else Some (Inl p))"

partial_function (option) AVX2_tail :: "mem \<Rightarrow> buffer \<Rightarrow> ptr \<Rightarrow> ptr \<Rightarrow> ptr \<Rightarrow> usz option" where
  "AVX2_tail m needle start stop p =
     (if p < stop
      then do {
        h0 \<leftarrow> m p; n0 \<leftarrow> m (Base needle);
        found \<leftarrow> (if h0 = n0
                  then do {
                    h1 \<leftarrow> m (p + (WriteCur needle - 1));
                    n1 \<leftarrow> m (Base needle + (WriteCur needle - 1));
                    if h1 = n1 then memcmp_eq m p (Base needle) (WriteCur needle) else Some False
                  }
                  else Some False);
        if found then Some (p - start) else AVX2_tail m needle start stop (p + 1)
      }
      else Some INVALID_IDX)"

definition BufferInBufferIdxAVX2 :: "mem \<Rightarrow> buffer \<Rightarrow> buffer \<Rightarrow> usz option" where
  "BufferInBufferIdxAVX2 m needle haystack =
     (if WriteCur haystack \<ge> WriteCur needle
      then do {
        firstByte \<leftarrow> m (Base needle);
        lastByte \<leftarrow> m (Base needle + (WriteCur needle - 1));
        let stop = Base haystack + WriteCur haystack - WriteCur needle;
        r \<leftarrow> AVX2_loop m needle firstByte lastByte stop (Base haystack);
        (case r of
           Inr start \<Rightarrow> Some (start - Base haystack)
         | Inl p \<Rightarrow> AVX2_tail m needle (Base haystack) stop p)
      }
      else Some INVALID_IDX)"

section \<open>Redirection of the function pointers\<close>

text \<open>
  \<open>leaf1\<close> and \<open>leaf7\<close> are the CPUID arrays that \<open>LoadCPUArch\<close> fills; outside MSVC it leaves them
  as they are.
\<close>

definition InitBuffersArch :: "u32 list \<Rightarrow> u32 list \<Rightarrow> dispatch \<Rightarrow> dispatch" where
  "InitBuffersArch leaf1 leaf7 d =
     (let d = (if bit (leaf1 ! 3) 26 then d\<lparr>ByteInBufferIdx := ByteInBufferIdxSSE2\<rparr> else d);
          d = (if bit (leaf1 ! 2) 0 then d\<lparr>BufferInBufferIdx := BufferInBufferIdxSSE3\<rparr> else d)
      in (if bit (leaf7 ! 1) 5
          then d\<lparr>ByteInBufferIdx := ByteInBufferIdxAVX2, BufferInBufferIdx := BufferInBufferIdxAVX2\<rparr>
          else d))"

section \<open>The byte searches implement the interface\<close>

definition width :: "simd \<Rightarrow> nat" where
  "width r = (case r of SSE2 \<Rightarrow> 16 | AVX2 \<Rightarrow> 32)"

lemma xmm_size_width: "unat (xmm_size r) = width r" "of_nat (width r) = xmm_size r"
  by (cases r; simp add: xmm_size_def width_def XMM128_SIZE_def XMM256_SIZE_def)+

lemma width_bounds: "0 < width r" "width r \<le> 32"
  by (cases r; simp add: width_def)+

definition lg :: "simd \<Rightarrow> nat" where
  "lg r = (case r of SSE2 \<Rightarrow> 4 | AVX2 \<Rightarrow> 5)"

lemma xmm_size_lg: "xmm_size r = 2 ^ lg r" "- xmm_size r = NOT (mask (lg r))" "xmm_size r - 1 = mask (lg r)"
  by (cases r; simp add: xmm_size_def lg_def XMM128_SIZE_def XMM256_SIZE_def mask_numeral)+

lemma not_mask_split: "(NOT (mask k) AND p) + (mask k AND p) = p" for p :: ptr
proof -
  have "(NOT (mask k) AND p) AND (mask k AND p) = 0" by (rule bit_word_eqI) (auto simp: bit_simps)
  then have "(NOT (mask k) AND p) + (mask k AND p) = (NOT (mask k) AND p) OR (mask k AND p)"
    by (rule disjunctive_add_eq_or)
  also have "\<dots> = p" by (rule bit_word_eqI) (auto simp: bit_simps)
  finally show ?thesis .
qed

lemma aligned_iff: "- xmm_size r AND p = p \<longleftrightarrow> take_bit (lg r) p = 0"
  using not_mask_split [of "lg r" p]
  by (simp add: xmm_size_lg(2) take_bit_eq_mask and.commute [of p]) (metis add_0_right add_cancel_right_right)

text \<open>
  What the chunk loads need: addresses in the lower half of the address space, and every aligned
  chunk that meets the content mapped as a whole.
\<close>

definition low_half :: "buffer \<Rightarrow> bool" where
  "low_half h \<longleftrightarrow> unat (Base h) + unat (WriteCur h) + 32 \<le> 2 ^ 63"

definition chunks_ok :: "simd \<Rightarrow> mem \<Rightarrow> buffer \<Rightarrow> bool" where
  "chunks_ok r m h \<longleftrightarrow> low_half h \<and>
     (\<forall>i<WriteCur h. mapped m (- xmm_size r AND (Base h + i)) (width r))"

lemma mapped_dom_mono: "mapped m p n \<Longrightarrow> dom m \<subseteq> dom m' \<Longrightarrow> mapped m' p n"
  by (auto simp: mapped_dom)

lemma chunks_ok_Advance:
  assumes "chunks_ok r m h" "dom m \<subseteq> dom m'" "k \<le> WriteCur h"
  shows "chunks_ok r m' (AdvanceBuffer h k)"
proof -
  have w: "unat (WriteCur h - k) + unat k = unat (WriteCur h)"
    using assms(3) by (simp add: unat_sub word_le_nat_alt)
  then have "unat (Base h + k) = unat (Base h) + unat k"
    using assms(1) by (subst unat_add_lem [THEN iffD1]) (simp_all add: chunks_ok_def low_half_def)
  moreover have "mapped m' (- xmm_size r AND (Base h + k + i)) (width r)" if "i < WriteCur h - k" for i
  proof -
    have "unat (k + i) = unat k + unat i"
      using that w unat_lt_2p [of "WriteCur h"]
      by (subst unat_add_lem [THEN iffD1]) (simp_all add: word_less_nat_alt)
    then have "k + i < WriteCur h" using that w by (simp add: word_less_nat_alt)
    then have "mapped m (- xmm_size r AND (Base h + (k + i))) (width r)"
      using assms(1) by (simp add: chunks_ok_def)
    then show ?thesis using assms(2) by (simp add: mapped_dom_mono add.assoc)
  qed
  ultimately show ?thesis using assms(1) w by (simp add: chunks_ok_def low_half_def AdvanceBuffer_def)
qed

lemma sint_low_bounds: "unat p < 2 ^ 63 \<Longrightarrow> 0 \<le> sint p \<and> sint p < 2 ^ 63" for p :: ptr
proof -
  assume p: "unat p < 2 ^ 63"
  then have "int (unat p) < int (2 ^ 63)" by (simp only: of_nat_less_iff)
  with sint_low [OF p] show ?thesis by simp
qed

lemma ptr_diff_low:
  assumes "unat p < 2 ^ 63" "unat q < 2 ^ 63"
  shows "ptr_diff p q = Some (p - q)"
proof -
  have "chk64 (sint p - sint q) = Some (sint p - sint q)"
    using sint_low_bounds [OF assms(1)] sint_low_bounds [OF assms(2)] by (intro chk64_Some) linarith+
  moreover have "word_of_int (sint p - sint q) = p - q" by simp
  ultimately show ?thesis by (simp add: ptr_diff_def)
qed

lemma bit_movemask: "length bs \<le> 32 \<Longrightarrow> bit (cmpeq_movemask c bs) j \<longleftrightarrow> j < length bs \<and> bs ! j = c"
  by (auto simp: cmpeq_movemask_def bit_horner_sum_bit_word_iff nth_append)

lemma chunk_eq:
  assumes "- xmm_size r AND p = p" "bytes_at m p bs" "length bs = width r"
  shows "chunk r m p = Some bs"
proof -
  have l: "loadu r m p = Some bs"
    using assms(2,3) by (simp add: loadu_def load_bytes_at xmm_size_width)
  show ?thesis
  proof (cases r)
    case SSE2
    then have "p AND 15 = 0"
      using assms(1) by (simp add: aligned_iff) (simp add: lg_def take_bit_eq_mask mask_numeral)
    with l SSE2 show ?thesis by (simp add: chunk_def load_si128_def)
  next
    case AVX2
    with l show ?thesis by (simp add: chunk_def)
  qed
qed

text \<open>
  The loop invariant. \<open>e\<close> is the number of content bytes before the end of the current chunk; bit
  \<open>j\<close> of the mask says that byte \<open>j\<close> of the chunk is in the content and is the needle.
\<close>

definition chunk_inv ::
  "simd \<Rightarrow> buffer \<Rightarrow> u8 list \<Rightarrow> u8 \<Rightarrow> ptr \<Rightarrow> u32 \<Rightarrow> usz \<Rightarrow> nat \<Rightarrow> bool" where
  "chunk_inv r h xs c p w rem e \<longleftrightarrow>
     p + xmm_size r = Base h + of_nat e \<and> unat p \<le> unat (Base h) + length xs \<and> - xmm_size r AND p = p \<and> 0 < e \<and> e \<le> length xs \<and>
     unat rem = length xs - e \<and> c \<notin> set (take (e - width r) xs) \<and>
     (\<forall>j. bit w j \<longleftrightarrow> j < width r \<and> width r \<le> e + j \<and> xs ! (e + j - width r) = c)"

lemma align_next: "- xmm_size r AND p = p \<Longrightarrow> - xmm_size r AND (p + xmm_size r) = p + xmm_size r"
proof -
  assume "- xmm_size r AND p = p"
  then have t: "take_bit (lg r) p = 0" by (simp add: aligned_iff)
  have "push_bit (lg r) (drop_bit (lg r) p) + take_bit (lg r) p = p" by (rule bits_ident)
  with t have "p = push_bit (lg r) (drop_bit (lg r) p)" by simp
  then have "p + 2 ^ lg r = push_bit (lg r) (drop_bit (lg r) p + 1)"
    by (metis push_bit_add push_bit_of_1)
  also have "take_bit (lg r) \<dots> = 0" by (rule bit_word_eqI) (auto simp: bit_simps)
  finally have "take_bit (lg r) (p + xmm_size r) = 0" by (simp only: xmm_size_lg(1))
  then show ?thesis by (simp only: aligned_iff)
qed

lemma chunk_inv_0:
  assumes "chunk_inv r h xs c p 0 rem e"
  shows "c \<notin> set (take e xs)"
proof
  assume "c \<in> set (take e xs)"
  then obtain i where i: "i < e" "i < length xs" "xs ! i = c" by (auto simp: in_set_conv_nth)
  show False
  proof (cases "i < e - width r")
    case True
    then have "c \<in> set (take (e - width r) xs)" using i by (auto simp: in_set_conv_nth)
    with assms show ?thesis by (simp add: chunk_inv_def)
  next
    case False
    let ?j = "i + width r - e"
    have j: "?j < width r" "width r \<le> e + ?j" "e + ?j - width r = i" using False i(1) by auto
    have "\<not> (?j < width r \<and> width r \<le> e + ?j \<and> xs ! (e + ?j - width r) = c)"
      using assms unfolding chunk_inv_def by (metis bit_0_eq bot_apply bot_bool_def)
    then show ?thesis using j i(3) by simp
  qed
qed

lemma low_half_add:
  assumes "low_half h" "holds m h xs" "e \<le> length xs"
  shows "unat (Base h + of_nat e) = unat (Base h) + e" "unat (Base h + of_nat e) < 2 ^ 63"
proof -
  have "unat (of_nat e :: usz) = e"
    using assms(3) holds_bound [OF assms(2)] by (intro unat_offset) simp
  then show u: "unat (Base h + of_nat e) = unat (Base h) + e"
    using assms by (subst unat_add_lem [THEN iffD1]) (simp_all add: low_half_def holds_def)
  then show "unat (Base h + of_nat e) < 2 ^ 63" using assms by (simp add: low_half_def holds_def)
qed

lemma chunk_inv_step:
  assumes lo: "low_half h" and inv: "chunk_inv r h xs c p 0 rem e" and h: "holds m h xs" and n: "width r \<le> unat rem"
  shows "\<exists>bs. chunk r m (p + xmm_size r) = Some bs
    \<and> chunk_inv r h xs c (p + xmm_size r) (cmpeq_movemask c bs) (rem - xmm_size r) (e + width r)"
proof -
  let ?bs = "take (width r) (drop e xs)"
  have e: "e + width r \<le> length xs" using inv n by (auto simp: chunk_inv_def)
  have p: "p + xmm_size r = Base h + of_nat e" using inv by (simp add: chunk_inv_def)
  have al: "- xmm_size r AND (p + xmm_size r) = p + xmm_size r"
    by (rule align_next) (use inv in \<open>simp add: chunk_inv_def\<close>)
  have "bytes_at m (Base h + of_nat e) ?bs"
    using h e by (intro bytes_at_take bytes_at_drop) (auto simp: holds_def)
  then have "chunk r m (p + xmm_size r) = Some ?bs"
    using e p al by (intro chunk_eq) simp_all
  moreover have "unat (rem - xmm_size r) = unat rem - width r"
    using n by (simp add: unat_sub word_le_nat_alt xmm_size_width)
  moreover have "bit (cmpeq_movemask c ?bs) j \<longleftrightarrow> j < width r \<and> xs ! (e + j) = c" for j
    using e width_bounds(2) [of r] by (auto simp: bit_movemask)
  moreover have "xs ! (e + width r + j - width r) = xs ! (e + j)" for j
    by (simp add: add.commute add.left_commute)
  moreover have "unat (p + xmm_size r) \<le> unat (Base h) + length xs"
    unfolding p using low_half_add(1) [OF lo h, of e] e by simp
  ultimately show ?thesis
    using inv chunk_inv_0 [OF inv] e al
    by (auto simp: chunk_inv_def xmm_size_width add.assoc)
qed

lemma Chunk_loop_inv:
  assumes "low_half h" "chunk_inv r h xs c p w rem e" "holds m h xs"
  shows "\<exists>p' w' rem' e'. Chunk_loop r m c p w rem = Some (p', w', rem')
    \<and> chunk_inv r h xs c p' w' rem' e' \<and> (w' = 0 \<longrightarrow> unat rem' < width r)"
  using assms
proof (induction r m c p w rem arbitrary: e rule: Chunk_loop.induct)
  case (1 r m c p w rem)
  show ?case
  proof (cases "xmm_size r \<le> rem \<and> w = 0")
    case True
    then have "width r \<le> unat rem" by (simp add: word_le_nat_alt xmm_size_width)
    with True obtain bs where bs: "chunk r m (p + xmm_size r) = Some bs"
        "chunk_inv r h xs c (p + xmm_size r) (cmpeq_movemask c bs) (rem - xmm_size r) (e + width r)"
      using chunk_inv_step [of h r xs c p rem e m] "1.prems" by auto
    from "1.IH" [OF True bs(1) "1.prems"(1) bs(2) "1.prems"(3)] bs(1) True show ?thesis
      by (subst Chunk_loop.simps) simp
  next
    case False
    then have "Chunk_loop r m c p w rem = Some (p, w, rem)"
      by (subst Chunk_loop.simps) auto
    moreover have "w = 0 \<longrightarrow> unat rem < width r"
      using False by (auto simp: word_le_nat_alt xmm_size_width)
    ultimately show ?thesis using "1.prems"(2) by blast
  qed
qed

lemma chunk_inv_init:
  assumes ok: "chunks_ok r m h" and h: "holds m h xs" and big: "xmm_size r < WriteCur h"
  shows "\<exists>bs e. chunk r m (- xmm_size r AND Base h) = Some bs
    \<and> chunk_inv r h xs c (- xmm_size r AND Base h)
        (cmpeq_movemask c bs AND push_bit (unat ((xmm_size r - 1) AND Base h)) (NOT 0))
        (WriteCur h - (xmm_size r - ((xmm_size r - 1) AND Base h))) e"
proof -
  let ?p = "- xmm_size r AND Base h" and ?off = "(xmm_size r - 1) AND Base h"
  define o' where "o' = unat ?off"
  have "0 < WriteCur h" using big by (simp add: word_less_nat_alt)
  then have "mapped m ?p (width r)" using ok by (force simp: chunks_ok_def)
  then obtain bs where bs: "length bs = width r" "bytes_at m ?p bs" by (rule mapped_bytes_at)
  have al: "- xmm_size r AND ?p = ?p" by (simp flip: and.assoc)
  have sum: "?p + ?off = Base h"
    unfolding xmm_size_lg(2,3) by (rule not_mask_split)
  have "?off \<le> xmm_size r - 1" by (rule word_and_le2)
  then have o: "o' < width r"
    using unat_pred [of "xmm_size r"] by (simp add: o'_def word_le_nat_alt xmm_size_width)
  have off: "?off = of_nat o'" by (simp add: o'_def)
  have len: "width r < length xs"
    using big h by (simp add: word_less_nat_alt xmm_size_width holds_def)
  have size: "xmm_size r - ?off = of_nat (width r - o')"
    using o by (simp add: off xmm_size_width of_nat_diff)
  have "unat (of_nat (width r - o') :: usz) = width r - o'"
    using width_bounds(2) [of r] by (intro unat_offset) simp
  then have rem: "unat (WriteCur h - (xmm_size r - ?off)) = length xs - (width r - o')"
    unfolding size using len h by (subst unat_sub) (simp_all add: word_le_nat_alt holds_def)
  have bit: "bs ! j = xs ! (j - o')" if "o' \<le> j" "j < width r" for j
  proof -
    have "?p + of_nat j = Base h + of_nat (j - o')"
      using that(1) sum off by (simp add: of_nat_diff algebra_simps)
    moreover have "m (?p + of_nat j) = Some (bs ! j)"
      using that(2) bs by (intro bytes_at_nth) simp_all
    moreover have "m (Base h + of_nat (j - o')) = Some (xs ! (j - o'))"
      using that(2) len h by (intro bytes_at_nth) (simp_all add: holds_def)
    ultimately show ?thesis by (simp only: option.inject)
  qed
  have "bit (cmpeq_movemask c bs AND push_bit o' (NOT 0)) j
      \<longleftrightarrow> j < width r \<and> width r \<le> width r - o' + j \<and> xs ! (width r - o' + j - width r) = c" for j
    using bit [of j] o width_bounds(2) [of r] bs(1) by (auto simp: bit_simps bit_movemask)
  moreover have "?p + ?off + (xmm_size r - ?off) = Base h + of_nat (width r - o')"
    by (simp only: sum size)
  then have "?p + xmm_size r = Base h + of_nat (width r - o')" by simp
  moreover have "unat ?p \<le> unat (Base h)"
    using word_and_le1 [of "- xmm_size r" "Base h"] by (simp add: word_le_nat_alt)
  ultimately have "chunk_inv r h xs c ?p (cmpeq_movemask c bs AND push_bit o' (NOT 0))
      (WriteCur h - (xmm_size r - ?off)) (width r - o')"
    using al rem o len by (simp add: chunk_inv_def)
  moreover have "chunk r m ?p = Some bs" using al bs by (intro chunk_eq)
  ultimately show ?thesis unfolding o'_def by blast
qed

lemma first_idx_drop:
  assumes "c \<notin> set (take e xs)" "e \<le> length xs"
  shows "first_idx ((=) c) xs = map_option ((+) e) (first_idx ((=) c) (drop e xs))"
proof (cases "first_idx ((=) c) (drop e xs)")
  case None
  then have "c \<notin> set (take e xs @ drop e xs)" using assms(1) by (simp only: first_idx_None set_append) simp
  then have "first_idx ((=) c) xs = None" by (simp add: first_idx_None)
  with None show ?thesis by simp
next
  case (Some i)
  then have i: "i < length xs - e" "xs ! (e + i) = c" "c \<notin> set (take i (drop e xs))"
    using assms(2) by (simp_all add: first_idx_Some)
  have "take (e + i) xs = take e xs @ take i (drop e xs)" by (rule take_add)
  then have "first_idx ((=) c) xs = Some (e + i)" using i assms by (simp add: first_idx_Some)
  with Some show ?thesis by simp
qed

lemma byte_tail:
  assumes "holds m rest (drop e xs)" "c \<notin> set (take e xs)" "e \<le> length xs"
  shows "do {
      t \<leftarrow> for_find 0 (WriteCur rest) (\<lambda>idx. do { b \<leftarrow> m (Base rest + idx); Some (b = c) });
      Some (case t of Some idx \<Rightarrow> idx + of_nat e | None \<Rightarrow> INVALID_IDX)
    } = Some (idx_word (first_idx ((=) c) xs))"
proof -
  have "for_find 0 (WriteCur rest) (\<lambda>idx. do { b \<leftarrow> m (Base rest + idx); Some (b = c) })
      = Some (map_option of_nat (List.find (\<lambda>i. c = drop e xs ! i) [0..<unat (WriteCur rest)]))"
    using holds_nth [OF assms(1)] by (intro for_find_0) auto
  moreover have "length (drop e xs) = unat (WriteCur rest)" using assms(1) by (simp only: holds_def)
  ultimately have "for_find 0 (WriteCur rest) (\<lambda>idx. do { b \<leftarrow> m (Base rest + idx); Some (b = c) })
      = Some (map_option of_nat (first_idx ((=) c) (drop e xs)))"
    by (simp add: first_idx_def)
  then show ?thesis
    unfolding first_idx_drop [OF assms(2,3)]
    by (simp add: idx_word_def add.commute split: option.split)
qed

lemma ByteInBufferIdxSIMD_eq:
  assumes ok: "chunks_ok r m h" and h: "holds m h xs"
  shows "ByteInBufferIdxSIMD r m c h = Some (idx_word (first_idx ((=) c) xs))"
proof (cases "xmm_size r < WriteCur h")
  case False
  have "holds m h (drop 0 xs)" using h by simp
  from byte_tail [OF this, of c] False show ?thesis
    by (simp add: ByteInBufferIdxSIMD_def cong: option.case_cong)
next
  case True
  let ?p = "- xmm_size r AND Base h"
  have lo: "low_half h" using ok by (simp add: chunks_ok_def)
  obtain bs e p w rem where ch: "chunk r m ?p = Some bs"
    and loop: "Chunk_loop r m c ?p
        (cmpeq_movemask c bs AND push_bit (unat ((xmm_size r - 1) AND Base h)) (NOT 0))
        (WriteCur h - (xmm_size r - ((xmm_size r - 1) AND Base h))) = Some (p, w, rem)"
    and inv: "chunk_inv r h xs c p w rem e"
    using chunk_inv_init [OF ok h True, of c] Chunk_loop_inv [OF lo _ h] by meson
  have e: "e \<le> length xs" "p + xmm_size r = Base h + of_nat e" "unat rem = length xs - e"
    using inv by (simp_all add: chunk_inv_def)
  show ?thesis
  proof (cases "w = 0")
    case w: True
    let ?rest = "h\<lparr>Base := p + xmm_size r, WriteCur := rem\<rparr>"
    have "bytes_at m (Base h + of_nat e) (drop e xs)"
      using h e(1) by (intro bytes_at_drop) (auto simp: holds_def)
    then have rest: "holds m ?rest (drop e xs)" using e by (simp add: holds_def)
    have nc: "c \<notin> set (take e xs)" using inv w by (intro chunk_inv_0 [of r h xs c p rem e]) simp
    have "ptr_diff (p + xmm_size r) (Base h) = Some (of_nat e)"
      using ptr_diff_low [of "p + xmm_size r" "Base h"] low_half_add(2) [OF lo h e(1)]
        low_half_add(2) [OF lo h, of 0] by (simp add: e(2))
    then show ?thesis
      using byte_tail [OF rest nc e(1)] True ch loop w
      unfolding ByteInBufferIdxSIMD_def by (simp add: Let_def)
  next
    case w: False
    obtain k where k: "builtin_ctz w = Some k" using w builtin_ctz_None [of w] by blast
    then have bits: "bit w k" "\<forall>j<k. \<not> bit w j" by (simp_all add: builtin_ctz_Some)
    then have i: "k < width r" "width r \<le> e + k" "xs ! (e + k - width r) = c"
      using inv by (auto simp: chunk_inv_def)
    let ?i = "e + k - width r"
    have "c \<notin> set (take ?i xs)"
    proof
      assume "c \<in> set (take ?i xs)"
      then obtain j where j: "j < ?i" "j < length xs" "xs ! j = c" by (auto simp: in_set_conv_nth)
      show False
      proof (cases "j < e - width r")
        case True
        then have "c \<in> set (take (e - width r) xs)" using j by (auto simp: in_set_conv_nth)
        with inv show False by (simp add: chunk_inv_def)
      next
        case False
        let ?j = "j + width r - e"
        have "?j < k" "?j < width r" "width r \<le> e + ?j" "e + ?j - width r = j"
          using False j(1) i by auto
        then have "bit w ?j" using inv j(3) by (simp add: chunk_inv_def)
        with bits(2) \<open>?j < k\<close> show False by simp
      qed
    qed
    then have fi: "first_idx ((=) c) xs = Some ?i"
      using i e(1) by (simp add: first_idx_Some)
    have pd: "ptr_diff p (Base h) = Some (p - Base h)"
      using inv lo h by (intro ptr_diff_low) (auto simp: chunk_inv_def low_half_def holds_def)
    have "p - Base h + of_nat k = of_nat ?i"
      using e(2) i(2) by (simp add: of_nat_diff xmm_size_width algebra_simps)
    moreover have "(of_nat ?i :: usz) \<noteq> INVALID_IDX"
      using first_idx_less [OF fi] holds_bound [OF h] by (intro of_nat_ne_INVALID) simp
    ultimately show ?thesis
      using True ch loop w pd k fi
      unfolding ByteInBufferIdxSIMD_def by (simp add: Let_def GetFirstBitSet_def)
  qed
qed

section \<open>The SSE3 search of a run of bytes\<close>

text \<open>What the code reads to test position \<open>i\<close>, when the needle fits there.\<close>

lemma test_at:
  assumes n: "holds m n ns" "ns \<noteq> []" and h: "holds m h hs" and fit: "i + length ns \<le> length hs"
  shows "m (Base h + of_nat i) = Some (hs ! i)"
    and "m (Base h + of_nat i + (WriteCur n - 1)) = Some (hs ! (i + length ns - 1))"
    and "EqualBuffers m (Buffer (Base h + of_nat i) (WriteCur n) 0) n = Some (match_at ns hs i)"
proof -
  have len: "unat (WriteCur n) = length ns" using n by (simp add: holds_def)
  then have "0 < WriteCur n" using n(2) by (cases ns) (auto simp: word_gt_0)
  from unat_pred [OF this] have last: "unat (WriteCur n - 1) = length ns - 1" by (simp add: len)
  have pos: "0 < length ns" using n(2) by simp
  have at: "bytes_at m (Base h) hs" using h by (simp add: holds_def)
  then show "m (Base h + of_nat i) = Some (hs ! i)"
    using fit pos by (intro bytes_at_nth) linarith+
  have "m (Base h + of_nat (i + (length ns - 1))) = Some (hs ! (i + (length ns - 1)))"
    using at by (rule bytes_at_nth) (use fit pos in linarith)
  moreover have "(of_nat (length ns - 1) :: usz) = WriteCur n - 1"
    by (simp only: last [symmetric] of_nat_unat ucast_id)
  ultimately show "m (Base h + of_nat i + (WriteCur n - 1)) = Some (hs ! (i + length ns - 1))"
    using pos by (simp add: algebra_simps)
  have u: "unat (of_nat i :: usz) = i"
    using fit holds_bound [OF h] by (intro unat_offset) simp
  have "holds m (Buffer (Base h + of_nat i) (WriteCur n) 0) (take (unat (WriteCur n)) (drop i hs))"
    using holds_sub [OF h, of "of_nat i" "WriteCur n" 0] fit by (simp add: u len)
  from EqualBuffers_eq [OF this n(1)]
  show "EqualBuffers m (Buffer (Base h + of_nat i) (WriteCur n) 0) n = Some (match_at ns hs i)"
    by (simp add: match_at_def len)
qed

lemma match_at_ends:
  assumes "match_at ns hs i" "ns \<noteq> []"
  shows "hs ! i = ns ! 0" "hs ! (i + length ns - 1) = ns ! (length ns - 1)"
proof -
  have all: "\<forall>j<length ns. hs ! (i + j) = ns ! j"
    using match_at_nth [OF match_at_length [OF assms]] assms(1) by blast
  then show "hs ! i = ns ! 0" using assms(2) by force
  have "i + length ns - 1 = i + (length ns - 1)" using assms(2) by (cases ns) simp_all
  then show "hs ! (i + length ns - 1) = ns ! (length ns - 1)" using all assms(2) by simp
qed

lemma needle_last:
  fixes n :: buffer
  assumes "holds m n ns" "ns \<noteq> []"
  shows "m (Base n + (WriteCur n - 1)) = Some (ns ! (length ns - 1))"
  using test_at(2) [OF assms assms(1), of 0] by simp

lemma Candidates_eq:
  assumes n: "holds m n ns" "ns \<noteq> []" and h: "holds m h hs"
    and k: "k \<le> length hs" "unat rem = length hs - k" and w: "\<forall>j. bit w j \<longrightarrow> k + j < length hs"
  shows "Candidates m n (ns ! (length ns - 1)) (Base h + of_nat k) rem w
    = Some (map_option (\<lambda>j. rem - of_nat j)
        (List.find (\<lambda>j. bit w j \<and> match_at ns hs (k + j)) [0..<32]))"
  using w
proof (induction "unat w" arbitrary: w rule: less_induct)
  case less
  show ?case
  proof (cases "w = 0")
    case True
    then show ?thesis by (subst Candidates.simps) (simp add: find_None_iff)
  next
    case False
    then obtain j where j: "builtin_ctz w = Some j" using builtin_ctz_None [of w] by blast
    then have bits: "j < 32" "bit w j" "\<forall>i<j. \<not> bit w i" by (simp_all add: builtin_ctz_Some)
    let ?w = "w AND NOT (push_bit j 1)"
    have cb: "ClearBit w (int j) = Some ?w" using bits(1) by (simp add: ClearBit_eq)
    have lt: "unat ?w < unat w" using clear_lowest_less [OF bits(2,1)] .
    have bw: "bit ?w i \<longleftrightarrow> bit w i \<and> i \<noteq> j" for i
      by (auto simp: bit_simps bit_1_iff dest: bit_imp_le_length)
    have jl: "k + j < length hs" using less.prems bits(2) by blast
    have uj: "unat (of_nat j :: usz) = j" using bits(1) by (intro unat_offset) simp
    have ur: "unat (rem - of_nat j) = length hs - k - j"
      using jl k(2) uj by (simp add: unat_sub word_le_nat_alt)
    have fits: "WriteCur n \<le> rem - of_nat j \<longleftrightarrow> k + j + length ns \<le> length hs"
      using n(1) ur jl by (auto simp: word_le_nat_alt holds_def)
    have adr: "Base h + of_nat k + (of_nat j + WriteCur n - 1) = Base h + of_nat (k + j) + (WriteCur n - 1)"
      "Base h + of_nat k + of_nat j = Base h + of_nat (k + j)"
      by simp_all
    have test: "Candidate_test m n (ns ! (length ns - 1)) (Base h + of_nat k) (rem - of_nat j) (of_nat j)
        = Some (match_at ns hs (k + j))"
      unfolding Candidate_test_def fits adr
      using test_at(2,3) [OF n h, of "k + j"] match_at_ends [OF _ n(2), of hs "k + j"]
        match_at_length [OF _ n(2), of hs "k + j"]
      by auto
    show ?thesis
    proof (cases "match_at ns hs (k + j)")
      case True
      then have "List.find (\<lambda>j. bit w j \<and> match_at ns hs (k + j)) [0..<32] = Some j"
        unfolding find_upt_Some using bits by blast
      then show ?thesis
        using False True j test
        by (subst Candidates.simps) (simp add: GetFirstBitSet_def Let_def)
    next
      case no: False
      have "Candidates m n (ns ! (length ns - 1)) (Base h + of_nat k) rem w
          = Candidates m n (ns ! (length ns - 1)) (Base h + of_nat k) rem ?w"
        using False no j test cb
        by (subst Candidates.simps) (simp add: GetFirstBitSet_def Let_def)
      also have "\<dots> = Some (map_option (\<lambda>j. rem - of_nat j)
          (List.find (\<lambda>j. bit ?w j \<and> match_at ns hs (k + j)) [0..<32]))"
        using less.prems bw by (intro less.hyps [OF lt]) blast
      also have "(\<lambda>i. bit ?w i \<and> match_at ns hs (k + i)) = (\<lambda>i. bit w i \<and> match_at ns hs (k + i))"
        using bw no by auto
      finally show ?thesis .
    qed
  qed
qed

lemma first_matchI:
  "match_at ns hs i \<Longrightarrow> i \<le> length hs \<Longrightarrow> (\<And>j. j < i \<Longrightarrow> \<not> match_at ns hs j) \<Longrightarrow>
     first_match ns hs = Some i"
  unfolding first_match_def find_upt_Some by simp

lemma SSE3_loop_eq:
  assumes n: "holds m n ns" "ns \<noteq> []" and h: "holds m h hs"
    and k: "k \<le> length hs" "unat rem = length hs - k" "\<forall>i<k. \<not> match_at ns hs i"
  shows "(\<exists>i. SSE3_loop m n (ns ! 0) (ns ! (length ns - 1)) (Base h + of_nat k) rem
        = Some (Inr (WriteCur h - of_nat i)) \<and> first_match ns hs = Some i)
    \<or> (\<exists>k' rem'. SSE3_loop m n (ns ! 0) (ns ! (length ns - 1)) (Base h + of_nat k) rem
        = Some (Inl (Base h + of_nat k', rem')) \<and> k' \<le> length hs \<and> unat rem' = length hs - k'
        \<and> (\<forall>i<k'. \<not> match_at ns hs i))"
  using k
proof (induction "unat rem" arbitrary: k rem rule: less_induct)
  case less
  let ?L = "SSE3_loop m n (ns ! 0) (ns ! (length ns - 1))"
  have size: "unat XMM128_SIZE = 16" "of_nat 16 = XMM128_SIZE" by (simp_all add: XMM128_SIZE_def)
  show ?case
  proof (cases "XMM128_SIZE \<le> rem \<and> WriteCur n \<le> rem")
    case False
    then have "?L (Base h + of_nat k) rem = Some (Inl (Base h + of_nat k, rem))"
      by (subst SSE3_loop.simps) auto
    with less.prems show ?thesis by blast
  next
    case True
    let ?bs = "take 16 (drop k hs)" and ?w = "cmpeq_movemask (ns ! 0) (take 16 (drop k hs))"
    have fit: "k + 16 \<le> length hs"
      using True less.prems(1,2) by (auto simp: word_le_nat_alt size)
    have "bytes_at m (Base h + of_nat k) ?bs"
      using h less.prems(1) by (intro bytes_at_take bytes_at_drop) (auto simp: holds_def)
    then have ld: "loadu SSE2 m (Base h + of_nat k) = Some ?bs"
      using fit by (simp add: loadu_def xmm_size_def size load_bytes_at)
    have bw: "bit ?w j \<longleftrightarrow> j < 16 \<and> hs ! (k + j) = ns ! 0" for j
      using fit by (auto simp: bit_movemask)
    then have "\<forall>j. bit ?w j \<longrightarrow> k + j < length hs" using fit by auto
    note cand = Candidates_eq [OF n h less.prems(1,2) this]
    show ?thesis
    proof (cases "List.find (\<lambda>j. bit ?w j \<and> match_at ns hs (k + j)) [0..<32]")
      case (Some j)
      then have j: "bit ?w j" "match_at ns hs (k + j)" "\<forall>i<j. \<not> (bit ?w i \<and> match_at ns hs (k + i))"
        by (auto simp: find_upt_Some)
      have no: "\<not> match_at ns hs i" if "i < k + j" for i
      proof (cases "i < k")
        case True then show ?thesis using less.prems(3) by simp
      next
        case False
        then have "i - k < j" "k + (i - k) = i" using that by simp_all
        with j(3) bw [of "i - k"] bw [of j] j(1) match_at_ends(1) [OF _ n(2), of hs i] show ?thesis by auto
      qed
      have "k + j < length hs" using j(1) bw fit by auto
      then have "first_match ns hs = Some (k + j)"
        using j(2) no by (intro first_matchI) auto
      moreover have "rem = WriteCur h - of_nat k"
      proof -
        have "unat (of_nat k :: usz) = k"
          using less.prems(1) holds_bound [OF h] by (intro unat_offset) simp
        then show ?thesis
          using less.prems(1,2) h
          by (simp add: word_unat_eq_iff unat_sub word_le_nat_alt holds_def)
      qed
      then have "rem - of_nat j = WriteCur h - of_nat (k + j)" by simp
      moreover have "?L (Base h + of_nat k) rem = Some (Inr (rem - of_nat j))"
        using True ld cand Some by (subst SSE3_loop.simps) simp
      ultimately show ?thesis by metis
    next
      case None
      have "?L (Base h + of_nat k) rem = ?L (Base h + of_nat (k + 16)) (rem - XMM128_SIZE)"
        using True ld cand None by (subst SSE3_loop.simps) (simp add: XMM128_SIZE_def add.assoc)
      moreover have u: "unat (rem - XMM128_SIZE) = length hs - (k + 16)"
        using True less.prems(2) by (simp add: unat_sub size)
      moreover have "\<not> match_at ns hs i" if "i < k + 16" for i
      proof (cases "i < k")
        case True then show ?thesis using less.prems(3) by simp
      next
        case False
        then have "i - k < 16" "k + (i - k) = i" using that by simp_all
        with None bw [of "i - k"] match_at_ends(1) [OF _ n(2), of hs i] show ?thesis
          by (force simp: find_None_iff)
      qed
      moreover have "unat (rem - XMM128_SIZE) < unat rem" using u less.prems(2) fit by simp
      ultimately show ?thesis
        using less.hyps [of "rem - XMM128_SIZE" "k + 16"] fit by simp
    qed
  qed
qed

lemma SSE3_tail_eq:
  assumes n: "holds m n ns" "ns \<noteq> []" and h: "holds m h hs"
    and k: "k \<le> length hs" "unat rem = length hs - k" "\<forall>i<k. \<not> match_at ns hs i"
  shows "SSE3_tail m n (ns ! (length ns - 1)) (Base h) (Base h + of_nat k) rem
    = Some (idx_word (first_match ns hs))"
  using k
proof (induction "unat rem" arbitrary: k rem rule: less_induct)
  case less
  have fits: "WriteCur n \<le> rem \<longleftrightarrow> k + length ns \<le> length hs"
    using n(1) less.prems by (auto simp: word_le_nat_alt holds_def)
  show ?case
  proof (cases "WriteCur n \<le> rem")
    case False
    then have "\<not> match_at ns hs i" for i
      using less.prems(3) match_at_length [OF _ n(2), of hs i] fits by (cases "i < k") auto
    then have "first_match ns hs = None" by (simp add: first_match_def find_None_iff)
    with False show ?thesis by (subst SSE3_tail.simps) simp
  next
    case True
    then have fit: "k + length ns \<le> length hs" using fits by simp
    have n0: "m (Base n) = Some (ns ! 0)" using test_at(1) [OF n n(1), of 0] by simp
    note t = test_at [OF n h fit] match_at_ends [OF _ n(2), of hs k]
    show ?thesis
    proof (cases "match_at ns hs k")
      case match: True
      then have "first_match ns hs = Some k"
        using less.prems(1,3) by (intro first_matchI) auto
      then show ?thesis using True t n0 match by (subst SSE3_tail.simps) simp
    next
      case False
      have "0 < length ns" using n(2) by simp
      then have "k < length hs" using fit by linarith
      then have "0 < rem" using less.prems(2) by (simp add: word_less_nat_alt)
      note u = unat_pred [OF this]
      have "SSE3_tail m n (ns ! (length ns - 1)) (Base h) (Base h + of_nat k) rem
          = SSE3_tail m n (ns ! (length ns - 1)) (Base h) (Base h + of_nat (k + 1)) (rem - 1)"
        using True t n0 False by (subst SSE3_tail.simps) (simp add: algebra_simps)
      also have "\<dots> = Some (idx_word (first_match ns hs))"
        using u less.prems False \<open>k < length hs\<close>
        by (intro less.hyps) (auto simp: less_Suc_eq)
      finally show ?thesis .
    qed
  qed
qed

lemma BufferInBufferIdxSSE3_eq:
  assumes n: "holds m n ns" "ns \<noteq> []" and h: "holds m h hs"
  shows "BufferInBufferIdxSSE3 m n h = Some (idx_word (first_match ns hs))"
proof (cases "WriteCur n \<le> WriteCur h")
  case False
  then have "length hs < length ns" using n h by (simp add: holds_def word_le_nat_alt)
  with False n(2) show ?thesis by (simp add: BufferInBufferIdxSSE3_def no_match)
next
  case True
  have len: "unat (WriteCur h) = length hs" using h by (simp add: holds_def)
  have n0: "m (Base n) = Some (ns ! 0)" using test_at(1) [OF n n(1), of 0] by simp
  have n1: "m (Base n + (WriteCur n - 1)) = Some (ns ! (length ns - 1))"
    using needle_last [OF n] .
  have un: "BufferInBufferIdxSSE3 m n h
      = do {
          r \<leftarrow> SSE3_loop m n (ns ! 0) (ns ! (length ns - 1)) (Base h) (WriteCur h);
          (case r of Inr t \<Rightarrow> Some (WriteCur h - t)
           | Inl (p, rem) \<Rightarrow> SSE3_tail m n (ns ! (length ns - 1)) (Base h) p rem)
        }"
    using True n0 n1 by (simp only: BufferInBufferIdxSSE3_def if_True bind.simps)
  from SSE3_loop_eq [OF n h, of 0 "WriteCur h"] len
  consider i where "SSE3_loop m n (ns ! 0) (ns ! (length ns - 1)) (Base h) (WriteCur h)
        = Some (Inr (WriteCur h - of_nat i))" "first_match ns hs = Some i"
    | k' rem' where "SSE3_loop m n (ns ! 0) (ns ! (length ns - 1)) (Base h) (WriteCur h)
        = Some (Inl (Base h + of_nat k', rem'))" "k' \<le> length hs" "unat rem' = length hs - k'"
      "\<forall>i<k'. \<not> match_at ns hs i"
    by auto
  then show ?thesis
  proof cases
    case 1
    then show ?thesis by (simp add: un)
  next
    case 2
    then show ?thesis using SSE3_tail_eq [OF n h 2(2-4)] by (simp add: un)
  qed
qed

section \<open>The redirected function pointers meet the interface\<close>

definition sse_dispatch :: dispatch where
  "sse_dispatch =
     \<lparr>ByteInBufferIdx = ByteInBufferIdxSSE2, BufferInBufferIdx = BufferInBufferIdxSSE3\<rparr>"

definition avx_dispatch :: dispatch where
  "avx_dispatch =
     \<lparr>ByteInBufferIdx = ByteInBufferIdxAVX2, BufferInBufferIdx = BufferInBufferIdxAVX2\<rparr>"

definition sse3_dispatch :: dispatch where
  "sse3_dispatch =
     \<lparr>ByteInBufferIdx = ByteInBufferIdxSimple, BufferInBufferIdx = BufferInBufferIdxSSE3\<rparr>"

definition sse2_dispatch :: dispatch where
  "sse2_dispatch =
     \<lparr>ByteInBufferIdx = ByteInBufferIdxSSE2, BufferInBufferIdx = BufferInBufferIdxSimple\<rparr>"

lemmas dispatch_defs = sse_dispatch_def avx_dispatch_def sse3_dispatch_def sse2_dispatch_def
  default_dispatch_def

lemmas search_eqs = ByteInBufferIdxSimple_eq BufferInBufferIdxSimple_eq BufferInBufferIdxSSE3_eq
  ByteInBufferIdxSIMD_eq

interpretation sse: search_dispatch sse_dispatch "chunks_ok SSE2"
  by unfold_locales
    (simp_all add: dispatch_defs ByteInBufferIdxSSE2_def search_eqs chunks_ok_Advance)

interpretation sse3: search_dispatch sse3_dispatch "chunks_ok SSE2"
  by unfold_locales (simp_all add: dispatch_defs search_eqs chunks_ok_Advance)

interpretation sse2: search_dispatch sse2_dispatch "chunks_ok SSE2"
  by unfold_locales
    (simp_all add: dispatch_defs ByteInBufferIdxSSE2_def search_eqs chunks_ok_Advance)

interpretation avx: byte_dispatch avx_dispatch "chunks_ok AVX2"
  by unfold_locales
    (simp_all add: dispatch_defs ByteInBufferIdxAVX2_def search_eqs chunks_ok_Advance)

lemma InitBuffersArch_cases:
  "InitBuffersArch leaf1 leaf7 default_dispatch =
    (if bit (leaf7 ! 1) 5 then avx_dispatch
     else if bit (leaf1 ! 3) 26 then if bit (leaf1 ! 2) 0 then sse_dispatch else sse2_dispatch
     else if bit (leaf1 ! 2) 0 then sse3_dispatch else default_dispatch)"
  by (simp add: InitBuffersArch_def dispatch_defs)

section \<open>Properties\<close>

text \<open>
  C20: on a processor without AVX2, whatever of SSE2 and SSE3 it has, the searches selected by
  \<open>InitBuffersArch\<close> return what the portable ones return, under every combination of flags, as
  long as the aligned chunks around the haystack are mapped.
\<close>

theorem InitBuffersArch_same_results:
  assumes "\<not> bit (leaf7 ! 1) 5" "chunks_ok SSE2 m h" "holds m h hs" "holds m n ns" "ns \<noteq> []"
  shows "ByteInBuffer (InitBuffersArch leaf1 leaf7 default_dispatch) m c h flags
      = ByteInBuffer default_dispatch m c h flags
    \<and> BufferInBuffer (InitBuffersArch leaf1 leaf7 default_dispatch) m n h flags
      = BufferInBuffer default_dispatch m n h flags"
proof (cases "has_flag flags SEARCH_REVERSE")
  case True
  then show ?thesis
    using byte_reverse [OF assms(3)] match_reverse [OF assms(4,5,3)] by auto
next
  case False
  then show ?thesis
    using assms simple.forward sse.forward sse2.forward sse3.forward
      simple.match_forward sse.match_forward sse2.match_forward sse3.match_forward
    by (simp add: InitBuffersArch_cases)
qed

text \<open>An example: 17 bytes that start at 0x1F, so that the search begins in the middle of a chunk.\<close>

definition ex_zeros :: mem where
  "ex_zeros = (\<lambda>p. if p < 0x100 then Some 0 else None)"

definition ex_wide :: mem where
  "ex_wide = ex_zeros(0x2F \<mapsto> 9)"

definition ex_wide_hay :: buffer where
  "ex_wide_hay = Buffer 0x1F 17 17"

definition ex_wide_bytes :: "u8 list" where
  "ex_wide_bytes = [0, 0, 0, 0, 0, 0, 0, 0, 0, 0, 0, 0, 0, 0, 0, 0, 9]"

lemma ex_wide_mapped: "unat q < 64 \<Longrightarrow> mapped ex_wide q 32"
proof -
  assume q: "unat q < 64"
  have "q + of_nat j < 0x100" if "j < 32" for j
  proof -
    have "unat (of_nat j :: ptr) = j" using that by (intro unat_offset) simp
    then have "unat (q + of_nat j) = unat q + j"
      using q that by (subst unat_add_lem [THEN iffD1]) simp_all
    then show ?thesis using q that by (simp add: word_less_nat_alt)
  qed
  then show ?thesis by (auto simp: mapped_def ex_wide_def ex_zeros_def)
qed

lemma ex_wide_holds: "holds ex_wide ex_wide_hay ex_wide_bytes"
  by (simp add: holds_def ex_wide_hay_def ex_wide_bytes_def ex_wide_def ex_zeros_def)

lemma ex_wide_needle: "holds ex_wide (Buffer 0x2E 2 2) [0, 9]"
  by (simp add: holds_def ex_wide_def ex_zeros_def)

lemma ex_wide_ok: "chunks_ok r ex_wide ex_wide_hay"
proof -
  have "mapped ex_wide (- xmm_size r AND (0x1F + i)) (width r)" if "i < 17" for i
  proof -
    have "unat (0x1F + i) = 0x1F + unat i"
      using that by (subst unat_add_lem [THEN iffD1]) (simp_all add: word_less_nat_alt)
    moreover have "unat (- xmm_size r AND (0x1F + i)) \<le> unat (0x1F + i)"
      using word_and_le1 [of "- xmm_size r" "0x1F + i"] by (simp only: word_le_nat_alt)
    ultimately have "unat (- xmm_size r AND (0x1F + i)) < 64"
      using that by (simp add: word_less_nat_alt)
    from ex_wide_mapped [OF this] show ?thesis
      using width_bounds(2) [of r] by (rule mapped_mono)
  qed
  then show ?thesis by (simp add: chunks_ok_def low_half_def ex_wide_hay_def)
qed

theorem InitBuffersArch_same_results_witness:
  "ByteInBuffer (InitBuffersArch [0, 0, 1, 2 ^ 26] [0, 0] default_dispatch) ex_wide 9 ex_wide_hay
     RETURN_IDX_FIND = ByteInBuffer default_dispatch ex_wide 9 ex_wide_hay RETURN_IDX_FIND
   \<and> InitBuffersArch [0, 0, 1, 2 ^ 26] [0, 0] default_dispatch = sse_dispatch"
  using InitBuffersArch_same_results [of "[0, 0]" ex_wide ex_wide_hay ex_wide_bytes
      "Buffer 0x2E 2 2" "[0, 9]" "[0, 0, 1, 2 ^ 26]" 9 RETURN_IDX_FIND]
    ex_wide_ok ex_wide_holds ex_wide_needle
  by (simp add: InitBuffersArch_cases bit_exp_iff)

text \<open>
  On a processor with AVX2, \<open>ByteInBuffer\<close> still returns what the portable search returns,
  under every combination of flags.
\<close>

theorem ByteInBuffer_AVX2_same_results:
  assumes "bit (leaf7 ! 1) 5" "chunks_ok AVX2 m h" "holds m h hs"
  shows "ByteInBuffer (InitBuffersArch leaf1 leaf7 default_dispatch) m c h flags
    = ByteInBuffer default_dispatch m c h flags"
proof (cases "has_flag flags SEARCH_REVERSE")
  case True
  then show ?thesis using byte_reverse [OF assms(3)] by simp
next
  case False
  then show ?thesis
    using assms simple.forward avx.forward by (simp add: InitBuffersArch_cases)
qed

theorem ByteInBuffer_AVX2_same_results_witness:
  "ByteInBuffer (InitBuffersArch [] [0, 32] default_dispatch) ex_wide 9 ex_wide_hay RETURN_IDX_FIND
    = ByteInBuffer default_dispatch ex_wide 9 ex_wide_hay RETURN_IDX_FIND"
proof -
  have "bit ([0, 32 :: u32] ! 1) 5" by (simp add: bit_simps)
  from ByteInBuffer_AVX2_same_results [OF this ex_wide_ok ex_wide_holds] show ?thesis .
qed

text \<open>
  C39: on a processor with AVX2, \<open>BufferInBuffer\<close> does not find a needle that fills the haystack,
  which the portable search finds at 0: both loops stop before the last position where the needle
  fits.
\<close>

theorem BufferInBuffer_AVX2_misses:
  assumes "bit (leaf7 ! 1) 5" "holds m n ns" "ns \<noteq> []" "holds m h ns"
  shows "BufferInBuffer (InitBuffersArch leaf1 leaf7 default_dispatch) m n h RETURN_IDX_FIND
      = Some INVALID_IDX
    \<and> BufferInBuffer default_dispatch m n h RETURN_IDX_FIND = Some 0"
proof
  have w: "WriteCur h = WriteCur n" using assms(2,4) by (simp add: holds_def word_unat_eq_iff)
  have n0: "m (Base n) = Some (ns ! 0)" using test_at(1) [OF assms(2,3,2), of 0] by simp
  have "AVX2_loop m n a b (Base h) (Base h) = Some (Inl (Base h))" for a b
    by (subst AVX2_loop.simps) simp
  moreover have "AVX2_tail m n (Base h) (Base h) (Base h) = Some INVALID_IDX"
    by (subst AVX2_tail.simps) simp
  ultimately have "BufferInBufferIdxAVX2 m n h = Some INVALID_IDX"
    using w n0 needle_last [OF assms(2,3)] by (simp add: BufferInBufferIdxAVX2_def)
  then show "BufferInBuffer (InitBuffersArch leaf1 leaf7 default_dispatch) m n h RETURN_IDX_FIND
      = Some INVALID_IDX"
    using assms(1) by (simp add: InitBuffersArch_cases BufferInBuffer_defs flag_defs avx_dispatch_def)
  have "first_match ns ns = Some 0" by (intro first_matchI) (simp_all add: match_at_def)
  then show "BufferInBuffer default_dispatch m n h RETURN_IDX_FIND = Some 0"
    using simple.match_forward [OF TrueI assms(2,3,4), of RETURN_IDX_FIND]
    by (simp add: search_result_def flag_defs)
qed

theorem BufferInBuffer_AVX2_misses_witness:
  "BufferInBuffer (InitBuffersArch [] [0, 32] default_dispatch) ex_wide (Buffer 0x2E 2 2)
     (Buffer 0x2E 2 2) RETURN_IDX_FIND = Some INVALID_IDX"
proof -
  have "bit ([0, 32 :: u32] ! 1) 5" by (simp add: bit_simps)
  from BufferInBuffer_AVX2_misses [OF this ex_wide_needle _ ex_wide_needle] show ?thesis by simp
qed

end
