(* ===== verification/Encoding.thy ===== *)
theory Encoding
  imports Buffers
begin

text \<open>
  Characters of the six encodings: the parts of \<open>src/tinybase-encoding.c\<close> and
  \<open>src/tinybase-strings.c\<close> that compute on a character (\<open>mb_char\<close>: the bytes of one encoded
  character, first byte lowest; \<open>uchar\<close>: a code point). The reference is \<open>char_bytes\<close>, the byte
  sequence that RFC 3629 (UTF-8), RFC 2781 (UTF-16) and UTF-32 prescribe for a code point, written
  with the division and remainder of natural numbers. The lemmas show that encoding and decoding
  are inverse and that the encoded character is the prescribed byte sequence.
\<close>

unbundle bit_operations_syntax

type_synonym mb_char = u32
type_synonym uchar = u32

datatype encoding = EC_ASCII | EC_UTF8 | EC_UTF16LE | EC_UTF16BE | EC_UTF32LE | EC_UTF32BE

fun enc_val :: "encoding \<Rightarrow> int" where
  "enc_val EC_ASCII = 1"
| "enc_val EC_UTF8 = 2"
| "enc_val EC_UTF16LE = 3"
| "enc_val EC_UTF16BE = 4"
| "enc_val EC_UTF32LE = 5"
| "enc_val EC_UTF32BE = 6"

text \<open>The code compares encodings by the values of the enumeration.\<close>

instantiation encoding :: linorder
begin

definition less_eq_encoding :: "encoding \<Rightarrow> encoding \<Rightarrow> bool" where
  "less_eq_encoding a b \<longleftrightarrow> enc_val a \<le> enc_val b"

definition less_encoding :: "encoding \<Rightarrow> encoding \<Rightarrow> bool" where
  "less_encoding a b \<longleftrightarrow> enc_val a < enc_val b"

instance
proof
  fix a b :: encoding
  assume "a \<le> b" "b \<le> a"
  then show "a = b" by (cases a; cases b) (simp_all add: less_eq_encoding_def)
qed (auto simp: less_eq_encoding_def less_encoding_def)

end

lemmas encoding_order = less_eq_encoding_def less_encoding_def

section \<open>Operations on one character\<close>

text \<open>1 for the little-endian encodings; nothing calls it.\<close>

definition GetECEndian :: "encoding \<Rightarrow> int" where
  "GetECEndian enc = (if enc = EC_UTF16BE \<or> enc = EC_UTF32BE then 0 else 1)"

definition GetMultibyteCharSize :: "mb_char \<Rightarrow> encoding \<Rightarrow> u32" where
  "GetMultibyteCharSize ch enc =
     (case enc of
        EC_UTF16LE \<Rightarrow> if ch \<le> 0xFFFF then 2 else 4
      | EC_UTF16BE \<Rightarrow> if ch \<le> 0xFFFF then 2 else 4
      | EC_UTF32LE \<Rightarrow> 4
      | EC_UTF32BE \<Rightarrow> 4
      | _ \<Rightarrow>
          if ch \<le> 0xFF then 1
          else if ch \<le> 0xFFFF then 2
          else if ch \<le> 0xFFFFFF then 3
          else 4)"

definition AdjustEndianness :: "mb_char \<Rightarrow> encoding \<Rightarrow> mb_char" where
  "AdjustEndianness ch enc =
     (if enc = EC_UTF16BE then FlipEndian16x2 ch
      else if enc = EC_UTF32BE then FlipEndian32 ch
      else ch)"

definition UTF8ToUnicode :: "mb_char \<Rightarrow> uchar" where
  "UTF8ToUnicode ch =
     (if ch < 0x80 then ch
      else if ch < 0xFFFF then push_bit 6 (ch AND 0x1F) OR drop_bit 8 (ch AND 0x3F00)
      else if ch < 0xFFFFFF
        then push_bit 12 (ch AND 0x0F) OR drop_bit 2 (ch AND 0x3F00) OR drop_bit 16 (ch AND 0x3F0000)
      else push_bit 18 (ch AND 0x07) OR push_bit 4 (ch AND 0x3F00) OR drop_bit 10 (ch AND 0x3F0000)
        OR drop_bit 24 (ch AND 0x3F000000))"

definition UnicodeToUTF8 :: "uchar \<Rightarrow> mb_char" where
  "UnicodeToUTF8 ch =
     (if ch < 0x80 then ch
      else if ch < 0x800
        then push_bit 8 ((ch AND 0x3F) OR 0x80) + ((drop_bit 6 ch AND 0x1F) OR 0xC0)
      else if ch < 0x10000
        then push_bit 16 ((ch AND 0x3F) OR 0x80) + push_bit 8 ((drop_bit 6 ch AND 0x3F) OR 0x80)
          + ((drop_bit 12 ch AND 0xF) OR 0xE0)
      else push_bit 24 ((ch AND 0x3F) OR 0x80) + push_bit 16 ((drop_bit 6 ch AND 0x3F) OR 0x80)
          + push_bit 8 ((drop_bit 12 ch AND 0x3F) OR 0x80) + ((drop_bit 18 ch AND 0x7) OR 0xF0))"

definition UTF16ToUnicode :: "mb_char \<Rightarrow> uchar" where
  "UTF16ToUnicode ch =
     (if ch > 0xFFFF
      then let a = ((ch AND 0xFFFF) - 0xD800) * 0x400;
               b = (drop_bit 16 ch AND 0xFFFF) - 0xDC00
           in 0x10000 + a + b
      else ch)"

definition UnicodeToUTF16 :: "uchar \<Rightarrow> mb_char" where
  "UnicodeToUTF16 ch =
     (if ch > 0xFFFF
      then let ch = ch - 0x10000;
               a = drop_bit 10 ch + 0xD800;
               b = (ch AND 0x3FF) + 0xDC00
           in push_bit 16 b + a
      else ch)"

definition DecodeChar :: "mb_char \<Rightarrow> encoding \<Rightarrow> uchar" where
  "DecodeChar ch enc =
     (case enc of
        EC_UTF8 \<Rightarrow> UTF8ToUnicode ch
      | EC_UTF16LE \<Rightarrow> UTF16ToUnicode ch
      | EC_UTF16BE \<Rightarrow> UTF16ToUnicode ch
      | _ \<Rightarrow> ch)"

definition EncodeChar :: "uchar \<Rightarrow> encoding \<Rightarrow> mb_char" where
  "EncodeChar ch enc =
     (case enc of
        EC_UTF8 \<Rightarrow> UnicodeToUTF8 ch
      | EC_UTF16LE \<Rightarrow> UnicodeToUTF16 ch
      | EC_UTF16BE \<Rightarrow> UnicodeToUTF16 ch
      | _ \<Rightarrow> ch)"

definition CharIsDigit :: "mb_char \<Rightarrow> bool" where
  "CharIsDigit ch \<longleftrightarrow> ch \<ge> 0x30 \<and> ch \<le> 0x39"

definition CharIsHexDigit :: "mb_char \<Rightarrow> bool" where
  "CharIsHexDigit ch \<longleftrightarrow>
     (ch \<ge> 0x30 \<and> ch \<le> 0x39) \<or> (ch \<ge> 0x41 \<and> ch \<le> 0x46) \<or> (ch \<ge> 0x61 \<and> ch \<le> 0x66)"

definition CharIsLetter :: "mb_char \<Rightarrow> bool" where
  "CharIsLetter ch \<longleftrightarrow> (ch \<ge> 0x61 \<and> ch \<le> 0x7A) \<or> (ch \<ge> 0x41 \<and> ch \<le> 0x5A)"

definition CharIsAlphanum :: "mb_char \<Rightarrow> bool" where
  "CharIsAlphanum ch \<longleftrightarrow>
     (ch \<ge> 0x61 \<and> ch \<le> 0x7A) \<or> (ch \<ge> 0x41 \<and> ch \<le> 0x5A) \<or> (ch \<ge> 0x30 \<and> ch \<le> 0x39)"

section \<open>The bytes of a character\<close>

text \<open>The object representation of a word on a little-endian machine.\<close>

definition le_bytes :: "nat \<Rightarrow> u32 \<Rightarrow> u8 list" where
  "le_bytes n w = map (\<lambda>i. ucast (drop_bit (8 * i) w)) [0..<n]"

text \<open>The prescribed byte sequences. \<open>unit_bytes\<close> is a 16-bit code unit, most significant byte first.\<close>

definition utf8_bytes :: "nat \<Rightarrow> nat list" where
  "utf8_bytes c =
     (if c < 0x80 then [c]
      else if c < 0x800 then [0xC0 + c div 64, 0x80 + c mod 64]
      else if c < 0x10000 then [0xE0 + c div 4096, 0x80 + c div 64 mod 64, 0x80 + c mod 64]
      else [0xF0 + c div 262144, 0x80 + c div 4096 mod 64, 0x80 + c div 64 mod 64, 0x80 + c mod 64])"

definition utf16_units :: "nat \<Rightarrow> nat list" where
  "utf16_units c =
     (if c < 0x10000 then [c]
      else [0xD800 + (c - 0x10000) div 1024, 0xDC00 + (c - 0x10000) mod 1024])"

definition unit_bytes :: "nat \<Rightarrow> nat list" where
  "unit_bytes u = [u div 256, u mod 256]"

definition utf32_bytes :: "nat \<Rightarrow> nat list" where
  "utf32_bytes c = [c div 16777216, c div 65536 mod 256, c div 256 mod 256, c mod 256]"

definition code_bytes :: "encoding \<Rightarrow> nat \<Rightarrow> nat list" where
  "code_bytes enc c =
     (case enc of
        EC_ASCII \<Rightarrow> [c]
      | EC_UTF8 \<Rightarrow> utf8_bytes c
      | EC_UTF16LE \<Rightarrow> concat (map (rev \<circ> unit_bytes) (utf16_units c))
      | EC_UTF16BE \<Rightarrow> concat (map unit_bytes (utf16_units c))
      | EC_UTF32LE \<Rightarrow> rev (utf32_bytes c)
      | EC_UTF32BE \<Rightarrow> utf32_bytes c)"

definition char_bytes :: "encoding \<Rightarrow> uchar \<Rightarrow> u8 list" where
  "char_bytes enc c = map of_nat (code_bytes enc (unat c))"

text \<open>The code points an encoding can represent; the surrogates are not characters.\<close>

definition enc_ok :: "encoding \<Rightarrow> uchar \<Rightarrow> bool" where
  "enc_ok enc c \<longleftrightarrow>
     (if enc = EC_ASCII then c < 0x80 else c < 0x110000 \<and> \<not> (0xD800 \<le> c \<and> c < 0xE000))"

section \<open>Encoding yields the prescribed bytes\<close>

lemma low_bits: "c < 2 ^ k \<Longrightarrow> k \<le> n \<Longrightarrow> \<not> bit c n" for c :: u32
proof
  assume c: "c < 2 ^ k" "k \<le> n" and b: "bit c n"
  then have "n < 32" using bit_imp_le_length [OF b] by simp
  then have "unat (2 ^ k :: u32) = 2 ^ k" using c(2) by (simp add: unat_exp)
  then have "unat c < 2 ^ k" using c(1) by (simp add: word_less_nat_alt)
  moreover have "(2::nat) ^ k \<le> 2 ^ n" using c(2) by (intro power_increasing) simp_all
  ultimately show False using bit_imp_exp_le [OF b] by simp
qed

lemma unat_field: "unat (take_bit j (drop_bit k c)) = unat c div 2 ^ k mod 2 ^ j" for c :: u32
  unfolding unsigned_take_bit_eq unat_drop_bit_eq by (simp add: take_bit_eq_mod drop_bit_eq_div)

lemma tail_byte:
  "(of_nat (0x80 + unat c div 2 ^ k mod 64) :: u8) = 0x80 OR ucast (take_bit 6 (drop_bit k (c :: u32)))"
proof -
  let ?x = "take_bit 6 (drop_bit k c)"
  have "unat c div 2 ^ k mod 64 = unat ?x" by (simp add: unat_field)
  then have "(of_nat (0x80 + unat c div 2 ^ k mod 64) :: u8) = 0x80 + ucast ?x" by simp
  also have "(0x80 :: u8) AND ucast ?x = 0" by (rule word_eq_bits) (simp_all add: bit_simps)
  then have "(0x80 :: u8) + ucast ?x = 0x80 OR ucast ?x" by (rule disjunctive_add_eq_or)
  finally show ?thesis .
qed

lemma drop_bit_small: "c < 2 ^ (k + j) \<Longrightarrow> drop_bit k c = take_bit j (drop_bit k c)" for c :: u32
proof (rule bit_word_eqI)
  fix n
  assume "c < 2 ^ (k + j)"
  then have "j \<le> n \<Longrightarrow> \<not> bit c (k + n)" by (rule low_bits) simp
  then show "bit (drop_bit k c) n \<longleftrightarrow> bit (take_bit j (drop_bit k c)) n"
    by (cases "n < j") (auto simp: bit_simps not_less)
qed

lemma lead_byte:
  fixes c :: u32
  assumes "c < 2 ^ (k + j)" "(b :: u8) AND ucast (take_bit j (drop_bit k c)) = 0"
  shows "of_nat (unat b + unat c div 2 ^ k) = b OR ucast (take_bit j (drop_bit k c))"
proof -
  have "unat c div 2 ^ k = unat (drop_bit k c)"
    unfolding unat_drop_bit_eq by (simp add: drop_bit_eq_div)
  then have "unat c div 2 ^ k = unat (take_bit j (drop_bit k c))"
    by (simp only: drop_bit_small [OF assms(1), symmetric])
  then have "(of_nat (unat b + unat c div 2 ^ k) :: u8) = b + ucast (take_bit j (drop_bit k c))"
    by simp
  with disjunctive_add_eq_or [OF assms(2)] show ?thesis by simp
qed

lemma push_add_or: "x < 2 ^ k \<Longrightarrow> push_bit k y + x = push_bit k y OR x" for x y :: u32
  by (rule disjunctive_add_eq_or, rule bit_word_eqI) (auto simp: bit_simps dest: low_bits)

lemma le_bytes_simps:
  "le_bytes 1 w = [ucast w]"
  "le_bytes 2 w = [ucast w, ucast (drop_bit 8 w)]"
  "le_bytes 3 w = [ucast w, ucast (drop_bit 8 w), ucast (drop_bit 16 w)]"
  "le_bytes 4 w = [ucast w, ucast (drop_bit 8 w), ucast (drop_bit 16 w), ucast (drop_bit 24 w)]"
  by (simp_all add: le_bytes_def upt_rec)

lemma utf8_or:
  "push_bit 8 ((a AND 0x3F) OR 0x80) + ((b AND 0x1F) OR 0xC0)
    = push_bit 8 ((a AND 0x3F) OR 0x80) OR ((b AND 0x1F) OR (0xC0 :: u32))"
  "push_bit 16 ((a AND 0x3F) OR 0x80) + push_bit 8 ((b AND 0x3F) OR 0x80) + ((c AND 0xF) OR 0xE0)
    = push_bit 16 ((a AND 0x3F) OR 0x80) OR push_bit 8 ((b AND 0x3F) OR 0x80)
        OR ((c AND 0xF) OR (0xE0 :: u32))"
  "push_bit 24 ((a AND 0x3F) OR 0x80) + push_bit 16 ((b AND 0x3F) OR 0x80)
      + push_bit 8 ((c AND 0x3F) OR 0x80) + ((d AND 0x7) OR 0xF0)
    = push_bit 24 ((a AND 0x3F) OR 0x80) OR push_bit 16 ((b AND 0x3F) OR 0x80)
        OR push_bit 8 ((c AND 0x3F) OR 0x80) OR ((d AND 0x7) OR (0xF0 :: u32))"
proof -
  note d = disjunctive_add_eq_or word_eq_bits
  show "push_bit 8 ((a AND 0x3F) OR 0x80) + ((b AND 0x1F) OR 0xC0)
    = push_bit 8 ((a AND 0x3F) OR 0x80) OR ((b AND 0x1F) OR (0xC0 :: u32))"
    by (rule disjunctive_add_eq_or, rule word_eq_bits) (simp_all add: bit_simps)
  have 1: "push_bit 16 ((a AND 0x3F) OR 0x80) + push_bit 8 ((b AND 0x3F) OR 0x80)
      = push_bit 16 ((a AND 0x3F) OR 0x80) OR push_bit 8 ((b AND 0x3F) OR (0x80 :: u32))" for a b
    by (rule disjunctive_add_eq_or, rule word_eq_bits) (simp_all add: bit_simps)
  have 2: "push_bit 24 ((a AND 0x3F) OR 0x80) + push_bit 16 ((b AND 0x3F) OR 0x80)
      = push_bit 24 ((a AND 0x3F) OR 0x80) OR push_bit 16 ((b AND 0x3F) OR (0x80 :: u32))" for a b
    by (rule disjunctive_add_eq_or, rule word_eq_bits) (simp_all add: bit_simps)
  show "push_bit 16 ((a AND 0x3F) OR 0x80) + push_bit 8 ((b AND 0x3F) OR 0x80) + ((c AND 0xF) OR 0xE0)
    = push_bit 16 ((a AND 0x3F) OR 0x80) OR push_bit 8 ((b AND 0x3F) OR 0x80)
        OR ((c AND 0xF) OR (0xE0 :: u32))"
    unfolding 1 or.assoc [symmetric]
    by (subst disjunctive_add_eq_or, rule word_eq_bits) (simp_all add: bit_simps or.assoc)
  have 3: "push_bit 24 ((a AND 0x3F) OR 0x80) + push_bit 16 ((b AND 0x3F) OR 0x80)
      + push_bit 8 ((c AND 0x3F) OR 0x80)
    = push_bit 24 ((a AND 0x3F) OR 0x80) OR push_bit 16 ((b AND 0x3F) OR 0x80)
        OR push_bit 8 ((c AND 0x3F) OR (0x80 :: u32))"
    unfolding 2
    by (subst disjunctive_add_eq_or, rule word_eq_bits) (simp_all add: bit_simps or.assoc)
  show "push_bit 24 ((a AND 0x3F) OR 0x80) + push_bit 16 ((b AND 0x3F) OR 0x80)
      + push_bit 8 ((c AND 0x3F) OR 0x80) + ((d AND 0x7) OR 0xF0)
    = push_bit 24 ((a AND 0x3F) OR 0x80) OR push_bit 16 ((b AND 0x3F) OR 0x80)
        OR push_bit 8 ((c AND 0x3F) OR 0x80) OR ((d AND 0x7) OR (0xF0 :: u32))"
    unfolding 3
    by (subst disjunctive_add_eq_or, rule word_eq_bits) (simp_all add: bit_simps or.assoc)
qed

lemma word_less_exp: "c < 2 ^ k \<longleftrightarrow> unat c < 2 ^ k" if "k < 32" for c :: u32
  using that by (simp add: word_less_nat_alt unat_exp)

lemma UTF8_2:
  assumes "0x80 \<le> c" "c < 0x800"
  shows "le_bytes 2 (UnicodeToUTF8 c) = map of_nat (utf8_bytes (unat c))"
    and "UnicodeToUTF8 c = (push_bit 8 ((c AND 0x3F) OR 0x80) OR ((drop_bit 6 c AND 0x1F) OR 0xC0))"
proof -
  have r: "\<not> c < 0x80"
    using assms(1) by (simp_all add: word_le_nat_alt word_less_nat_alt)
  show e: "UnicodeToUTF8 c = (push_bit 8 ((c AND 0x3F) OR 0x80) OR ((drop_bit 6 c AND 0x1F) OR 0xC0))"
    using assms(2) r by (simp only: UnicodeToUTF8_def utf8_or(1) if_True if_False)
  have l: "of_nat (unat (0xC0 :: u8) + unat c div 2 ^ 6) = (0xC0 :: u8) OR ucast (take_bit 5 (drop_bit 6 c))"
    using assms(2) by (intro lead_byte) (simp, rule word_eq_bits, simp_all add: bit_simps)
  have "ucast (UnicodeToUTF8 c) = (0xC0 :: u8) OR ucast (take_bit 5 (drop_bit 6 c))"
    unfolding e by (rule word_eq_bits) (simp_all add: bit_simps)
  moreover have "ucast (drop_bit 8 (UnicodeToUTF8 c)) = (0x80 :: u8) OR ucast (take_bit 6 (drop_bit 0 c))"
    unfolding e by (rule word_eq_bits) (simp_all add: bit_simps)
  moreover have "utf8_bytes (unat c) = [0xC0 + unat c div 2 ^ 6, 0x80 + unat c div 2 ^ 0 mod 64]"
    using assms by (simp add: utf8_bytes_def word_le_nat_alt word_less_nat_alt)
  ultimately show "le_bytes 2 (UnicodeToUTF8 c) = map of_nat (utf8_bytes (unat c))"
    using l tail_byte [of c 0] by (simp only: le_bytes_simps list.map) simp
qed

lemma UTF8_3:
  assumes "0x800 \<le> c" "c < 0x10000"
  shows "le_bytes 3 (UnicodeToUTF8 c) = map of_nat (utf8_bytes (unat c))"
    and "UnicodeToUTF8 c = (push_bit 16 ((c AND 0x3F) OR 0x80) OR push_bit 8 ((drop_bit 6 c AND 0x3F) OR 0x80)
      OR ((drop_bit 12 c AND 0xF) OR 0xE0))"
proof -
  have r: "\<not> c < 0x80" "\<not> c < 0x800"
    using assms(1) by (simp_all add: word_le_nat_alt word_less_nat_alt)
  show e: "UnicodeToUTF8 c = (push_bit 16 ((c AND 0x3F) OR 0x80) OR push_bit 8 ((drop_bit 6 c AND 0x3F) OR 0x80)
      OR ((drop_bit 12 c AND 0xF) OR 0xE0))"
    using assms(2) r by (simp only: UnicodeToUTF8_def utf8_or(2) if_True if_False)
  have l: "of_nat (unat (0xE0 :: u8) + unat c div 2 ^ 12) = (0xE0 :: u8) OR ucast (take_bit 4 (drop_bit 12 c))"
    using assms(2) by (intro lead_byte) (simp, rule word_eq_bits, simp_all add: bit_simps)
  have "ucast (UnicodeToUTF8 c) = (0xE0 :: u8) OR ucast (take_bit 4 (drop_bit 12 c))"
    unfolding e by (rule word_eq_bits) (simp_all add: bit_simps)
  moreover have "ucast (drop_bit 8 (UnicodeToUTF8 c)) = (0x80 :: u8) OR ucast (take_bit 6 (drop_bit 6 c))"
    unfolding e by (rule word_eq_bits) (simp_all add: bit_simps)
  moreover have "ucast (drop_bit 16 (UnicodeToUTF8 c)) = (0x80 :: u8) OR ucast (take_bit 6 (drop_bit 0 c))"
    unfolding e by (rule word_eq_bits) (simp_all add: bit_simps)
  moreover have "utf8_bytes (unat c)
      = [0xE0 + unat c div 2 ^ 12, 0x80 + unat c div 2 ^ 6 mod 64, 0x80 + unat c div 2 ^ 0 mod 64]"
    using assms by (simp add: utf8_bytes_def word_le_nat_alt word_less_nat_alt)
  ultimately show "le_bytes 3 (UnicodeToUTF8 c) = map of_nat (utf8_bytes (unat c))"
    using l tail_byte [of c 0] tail_byte [of c 6] by (simp only: le_bytes_simps list.map) simp
qed

lemma UTF8_4:
  assumes "0x10000 \<le> c" "c < 0x110000"
  shows "le_bytes 4 (UnicodeToUTF8 c) = map of_nat (utf8_bytes (unat c))"
    and "UnicodeToUTF8 c = (push_bit 24 ((c AND 0x3F) OR 0x80) OR push_bit 16 ((drop_bit 6 c AND 0x3F) OR 0x80)
      OR push_bit 8 ((drop_bit 12 c AND 0x3F) OR 0x80) OR ((drop_bit 18 c AND 0x7) OR 0xF0))"
proof -
  have r: "\<not> c < 0x80" "\<not> c < 0x800" "\<not> c < 0x10000"
    using assms(1) by (simp_all add: word_le_nat_alt word_less_nat_alt)
  show e: "UnicodeToUTF8 c = (push_bit 24 ((c AND 0x3F) OR 0x80) OR push_bit 16 ((drop_bit 6 c AND 0x3F) OR 0x80)
      OR push_bit 8 ((drop_bit 12 c AND 0x3F) OR 0x80) OR ((drop_bit 18 c AND 0x7) OR 0xF0))"
    using assms(2) r by (simp only: UnicodeToUTF8_def utf8_or(3) if_True if_False)
  have l: "of_nat (unat (0xF0 :: u8) + unat c div 2 ^ 18) = (0xF0 :: u8) OR ucast (take_bit 3 (drop_bit 18 c))"
    using assms(2)
    by (intro lead_byte) (simp add: word_less_nat_alt, rule word_eq_bits, simp_all add: bit_simps)
  have "ucast (UnicodeToUTF8 c) = (0xF0 :: u8) OR ucast (take_bit 3 (drop_bit 18 c))"
    unfolding e by (rule word_eq_bits) (simp_all add: bit_simps)
  moreover have "ucast (drop_bit 8 (UnicodeToUTF8 c)) = (0x80 :: u8) OR ucast (take_bit 6 (drop_bit 12 c))"
    unfolding e by (rule word_eq_bits) (simp_all add: bit_simps)
  moreover have "ucast (drop_bit 16 (UnicodeToUTF8 c)) = (0x80 :: u8) OR ucast (take_bit 6 (drop_bit 6 c))"
    unfolding e by (rule word_eq_bits) (simp_all add: bit_simps)
  moreover have "ucast (drop_bit 24 (UnicodeToUTF8 c)) = (0x80 :: u8) OR ucast (take_bit 6 (drop_bit 0 c))"
    unfolding e by (rule word_eq_bits) (simp_all add: bit_simps)
  moreover have "utf8_bytes (unat c)
      = [0xF0 + unat c div 2 ^ 18, 0x80 + unat c div 2 ^ 12 mod 64, 0x80 + unat c div 2 ^ 6 mod 64,
         0x80 + unat c div 2 ^ 0 mod 64]"
    using assms by (simp add: utf8_bytes_def word_le_nat_alt word_less_nat_alt)
  ultimately show "le_bytes 4 (UnicodeToUTF8 c) = map of_nat (utf8_bytes (unat c))"
    using l tail_byte [of c 0] tail_byte [of c 6] tail_byte [of c 12]
    by (simp only: le_bytes_simps list.map) simp
qed

lemma top_bits: "drop_bit k w = v \<Longrightarrow> unat w div 2 ^ k = unat v" for w v :: u32
proof -
  assume "drop_bit k w = v"
  then have "drop_bit k (unat w) = unat v" by (simp only: unat_drop_bit_eq [symmetric])
  then show ?thesis by (simp add: drop_bit_eq_div)
qed

lemma UTF8_range:
  assumes "0x80 \<le> c"
  shows "c < 0x800 \<Longrightarrow> unat (UnicodeToUTF8 c) div 2 ^ 14 = 2"
    and "0x800 \<le> c \<Longrightarrow> c < 0x10000 \<Longrightarrow> unat (UnicodeToUTF8 c) div 2 ^ 22 = 2"
    and "0x10000 \<le> c \<Longrightarrow> c < 0x110000 \<Longrightarrow> unat (UnicodeToUTF8 c) div 2 ^ 30 = 2"
proof -
  assume "c < 0x800"
  then have "drop_bit 14 (UnicodeToUTF8 c) = 2"
    unfolding UTF8_2(2) [OF assms \<open>c < 0x800\<close>] by (intro word_eq_bits) (simp_all add: bit_simps)
  from top_bits [OF this] show "unat (UnicodeToUTF8 c) div 2 ^ 14 = 2" by simp
next
  assume c: "0x800 \<le> c" "c < 0x10000"
  then have "drop_bit 22 (UnicodeToUTF8 c) = 2"
    unfolding UTF8_3(2) [OF c] by (intro word_eq_bits) (simp_all add: bit_simps)
  from top_bits [OF this] show "unat (UnicodeToUTF8 c) div 2 ^ 22 = 2" by simp
next
  assume c: "0x10000 \<le> c" "c < 0x110000"
  then have "drop_bit 30 (UnicodeToUTF8 c) = 2"
    unfolding UTF8_4(2) [OF c] by (intro word_eq_bits) (simp_all add: bit_simps)
  from top_bits [OF this] show "unat (UnicodeToUTF8 c) div 2 ^ 30 = 2" by simp
qed

lemma UTF8_size:
  assumes "c < 0x110000"
  shows "GetMultibyteCharSize (UnicodeToUTF8 c) EC_UTF8
    = (if c < 0x80 then 1 else if c < 0x800 then 2 else if c < 0x10000 then 3 else 4)"
proof (cases "c < 0x80")
  case True
  then show ?thesis
    by (simp add: UnicodeToUTF8_def GetMultibyteCharSize_def word_le_nat_alt word_less_nat_alt)
next
  case False
  then have c: "0x80 \<le> c" by simp
  note r = UTF8_range [OF c]
  consider "c < 0x800" | "0x800 \<le> c" "c < 0x10000" | "0x10000 \<le> c" by fastforce
  then show ?thesis
  proof cases
    case 1
    from r(1) [OF this] have "2 ^ 15 \<le> unat (UnicodeToUTF8 c) \<and> unat (UnicodeToUTF8 c) < 2 ^ 16"
      by simp arith
    with 1 c show ?thesis by (simp add: GetMultibyteCharSize_def word_le_nat_alt word_less_nat_alt)
  next
    case 2
    from r(2) [OF this] have "2 ^ 23 \<le> unat (UnicodeToUTF8 c) \<and> unat (UnicodeToUTF8 c) < 2 ^ 24"
      by simp arith
    with 2 c show ?thesis by (simp add: GetMultibyteCharSize_def word_le_nat_alt word_less_nat_alt)
  next
    case 3
    from r(3) [OF this assms] have "2 ^ 31 \<le> unat (UnicodeToUTF8 c)" by simp
    with 3 c show ?thesis by (simp add: GetMultibyteCharSize_def word_le_nat_alt word_less_nat_alt)
  qed
qed

lemma UTF8_decode:
  assumes "c < 0x110000"
  shows "UTF8ToUnicode (UnicodeToUTF8 c) = c"
proof (cases "c < 0x80")
  case True
  then show ?thesis by (simp add: UnicodeToUTF8_def UTF8ToUnicode_def)
next
  case False
  then have c: "0x80 \<le> c" by simp
  let ?u = "UnicodeToUTF8 c"
  note r = UTF8_range [OF c]
  consider "c < 0x800" | "0x800 \<le> c" "c < 0x10000" | "0x10000 \<le> c" by fastforce
  then show ?thesis
  proof cases
    case 1
    from r(1) [OF this] have "\<not> ?u < 0x80" "?u < 0xFFFF" by (simp_all add: word_less_nat_alt)
    moreover have "push_bit 6 (?u AND 0x1F) OR drop_bit 8 (?u AND 0x3F00) = c"
      unfolding UTF8_2(2) [OF c 1] using low_bits [of c 11] 1
      by (intro word_eq_bits) (simp_all add: bit_simps)
    ultimately show ?thesis by (simp add: UTF8ToUnicode_def)
  next
    case 2
    from r(2) [OF this] have "\<not> ?u < 0x80" "\<not> ?u < 0xFFFF" "?u < 0xFFFFFF"
      by (simp_all add: word_less_nat_alt)
    moreover have "push_bit 12 (?u AND 0x0F) OR drop_bit 2 (?u AND 0x3F00) OR drop_bit 16 (?u AND 0x3F0000) = c"
      unfolding UTF8_3(2) [OF 2] using low_bits [of c 16] 2
      by (intro word_eq_bits) (simp_all add: bit_simps)
    ultimately show ?thesis by (simp add: UTF8ToUnicode_def)
  next
    case 3
    from r(3) [OF this assms] have "\<not> ?u < 0x80" "\<not> ?u < 0xFFFF" "\<not> ?u < 0xFFFFFF"
      by (simp_all add: word_less_nat_alt)
    moreover have "c < 2 ^ 21" using assms by (simp add: word_less_nat_alt)
    then have "push_bit 18 (?u AND 0x07) OR push_bit 4 (?u AND 0x3F00) OR drop_bit 10 (?u AND 0x3F0000)
        OR drop_bit 24 (?u AND 0x3F000000) = c"
      unfolding UTF8_4(2) [OF 3 assms] using low_bits [of c 21]
      by (intro word_eq_bits) (simp_all add: bit_simps)
    ultimately show ?thesis by (simp add: UTF8ToUnicode_def)
  qed
qed

section \<open>UTF-16\<close>

lemma and_low: "(c :: u32) AND 0x3FF = take_bit 10 c" "c AND 0xFFFF = take_bit 16 c"
  by (simp_all add: take_bit_eq_mask mask_numeral)

lemma UTF16_pair:
  assumes "0x10000 \<le> c" "c < 0x110000"
  defines "n \<equiv> unat c - 0x10000"
  defines "a \<equiv> drop_bit 10 (c - 0x10000) + 0xD800"
    and "b \<equiv> ((c - 0x10000) AND 0x3FF) + 0xDC00"
  shows "unat a = 0xD800 + n div 1024" "unat b = 0xDC00 + n mod 1024"
    "UnicodeToUTF16 c = push_bit 16 b + a" "unat (UnicodeToUTF16 c) = unat b * 65536 + unat a"
proof -
  have n: "unat (c - 0x10000) = n" "n < 0x100000"
    using assms(1,2) by (simp_all add: n_def unat_sub word_less_nat_alt word_le_nat_alt)
  have d: "unat (drop_bit 10 (c - 0x10000)) = n div 1024"
    unfolding unat_drop_bit_eq by (simp add: n drop_bit_eq_div)
  have t: "unat (take_bit 10 (c - 0x10000)) = n mod 1024"
    unfolding unsigned_take_bit_eq by (simp add: n take_bit_eq_mod)
  show ua: "unat a = 0xD800 + n div 1024"
    unfolding a_def using d n(2) by (subst unat_add_lem [THEN iffD1]) simp_all
  have "n mod 1024 < 1024" by simp
  then show ub: "unat b = 0xDC00 + n mod 1024"
    unfolding b_def and_low(1) using t by (subst unat_add_lem [THEN iffD1]) (simp, simp)
  have "\<not> c \<le> 0xFFFF" using assms(1) by (simp add: word_le_nat_alt)
  then show e: "UnicodeToUTF16 c = push_bit 16 b + a"
    by (simp add: UnicodeToUTF16_def a_def b_def not_le Let_def)
  have "unat b < 65536" using ub by simp
  then have "unat (push_bit 16 b) = unat b * 65536"
    unfolding unsigned_push_bit_eq by (simp add: push_bit_eq_mult take_bit_nat_eq_self)
  moreover have "unat a < 65536" using ua n(2) by simp
  ultimately show "unat (UnicodeToUTF16 c) = unat b * 65536 + unat a"
    unfolding e using \<open>unat b < 65536\<close> by (subst unat_add_lem [THEN iffD1]) simp_all
qed

lemma ucast_byte: "(ucast (drop_bit k w) :: u8) = of_nat (unat w div 2 ^ k)" for w :: u32
proof -
  have "(ucast (drop_bit k w) :: u8) = of_nat (unat (drop_bit k w))" by simp
  then show ?thesis unfolding unat_drop_bit_eq by (simp add: drop_bit_eq_div)
qed

lemma byte_cong: "x mod 256 = y mod 256 \<Longrightarrow> (of_nat x :: u8) = of_nat y"
  by (simp add: word_of_nat_eq_iff take_bit_eq_mod)

lemma le_bytes_2: "le_bytes 2 w = [of_nat (unat w), of_nat (unat w div 256)]"
  using ucast_byte [of 0 w] ucast_byte [of 8 w] by (simp add: le_bytes_simps)

text \<open>A word made of two code units.\<close>

lemma unit_mod:
  fixes a b :: nat
  shows "(b * 65536 + a) mod 256 = a mod 256" "(b * 65536 + a) div 256 mod 256 = a div 256 mod 256"
  using mod_mult_self3 [of "b * 256" 256 a] div_mult_self3 [of 256 "b * 256" a]
    mod_mult_self3 [of b 256 "a div 256"]
  by (simp_all add: mult.assoc)

lemma two_units:
  fixes u a b :: u32
  assumes "unat u = unat b * 65536 + unat a" "unat a < 65536" "unat b < 65536"
  shows "u AND 0xFFFF = a" "drop_bit 16 u = b" "drop_bit 16 u AND 0xFFFF = b"
    "le_bytes 2 u = le_bytes 2 a"
proof -
  have "unat (u AND 0xFFFF) = unat a"
    unfolding and_low unsigned_take_bit_eq assms(1) using assms(2) by (simp add: take_bit_eq_mod)
  then show "u AND 0xFFFF = a" by (simp only: word_unat_eq_iff)
  have "unat (drop_bit 16 u) = unat b"
    unfolding unat_drop_bit_eq assms(1) using assms(2) by (simp add: drop_bit_eq_div)
  then show d: "drop_bit 16 u = b" by (simp only: word_unat_eq_iff)
  have "unat (drop_bit 16 u AND 0xFFFF) = unat b"
    unfolding d and_low unsigned_take_bit_eq using assms(3) by (simp add: take_bit_eq_mod)
  then show "drop_bit 16 u AND 0xFFFF = b" by (simp only: word_unat_eq_iff)
  have "(of_nat (unat u) :: u8) = of_nat (unat a)"
    and "(of_nat (unat u div 256) :: u8) = of_nat (unat a div 256)"
    unfolding assms(1) by (rule byte_cong, simp add: unit_mod)+
  then show "le_bytes 2 u = le_bytes 2 a" by (simp only: le_bytes_2)
qed

lemma UTF16_decode:
  assumes "c < 0x110000"
  shows "UTF16ToUnicode (UnicodeToUTF16 c) = c"
proof (cases "0x10000 \<le> c")
  case False
  then show ?thesis
    by (simp add: UnicodeToUTF16_def UTF16ToUnicode_def not_le word_less_nat_alt word_le_nat_alt)
next
  case True
  let ?d = "c - 0x10000" and ?u = "UnicodeToUTF16 c"
  let ?a = "drop_bit 10 ?d + 0xD800" and ?b = "(?d AND 0x3FF) + 0xDC00"
  note p = UTF16_pair [OF True assms]
  have n: "unat c - 0x10000 < 0x100000" using assms by (simp add: word_less_nat_alt)
  have ab: "unat ?a < 65536" "unat ?b < 65536" "0 < unat ?b" using p(1,2) n by simp_all
  note t = two_units [OF p(4) ab(1,2)]
  have "?u > 0xFFFF" using p(4) ab(3) by (simp add: word_less_nat_alt)
  then have "UTF16ToUnicode ?u = 0x10000 + (?a - 0xD800) * 0x400 + (?b - 0xDC00)"
    by (simp only: UTF16ToUnicode_def Let_def t(1,3) if_True)
  also have "\<dots> = 0x10000 + (push_bit 10 (drop_bit 10 ?d) + take_bit 10 ?d)"
    by (simp add: and_low push_bit_eq_mult mult.commute)
  also have "\<dots> = c" unfolding bits_ident by simp
  finally show ?thesis .
qed

lemma le_bytes_swap:
  "le_bytes 2 (FlipEndian16x2 w) = rev (le_bytes 2 w)"
  "le_bytes 4 (FlipEndian16x2 w) = rev (le_bytes 2 w) @ rev (le_bytes 2 (drop_bit 16 w))"
  "le_bytes 4 (FlipEndian32 w) = rev (le_bytes 4 w)"
  unfolding le_bytes_simps rev.simps append.simps list.inject
  by (intro conjI refl word_eq_bits; simp add: bit_simps FlipEndian16x2_def FlipEndian16_def FlipEndian32_def)+

lemma unit_LE: "unat w < 65536 \<Longrightarrow> le_bytes 2 w = map of_nat (rev (unit_bytes (unat w)))"
  using byte_cong [of "unat w" "unat w mod 256"] by (simp add: le_bytes_2 unit_bytes_def)

lemma unit_BE: "unat w < 65536 \<Longrightarrow> rev (le_bytes 2 w) = map of_nat (unit_bytes (unat w))"
  by (simp add: unit_LE rev_map)

lemma le_bytes_4_split: "le_bytes 4 w = le_bytes 2 w @ le_bytes 2 (drop_bit 16 w)"
  by (simp add: le_bytes_simps)

lemma UTF16_units:
  assumes "enc_ok EC_UTF16LE c"
  shows "le_bytes (unat (GetMultibyteCharSize (UnicodeToUTF16 c) EC_UTF16LE)) (UnicodeToUTF16 c)
      = map of_nat (concat (map (rev \<circ> unit_bytes) (utf16_units (unat c))))"
    and "le_bytes (unat (GetMultibyteCharSize (UnicodeToUTF16 c) EC_UTF16LE)) (FlipEndian16x2 (UnicodeToUTF16 c))
      = map of_nat (concat (map unit_bytes (utf16_units (unat c))))"
proof -
  have c: "c < 0x110000" using assms by (simp add: enc_ok_def)
  let ?u = "UnicodeToUTF16 c"
  have "le_bytes (unat (GetMultibyteCharSize ?u EC_UTF16LE)) ?u
      = map of_nat (concat (map (rev \<circ> unit_bytes) (utf16_units (unat c))))
    \<and> le_bytes (unat (GetMultibyteCharSize ?u EC_UTF16LE)) (FlipEndian16x2 ?u)
      = map of_nat (concat (map unit_bytes (utf16_units (unat c))))"
  proof (cases "0x10000 \<le> c")
    case False
    then have u: "?u = c" "unat c < 65536" by (auto simp: UnicodeToUTF16_def word_le_nat_alt word_less_nat_alt)
    then have "GetMultibyteCharSize ?u EC_UTF16LE = 2"
      by (simp add: GetMultibyteCharSize_def word_le_nat_alt)
    then show ?thesis
      using u unit_LE [OF u(2)] unit_BE [OF u(2)] by (simp add: utf16_units_def le_bytes_swap)
  next
    case True
    let ?d = "c - 0x10000"
    let ?a = "drop_bit 10 ?d + 0xD800" and ?b = "(?d AND 0x3FF) + 0xDC00"
    note p = UTF16_pair [OF True c]
    have n: "unat c - 0x10000 < 0x100000" using c by (simp add: word_less_nat_alt)
    have ab: "unat ?a < 65536" "unat ?b < 65536" "0 < unat ?b" using p(1,2) n by simp_all
    have "\<not> ?u \<le> 0xFFFF" using p(4) ab(3) by (simp add: word_le_nat_alt)
    then have size: "GetMultibyteCharSize ?u EC_UTF16LE = 4" by (simp add: GetMultibyteCharSize_def)
    note t = two_units [OF p(4) ab(1,2)]
    have units: "utf16_units (unat c) = [unat ?a, unat ?b]"
      using True p(1,2) by (simp add: utf16_units_def word_le_nat_alt)
    show ?thesis
      unfolding size units using unit_LE [OF ab(1)] unit_LE [OF ab(2)] unit_BE [OF ab(1)] unit_BE [OF ab(2)]
      by (simp add: le_bytes_swap le_bytes_4_split [of ?u] t(2,4))
  qed
  then show "le_bytes (unat (GetMultibyteCharSize (UnicodeToUTF16 c) EC_UTF16LE)) (UnicodeToUTF16 c)
      = map of_nat (concat (map (rev \<circ> unit_bytes) (utf16_units (unat c))))"
    and "le_bytes (unat (GetMultibyteCharSize (UnicodeToUTF16 c) EC_UTF16LE)) (FlipEndian16x2 (UnicodeToUTF16 c))
      = map of_nat (concat (map unit_bytes (utf16_units (unat c))))"
    by simp_all
qed

section \<open>The contract of an encoding\<close>

text \<open>The bytes that a character occupies in memory, as the code computes them.\<close>

definition stored :: "encoding \<Rightarrow> mb_char \<Rightarrow> u8 list" where
  "stored enc ch = le_bytes (unat (GetMultibyteCharSize ch enc)) (AdjustEndianness ch enc)"

lemma decode_encode:
  assumes "enc_ok enc c"
  shows "DecodeChar (EncodeChar c enc) enc = c"
  using assms UTF8_decode [of c] UTF16_decode [of c]
  by (cases enc) (simp_all add: DecodeChar_def EncodeChar_def enc_ok_def)

lemma stored_UTF8:
  assumes "c < 0x110000"
  shows "stored EC_UTF8 (UnicodeToUTF8 c) = map of_nat (utf8_bytes (unat c))"
proof -
  note size = UTF8_size [OF assms]
  consider "c < 0x80" | "0x80 \<le> c" "c < 0x800" | "0x800 \<le> c" "c < 0x10000" | "0x10000 \<le> c"
    by fastforce
  then show ?thesis
  proof cases
    case 1
    then have "unat c < 0x80" by (simp add: word_less_nat_alt)
    then show ?thesis using 1 size le_bytes_simps(1) [of c]
      by (simp add: stored_def AdjustEndianness_def UnicodeToUTF8_def utf8_bytes_def)
  next
    case 2
    then have "\<not> c < 0x80" by simp
    then show ?thesis using 2 size UTF8_2(1) [OF 2]
      by (simp add: stored_def AdjustEndianness_def)
  next
    case 3
    then have "\<not> c < 0x80" "\<not> c < 0x800" by (simp_all add: word_less_nat_alt word_le_nat_alt)
    then show ?thesis using 3 size UTF8_3(1) [OF 3]
      by (simp add: stored_def AdjustEndianness_def)
  next
    case 4
    then have "\<not> c < 0x80" "\<not> c < 0x800" "\<not> c < 0x10000"
      by (simp_all add: word_less_nat_alt word_le_nat_alt)
    then show ?thesis using size UTF8_4(1) [OF 4 assms]
      by (simp add: stored_def AdjustEndianness_def)
  qed
qed

lemma le_bytes_4: "le_bytes 4 c = map of_nat (rev (utf32_bytes (unat c)))"
proof -
  have b: "(of_nat x :: u8) = of_nat (x mod 256)" for x by (rule byte_cong) simp
  have "le_bytes 4 c = [of_nat (unat c), of_nat (unat c div 256), of_nat (unat c div 65536),
      of_nat (unat c div 16777216)]"
    using ucast_byte [of 0 c] ucast_byte [of 8 c] ucast_byte [of 16 c] ucast_byte [of 24 c]
    by (simp add: le_bytes_simps)
  then show ?thesis
    using b [of "unat c"] b [of "unat c div 256"] b [of "unat c div 65536"]
    by (simp add: utf32_bytes_def)
qed

lemma stored_EncodeChar:
  assumes "enc_ok enc c"
  shows "stored enc (EncodeChar c enc) = char_bytes enc c"
proof (cases enc)
  case EC_ASCII
  then have "unat c < 0x80" using assms by (simp add: enc_ok_def word_less_nat_alt)
  then show ?thesis using EC_ASCII le_bytes_simps(1) [of c]
    by (simp add: stored_def EncodeChar_def char_bytes_def code_bytes_def AdjustEndianness_def
        GetMultibyteCharSize_def word_le_nat_alt)
next
  case EC_UTF8
  then show ?thesis using assms stored_UTF8 [of c]
    by (simp add: EncodeChar_def char_bytes_def code_bytes_def enc_ok_def)
next
  case EC_UTF16LE
  then show ?thesis using assms UTF16_units(1) [of c]
    by (simp add: stored_def EncodeChar_def char_bytes_def code_bytes_def AdjustEndianness_def)
next
  case EC_UTF16BE
  moreover from this have "enc_ok EC_UTF16LE c" using assms by (simp add: enc_ok_def)
  ultimately show ?thesis using UTF16_units(2) [of c]
    by (simp add: stored_def EncodeChar_def char_bytes_def code_bytes_def AdjustEndianness_def
        GetMultibyteCharSize_def)
next
  case EC_UTF32LE
  then show ?thesis using le_bytes_4 [of c]
    by (simp add: stored_def EncodeChar_def char_bytes_def code_bytes_def AdjustEndianness_def
        GetMultibyteCharSize_def)
next
  case EC_UTF32BE
  then show ?thesis using le_bytes_4 [of c] le_bytes_swap(3) [of c]
    by (simp add: stored_def EncodeChar_def char_bytes_def code_bytes_def AdjustEndianness_def
        GetMultibyteCharSize_def flip: rev_map)
qed

lemma length_stored: "length (stored enc ch) = unat (GetMultibyteCharSize ch enc)"
  by (simp add: stored_def le_bytes_def)

lemma char_size_bounds:
  "0 < unat (GetMultibyteCharSize ch enc)" "unat (GetMultibyteCharSize ch enc) \<le> 4"
  by (cases enc; simp add: GetMultibyteCharSize_def)+

section \<open>Properties\<close>

text \<open>
  C11: decoding an encoded character gives the character back, in every encoding, for every code
  point the encoding can represent (for UTF-8 and UTF-16 all of Unicode but the surrogates).
\<close>

theorem DecodeChar_EncodeChar:
  assumes "enc_ok enc c"
  shows "DecodeChar (EncodeChar c enc) enc = c"
  using assms by (rule decode_encode)

theorem DecodeChar_EncodeChar_witness:
  "DecodeChar (EncodeChar 0x1F600 EC_UTF8) EC_UTF8 = 0x1F600"
  using DecodeChar_EncodeChar [of EC_UTF8 "0x1F600"] by (simp add: enc_ok_def)

text \<open>
  C23: the encoded character, in the byte order the library stores it in, is the byte sequence that
  the standard prescribes for the code point: RFC 3629 for UTF-8, RFC 2781 for UTF-16, four bytes
  for UTF-32.
\<close>

theorem EncodeChar_prescribed:
  assumes "enc_ok enc c"
  shows "le_bytes (unat (GetMultibyteCharSize (EncodeChar c enc) enc))
      (AdjustEndianness (EncodeChar c enc) enc) = char_bytes enc c"
  using stored_EncodeChar [OF assms] by (simp add: stored_def)

theorem EncodeChar_prescribed_witness:
  "le_bytes (unat (GetMultibyteCharSize (EncodeChar 0x20AC EC_UTF8) EC_UTF8))
     (AdjustEndianness (EncodeChar 0x20AC EC_UTF8) EC_UTF8) = [0xE2, 0x82, 0xAC]"
proof -
  have "char_bytes EC_UTF8 0x20AC = [0xE2, 0x82, 0xAC]"
    by (simp add: char_bytes_def code_bytes_def utf8_bytes_def)
  then show ?thesis using EncodeChar_prescribed [of EC_UTF8 "0x20AC"] by (simp add: enc_ok_def)
qed

end
