(* ===== verification/Atomic.thy ===== *)
theory Atomic
  imports Types
begin

text \<open>
  The atomic operations of \<open>src/tinybase-atomic.c\<close>: exchange, compare-exchange and add-fetch at 16,
  32 and 64 bits, for \<open>isz\<close> and for pointers, with the branch of each compiler (\<open>TT_MSVC\<close> and
  \<open>TT_GCC\<close>, on \<open>TT_X64\<close>). Each is one indivisible step on the memory. The interface \<open>cells\<close> states
  what the clients use of a word in memory; \<open>cell\<close> is the view of the memory as a map from
  aligned addresses to 64-bit words.
\<close>

unbundle bit_operations_syntax

section \<open>Words in memory\<close>

definition word_bytes :: "'a::len word \<Rightarrow> u8 list" where
  "word_bytes w = map (\<lambda>i. ucast (drop_bit (8 * i) w)) [0..<LENGTH('a) div 8]"

definition bytes_word :: "u8 list \<Rightarrow> 'a::len word" where
  "bytes_word bs = foldr (\<lambda>b w. push_bit 8 w OR ucast b) bs 0"

definition load_word :: "mem \<Rightarrow> ptr \<Rightarrow> 'a::len word option" where
  "load_word m p = map_option bytes_word (load_bytes m p (LENGTH('a) div 8))"

definition store_word :: "mem \<Rightarrow> ptr \<Rightarrow> 'a::len word \<Rightarrow> mem option" where
  "store_word m p w = store_bytes m p (word_bytes w)"

section \<open>The operations\<close>

datatype compiler = TT_MSVC | TT_GCC

text \<open>
  \<open>InterlockedExchange\<close> and \<open>__atomic_exchange_n\<close>; \<open>InterlockedAdd\<close> and \<open>__atomic_add_fetch\<close>;
  \<open>InterlockedCompareExchange\<close>, which returns the initial value, and
  \<open>__atomic_compare_exchange_n\<close>, which returns whether it was the expected one. Each at the width
  of its operand.
\<close>

definition exchange_n :: "mem \<Rightarrow> ptr \<Rightarrow> 'a::len word \<Rightarrow> ('a word \<times> mem) option" where
  "exchange_n m dst v = do { old \<leftarrow> load_word m dst; m' \<leftarrow> store_word m dst v; Some (old, m') }"

definition add_fetch :: "mem \<Rightarrow> ptr \<Rightarrow> 'a::len word \<Rightarrow> ('a word \<times> mem) option" where
  "add_fetch m dst v =
     do { old \<leftarrow> load_word m dst; m' \<leftarrow> store_word m dst (old + v); Some (old + v, m') }"

definition InterlockedCompareExchange ::
  "mem \<Rightarrow> ptr \<Rightarrow> 'a::len word \<Rightarrow> 'a word \<Rightarrow> ('a word \<times> mem) option" where
  "InterlockedCompareExchange m dst exchange comparand =
     do {
       old \<leftarrow> load_word m dst;
       m' \<leftarrow> (if old = comparand then store_word m dst exchange else Some m);
       Some (old, m')
     }"

definition compare_exchange_n ::
  "mem \<Rightarrow> ptr \<Rightarrow> 'a::len word \<Rightarrow> 'a word \<Rightarrow> (bool \<times> mem) option" where
  "compare_exchange_n m dst expected desired =
     do {
       old \<leftarrow> load_word m dst;
       m' \<leftarrow> (if old = expected then store_word m dst desired else Some m);
       Some (old = expected, m')
     }"

definition AtomicExchange16 :: "compiler \<Rightarrow> mem \<Rightarrow> ptr \<Rightarrow> u16 \<Rightarrow> (u16 \<times> mem) option" where
  "AtomicExchange16 cc m dst value =
     (case cc of TT_MSVC \<Rightarrow> exchange_n m dst value | TT_GCC \<Rightarrow> exchange_n m dst value)"

definition AtomicExchange32 :: "compiler \<Rightarrow> mem \<Rightarrow> ptr \<Rightarrow> u32 \<Rightarrow> (u32 \<times> mem) option" where
  "AtomicExchange32 cc m dst value =
     (case cc of TT_MSVC \<Rightarrow> exchange_n m dst value | TT_GCC \<Rightarrow> exchange_n m dst value)"

definition AtomicExchange64 :: "compiler \<Rightarrow> mem \<Rightarrow> ptr \<Rightarrow> u64 \<Rightarrow> (u64 \<times> mem) option" where
  "AtomicExchange64 cc m dst value =
     (case cc of TT_MSVC \<Rightarrow> exchange_n m dst value | TT_GCC \<Rightarrow> exchange_n m dst value)"

definition AtomicExchangeIsz :: "compiler \<Rightarrow> mem \<Rightarrow> ptr \<Rightarrow> usz \<Rightarrow> (usz \<times> mem) option" where
  "AtomicExchangeIsz cc m dst value = AtomicExchange64 cc m dst value"

definition AtomicExchangePtr :: "compiler \<Rightarrow> mem \<Rightarrow> ptr \<Rightarrow> ptr \<Rightarrow> (ptr \<times> mem) option" where
  "AtomicExchangePtr cc m dst value =
     (case cc of TT_MSVC \<Rightarrow> exchange_n m dst value | TT_GCC \<Rightarrow> exchange_n m dst value)"

definition AtomicCompareExchange16 ::
  "compiler \<Rightarrow> mem \<Rightarrow> ptr \<Rightarrow> u16 \<Rightarrow> u16 \<Rightarrow> (bool \<times> mem) option" where
  "AtomicCompareExchange16 cc m dst cmp value =
     (case cc of
        TT_MSVC \<Rightarrow> do { (_, m') \<leftarrow> InterlockedCompareExchange m dst value cmp; Some (True, m') }
      | TT_GCC \<Rightarrow> compare_exchange_n m dst cmp value)"

definition AtomicCompareExchange32 ::
  "compiler \<Rightarrow> mem \<Rightarrow> ptr \<Rightarrow> u32 \<Rightarrow> u32 \<Rightarrow> (bool \<times> mem) option" where
  "AtomicCompareExchange32 cc m dst cmp value =
     (case cc of
        TT_MSVC \<Rightarrow> do { (_, m') \<leftarrow> InterlockedCompareExchange m dst value cmp; Some (True, m') }
      | TT_GCC \<Rightarrow> compare_exchange_n m dst cmp value)"

definition AtomicCompareExchange64 ::
  "compiler \<Rightarrow> mem \<Rightarrow> ptr \<Rightarrow> u64 \<Rightarrow> u64 \<Rightarrow> (bool \<times> mem) option" where
  "AtomicCompareExchange64 cc m dst cmp value =
     (case cc of
        TT_MSVC \<Rightarrow> do { (_, m') \<leftarrow> InterlockedCompareExchange m dst value cmp; Some (True, m') }
      | TT_GCC \<Rightarrow> compare_exchange_n m dst cmp value)"

definition AtomicCompareExchangeisz ::
  "compiler \<Rightarrow> mem \<Rightarrow> ptr \<Rightarrow> usz \<Rightarrow> usz \<Rightarrow> (bool \<times> mem) option" where
  "AtomicCompareExchangeisz cc m dst cmp value = AtomicCompareExchange64 cc m dst cmp value"

definition AtomicCompareExchangePtr ::
  "compiler \<Rightarrow> mem \<Rightarrow> ptr \<Rightarrow> ptr \<Rightarrow> ptr \<Rightarrow> (bool \<times> mem) option" where
  "AtomicCompareExchangePtr cc m dst cmp value =
     (case cc of
        TT_MSVC \<Rightarrow> do { (_, m') \<leftarrow> InterlockedCompareExchange m dst value cmp; Some (True, m') }
      | TT_GCC \<Rightarrow> compare_exchange_n m dst cmp value)"

text \<open>The MSVC branch at 16 bits adds the sign-extended value to the \<open>LONG\<close> at the address.\<close>

definition AtomicAddFetch16 :: "compiler \<Rightarrow> mem \<Rightarrow> ptr \<Rightarrow> u16 \<Rightarrow> (u16 \<times> mem) option" where
  "AtomicAddFetch16 cc m dst value =
     (case cc of
        TT_MSVC \<Rightarrow> do { (r, m') \<leftarrow> add_fetch m dst (scast value :: u32); Some (ucast r, m') }
      | TT_GCC \<Rightarrow> add_fetch m dst value)"

definition AtomicAddFetch32 :: "compiler \<Rightarrow> mem \<Rightarrow> ptr \<Rightarrow> u32 \<Rightarrow> (u32 \<times> mem) option" where
  "AtomicAddFetch32 cc m dst value =
     (case cc of TT_MSVC \<Rightarrow> add_fetch m dst value | TT_GCC \<Rightarrow> add_fetch m dst value)"

definition AtomicAddFetch64 :: "compiler \<Rightarrow> mem \<Rightarrow> ptr \<Rightarrow> u64 \<Rightarrow> (u64 \<times> mem) option" where
  "AtomicAddFetch64 cc m dst value =
     (case cc of TT_MSVC \<Rightarrow> add_fetch m dst value | TT_GCC \<Rightarrow> add_fetch m dst value)"

definition AtomicAddFetchIsz :: "compiler \<Rightarrow> mem \<Rightarrow> ptr \<Rightarrow> usz \<Rightarrow> (usz \<times> mem) option" where
  "AtomicAddFetchIsz cc m dst value = AtomicAddFetch64 cc m dst value"

definition AtomicAddFetchPtr :: "compiler \<Rightarrow> mem \<Rightarrow> ptr \<Rightarrow> usz \<Rightarrow> (ptr \<times> mem) option" where
  "AtomicAddFetchPtr cc m dst value =
     (case cc of TT_MSVC \<Rightarrow> add_fetch m dst value | TT_GCC \<Rightarrow> add_fetch m dst value)"

section \<open>Bytes and words\<close>

lemma length_word_bytes [simp]: "length (word_bytes (w :: 'a::len word)) = LENGTH('a) div 8"
  by (simp add: word_bytes_def)

lemma bit_bytes_word:
  "bit (bytes_word bs :: 'a::len word) n
    \<longleftrightarrow> n < LENGTH('a) \<and> n div 8 < length bs \<and> bit (bs ! (n div 8)) (n mod 8)"
proof (induction bs arbitrary: n)
  case Nil
  then show ?case by (simp add: bytes_word_def)
next
  case (Cons b bs)
  have e: "bytes_word (b # bs) = (push_bit 8 (bytes_word bs) OR ucast b :: 'a word)"
    by (simp add: bytes_word_def)
  show ?case
  proof (cases "n < 8")
    case True
    then show ?thesis unfolding e by (auto simp: bit_simps)
  next
    case False
    then have "n div 8 = Suc ((n - 8) div 8)" "n mod 8 = (n - 8) mod 8"
      by (simp_all add: le_div_geq le_mod_geq)
    with False show ?thesis unfolding e
      by (auto simp: bit_simps Cons.IH not_less dest: bit_imp_le_length)
  qed
qed

lemma bytes_word_bytes [simp]:
  assumes "8 dvd LENGTH('a)"
  shows "bytes_word (word_bytes w) = (w :: 'a::len word)"
proof (rule bit_word_eqI)
  fix n
  assume "n < LENGTH('a)"
  moreover have "n div 8 < LENGTH('a) div 8" using \<open>n < LENGTH('a)\<close> assms by (auto elim!: dvdE)
  moreover have "8 * (n div 8) + n mod 8 = n" by simp
  ultimately show "bit (bytes_word (word_bytes w) :: 'a word) n \<longleftrightarrow> bit w n"
    by (simp add: bit_bytes_word word_bytes_def bit_simps)
qed

lemma load_word_at:
  "bytes_at m p bs \<Longrightarrow> length bs = LENGTH('a) div 8 \<Longrightarrow> load_word m p = Some (bytes_word bs :: 'a::len word)"
  by (simp add: load_word_def load_bytes_at)

lemma load_word_mapped: "load_word m p \<noteq> (None :: 'a::len word option) \<longleftrightarrow> mapped m p (LENGTH('a) div 8)"
proof
  assume "load_word m p \<noteq> (None :: 'a word option)"
  then obtain bs where "load_bytes m p (LENGTH('a) div 8) = Some bs" by (auto simp: load_word_def)
  then show "mapped m p (LENGTH('a) div 8)"
    using bytes_at_mapped [of m p bs] by (auto simp: load_bytes_Some)
next
  assume "mapped m p (LENGTH('a) div 8)"
  from mapped_bytes_at [OF this] show "load_word m p \<noteq> (None :: 'a word option)"
    by (metis load_word_at option.distinct(1))
qed

lemma store_word_upd:
  assumes "mapped m p (LENGTH('a) div 8)" "LENGTH('a) \<le> 2 ^ 64"
  shows "store_word m p (w :: 'a::len word) = Some (upd_bytes m p (word_bytes w))"
proof -
  have "LENGTH('a) div 8 \<le> 2 ^ 64" using assms(2) div_le_dividend le_trans by blast
  then show ?thesis using assms(1) by (simp add: store_word_def store_bytes_upd)
qed

section \<open>The interface of a word in memory\<close>

text \<open>
  \<open>ld\<close> and \<open>st\<close> read and write a word of \<open>n\<close> bytes: a store succeeds where a load does, is seen
  by a load at its address, and by no load at an address whose bytes are apart from it.
\<close>

definition array_at :: "(mem \<Rightarrow> ptr \<Rightarrow> 'v option) \<Rightarrow> nat \<Rightarrow> mem \<Rightarrow> ptr \<Rightarrow> 'v list \<Rightarrow> bool" where
  "array_at ld n m p xs \<longleftrightarrow> (\<forall>i<length xs. ld m (p + of_nat (i * n)) = Some (xs ! i))"

locale cells =
  fixes ld :: "mem \<Rightarrow> ptr \<Rightarrow> 'v option"
    and st :: "mem \<Rightarrow> ptr \<Rightarrow> 'v \<Rightarrow> mem option"
    and n :: nat
  assumes st_ok: "ld m p = Some u \<Longrightarrow> \<exists>m'. st m p v = Some m'"
    and ld_st: "ld m p = Some u \<Longrightarrow> st m p v = Some m' \<Longrightarrow> ld m' p = Some v"
    and ld_apart: "ld m p = Some u \<Longrightarrow> st m p v = Some m' \<Longrightarrow> region p n \<inter> region q n = {} \<Longrightarrow> ld m' q = ld m q"
    and st_frame: "ld m p = Some u \<Longrightarrow> st m p v = Some m' \<Longrightarrow> b \<notin> region p n \<Longrightarrow> m' b = m b"
begin

lemma update:
  assumes "ld m p = Some u"
  shows "\<exists>m'. st m p v = Some m' \<and> ld m' p = Some v
    \<and> (\<forall>q. region p n \<inter> region q n = {} \<longrightarrow> ld m' q = ld m q) \<and> (\<forall>b. b \<notin> region p n \<longrightarrow> m' b = m b)"
  using st_ok [OF assms, of v] ld_st [OF assms] ld_apart [OF assms] st_frame [OF assms] by blast

end

lemma element_disj:
  assumes "i < k" "j < k" "i \<noteq> j" "k * n \<le> 2 ^ 64"
  shows "region (p + of_nat (i * n)) n \<inter> region (p + of_nat (j * n)) n = {}"
proof -
  have "p + of_nat (i * n) + of_nat a \<noteq> p + of_nat (j * n) + of_nat b" if "a < n" "b < n" for a b
  proof
    assume "p + of_nat (i * n) + of_nat a = p + of_nat (j * n) + of_nat b"
    then have "(of_nat (i * n + a) :: ptr) = of_nat (j * n + b)" by (simp add: add.assoc)
    moreover have "i * n + a < k * n"
    proof -
      have "i * n + a < Suc i * n" using that by simp
      also have "\<dots> \<le> k * n" using assms(1) by (intro mult_le_mono1) simp
      finally show ?thesis .
    qed
    moreover have "j * n + b < k * n"
    proof -
      have "j * n + b < Suc j * n" using that by simp
      also have "\<dots> \<le> k * n" using assms(2) by (intro mult_le_mono1) simp
      finally show ?thesis .
    qed
    ultimately have "i * n + a = j * n + b"
      using assms(4) unat_offset [of "i * n + a"] unat_offset [of "j * n + b"] by (metis order_less_le_trans)
    then have "(i * n + a) div n = (j * n + b) div n" by simp
    with that assms(3) show False by simp
  qed
  then show ?thesis by (auto simp: region_def)
qed

lemma load_bytes_cong: "(\<And>b. b \<in> region q n \<Longrightarrow> m' b = m b) \<Longrightarrow> load_bytes m' q n = load_bytes m q n"
  by (induction n arbitrary: q) (simp_all add: region_Suc)

lemma store_word_cells:
  fixes w :: "'a::len word"
  assumes "8 dvd LENGTH('a)" "LENGTH('a) \<le> 2 ^ 64"
    and "load_word m p = Some (u :: 'a word)"
  shows "store_word m p w = Some (upd_bytes m p (word_bytes w))"
    and "load_word (upd_bytes m p (word_bytes w)) p = Some w"
    and "region p (LENGTH('a) div 8) \<inter> region q (LENGTH('a) div 8) = {}
      \<Longrightarrow> (load_word (upd_bytes m p (word_bytes w)) q :: 'a word option) = load_word m q"
    and "b \<notin> region p (LENGTH('a) div 8) \<Longrightarrow> upd_bytes m p (word_bytes w) b = m b"
proof -
  have le: "LENGTH('a) div 8 \<le> 2 ^ 64" using assms(2) div_le_dividend le_trans by blast
  have "mapped m p (LENGTH('a) div 8)" using assms(3) load_word_mapped [of m p, where 'a = 'a] by simp
  then show "store_word m p w = Some (upd_bytes m p (word_bytes w))"
    using assms(2) by (rule store_word_upd)
  have "bytes_at (upd_bytes m p (word_bytes w)) p (word_bytes w)"
    using le by (simp add: bytes_at_upd_same)
  then have "load_word (upd_bytes m p (word_bytes w)) p = Some (bytes_word (word_bytes w) :: 'a word)"
    by (rule load_word_at) simp
  then show "load_word (upd_bytes m p (word_bytes w)) p = Some w"
    using assms(1) by simp
  show frame: "upd_bytes m p (word_bytes w) b = m b" if "b \<notin> region p (LENGTH('a) div 8)" for b
    using that le by (simp add: in_region_iff upd_bytes_def)
  show "(load_word (upd_bytes m p (word_bytes w)) q :: 'a word option) = load_word m q"
    if "region p (LENGTH('a) div 8) \<inter> region q (LENGTH('a) div 8) = {}"
    unfolding load_word_def
    by (intro arg_cong [where f = "map_option _"] load_bytes_cong frame) (use that in blast)
qed

lemma word_cells:
  assumes "8 dvd LENGTH('a)" "LENGTH('a) \<le> 2 ^ 64"
  shows "cells (load_word :: mem \<Rightarrow> ptr \<Rightarrow> 'a::len word option) store_word (LENGTH('a) div 8)"
proof (unfold_locales, goal_cases)
  case (1 m p u v)
  then show ?case using store_word_cells(1) [OF assms] by blast
next
  case 2
  with store_word_cells(1,2) [OF assms 2(1)] show ?case by auto
next
  case 3
  with store_word_cells(1,3) [OF assms 3(1)] show ?case by auto
next
  case 4
  with store_word_cells(1,4) [OF assms 4(1)] show ?case by auto
qed

interpretation word16: cells "load_word :: mem \<Rightarrow> ptr \<Rightarrow> u16 option" store_word 2
  using word_cells [where 'a = 16] by simp

interpretation word32: cells "load_word :: mem \<Rightarrow> ptr \<Rightarrow> u32 option" store_word 4
  using word_cells [where 'a = 32] by simp

interpretation word64: cells "load_word :: mem \<Rightarrow> ptr \<Rightarrow> u64 option" store_word 8
  using word_cells [where 'a = 64] by simp

section \<open>Memory as a map of aligned cells\<close>

definition aligned :: "ptr \<Rightarrow> bool" where
  "aligned p \<longleftrightarrow> p AND 7 = 0"

definition cell :: "mem \<Rightarrow> ptr \<Rightarrow> u64 option" where
  "cell m p = (if aligned p then load_word m p else None)"

lemma aligned_base:
  assumes "aligned p" "a < 8"
  shows "(p + of_nat a) AND NOT 7 = p"
proof -
  have "(of_nat a :: ptr) = take_bit 3 (of_nat a)"
    using assms(2) by (simp add: take_bit_of_nat take_bit_nat_eq_self)
  then have a: "\<not> bit (of_nat a :: ptr) n" if "3 \<le> n" for n
    using that by (metis bit_take_bit_iff not_less)
  have m: "(7 :: ptr) = mask 3" by (simp add: mask_eq_exp_minus_1)
  have b: "bit (7 :: ptr) n \<longleftrightarrow> n < 3" for n unfolding m by (auto simp: bit_mask_iff)
  have p: "\<not> bit p n" if "n < 3" for n
  proof -
    have "\<not> bit (p AND 7) n" using assms(1) by (simp add: aligned_def)
    then show ?thesis using that b [of n] unfolding bit_and_iff by blast
  qed
  have "p + of_nat a = p OR of_nat a"
  proof (rule disjunctive_add_eq_or, rule bit_word_eqI)
    fix n
    show "bit (p AND of_nat a) n = bit 0 n" using a [of n] p [of n] by (cases "n < 3") (simp_all add: bit_and_iff)
  qed
  then have e: "(p + of_nat a) AND NOT 7 = (p OR of_nat a) AND NOT 7" by simp
  show ?thesis unfolding e
  proof (rule bit_word_eqI)
    fix n
    assume "n < LENGTH(64)"
    then show "bit ((p OR of_nat a) AND NOT 7) n = bit p n"
      unfolding bit_and_iff bit_or_iff bit_not_iff b
      using a [of n] p [of n] by (cases "n < 3") simp_all
  qed
qed

lemma aligned_apart:
  assumes "aligned p" "aligned q" "p \<noteq> q"
  shows "region p 8 \<inter> region q 8 = {}"
proof -
  have "p + of_nat a \<noteq> q + of_nat b" if "a < 8" "b < 8" for a b
    using aligned_base [OF assms(1) that(1)] aligned_base [OF assms(2) that(2)] assms(3) by auto
  then show ?thesis unfolding region_def by blast
qed

lemma cell_store:
  assumes "cell m p = Some u"
  shows "\<exists>m'. store_word m p v = Some m' \<and> cell m' = (cell m)(p \<mapsto> v)"
proof -
  have a: "aligned p" and l: "load_word m p = Some u" using assms by (auto simp: cell_def split: if_splits)
  from word64.update [OF l] obtain m' where m: "store_word m p v = Some m'" "load_word m' p = Some v"
    "\<forall>q. region p 8 \<inter> region q 8 = {} \<longrightarrow> load_word m' q = (load_word m q :: u64 option)" by blast
  have "cell m' q = ((cell m)(p \<mapsto> v)) q" for q
    using m(2,3) a aligned_apart [OF a, of q] by (auto simp: cell_def)
  with m(1) show ?thesis by blast
qed

lemma cell_load: "cell m p = Some v \<Longrightarrow> load_word m p = Some v"
  by (simp add: cell_def split: if_splits)

section \<open>What the operations do\<close>

text \<open>\<open>m'\<close> is \<open>m\<close> with the word at \<open>p\<close> replaced by \<open>v\<close>.\<close>

definition updated :: "mem \<Rightarrow> ptr \<Rightarrow> 'a::len word \<Rightarrow> mem \<Rightarrow> bool" where
  "updated m p v m' \<longleftrightarrow> load_word m' p = Some v \<and> (\<forall>b. b \<notin> region p (LENGTH('a) div 8) \<longrightarrow> m' b = m b)"

lemma updated_refl: "load_word m p = Some v \<Longrightarrow> updated m p v m"
  by (simp add: updated_def)

lemma word_update:
  fixes v :: "'a::len word"
  assumes "8 dvd LENGTH('a)" "LENGTH('a) \<le> 2 ^ 64" "load_word m p = Some (u :: 'a word)"
  shows "\<exists>m'. store_word m p v = Some m' \<and> updated m p v m'"
  using cells.update [OF word_cells [OF assms(1,2)] assms(3), of v] by (auto simp: updated_def)

lemma exchange_n_eq:
  fixes v :: "'a::len word"
  assumes "8 dvd LENGTH('a)" "LENGTH('a) \<le> 2 ^ 64" "load_word m p = Some u"
  shows "\<exists>m'. exchange_n m p v = Some (u, m') \<and> updated m p v m'"
  using word_update [OF assms, of v] assms(3) by (auto simp: exchange_n_def)

lemma add_fetch_eq:
  fixes v :: "'a::len word"
  assumes "8 dvd LENGTH('a)" "LENGTH('a) \<le> 2 ^ 64" "load_word m p = Some u"
  shows "\<exists>m'. add_fetch m p v = Some (u + v, m') \<and> updated m p (u + v) m'"
  using word_update [OF assms, of "u + v"] assms(3) by (auto simp: add_fetch_def)

lemma compare_exchange_n_eq:
  fixes v :: "'a::len word"
  assumes "8 dvd LENGTH('a)" "LENGTH('a) \<le> 2 ^ 64" "load_word m p = Some u"
  shows "\<exists>m'. compare_exchange_n m p c v = Some (u = c, m') \<and> updated m p (if u = c then v else u) m'
    \<and> (u \<noteq> c \<longrightarrow> m' = m)"
  using word_update [OF assms, of v] assms(3) updated_refl [OF assms(3)]
  by (cases "u = c") (auto simp: compare_exchange_n_def)

lemma ucast_add_low: "(ucast (w + scast x) :: u16) = ucast w + x" for w :: u32 and x :: u16
proof -
  have "(ucast (w + v) :: u16) = ucast w + ucast v" for v :: u32
    unfolding word_eq_iff_unsigned [where ?'a = int]
    by (simp add: unsigned_ucast_eq uint_word_ariths take_bit_eq_mod mod_mod_cancel mod_add_eq)
  moreover have "(ucast (scast x :: u32) :: u16) = x" by (rule bit_word_eqI) (auto simp: bit_simps)
  ultimately show ?thesis by simp
qed

section \<open>The operations on cells, with GCC\<close>

lemma cas_cell:
  assumes "cell m p = Some u"
  shows "\<exists>m'. AtomicCompareExchangePtr TT_GCC m p c v = Some (u = c, m')
    \<and> cell m' = (if u = c then (cell m)(p \<mapsto> v) else cell m) \<and> (u \<noteq> c \<longrightarrow> m' = m)"
proof (cases "u = c")
  case True
  from cell_store [OF assms, of v] obtain m' where "store_word m p v = Some m'" "cell m' = (cell m)(p \<mapsto> v)"
    by blast
  with True cell_load [OF assms] show ?thesis
    by (simp add: AtomicCompareExchangePtr_def compare_exchange_n_def)
next
  case False
  with cell_load [OF assms] show ?thesis
    by (simp add: AtomicCompareExchangePtr_def compare_exchange_n_def)
qed

lemma add_cell:
  assumes "cell m p = Some u"
  shows "\<exists>m'. AtomicAddFetchIsz TT_GCC m p v = Some (u + v, m') \<and> cell m' = (cell m)(p \<mapsto> u + v)"
  using cell_store [OF assms, of "u + v"] cell_load [OF assms]
  by (auto simp: AtomicAddFetchIsz_def AtomicAddFetch64_def add_fetch_def)

lemma exchange_cell:
  assumes "cell m p = Some u"
  shows "\<exists>m'. AtomicExchangePtr TT_GCC m p v = Some (u, m') \<and> cell m' = (cell m)(p \<mapsto> v)"
  using cell_store [OF assms, of v] cell_load [OF assms]
  by (auto simp: AtomicExchangePtr_def exchange_n_def)

section \<open>Properties\<close>

text \<open>
  Compiled with GCC, at every width, an exchange returns the old value and stores the new one;
  a compare-exchange returns whether the value was the expected one and stores the new value only
  then; an add-fetch returns and stores the sum. No byte outside the word changes.
\<close>

theorem Atomic_GCC_correct:
  assumes "load_word m p = Some (a :: u16)" "load_word m q = Some (b :: u32)" "load_word m r = Some (c :: u64)"
  shows "(\<exists>m'. AtomicExchange16 TT_GCC m p x = Some (a, m') \<and> updated m p x m')
    \<and> (\<exists>m'. AtomicExchange32 TT_GCC m q y = Some (b, m') \<and> updated m q y m')
    \<and> (\<exists>m'. AtomicExchange64 TT_GCC m r z = Some (c, m') \<and> updated m r z m')
    \<and> (\<exists>m'. AtomicCompareExchange16 TT_GCC m p e x = Some (a = e, m') \<and> updated m p (if a = e then x else a) m')
    \<and> (\<exists>m'. AtomicCompareExchange32 TT_GCC m q f y = Some (b = f, m') \<and> updated m q (if b = f then y else b) m')
    \<and> (\<exists>m'. AtomicCompareExchange64 TT_GCC m r g z = Some (c = g, m') \<and> updated m r (if c = g then z else c) m')
    \<and> (\<exists>m'. AtomicAddFetch16 TT_GCC m p x = Some (a + x, m') \<and> updated m p (a + x) m')
    \<and> (\<exists>m'. AtomicAddFetch32 TT_GCC m q y = Some (b + y, m') \<and> updated m q (b + y) m')
    \<and> (\<exists>m'. AtomicAddFetch64 TT_GCC m r z = Some (c + z, m') \<and> updated m r (c + z) m')"
  unfolding AtomicExchange16_def AtomicExchange32_def AtomicExchange64_def
    AtomicCompareExchange16_def AtomicCompareExchange32_def AtomicCompareExchange64_def
    AtomicAddFetch16_def AtomicAddFetch32_def AtomicAddFetch64_def compiler.case
proof (intro conjI, goal_cases)
  case 1 show ?case by (rule exchange_n_eq) (simp_all add: assms)
next
  case 2 show ?case by (rule exchange_n_eq) (simp_all add: assms)
next
  case 3 show ?case by (rule exchange_n_eq) (simp_all add: assms)
next
  case 4 show ?case using compare_exchange_n_eq [OF _ _ assms(1), of e x] by auto
next
  case 5 show ?case using compare_exchange_n_eq [OF _ _ assms(2), of f y] by auto
next
  case 6 show ?case using compare_exchange_n_eq [OF _ _ assms(3), of g z] by auto
next
  case 7 show ?case by (rule add_fetch_eq) (simp_all add: assms)
next
  case 8 show ?case by (rule add_fetch_eq) (simp_all add: assms)
next
  case 9 show ?case by (rule add_fetch_eq) (simp_all add: assms)
qed

definition ex_word :: mem where
  "ex_word = [0x40 \<mapsto> 0xFF, 0x41 \<mapsto> 0xFF, 0x42 \<mapsto> 0x07, 0x43 \<mapsto> 0, 0x44 \<mapsto> 0, 0x45 \<mapsto> 0, 0x46 \<mapsto> 0, 0x47 \<mapsto> 0]"

lemma ex_word_load:
  "load_word ex_word 0x40 = Some (0xFFFF :: u16)"
  "load_word ex_word 0x42 = Some (7 :: u16)"
  "load_word ex_word 0x40 = Some (0x7FFFF :: u32)"
  "load_word ex_word 0x40 = Some (0x7FFFF :: u64)"
proof -
  have b: "bytes_at ex_word 0x40 [0xFF, 0xFF]" "bytes_at ex_word 0x42 [7, 0]"
    "bytes_at ex_word 0x40 [0xFF, 0xFF, 7, 0]" "bytes_at ex_word 0x40 [0xFF, 0xFF, 7, 0, 0, 0, 0, 0]"
    by (simp_all add: ex_word_def)
  show "load_word ex_word 0x40 = Some (0xFFFF :: u16)"
    using load_word_at [OF b(1), where 'a = 16] by (simp add: bytes_word_def)
  show "load_word ex_word 0x42 = Some (7 :: u16)"
    using load_word_at [OF b(2), where 'a = 16] by (simp add: bytes_word_def)
  show "load_word ex_word 0x40 = Some (0x7FFFF :: u32)"
    using load_word_at [OF b(3), where 'a = 32] by (simp add: bytes_word_def)
  show "load_word ex_word 0x40 = Some (0x7FFFF :: u64)"
    using load_word_at [OF b(4), where 'a = 64] by (simp add: bytes_word_def)
qed

theorem Atomic_GCC_correct_witness:
  "\<exists>m'. AtomicAddFetch16 TT_GCC ex_word 0x40 1 = Some (0, m') \<and> load_word m' 0x40 = Some (0 :: u16)
    \<and> m' 0x42 = Some 7"
proof -
  obtain m' where "AtomicAddFetch16 TT_GCC ex_word 0x40 1 = Some (0xFFFF + 1, m')"
    "updated ex_word 0x40 (0xFFFF + 1 :: u16) m'"
    using Atomic_GCC_correct [OF ex_word_load(1,3,4), of 1] by blast
  moreover from this(2) have "m' 0x42 = ex_word 0x42" by (simp add: updated_def)
  ultimately show ?thesis by (auto simp: updated_def ex_word_def)
qed

text \<open>
  Compiled with MSVC, a compare-exchange that fails leaves the memory alone but still returns
  true, at every width and for pointers, where the documentation promises false.
\<close>

theorem AtomicCompareExchange_MSVC_returns_true:
  assumes "load_word m p = Some (a :: u16)" "load_word m q = Some (b :: u32)" "load_word m r = Some (c :: u64)"
    and "a \<noteq> e" "b \<noteq> f" "c \<noteq> g"
  shows "AtomicCompareExchange16 TT_MSVC m p e x = Some (True, m)
    \<and> AtomicCompareExchange32 TT_MSVC m q f y = Some (True, m)
    \<and> AtomicCompareExchange64 TT_MSVC m r g z = Some (True, m)
    \<and> AtomicCompareExchangePtr TT_MSVC m r g z = Some (True, m)"
  using assms
  by (simp add: AtomicCompareExchange16_def AtomicCompareExchange32_def AtomicCompareExchange64_def
      AtomicCompareExchangePtr_def InterlockedCompareExchange_def)

theorem AtomicCompareExchange_MSVC_returns_true_witness:
  "AtomicCompareExchangePtr TT_MSVC ex_word 0x40 0 5 = Some (True, ex_word)"
  using AtomicCompareExchange_MSVC_returns_true [OF ex_word_load(1,3,4), of 0 0 0 1 2 5] by simp

text \<open>
  Compiled with MSVC, \<open>AtomicAddFetch16\<close> adds to the 32-bit word at the address, so a carry out
  of the 16 bits changes the two bytes behind them, which GCC's branch leaves alone.
\<close>

theorem AtomicAddFetch16_MSVC_carries:
  assumes "load_word m p = Some (w :: u32)"
  shows "\<exists>m'. AtomicAddFetch16 TT_MSVC m p x = Some (ucast w + x, m') \<and> updated m p (w + scast x) m'"
proof -
  have "(ucast (w + scast x) :: u16) = ucast w + x" by (simp add: ucast_add_low)
  moreover obtain m' where "add_fetch m p (scast x :: u32) = Some (w + scast x, m')"
    "updated m p (w + scast x) m'"
    using add_fetch_eq [OF _ _ assms, of "scast x"] by auto
  ultimately show ?thesis by (auto simp: AtomicAddFetch16_def)
qed

theorem AtomicAddFetch16_MSVC_carries_witness:
  "\<exists>m'. AtomicAddFetch16 TT_MSVC ex_word 0x40 1 = Some (0, m') \<and> load_word m' 0x40 = Some (0x80000 :: u32)"
  using AtomicAddFetch16_MSVC_carries [OF ex_word_load(3), of 1] by (auto simp: updated_def)

end
