(* ===== verification/Strings.thy ===== *)
theory Strings
  imports Query Encoding Atomic
begin

text \<open>
  Strings: buffers with an encoding. The functions of \<open>src/tinybase-encoding.c\<close> and
  \<open>src/tinybase-strings.c\<close> that read characters from memory, count and classify them, search,
  transcode and append. The record extends \<open>buffer\<close>, as the C structure does with its anonymous
  union. A function that takes the address of one of its own variables has that address, \<open>sp\<close>, as
  an argument: \<open>push_local\<close> puts the variable into memory and \<open>pop_local\<close> removes it. A left shift
  of a promoted byte into the sign bit is taken as GCC documents it, as the shift of the bits.
\<close>

unbundle bit_operations_syntax

record tb_string = buffer +
  Enc :: encoding

definition String :: "ptr \<Rightarrow> usz \<Rightarrow> usz \<Rightarrow> encoding \<Rightarrow> tb_string" where
  "String p w s enc = \<lparr>Base = p, WriteCur = w, Size = s, Enc = enc\<rparr>"

abbreviation Buf :: "tb_string \<Rightarrow> buffer" where
  "Buf A \<equiv> Buffer (Base A) (WriteCur A) (Size A)"

lemma String_sel [simp]:
  "Base (String p w s e) = p" "WriteCur (String p w s e) = w" "Size (String p w s e) = s"
  "Enc (String p w s e) = e"
  by (simp_all add: String_def)

definition push_local :: "mem \<Rightarrow> ptr \<Rightarrow> u8 list \<Rightarrow> mem" where
  "push_local m sp bs = upd_bytes m sp bs"

definition pop_local :: "mem \<Rightarrow> ptr \<Rightarrow> nat \<Rightarrow> mem" where
  "pop_local m sp n = (\<lambda>q. if unat (q - sp) < n then None else m q)"

section \<open>Reading one character\<close>

definition UTF8CharSize :: "mem \<Rightarrow> ptr \<Rightarrow> u32 option" where
  "UTF8CharSize m p =
     do {
       c0 \<leftarrow> m p;
       Some (if c0 \<le> 0x7F then 1
             else if drop_bit 5 c0 = 0x6 then 2
             else if drop_bit 4 c0 = 0xE then 3
             else if drop_bit 3 c0 = 0x1E then 4
             else 1)
     }"

definition UTF16LECharSize :: "mem \<Rightarrow> ptr \<Rightarrow> u32 option" where
  "UTF16LECharSize m p = do { c1 \<leftarrow> m (p + 1); Some (if c1 \<ge> 0xD8 \<and> c1 < 0xE0 then 4 else 2) }"

definition UTF16BECharSize :: "mem \<Rightarrow> ptr \<Rightarrow> u32 option" where
  "UTF16BECharSize m p = do { c0 \<leftarrow> m p; Some (if c0 \<ge> 0xD8 \<and> c0 < 0xE0 then 4 else 2) }"

definition GetNextCharSize :: "mem \<Rightarrow> ptr \<Rightarrow> encoding \<Rightarrow> u32 option" where
  "GetNextCharSize m p enc =
     (case enc of
        EC_UTF8 \<Rightarrow> UTF8CharSize m p
      | EC_UTF16LE \<Rightarrow> UTF16LECharSize m p
      | EC_UTF16BE \<Rightarrow> UTF16BECharSize m p
      | EC_UTF32LE \<Rightarrow> Some 4
      | EC_UTF32BE \<Rightarrow> Some 4
      | _ \<Rightarrow> Some 1)"

text \<open>The \<open>switch (Size)\<close> of \<open>GetNextChar\<close> and \<open>EatNextChar\<close>.\<close>

definition char_at :: "mem \<Rightarrow> ptr \<Rightarrow> u32 \<Rightarrow> mb_char option" where
  "char_at m p n =
     (if n = 1 then do { c0 \<leftarrow> m p; Some (ucast c0) }
      else if n = 2 then do { c1 \<leftarrow> m (p + 1); c0 \<leftarrow> m p; Some (push_bit 8 (ucast c1) OR ucast c0) }
      else if n = 3 then do {
        c2 \<leftarrow> m (p + 2); c1 \<leftarrow> m (p + 1); c0 \<leftarrow> m p;
        Some (push_bit 16 (ucast c2) OR push_bit 8 (ucast c1) OR ucast c0)
      }
      else if n = 4 then do {
        c3 \<leftarrow> m (p + 3); c2 \<leftarrow> m (p + 2); c1 \<leftarrow> m (p + 1); c0 \<leftarrow> m p;
        Some (push_bit 24 (ucast c3) OR push_bit 16 (ucast c2) OR push_bit 8 (ucast c1) OR ucast c0)
      }
      else Some 0)"

definition GetNextChar :: "mem \<Rightarrow> ptr \<Rightarrow> encoding \<Rightarrow> mb_char option" where
  "GetNextChar m src enc =
     do {
       n \<leftarrow> GetNextCharSize m src enc;
       bytes \<leftarrow> char_at m src n;
       Some (AdjustEndianness bytes enc)
     }"

text \<open>\<open>src\<close> is the address of the caller's pointer, of 64 bits. The size of the character is asked for with that
  address and not with the pointer, as in the code, so it depends on the bytes of the pointer; at the end the code
  writes back the pointer that it has read.\<close>

definition EatNextChar :: "mem \<Rightarrow> ptr \<Rightarrow> encoding \<Rightarrow> (mb_char \<times> mem) option" where
  "EatNextChar m src enc =
     do {
       p \<leftarrow> load_word m src;
       n \<leftarrow> GetNextCharSize m src enc;
       bytes \<leftarrow> char_at m p n;
       m \<leftarrow> store_word m src p;
       Some (AdjustEndianness bytes enc, m)
     }"

section \<open>Lengths\<close>

text \<open>\<open>for (; i < n; i++) if (test(i)) Result++\<close>.\<close>

function for_count :: "usz \<Rightarrow> usz \<Rightarrow> (usz \<Rightarrow> bool option) \<Rightarrow> usz \<Rightarrow> usz option" where
  "for_count i n test result =
     (if i < n
      then do { t \<leftarrow> test i; for_count (i + 1) n test (if t then result + 1 else result) }
      else Some result)"
  by pat_completeness auto
termination
  by (relation "measure (\<lambda>(i, n, test, r). unat n - unat i)")
    (auto simp: unat_Suc_less word_less_nat_alt)

declare for_count.simps [simp del]

definition AsciiLenPrintChar :: "mem \<Rightarrow> tb_string \<Rightarrow> usz option" where
  "AsciiLenPrintChar m A =
     for_count 0 (WriteCur A)
       (\<lambda>idx. do { c \<leftarrow> m (Base A + idx); Some ((0x20 :: int) \<le> sint c \<and> sint c < 0x7F) }) 0"

definition UTF8LenCodePoints :: "mem \<Rightarrow> tb_string \<Rightarrow> usz option" where
  "UTF8LenCodePoints m A =
     for_count 0 (WriteCur A) (\<lambda>idx. do { c \<leftarrow> m (Base A + idx); Some (c AND 0xC0 \<noteq> 0x80) }) 0"

text \<open>The loops over UTF-16 code points; an index may pass the end of the address space.\<close>

partial_function (option) UTF16_points ::
  "(mem \<Rightarrow> ptr \<Rightarrow> u32 option) \<Rightarrow> mem \<Rightarrow> tb_string \<Rightarrow> usz \<Rightarrow> usz \<Rightarrow> usz option" where
  "UTF16_points charSize m A idx result =
     (if idx < WriteCur A
      then do { n \<leftarrow> charSize m (Base A + idx); UTF16_points charSize m A (idx + ucast n) (result + 1) }
      else Some result)"

definition UTF16LELenCodePoints :: "mem \<Rightarrow> tb_string \<Rightarrow> usz option" where
  "UTF16LELenCodePoints m A = UTF16_points UTF16LECharSize m A 0 0"

definition UTF16BELenCodePoints :: "mem \<Rightarrow> tb_string \<Rightarrow> usz option" where
  "UTF16BELenCodePoints m A = UTF16_points UTF16BECharSize m A 0 0"

text \<open>
  The printable lengths read through \<open>char*\<close>, whose elements are sign-extended. \<open>spread\<close> is
  \<open>Ptr[3] << 24 | Ptr[2] << 16 | Ptr[1] << 8 | Ptr[0]\<close> on the elements given, first one lowest.
\<close>

fun spread :: "u8 list \<Rightarrow> u32" where
  "spread [] = 0"
| "spread (c # cs) = scast c OR push_bit 8 (spread cs)"

definition printable :: "mb_char \<Rightarrow> bool" where
  "printable ch \<longleftrightarrow> (ch \<ge> 0x20 \<and> ch < 0x7F) \<or> ch > 0x9F"

partial_function (option) UTF8_print :: "mem \<Rightarrow> ptr \<Rightarrow> ptr \<Rightarrow> usz \<Rightarrow> usz option" where
  "UTF8_print m p stop result =
     (if p < stop
      then do {
        n \<leftarrow> UTF8CharSize m p;
        cs \<leftarrow> load_bytes m p (unat n);
        UTF8_print m (p + ucast n) stop (if printable (spread cs) then result + 1 else result)
      }
      else Some result)"

definition UTF8LenPrintChar :: "mem \<Rightarrow> tb_string \<Rightarrow> usz option" where
  "UTF8LenPrintChar m A = UTF8_print m (Base A) (Base A + WriteCur A) 0"

partial_function (option) UTF16LE_print :: "mem \<Rightarrow> ptr \<Rightarrow> ptr \<Rightarrow> usz \<Rightarrow> usz option" where
  "UTF16LE_print m p stop result =
     (if p < stop
      then do {
        n \<leftarrow> UTF16LECharSize m p;
        cs \<leftarrow> load_bytes m p (unat n);
        let ch = spread cs;
        UTF16LE_print m (p + (if ch > 0xFFFF then 4 else 2)) stop
          (result + of_bool (printable ch))
      }
      else Some result)"

definition UTF16LELenPrintChar :: "mem \<Rightarrow> tb_string \<Rightarrow> usz option" where
  "UTF16LELenPrintChar m A = UTF16LE_print m (Base A) (Base A + WriteCur A) 0"

partial_function (option) UTF16BE_print :: "mem \<Rightarrow> ptr \<Rightarrow> ptr \<Rightarrow> usz \<Rightarrow> usz option" where
  "UTF16BE_print m p stop result =
     (if p < stop
      then do {
        n \<leftarrow> UTF16BECharSize m p;
        cs \<leftarrow> load_bytes m p (unat n);
        let ch = spread (if n = 2 then [cs ! 1, cs ! 0] else [cs ! 1, cs ! 0, cs ! 3, cs ! 2]);
        UTF16BE_print m (p + (if ch > 0xFFFF then 4 else 2)) stop
          (result + of_bool (printable ch))
      }
      else Some result)"

definition UTF16BELenPrintChar :: "mem \<Rightarrow> tb_string \<Rightarrow> usz option" where
  "UTF16BELenPrintChar m A = UTF16BE_print m (Base A) (Base A + WriteCur A) 0"

partial_function (option) UTF32_print ::
  "(u8 list \<Rightarrow> u8 list) \<Rightarrow> mem \<Rightarrow> ptr \<Rightarrow> ptr \<Rightarrow> usz \<Rightarrow> usz option" where
  "UTF32_print order m p stop result =
     (if p < stop
      then do {
        cs \<leftarrow> load_bytes m p 4;
        UTF32_print order m (p + 4) stop (result + of_bool (printable (spread (order cs))))
      }
      else Some result)"

definition UTF32LELenPrintChar :: "mem \<Rightarrow> tb_string \<Rightarrow> usz option" where
  "UTF32LELenPrintChar m A = UTF32_print id m (Base A) (Base A + WriteCur A) 0"

definition UTF32BELenPrintChar :: "mem \<Rightarrow> tb_string \<Rightarrow> usz option" where
  "UTF32BELenPrintChar m A = UTF32_print rev m (Base A) (Base A + WriteCur A) 0"

text \<open>
  Zero-terminated strings: \<open>while (*Ptr) Ptr++\<close> over units of \<open>k\<close> bytes; \<open>strlen\<close> is the case of
  one byte. The scan has no bound.
\<close>

partial_function (option) scan_zero :: "nat \<Rightarrow> mem \<Rightarrow> ptr \<Rightarrow> ptr option" where
  "scan_zero k m p =
     do {
       bs \<leftarrow> load_bytes m p k;
       if \<exists>b\<in>set bs. b \<noteq> 0 then scan_zero k m (p + of_nat k) else Some p
     }"

definition UTF16LenCString :: "mem \<Rightarrow> tb_string \<Rightarrow> usz option" where
  "UTF16LenCString m A = do { p \<leftarrow> scan_zero 2 m (Base A); Some (p - Base A) }"

definition UTF32LenCString :: "mem \<Rightarrow> tb_string \<Rightarrow> usz option" where
  "UTF32LenCString m A = do { p \<leftarrow> scan_zero 4 m (Base A); Some (p - Base A) }"

definition strlen :: "mem \<Rightarrow> ptr \<Rightarrow> usz option" where
  "strlen m s = do { p \<leftarrow> scan_zero 1 m s; Some (p - s) }"

datatype len_type = LEN_CSTRING | LEN_CODEPOINT | LEN_PRINTCHAR

definition StringLen :: "mem \<Rightarrow> tb_string \<Rightarrow> len_type \<Rightarrow> usz option" where
  "StringLen m A lenType =
     (case lenType of
        LEN_CODEPOINT \<Rightarrow>
          (case Enc A of
             EC_ASCII \<Rightarrow> Some (WriteCur A)
           | EC_UTF8 \<Rightarrow> UTF8LenCodePoints m A
           | EC_UTF16LE \<Rightarrow> UTF16LELenCodePoints m A
           | EC_UTF16BE \<Rightarrow> UTF16BELenCodePoints m A
           | EC_UTF32LE \<Rightarrow> Some (WriteCur A div 4)
           | EC_UTF32BE \<Rightarrow> Some (WriteCur A div 4))
      | LEN_PRINTCHAR \<Rightarrow>
          (case Enc A of
             EC_ASCII \<Rightarrow> AsciiLenPrintChar m A
           | EC_UTF8 \<Rightarrow> UTF8LenPrintChar m A
           | EC_UTF16LE \<Rightarrow> UTF16LELenPrintChar m A
           | EC_UTF16BE \<Rightarrow> UTF16BELenPrintChar m A
           | EC_UTF32LE \<Rightarrow> UTF32LELenPrintChar m A
           | EC_UTF32BE \<Rightarrow> UTF32BELenPrintChar m A)
      | LEN_CSTRING \<Rightarrow>
          (case Enc A of
             EC_UTF16LE \<Rightarrow> UTF16LenCString m A
           | EC_UTF16BE \<Rightarrow> UTF16LenCString m A
           | EC_UTF32LE \<Rightarrow> UTF32LenCString m A
           | EC_UTF32BE \<Rightarrow> UTF32LenCString m A
           | _ \<Rightarrow> strlen m (Base A)))"

definition StringC :: "mem \<Rightarrow> ptr \<Rightarrow> encoding \<Rightarrow> tb_string option" where
  "StringC m p enc =
     do {
       let result = String p 0 0 enc;
       n \<leftarrow> StringLen m result LEN_CSTRING;
       Some (result\<lparr>WriteCur := n\<rparr>)
     }"

section \<open>Classification\<close>

text \<open>
  The three loops differ in the test only. \<open>EC\<close> and \<open>Offset\<close> are the local variables of the
  code; the index may pass the end of the address space.
\<close>

definition fixed_enc :: "encoding \<Rightarrow> encoding" where
  "fixed_enc enc = (if enc = EC_UTF8 then EC_ASCII else enc)"

definition fixed_size :: "encoding \<Rightarrow> usz" where
  "fixed_size enc = (if enc \<ge> EC_UTF32LE then 4 else if enc \<ge> EC_UTF16LE then 2 else 1)"

partial_function (option) all_chars ::
  "(mb_char \<Rightarrow> bool) \<Rightarrow> mem \<Rightarrow> tb_string \<Rightarrow> encoding \<Rightarrow> usz \<Rightarrow> usz \<Rightarrow> bool option" where
  "all_chars test m src ec offset idx =
     (if idx < WriteCur src
      then do {
        ch \<leftarrow> GetNextChar m (Base src + idx) ec;
        if \<not> test ch then Some False else all_chars test m src ec offset (idx + offset)
      }
      else Some True)"

definition StringIsDigit :: "mem \<Rightarrow> tb_string \<Rightarrow> bool option" where
  "StringIsDigit m src =
     (let ec = fixed_enc (Enc src) in all_chars CharIsDigit m src ec (fixed_size ec) 0)"

definition StringIsLetter :: "mem \<Rightarrow> tb_string \<Rightarrow> bool option" where
  "StringIsLetter m src =
     (let ec = fixed_enc (Enc src) in all_chars CharIsLetter m src ec (fixed_size ec) 0)"

definition StringIsAlphanum :: "mem \<Rightarrow> tb_string \<Rightarrow> bool option" where
  "StringIsAlphanum m src =
     (let ec = fixed_enc (Enc src) in all_chars CharIsAlphanum m src ec (fixed_size ec) 0)"

section \<open>Queries\<close>

definition CharInString ::
  "dispatch \<Rightarrow> mem \<Rightarrow> ptr \<Rightarrow> mb_char \<Rightarrow> tb_string \<Rightarrow> u32 \<Rightarrow> usz option" where
  "CharInString d m sp needle haystack flags =
     (let needleSize = GetMultibyteCharSize needle (Enc haystack) in
      if needleSize = 1 then ByteInBuffer d m (ucast needle) (Buf haystack) flags
      else BufferInBuffer d (push_local m sp (le_bytes 4 needle)) (Buffer sp (ucast needleSize) 0)
             (Buf haystack) flags)"

definition StringInString ::
  "dispatch \<Rightarrow> mem \<Rightarrow> tb_string \<Rightarrow> tb_string \<Rightarrow> u32 \<Rightarrow> usz option" where
  "StringInString d m needle haystack flags =
     (if Enc needle = Enc haystack then BufferInBuffer d m (Buf needle) (Buf haystack) flags
      else Some INVALID_IDX)"

partial_function (option) CountCharInString_loop ::
  "dispatch \<Rightarrow> mem \<Rightarrow> ptr \<Rightarrow> mb_char \<Rightarrow> tb_string \<Rightarrow> usz \<Rightarrow> usz option" where
  "CountCharInString_loop d m sp needle haystack result =
     do {
       idx \<leftarrow> CharInString d m sp needle haystack RETURN_IDX_AFTER;
       if idx \<noteq> INVALID_IDX
       then CountCharInString_loop d m sp needle (AdvanceBuffer haystack idx) (result + 1)
       else Some result
     }"

definition CountCharInString ::
  "dispatch \<Rightarrow> mem \<Rightarrow> ptr \<Rightarrow> mb_char \<Rightarrow> tb_string \<Rightarrow> usz option" where
  "CountCharInString d m sp needle haystack = CountCharInString_loop d m sp needle haystack 0"

definition CompareStrings ::
  "mem \<Rightarrow> tb_string \<Rightarrow> tb_string \<Rightarrow> usz \<Rightarrow> u32 \<Rightarrow> usz option" where
  "CompareStrings m A B amountToCompare flag =
     (if Enc A = Enc B then CompareBuffers m (Buf A) (Buf B) amountToCompare flag
      else Some INVALID_IDX)"

definition EqualStrings :: "mem \<Rightarrow> tb_string \<Rightarrow> tb_string \<Rightarrow> bool option" where
  "EqualStrings m A B = (if Enc A = Enc B then EqualBuffers m (Buf A) (Buf B) else Some False)"

section \<open>Transcoding\<close>

text \<open>
  The three loops differ in the size they take for the encoded character and in the order in
  which they store its bytes: \<open>sz\<close> and \<open>put\<close>.
\<close>

partial_function (option) Transcode_loop ::
  "(mb_char \<Rightarrow> encoding \<Rightarrow> u32) \<Rightarrow> (mem \<Rightarrow> ptr \<Rightarrow> mb_char \<Rightarrow> u32 \<Rightarrow> mem option) \<Rightarrow>
   mem \<Rightarrow> tb_string \<Rightarrow> tb_string \<Rightarrow> usz \<Rightarrow> usz \<Rightarrow> (bool \<times> mem \<times> tb_string) option" where
  "Transcode_loop sz put m src dst startWriteCur srcIdx =
     (if srcIdx < WriteCur src
      then do {
        ch \<leftarrow> GetNextChar m (Base src + srcIdx) (Enc src);
        let charSize = GetMultibyteCharSize ch (Enc src);
        let decoded = DecodeChar ch (Enc src);
        let encoded = EncodeChar decoded (Enc dst);
        let encodedSize = sz encoded (Enc dst);
        if WriteCur dst + ucast encodedSize \<le> Size dst
        then do {
          m' \<leftarrow> put m (Base dst + WriteCur dst) encoded encodedSize;
          Transcode_loop sz put m' src (dst\<lparr>WriteCur := WriteCur dst + ucast encodedSize\<rparr>)
            startWriteCur (srcIdx + ucast charSize)
        }
        else Some (False, m, dst\<lparr>WriteCur := startWriteCur\<rparr>)
      }
      else Some (True, m, dst))"

definition put_LE :: "mem \<Rightarrow> ptr \<Rightarrow> mb_char \<Rightarrow> u32 \<Rightarrow> mem option" where
  "put_LE m p ch n =
     (if n = 1 \<or> n = 2 \<or> n = 3 \<or> n = 4 then store_bytes m p (le_bytes (unat n) ch) else Some m)"

definition put_UTF16BE :: "mem \<Rightarrow> ptr \<Rightarrow> mb_char \<Rightarrow> u32 \<Rightarrow> mem option" where
  "put_UTF16BE m p ch n =
     (let s = le_bytes 4 ch in
      if n = 2 then store_bytes m p [s ! 1, s ! 0]
      else if n = 4 then store_bytes m p [s ! 1, s ! 0, s ! 3, s ! 2]
      else Some m)"

definition put_UTF32BE :: "mem \<Rightarrow> ptr \<Rightarrow> mb_char \<Rightarrow> u32 \<Rightarrow> mem option" where
  "put_UTF32BE m p ch n =
     (let s = le_bytes 4 ch in store_bytes m p [s ! 3, s ! 2, s ! 1, s ! 0])"

definition TranscodeUTF16BE :: "mem \<Rightarrow> tb_string \<Rightarrow> tb_string \<Rightarrow> (bool \<times> mem \<times> tb_string) option" where
  "TranscodeUTF16BE m src dst =
     Transcode_loop GetMultibyteCharSize put_UTF16BE m src dst (WriteCur dst) 0"

definition TranscodeUTF32BE :: "mem \<Rightarrow> tb_string \<Rightarrow> tb_string \<Rightarrow> (bool \<times> mem \<times> tb_string) option" where
  "TranscodeUTF32BE m src dst = Transcode_loop (\<lambda>_ _. 4) put_UTF32BE m src dst (WriteCur dst) 0"

definition TranscodeLE :: "mem \<Rightarrow> tb_string \<Rightarrow> tb_string \<Rightarrow> (bool \<times> mem \<times> tb_string) option" where
  "TranscodeLE m src dst =
     Transcode_loop GetMultibyteCharSize put_LE m src dst (WriteCur dst) 0"

definition Transcode :: "mem \<Rightarrow> tb_string \<Rightarrow> tb_string \<Rightarrow> (bool \<times> mem \<times> tb_string) option" where
  "Transcode m src dst =
     (case Enc dst of
        EC_UTF16BE \<Rightarrow> TranscodeUTF16BE m src dst
      | EC_UTF32BE \<Rightarrow> TranscodeUTF32BE m src dst
      | _ \<Rightarrow> TranscodeLE m src dst)"

text \<open>\<open>sp\<close> is the address of the parameter \<open>New\<close>, \<open>sp'\<close> that of the needle of \<open>CharInString\<close>.\<close>

partial_function (option) ReplaceCharInString_loop ::
  "dispatch \<Rightarrow> mem \<Rightarrow> ptr \<Rightarrow> ptr \<Rightarrow> mb_char \<Rightarrow> usz \<Rightarrow> tb_string \<Rightarrow> mem option" where
  "ReplaceCharInString_loop d m sp sp' oldChar newLen A =
     do {
       foundIdx \<leftarrow> CharInString d m sp' oldChar A RETURN_IDX_FIND;
       if foundIdx \<noteq> INVALID_IDX
       then do {
         let A = AdvanceBuffer A foundIdx;
         (_, m') \<leftarrow> CopyData m (Base A) (WriteCur A) sp newLen;
         ReplaceCharInString_loop d m' sp sp' oldChar newLen (AdvanceBuffer A newLen)
       }
       else Some m
     }"

definition ReplaceCharInString ::
  "dispatch \<Rightarrow> mem \<Rightarrow> ptr \<Rightarrow> ptr \<Rightarrow> mb_char \<Rightarrow> mb_char \<Rightarrow> tb_string \<Rightarrow> (bool \<times> mem) option" where
  "ReplaceCharInString d m sp sp' oldChar newChar A =
     (let oldLen = GetMultibyteCharSize oldChar (Enc A);
          newLen = GetMultibyteCharSize newChar (Enc A)
      in if oldLen \<noteq> newLen then Some (False, m)
         else if newLen = 1
         then do {
           m' \<leftarrow> ReplaceByteInBuffer d m (ucast oldChar) (ucast newChar) (Buf A);
           Some (True, m')
         }
         else do {
           m' \<leftarrow> ReplaceCharInString_loop d (push_local m sp (le_bytes 4 newChar)) sp sp' oldChar
                   (ucast newLen) A;
           Some (True, pop_local m' sp 4)
         })"

section \<open>Writing\<close>

function AdvanceString :: "mem \<Rightarrow> tb_string \<Rightarrow> usz \<Rightarrow> tb_string option" where
  "AdvanceString m dst numChars =
     (if numChars \<noteq> 0
      then do {
        n \<leftarrow> GetNextCharSize m (Base dst) (Enc dst);
        AdvanceString m
          (dst\<lparr>Base := Base dst + ucast n, WriteCur := WriteCur dst - ucast n,
               Size := Size dst - ucast n\<rparr>)
          (numChars - 1)
      }
      else Some dst)"
  by pat_completeness auto
termination
  by (relation "measure (\<lambda>(m, d, n). unat n)") (auto simp: measure_unat)

declare AdvanceString.simps [simp del]

definition AppendCharToString ::
  "mem \<Rightarrow> ptr \<Rightarrow> mb_char \<Rightarrow> tb_string \<Rightarrow> (bool \<times> mem \<times> tb_string) option" where
  "AppendCharToString m sp src dst =
     do {
       let charSize = GetMultibyteCharSize src (Enc dst);
       let src = AdjustEndianness src (Enc dst);
       (r, m', dst') \<leftarrow> AppendBufferToBuffer (push_local m sp (le_bytes 4 src))
                          (Buffer sp (ucast charSize) 0) dst;
       Some (r, pop_local m' sp 4, dst')
     }"

definition AppendCharToStringNTimes ::
  "mem \<Rightarrow> ptr \<Rightarrow> mb_char \<Rightarrow> usz \<Rightarrow> tb_string \<Rightarrow> (bool \<times> mem \<times> tb_string) option" where
  "AppendCharToStringNTimes m sp src count dst =
     do {
       let charSize = GetMultibyteCharSize src (Enc dst);
       let src = AdjustEndianness src (Enc dst);
       (r, m', dst') \<leftarrow> AppendBufferToBufferNTimes (push_local m sp (le_bytes 4 src))
                          (Buffer sp (ucast charSize) 0) count dst;
       Some (r, pop_local m' sp 4, dst')
     }"

definition AppendArrayToString ::
  "mem \<Rightarrow> ptr \<Rightarrow> tb_string \<Rightarrow> (bool \<times> mem \<times> tb_string) option" where
  "AppendArrayToString m src dst =
     do {
       n \<leftarrow> StringLen m (String src 0 0 (Enc dst)) LEN_CSTRING;
       AppendDataToBuffer m src n dst
     }"

definition AppendDataToString ::
  "mem \<Rightarrow> ptr \<Rightarrow> usz \<Rightarrow> tb_string \<Rightarrow> (bool \<times> mem \<times> tb_string) option" where
  "AppendDataToString m src srcSize dst = AppendDataToBuffer m src srcSize dst"

definition AppendStringToString ::
  "mem \<Rightarrow> tb_string \<Rightarrow> tb_string \<Rightarrow> (bool \<times> mem \<times> tb_string) option" where
  "AppendStringToString m src dst =
     (if Enc src = Enc dst then AppendBufferToBuffer m (Buf src) dst else Transcode m src dst)"

function Transcode_times ::
  "mem \<Rightarrow> tb_string \<Rightarrow> usz \<Rightarrow> usz \<Rightarrow> tb_string \<Rightarrow> (mem \<times> tb_string) option" where
  "Transcode_times m src idx count dst =
     (if idx < count
      then do { (_, m', dst') \<leftarrow> Transcode m src dst; Transcode_times m' src (idx + 1) count dst' }
      else Some (m, dst))"
  by pat_completeness auto
termination
  by (relation "measure (\<lambda>(m, s, i, n, d). unat n - unat i)")
    (auto simp: unat_Suc_less word_less_nat_alt)

declare Transcode_times.simps [simp del]

definition AppendStringToStringNTimes ::
  "mem \<Rightarrow> tb_string \<Rightarrow> usz \<Rightarrow> tb_string \<Rightarrow> (bool \<times> mem \<times> tb_string) option" where
  "AppendStringToStringNTimes m src count dst =
     (if Enc src = Enc dst then AppendBufferToBufferNTimes m (Buf src) count dst
      else do { (m', dst') \<leftarrow> Transcode_times m src 0 count dst; Some (True, m', dst') })"

section \<open>Reading what has been stored\<close>

lemma drop_bit_byte: "x < 256 \<Longrightarrow> drop_bit k (of_nat x :: u8) = of_nat (x div 2 ^ k)"
proof -
  assume x: "x < 256"
  have "unat (drop_bit k (of_nat x :: u8)) = x div 2 ^ k"
    unfolding unat_drop_bit_eq using x by (simp add: unat_of_nat drop_bit_eq_div)
  moreover have "x div 2 ^ k < 256" using x div_le_dividend [of x "2 ^ k"] by linarith
  then have "unat (of_nat (x div 2 ^ k) :: u8) = x div 2 ^ k" by (simp add: unat_of_nat)
  ultimately show ?thesis by (simp only: word_unat_eq_iff)
qed

lemma of_nat_byte_eq: "x < 256 \<Longrightarrow> y < 256 \<Longrightarrow> (of_nat x :: u8) = of_nat y \<longleftrightarrow> x = y"
  by (simp add: word_of_nat_eq_iff take_bit_eq_mod)

lemma of_nat_byte_le: "x < 256 \<Longrightarrow> (of_nat x :: u8) \<le> 0x7F \<longleftrightarrow> x \<le> 0x7F"
  by (simp add: word_le_nat_alt unat_of_nat)

text \<open>The classes of the first byte, as \<open>_UTF8CharSize\<close> tells them apart.\<close>

lemma lead_class:
  "x < 0x80 \<Longrightarrow> (of_nat x :: u8) \<le> 0x7F"
  "x < 32 \<Longrightarrow> \<not> (of_nat (0xC0 + x) :: u8) \<le> 0x7F \<and> drop_bit 5 (of_nat (0xC0 + x) :: u8) = 6"
  "x < 16 \<Longrightarrow> \<not> (of_nat (0xE0 + x) :: u8) \<le> 0x7F \<and> drop_bit 5 (of_nat (0xE0 + x) :: u8) \<noteq> 6
     \<and> drop_bit 4 (of_nat (0xE0 + x) :: u8) = 0xE"
  "x < 8 \<Longrightarrow> \<not> (of_nat (0xF0 + x) :: u8) \<le> 0x7F \<and> drop_bit 5 (of_nat (0xF0 + x) :: u8) \<noteq> 6
     \<and> drop_bit 4 (of_nat (0xF0 + x) :: u8) \<noteq> 0xE \<and> drop_bit 3 (of_nat (0xF0 + x) :: u8) = 0x1E"
proof -
  show "x < 0x80 \<Longrightarrow> (of_nat x :: u8) \<le> 0x7F" by (simp add: of_nat_byte_le)
  assume "x < 32"
  then have "(0xC0 + x) div 2 ^ 5 = 6" by simp
  with \<open>x < 32\<close> show "\<not> (of_nat (0xC0 + x) :: u8) \<le> 0x7F \<and> drop_bit 5 (of_nat (0xC0 + x) :: u8) = 6"
    by (simp only: of_nat_byte_le drop_bit_byte) simp
next
  assume x: "x < 16"
  then have "(0xE0 + x) div 2 ^ 5 = 7" "(0xE0 + x) div 2 ^ 4 = 14" by simp_all
  with x show "\<not> (of_nat (0xE0 + x) :: u8) \<le> 0x7F \<and> drop_bit 5 (of_nat (0xE0 + x) :: u8) \<noteq> 6
     \<and> drop_bit 4 (of_nat (0xE0 + x) :: u8) = 0xE"
    by (simp only: of_nat_byte_le drop_bit_byte) simp
next
  assume x: "x < 8"
  then have "(0xF0 + x) div 2 ^ 5 = 7" "(0xF0 + x) div 2 ^ 4 = 15" "(0xF0 + x) div 2 ^ 3 = 30"
    by simp_all
  with x show "\<not> (of_nat (0xF0 + x) :: u8) \<le> 0x7F \<and> drop_bit 5 (of_nat (0xF0 + x) :: u8) \<noteq> 6
     \<and> drop_bit 4 (of_nat (0xF0 + x) :: u8) \<noteq> 0xE \<and> drop_bit 3 (of_nat (0xF0 + x) :: u8) = 0x1E"
    by (simp only: of_nat_byte_le drop_bit_byte) simp
qed

lemma UTF8CharSize_eq:
  assumes "c < 0x110000" "bytes_at m p (char_bytes EC_UTF8 c)"
  shows "UTF8CharSize m p
    = Some (if c < 0x80 then 1 else if c < 0x800 then 2 else if c < 0x10000 then 3 else 4)"
proof -
  have b: "m p = Some (of_nat (hd (utf8_bytes (unat c))))"
    using assms(2) by (auto simp: char_bytes_def code_bytes_def utf8_bytes_def split: if_splits)
  consider "unat c < 0x80" | "0x80 \<le> unat c" "unat c < 0x800" | "0x800 \<le> unat c" "unat c < 0x10000"
    | "0x10000 \<le> unat c" "unat c < 0x110000"
    using assms(1) by (force simp: word_less_nat_alt)
  then show ?thesis
  proof cases
    case 1
    then show ?thesis using b lead_class(1) [of "unat c"]
      by (simp add: UTF8CharSize_def utf8_bytes_def word_less_nat_alt)
  next
    case 2
    then have "unat c div 64 < 32" by simp
    from lead_class(2) [OF this] 2 b show ?thesis
      by (simp add: UTF8CharSize_def utf8_bytes_def word_less_nat_alt)
  next
    case 3
    then have "unat c div 4096 < 16" by simp
    from lead_class(3) [OF this] 3 b show ?thesis
      by (simp add: UTF8CharSize_def utf8_bytes_def word_less_nat_alt)
  next
    case 4
    then have "unat c div 262144 < 8" by simp
    from lead_class(4) [OF this] 4 b show ?thesis
      by (simp add: UTF8CharSize_def utf8_bytes_def word_less_nat_alt)
  qed
qed

text \<open>The high byte of a code unit that is not a low surrogate.\<close>

lemma unit_high:
  assumes "u < 65536" "\<not> (0xDC00 \<le> u \<and> u < 0xE000)"
  shows "((of_nat (u div 256) :: u8) \<ge> 0xD8 \<and> (of_nat (u div 256) :: u8) < 0xE0)
    \<longleftrightarrow> 0xD800 \<le> u \<and> u < 0xDC00"
proof -
  have "unat (of_nat (u div 256) :: u8) = u div 256"
    using assms(1) by (simp add: unat_of_nat)
  then show ?thesis using assms by (simp add: word_le_nat_alt word_less_nat_alt) arith
qed

lemma UTF16_size:
  assumes "c < 0x110000" "enc = EC_UTF16LE \<or> enc = EC_UTF16BE"
  shows "GetMultibyteCharSize (UnicodeToUTF16 c) enc = (if c < 0x10000 then 2 else 4)"
proof (cases "0x10000 \<le> c")
  case False
  then show ?thesis using assms(2)
    by (auto simp: UnicodeToUTF16_def GetMultibyteCharSize_def word_le_nat_alt word_less_nat_alt)
next
  case True
  have "0xFFFF < unat (UnicodeToUTF16 c)"
    using UTF16_pair(2,4) [OF True assms(1)] by simp
  then show ?thesis using True assms(2)
    by (auto simp: GetMultibyteCharSize_def word_le_nat_alt word_less_nat_alt)
qed

lemma first_unit:
  assumes "enc_ok EC_UTF16LE c"
  shows "((of_nat (hd (utf16_units (unat c)) div 256) :: u8) \<ge> 0xD8
      \<and> (of_nat (hd (utf16_units (unat c)) div 256) :: u8) < 0xE0) \<longleftrightarrow> 0x10000 \<le> c"
proof -
  have c: "unat c < 0x110000" "\<not> (0xD800 \<le> unat c \<and> unat c < 0xE000)"
    using assms by (simp_all add: enc_ok_def word_less_nat_alt word_le_nat_alt)
  have "(unat c - 0x10000) div 1024 < 1024" using c by simp
  then show ?thesis
    using c unit_high [of "hd (utf16_units (unat c))"]
    by (auto simp: utf16_units_def word_le_nat_alt)
qed

lemma GetNextCharSize_eq:
  assumes "enc_ok enc c" "bytes_at m p (char_bytes enc c)"
  shows "GetNextCharSize m p enc = Some (GetMultibyteCharSize (EncodeChar c enc) enc)"
proof (cases enc)
  case EC_ASCII
  then have "c \<le> 0xFF" using assms(1) by (simp add: enc_ok_def word_less_nat_alt word_le_nat_alt)
  with EC_ASCII show ?thesis
    by (simp add: GetNextCharSize_def EncodeChar_def GetMultibyteCharSize_def)
next
  case EC_UTF8
  then have "c < 0x110000" using assms(1) by (simp add: enc_ok_def)
  with EC_UTF8 assms(2) show ?thesis
    by (simp add: GetNextCharSize_def EncodeChar_def UTF8CharSize_eq UTF8_size)
next
  case EC_UTF16LE
  then have c: "c < 0x110000" "enc_ok EC_UTF16LE c" using assms(1) by (simp_all add: enc_ok_def)
  have "m (p + 1) = Some (of_nat (hd (utf16_units (unat c)) div 256))"
    using assms(2) EC_UTF16LE
    by (auto simp: char_bytes_def code_bytes_def utf16_units_def unit_bytes_def split: if_splits)
  then show ?thesis using EC_UTF16LE first_unit [OF c(2)] c(1)
    by (auto simp: GetNextCharSize_def UTF16LECharSize_def EncodeChar_def UTF16_size)
next
  case EC_UTF16BE
  then have c: "c < 0x110000" "enc_ok EC_UTF16LE c" using assms(1) by (simp_all add: enc_ok_def)
  have "m p = Some (of_nat (hd (utf16_units (unat c)) div 256))"
    using assms(2) EC_UTF16BE
    by (auto simp: char_bytes_def code_bytes_def utf16_units_def unit_bytes_def split: if_splits)
  then show ?thesis using EC_UTF16BE first_unit [OF c(2)] c(1)
    by (auto simp: GetNextCharSize_def UTF16BECharSize_def EncodeChar_def UTF16_size)
qed (simp_all add: GetNextCharSize_def GetMultibyteCharSize_def)

lemma char_at_le_bytes:
  assumes "bytes_at m p (le_bytes (unat n) w)" "n = 1 \<or> n = 2 \<or> n = 3 \<or> n = 4"
  shows "char_at m p n = Some (take_bit (8 * unat n) w)"
proof -
  have b1: "ucast (ucast w :: u8) = take_bit 8 w"
    by (rule word_eq_bits) (simp_all add: bit_simps)
  have b2: "push_bit 8 (ucast (ucast (drop_bit 8 w) :: u8)) OR ucast (ucast w :: u8) = take_bit 16 w"
    by (rule word_eq_bits) (simp_all add: bit_simps)
  have b3: "push_bit 16 (ucast (ucast (drop_bit 16 w) :: u8))
      OR push_bit 8 (ucast (ucast (drop_bit 8 w) :: u8)) OR ucast (ucast w :: u8) = take_bit 24 w"
    by (rule word_eq_bits) (simp_all add: bit_simps)
  have b4: "push_bit 24 (ucast (ucast (drop_bit 24 w) :: u8)) OR push_bit 16 (ucast (ucast (drop_bit 16 w) :: u8))
      OR push_bit 8 (ucast (ucast (drop_bit 8 w) :: u8)) OR ucast (ucast w :: u8) = take_bit 32 w"
    by (rule word_eq_bits) (simp_all add: bit_simps)
  consider "n = 1" | "n = 2" | "n = 3" | "n = 4" using assms(2) by blast
  then show ?thesis
  proof cases
    case 1
    then have "m p = Some (ucast w)" using assms(1) le_bytes_simps(1) [of w] by simp
    then show ?thesis by (simp add: char_at_def 1 b1)
  next
    case 2
    then have "m p = Some (ucast w)" "m (p + 1) = Some (ucast (drop_bit 8 w))"
      using assms(1) by (simp_all add: le_bytes_simps)
    then show ?thesis by (simp add: char_at_def 2 b2)
  next
    case 3
    then have "bytes_at m p (le_bytes 3 w)" using assms(1) by simp
    then have "m p = Some (ucast w)" "m (p + 1) = Some (ucast (drop_bit 8 w))"
        "m (p + 2) = Some (ucast (drop_bit 16 w))"
      unfolding le_bytes_simps by (simp_all add: algebra_simps)
    then show ?thesis by (simp add: char_at_def 3 b3)
  next
    case 4
    then have "bytes_at m p (le_bytes 4 w)" using assms(1) by simp
    then have "m p = Some (ucast w)" "m (p + 1) = Some (ucast (drop_bit 8 w))"
        "m (p + 2) = Some (ucast (drop_bit 16 w))" "m (p + 3) = Some (ucast (drop_bit 24 w))"
      unfolding le_bytes_simps by (simp_all add: algebra_simps)
    then show ?thesis by (simp add: char_at_def 4 b4)
  qed
qed

lemma size_cases:
  "GetMultibyteCharSize ch enc = 1 \<or> GetMultibyteCharSize ch enc = 2
    \<or> GetMultibyteCharSize ch enc = 3 \<or> GetMultibyteCharSize ch enc = 4"
  by (cases enc) (simp_all add: GetMultibyteCharSize_def)

lemma take_bit_all: "unat w < 2 ^ k \<Longrightarrow> take_bit k w = w" for w :: u32
  by (simp add: word_unat_eq_iff unsigned_take_bit_eq take_bit_nat_eq_self)

text \<open>Putting a character in memory order and back again loses nothing.\<close>

lemma AdjustEndianness_twice:
  "AdjustEndianness (take_bit (8 * unat (GetMultibyteCharSize ch enc)) (AdjustEndianness ch enc)) enc = ch"
proof -
  let ?n = "unat (GetMultibyteCharSize ch enc)"
  have lt: "unat ch < 2 ^ (8 * ?n)"
    using unsigned_less [of ch, where ?'a = nat]
    by (cases enc) (auto simp: GetMultibyteCharSize_def word_le_nat_alt)
  consider "enc = EC_UTF16BE" | "enc = EC_UTF32BE" | "enc \<noteq> EC_UTF16BE" "enc \<noteq> EC_UTF32BE" by blast
  then show ?thesis
  proof cases
    case 1
    show ?thesis
    proof (cases "ch \<le> 0xFFFF")
      case True
      then have "ch < 2 ^ 16" by (simp add: word_le_nat_alt word_less_nat_alt)
      then have "take_bit 16 (FlipEndian16x2 ch) = FlipEndian16x2 ch"
        using low_bits [of ch 16]
        by (intro word_eq_bits) (simp_all add: FlipEndian16x2_def FlipEndian16_def bit_simps)
      then show ?thesis using 1 True
        by (simp add: AdjustEndianness_def GetMultibyteCharSize_def FlipEndian16x2_twice)
    next
      case False
      have "take_bit 32 w = w" for w :: u32 by (rule bit_word_eqI) (simp add: bit_simps)
      then show ?thesis using 1 False
        by (simp add: AdjustEndianness_def GetMultibyteCharSize_def FlipEndian16x2_twice)
    qed
  next
    case 2
    have "take_bit 32 w = w" for w :: u32 by (rule bit_word_eqI) (simp add: bit_simps)
    then show ?thesis using 2
      by (simp add: AdjustEndianness_def GetMultibyteCharSize_def FlipEndian32_twice)
  next
    case 3
    then show ?thesis using take_bit_all [OF lt] by (simp add: AdjustEndianness_def)
  qed
qed

lemma GetNextChar_eq:
  assumes "enc_ok enc c" "bytes_at m p (char_bytes enc c)"
  shows "GetNextChar m p enc = Some (EncodeChar c enc)"
proof -
  let ?u = "EncodeChar c enc" and ?n = "GetMultibyteCharSize (EncodeChar c enc) enc"
  have "bytes_at m p (le_bytes (unat ?n) (AdjustEndianness ?u enc))"
    using assms stored_EncodeChar [OF assms(1)] by (simp add: stored_def)
  from char_at_le_bytes [OF this size_cases] show ?thesis
    by (simp add: GetNextChar_def GetNextCharSize_eq [OF assms] AdjustEndianness_twice)
qed

section \<open>Strings of characters\<close>

text \<open>\<open>enc_text enc cs\<close>: the bytes of the characters \<open>cs\<close>; \<open>has_text m A cs\<close>: the string \<open>A\<close> holds them.\<close>

definition enc_text :: "encoding \<Rightarrow> uchar list \<Rightarrow> u8 list" where
  "enc_text enc cs = concat (map (char_bytes enc) cs)"

definition has_text :: "mem \<Rightarrow> tb_string \<Rightarrow> uchar list \<Rightarrow> bool" where
  "has_text m A cs \<longleftrightarrow> holds m A (enc_text (Enc A) cs) \<and> (\<forall>c\<in>set cs. enc_ok (Enc A) c)"

lemma enc_text_simps [simp]:
  "enc_text enc [] = []" "enc_text enc (c # cs) = char_bytes enc c @ enc_text enc cs"
  "enc_text enc (cs @ ds) = enc_text enc cs @ enc_text enc ds"
  by (simp_all add: enc_text_def)

lemma length_char_bytes:
  assumes "enc_ok enc c"
  shows "length (char_bytes enc c) = unat (GetMultibyteCharSize (EncodeChar c enc) enc)"
  by (simp add: stored_EncodeChar [OF assms, symmetric] length_stored)

lemma char_bytes_bounds:
  assumes "enc_ok enc c"
  shows "0 < length (char_bytes enc c)" "length (char_bytes enc c) \<le> 4"
  using length_char_bytes [OF assms] char_size_bounds [of "EncodeChar c enc" enc] by simp_all

lemma for_count_eq:
  assumes "\<And>i. i < n \<Longrightarrow> test i = Some (P (unat i))"
  shows "for_count i n test r = Some (r + of_nat (length (filter P [unat i..<unat n])))"
proof (induction i arbitrary: r rule: word_up_induct [of n])
  case (step i)
  show ?case
  proof (cases "i < n")
    case True
    then have "[unat i..<unat n] = unat i # [unat (i + 1)..<unat n]"
      by (subst upt_conv_Cons) (simp_all add: unat_Suc_less word_less_nat_alt)
    with True step assms [OF True] show ?thesis
      by (subst for_count.simps) simp
  next
    case False
    then have "unat n \<le> unat i" by (simp add: word_less_nat_alt)
    with False show ?thesis by (subst for_count.simps) simp
  qed
qed

lemma filter_upt_nth: "length (filter (\<lambda>i. P (xs ! i)) [0..<length xs]) = length (filter P xs)"
proof -
  have "filter P xs = filter P (map (\<lambda>i. xs ! i) [0..<length xs])" by (simp add: map_nth)
  then show ?thesis by (simp add: filter_map comp_def)
qed

lemma count_bytes:
  assumes "holds m A xs" "\<And>b. test b \<longleftrightarrow> P b"
  shows "for_count 0 (WriteCur A) (\<lambda>idx. do { c \<leftarrow> m (Base A + idx); Some (test c) }) 0
    = Some (of_nat (length (filter P xs)))"
proof -
  have "for_count 0 (WriteCur A) (\<lambda>idx. do { c \<leftarrow> m (Base A + idx); Some (test c) }) 0
      = Some (0 + of_nat (length (filter (\<lambda>i. P (xs ! i)) [unat 0..<unat (WriteCur A)])))"
    using assms(2) holds_nth [OF assms(1)] for_count_eq [of "WriteCur A" _ "\<lambda>i. P (xs ! i)" 0 0] by simp
  then show ?thesis using assms(1) filter_upt_nth [of P xs] by (simp add: holds_def)
qed

text \<open>UTF-8: exactly one byte of each character is not a continuation byte.\<close>

lemma and_C0: "(b :: u8) AND 0xC0 = 0x80 \<longleftrightarrow> drop_bit 6 b = 2"
proof
  have hi: "8 \<le> n \<Longrightarrow> \<not> bit b n" for n by (auto dest: bit_imp_le_length)
  assume a: "b AND 0xC0 = 0x80"
  have "drop_bit 6 b = drop_bit 6 (b AND 0xC0)"
    by (rule word_eq_bits) (simp_all add: bit_simps hi)
  with a show "drop_bit 6 b = 2" by simp
next
  assume a: "drop_bit 6 b = 2"
  have "b AND 0xC0 = push_bit 6 (drop_bit 6 b)"
    by (rule word_eq_bits) (simp_all add: bit_simps)
  with a show "b AND 0xC0 = 0x80" by simp
qed

lemma is_cont: "x < 256 \<Longrightarrow> (of_nat x :: u8) AND 0xC0 = 0x80 \<longleftrightarrow> x div 64 = 2"
proof -
  assume x: "x < 256"
  then have "drop_bit 6 (of_nat x :: u8) = of_nat (x div 64)" using drop_bit_byte [of x 6] by simp
  moreover have "x div 64 < 256" using x by simp
  then have "(of_nat (x div 64) :: u8) = of_nat 2 \<longleftrightarrow> x div 64 = 2" by (intro of_nat_byte_eq) simp_all
  ultimately show ?thesis by (simp add: and_C0)
qed

lemma one_lead:
  assumes "c < 0x110000"
  shows "length (filter (\<lambda>b. b AND 0xC0 \<noteq> 0x80) (char_bytes EC_UTF8 c)) = 1"
proof -
  have tail: "(of_nat (0x80 + x mod 64) :: u8) AND 0xC0 = 0x80" for x
    using is_cont [of "0x80 + x mod 64"] by simp
  consider "unat c < 0x80" | "0x80 \<le> unat c" "unat c < 0x800" | "0x800 \<le> unat c" "unat c < 0x10000"
    | "0x10000 \<le> unat c" "unat c < 0x110000"
    using assms by (force simp: word_less_nat_alt)
  then show ?thesis
  proof cases
    case 1
    then show ?thesis using is_cont [of "unat c"]
      by (simp add: char_bytes_def code_bytes_def utf8_bytes_def)
  next
    case 2
    then have "0xC0 + unat c div 64 < 256" "(0xC0 + unat c div 64) div 64 = 3" by simp_all
    then show ?thesis using 2 is_cont [of "0xC0 + unat c div 64"] tail [of "unat c"]
      by (simp add: char_bytes_def code_bytes_def utf8_bytes_def)
  next
    case 3
    then have "0xE0 + unat c div 4096 < 256" "(0xE0 + unat c div 4096) div 64 = 3" by simp_all
    then show ?thesis
      using 3 is_cont [of "0xE0 + unat c div 4096"] tail [of "unat c"] tail [of "unat c div 64"]
      by (simp add: char_bytes_def code_bytes_def utf8_bytes_def)
  next
    case 4
    then have "0xF0 + unat c div 262144 < 256" "(0xF0 + unat c div 262144) div 64 = 3" by simp_all
    then show ?thesis
      using 4 is_cont [of "0xF0 + unat c div 262144"] tail [of "unat c"] tail [of "unat c div 64"]
        tail [of "unat c div 4096"]
      by (simp add: char_bytes_def code_bytes_def utf8_bytes_def)
  qed
qed

lemma count_leads:
  "\<forall>c\<in>set cs. c < 0x110000 \<Longrightarrow>
     length (filter (\<lambda>b. b AND 0xC0 \<noteq> 0x80) (enc_text EC_UTF8 cs)) = length cs"
  using one_lead by (induction cs) auto

lemma of_nat_less_WriteCur:
  assumes "i < unat (w :: usz)"
  shows "of_nat i < w" "unat (of_nat i :: usz) = i"
proof -
  show u: "unat (of_nat i :: usz) = i" using assms unat_lt_2p [of w] by (intro unat_offset) simp
  show "of_nat i < w" using assms by (simp add: word_less_nat_alt u)
qed

text \<open>The UTF-16 loops step over whole characters.\<close>

lemma UTF16_points_eq:
  assumes size: "\<And>p c. enc_ok enc c \<Longrightarrow> bytes_at m p (char_bytes enc c) \<Longrightarrow>
      charSize m p = Some (GetMultibyteCharSize (EncodeChar c enc) enc)"
    and "bytes_at m (Base A + of_nat i) (enc_text enc cs)" "\<forall>c\<in>set cs. enc_ok enc c"
    and "i + length (enc_text enc cs) = unat (WriteCur A)"
  shows "UTF16_points charSize m A (of_nat i) r = Some (r + of_nat (length cs))"
  using assms(2-4)
proof (induction cs arbitrary: i r)
  case Nil
  then have "of_nat i = WriteCur A" by simp
  then show ?case by (subst UTF16_points.simps) simp
next
  case (Cons c cs)
  have ok: "enc_ok enc c" using Cons.prems(2) by simp
  note len = length_char_bytes [OF ok] char_bytes_bounds [OF ok]
  have "i < unat (WriteCur A)"
    using Cons.prems(3) len(2) unfolding enc_text_simps length_append by linarith
  note lt = of_nat_less_WriteCur [OF this]
  have "charSize m (Base A + of_nat i) = Some (GetMultibyteCharSize (EncodeChar c enc) enc)"
    using Cons.prems(1) by (intro size [OF ok]) simp
  moreover have "of_nat i + ucast (GetMultibyteCharSize (EncodeChar c enc) enc)
      = (of_nat (i + length (char_bytes enc c)) :: usz)"
    by (simp add: len(1))
  moreover have "UTF16_points charSize m A (of_nat (i + length (char_bytes enc c))) (r + 1)
      = Some (r + 1 + of_nat (length cs))"
    using Cons.prems by (intro Cons.IH) (simp_all add: add.assoc)
  ultimately show ?case
    using lt(1) by (subst UTF16_points.simps) (simp add: add.assoc)
qed

lemma length_enc_text_UTF32:
  assumes "enc = EC_UTF32LE \<or> enc = EC_UTF32BE" "\<forall>c\<in>set cs. enc_ok enc c"
  shows "length (enc_text enc cs) = 4 * length cs"
proof -
  have "length (char_bytes enc c) = 4" for c
    using assms(1) by (auto simp: char_bytes_def code_bytes_def utf32_bytes_def)
  then show ?thesis by (induction cs) simp_all
qed

lemma length_enc_text_ASCII: "length (enc_text EC_ASCII cs) = length cs"
  by (induction cs) (simp_all add: char_bytes_def code_bytes_def)

lemma StringLen_codepoints:
  assumes "has_text m A cs"
  shows "StringLen m A LEN_CODEPOINT = Some (of_nat (length cs))"
proof -
  let ?bs = "enc_text (Enc A) cs"
  have h: "holds m A ?bs" and ok: "\<forall>c\<in>set cs. enc_ok (Enc A) c"
    using assms by (simp_all add: has_text_def)
  then have at: "bytes_at m (Base A + of_nat 0) ?bs" and len: "0 + length ?bs = unat (WriteCur A)"
    by (simp_all add: holds_def)
  have w: "WriteCur A = of_nat (length ?bs)" using len by (simp add: word_unat_eq_iff unat_offset)
  show ?thesis
  proof (cases "Enc A")
    case EC_ASCII
    then show ?thesis using w by (simp add: StringLen_def length_enc_text_ASCII)
  next
    case EC_UTF8
    then have "\<forall>c\<in>set cs. c < 0x110000" using ok by (simp add: enc_ok_def)
    then show ?thesis using EC_UTF8 h count_leads [of cs]
        count_bytes [OF h, of "\<lambda>b. b AND 0xC0 \<noteq> 0x80" "\<lambda>b. b AND 0xC0 \<noteq> 0x80"]
      by (simp add: StringLen_def UTF8LenCodePoints_def)
  next
    case EC_UTF16LE
    have "UTF16_points UTF16LECharSize m A (of_nat 0) 0 = Some (0 + of_nat (length cs))"
      using at ok len EC_UTF16LE GetNextCharSize_eq [of EC_UTF16LE _ m]
      by (intro UTF16_points_eq [of EC_UTF16LE]) (simp_all add: GetNextCharSize_def)
    then show ?thesis using EC_UTF16LE by (simp add: StringLen_def UTF16LELenCodePoints_def)
  next
    case EC_UTF16BE
    have "UTF16_points UTF16BECharSize m A (of_nat 0) 0 = Some (0 + of_nat (length cs))"
      using at ok len EC_UTF16BE GetNextCharSize_eq [of EC_UTF16BE _ m]
      by (intro UTF16_points_eq [of EC_UTF16BE]) (simp_all add: GetNextCharSize_def)
    then show ?thesis using EC_UTF16BE by (simp add: StringLen_def UTF16BELenCodePoints_def)
  next
    case EC_UTF32LE
    then have "unat (WriteCur A) = 4 * length cs" using len ok length_enc_text_UTF32 by simp
    then have "unat (WriteCur A div 4) = length cs" by (simp add: unat_div)
    then have "WriteCur A div 4 = of_nat (length cs)" by (metis of_nat_unat ucast_id)
    then show ?thesis using EC_UTF32LE by (simp add: StringLen_def)
  next
    case EC_UTF32BE
    then have "unat (WriteCur A) = 4 * length cs" using len ok length_enc_text_UTF32 by simp
    then have "unat (WriteCur A div 4) = length cs" by (simp add: unat_div)
    then have "WriteCur A div 4 = of_nat (length cs)" by (metis of_nat_unat ucast_id)
    then show ?thesis using EC_UTF32BE by (simp add: StringLen_def)
  qed
qed

section \<open>Transcoding a text\<close>

text \<open>
  What the transcoding loop relies on: the size it takes and the bytes it stores for an encoded
  character are those of the target encoding.
\<close>

locale char_writer =
  fixes target :: encoding
    and sz :: "mb_char \<Rightarrow> encoding \<Rightarrow> u32"
    and put :: "mem \<Rightarrow> ptr \<Rightarrow> mb_char \<Rightarrow> u32 \<Rightarrow> mem option"
  assumes sz_eq: "enc_ok target c \<Longrightarrow>
      unat (sz (EncodeChar c target) target) = length (char_bytes target c)"
    and put_eq: "enc_ok target c \<Longrightarrow>
      put m p (EncodeChar c target) (sz (EncodeChar c target) target)
        = store_bytes m p (char_bytes target c)"
begin

lemma step:
  assumes ok: "enc_ok (Enc src) c" and at: "bytes_at m (Base src + of_nat i) (char_bytes (Enc src) c)"
    and "i < unat (WriteCur src)" "Enc dst = target" "enc_ok target c"
    and "buf_ok m dst" "unat (Size dst) + 4 < 2 ^ 64"
  shows "Transcode_loop sz put m src dst start (of_nat i) =
    (if length (char_bytes target c) \<le> space dst
     then Transcode_loop sz put (upd_bytes m (Base dst + WriteCur dst) (char_bytes target c)) src
            (dst\<lparr>WriteCur := WriteCur dst + of_nat (length (char_bytes target c))\<rparr>) start
            (of_nat (i + length (char_bytes (Enc src) c)))
     else Some (False, m, dst\<lparr>WriteCur := start\<rparr>))"
proof -
  let ?u = "EncodeChar c target" and ?n = "length (char_bytes target c)"
  note lt = of_nat_less_WriteCur [OF assms(3)]
  have next_ch: "GetNextChar m (Base src + of_nat i) (Enc src) = Some (EncodeChar c (Enc src))"
    by (rule GetNextChar_eq [OF ok at])
  have dec: "DecodeChar (EncodeChar c (Enc src)) (Enc src) = c" by (rule decode_encode [OF ok])
  have n: "?n \<le> 4" using char_bytes_bounds [OF assms(5)] by simp
  have sz: "ucast (sz ?u target) = (of_nat ?n :: usz)"
    by (simp flip: sz_eq [OF assms(5)])
  have csz: "ucast (GetMultibyteCharSize (EncodeChar c (Enc src)) (Enc src))
      = (of_nat (length (char_bytes (Enc src) c)) :: usz)"
    by (simp add: length_char_bytes [OF ok])
  have "unat (WriteCur dst + of_nat ?n) = unat (WriteCur dst) + ?n"
  proof -
    have "unat (of_nat ?n :: usz) = ?n" using n by (intro unat_offset) simp
    moreover have "unat (WriteCur dst) + ?n < 2 ^ 64"
      using n assms(6,7) by (simp add: buf_ok_def word_le_nat_alt)
    ultimately show ?thesis by (subst unat_add_lem [THEN iffD1]) simp_all
  qed
  then have fits: "WriteCur dst + of_nat ?n \<le> Size dst \<longleftrightarrow> ?n \<le> space dst"
    using assms(6) by (auto simp: word_le_nat_alt space_def buf_ok_def)
  have put: "put m (Base dst + WriteCur dst) ?u (sz ?u target)
      = Some (upd_bytes m (Base dst + WriteCur dst) (char_bytes target c))" if "?n \<le> space dst"
    using tail_mapped [OF assms(6) that] n
    by (simp add: put_eq [OF assms(5)] store_bytes_upd)
  show ?thesis
    using lt(1) next_ch dec sz csz fits put assms(4)
    by (subst Transcode_loop.simps) (simp add: Let_def)
qed

lemma loop:
  assumes "bytes_at m (Base src + of_nat i) (enc_text (Enc src) cs)"
    and "i + length (enc_text (Enc src) cs) = unat (WriteCur src)"
    and "\<forall>c\<in>set cs. enc_ok (Enc src) c \<and> enc_ok target c" and "Enc dst = target"
    and "buf_ok m dst" "unat (Size dst) + 4 < 2 ^ 64"
    and "buf_region dst \<inter> region (Base src) (unat (WriteCur src)) = {}"
  shows "if length (enc_text target cs) \<le> space dst
    then Transcode_loop sz put m src dst start (of_nat i)
      = Some (append_result m dst (enc_text target cs))
    else \<exists>m'. Transcode_loop sz put m src dst start (of_nat i)
        = Some (False, m', dst\<lparr>WriteCur := start\<rparr>)
      \<and> (\<forall>q. q \<notin> region (Base dst + WriteCur dst) (space dst) \<longrightarrow> m' q = m q)"
  using assms
proof (induction cs arbitrary: i m dst)
  case Nil
  then have "of_nat i = WriteCur src" by simp
  then have "Transcode_loop sz put m src dst start (of_nat i) = Some (True, m, dst)"
    by (subst Transcode_loop.simps) simp
  then show ?case by (simp add: append_Nil)
next
  case (Cons c cs)
  let ?x = "char_bytes target c" and ?y = "char_bytes (Enc src) c"
  have ok: "enc_ok (Enc src) c" "enc_ok target c" using Cons.prems(3) by simp_all
  have at: "bytes_at m (Base src + of_nat i) ?y" using Cons.prems(1) by simp
  have i: "i < unat (WriteCur src)"
    using Cons.prems(2) char_bytes_bounds(1) [OF ok(1)]
    unfolding enc_text_simps length_append by linarith
  note st = step [OF ok(1) at i Cons.prems(4) ok(2) Cons.prems(5,6), of start]
  show ?case
  proof (cases "length ?x \<le> space dst")
    case False
    then show ?thesis using st by simp
  next
    case True
    let ?m = "upd_bytes m (Base dst + WriteCur dst) ?x"
    let ?d = "dst\<lparr>WriteCur := WriteCur dst + of_nat (length ?x)\<rparr>"
    have r: "append_result m dst ?x = (True, ?m, ?d)" using True by (simp add: append_result_def)
    have run: "Transcode_loop sz put m src dst start (of_nat i)
        = Transcode_loop sz put ?m src ?d start (of_nat (i + length ?y))"
      using st True by simp
    have sp: "space ?d = space dst - length ?x"
      using unat_WriteCur_add [OF Cons.prems(5) True] by (simp add: space_def)
    have sub: "region (Base dst + WriteCur dst) (length ?x) \<subseteq> buf_region dst"
      by (rule tail_region [OF Cons.prems(5) True])
    have fit: "i + length ?y + length (enc_text (Enc src) cs) \<le> unat (WriteCur src)"
      using Cons.prems(2) by simp
    then have "region (Base src + of_nat (i + length ?y)) (length (enc_text (Enc src) cs))
        \<subseteq> region (Base src) (unat (WriteCur src))" by (rule region_offset)
    then have "region (Base src + of_nat (i + length ?y)) (length (enc_text (Enc src) cs))
        \<inter> region (Base dst + WriteCur dst) (length ?x) = {}" using sub Cons.prems(7) by blast
    moreover have le: "length ?x \<le> 2 ^ 64" using char_bytes_bounds(2) [OF ok(2)] by simp
    ultimately have "bytes_at ?m (Base src + of_nat (i + length ?y)) (enc_text (Enc src) cs)"
      using Cons.prems(1) by (simp add: bytes_at_upd_disj add.assoc)
    note IH = Cons.IH [OF this, of ?d]
    have IH: "if length (enc_text target cs) \<le> space ?d
      then Transcode_loop sz put ?m src ?d start (of_nat (i + length ?y))
        = Some (append_result ?m ?d (enc_text target cs))
      else \<exists>m'. Transcode_loop sz put ?m src ?d start (of_nat (i + length ?y))
          = Some (False, m', ?d\<lparr>WriteCur := start\<rparr>)
        \<and> (\<forall>q. q \<notin> region (Base ?d + WriteCur ?d) (space ?d) \<longrightarrow> m' q = ?m q)"
      using Cons.prems append_buf_ok [OF Cons.prems(5) r] by (intro IH) simp_all
    show ?thesis
    proof (cases "length (enc_text target (c # cs)) \<le> space dst")
      case fits: True
      then have "append_result ?m ?d (enc_text target cs)
          = append_result m dst (?x @ enc_text target cs)"
        by (intro append_append [OF Cons.prems(5) r]) simp
      moreover have "length (enc_text target cs) \<le> space ?d"
        using fits unfolding sp enc_text_simps length_append by linarith
      then have "Transcode_loop sz put ?m src ?d start (of_nat (i + length ?y))
          = Some (append_result ?m ?d (enc_text target cs))" using IH by (simp only: if_True)
      ultimately show ?thesis using fits run by simp
    next
      case False
      then obtain m' where m': "Transcode_loop sz put ?m src ?d start (of_nat (i + length ?y))
            = Some (False, m', ?d\<lparr>WriteCur := start\<rparr>)"
          "\<forall>q. q \<notin> region (Base ?d + WriteCur ?d) (space ?d) \<longrightarrow> m' q = ?m q"
        using IH sp True by (auto split: if_splits)
      have "region (Base dst + WriteCur dst) (space dst)
          = region (Base dst + WriteCur dst) (length ?x) \<union> region (Base ?d + WriteCur ?d) (space ?d)"
        using region_append [of "Base dst + WriteCur dst" "length ?x" "space dst - length ?x"] True
        by (simp add: sp add.assoc)
      then have "\<forall>q. q \<notin> region (Base dst + WriteCur dst) (space dst) \<longrightarrow> m' q = m q"
        using m'(2) le by (simp add: upd_bytes_out)
      then show ?thesis using False run m'(1) by simp
    qed
  qed
qed

end

lemma size_of_nat: "of_nat (unat (GetMultibyteCharSize ch enc)) = (GetMultibyteCharSize ch enc)"
  by simp

lemma put_LE_writer:
  assumes "enc \<noteq> EC_UTF16BE" "enc \<noteq> EC_UTF32BE"
  shows "char_writer enc GetMultibyteCharSize put_LE"
proof (unfold_locales, goal_cases)
  case (1 c)
  then show ?case by (simp add: length_char_bytes)
next
  case (2 c m p)
  have "le_bytes (unat (GetMultibyteCharSize (EncodeChar c enc) enc)) (EncodeChar c enc)
      = char_bytes enc c"
    using stored_EncodeChar [OF 2] assms by (simp add: stored_def AdjustEndianness_def)
  then show ?case
    using size_cases [of "EncodeChar c enc" enc] by (simp only: put_LE_def if_True)
qed

interpretation ascii: char_writer EC_ASCII GetMultibyteCharSize put_LE
  by (rule put_LE_writer) simp_all

interpretation utf8: char_writer EC_UTF8 GetMultibyteCharSize put_LE
  by (rule put_LE_writer) simp_all

interpretation utf16le: char_writer EC_UTF16LE GetMultibyteCharSize put_LE
  by (rule put_LE_writer) simp_all

interpretation utf32le: char_writer EC_UTF32LE GetMultibyteCharSize put_LE
  by (rule put_LE_writer) simp_all

lemma le_bytes_4_nth:
  "[le_bytes 4 w ! 1, le_bytes 4 w ! 0] = rev (le_bytes 2 w)"
  "[le_bytes 4 w ! 1, le_bytes 4 w ! 0, le_bytes 4 w ! 3, le_bytes 4 w ! 2]
    = rev (le_bytes 2 w) @ rev (le_bytes 2 (drop_bit 16 w))"
  "[le_bytes 4 w ! 3, le_bytes 4 w ! 2, le_bytes 4 w ! 1, le_bytes 4 w ! 0] = rev (le_bytes 4 w)"
  by (simp_all add: le_bytes_simps)

interpretation utf16be: char_writer EC_UTF16BE GetMultibyteCharSize put_UTF16BE
proof (unfold_locales, goal_cases)
  case (1 c)
  then show ?case by (simp add: length_char_bytes)
next
  case (2 c m p)
  have c: "c < 0x110000" using 2 by (simp add: enc_ok_def)
  have "EncodeChar c EC_UTF16BE = UnicodeToUTF16 c" by (simp add: EncodeChar_def)
  then show ?case
    using stored_EncodeChar [OF 2] UTF16_size [OF c, of EC_UTF16BE]
    unfolding stored_def AdjustEndianness_def put_UTF16BE_def Let_def le_bytes_4_nth
    by (auto simp: le_bytes_swap split: if_splits)
qed

interpretation utf32be: char_writer EC_UTF32BE "\<lambda>_ _. 4" put_UTF32BE
proof (unfold_locales, goal_cases)
  case (1 c)
  then show ?case by (simp add: length_char_bytes GetMultibyteCharSize_def)
next
  case (2 c m p)
  have "rev (le_bytes 4 (EncodeChar c EC_UTF32BE)) = char_bytes EC_UTF32BE c"
    using stored_EncodeChar [OF 2]
    by (simp add: stored_def AdjustEndianness_def le_bytes_swap GetMultibyteCharSize_def)
  then show ?case by (simp only: put_UTF32BE_def Let_def le_bytes_4_nth(3))
qed

lemma Transcode_text:
  assumes "has_text m src cs" "\<forall>c\<in>set cs. enc_ok (Enc dst) c"
    and "buf_ok m dst" "unat (Size dst) + 4 < 2 ^ 64"
    and "buf_region dst \<inter> region (Base src) (unat (WriteCur src)) = {}"
  shows "if length (enc_text (Enc dst) cs) \<le> space dst
    then Transcode m src dst = Some (append_result m dst (enc_text (Enc dst) cs))
    else \<exists>m'. Transcode m src dst = Some (False, m', dst)
      \<and> (\<forall>q. q \<notin> region (Base dst + WriteCur dst) (space dst) \<longrightarrow> m' q = m q)"
proof -
  have at: "bytes_at m (Base src + of_nat 0) (enc_text (Enc src) cs)"
    "0 + length (enc_text (Enc src) cs) = unat (WriteCur src)"
    "\<forall>c\<in>set cs. enc_ok (Enc src) c \<and> enc_ok (Enc dst) c"
    using assms(1,2) by (auto simp: has_text_def holds_def)
  have id: "dst\<lparr>WriteCur := WriteCur dst\<rparr> = dst" by simp
  show ?thesis
  proof (cases "Enc dst")
    case EC_ASCII
    from ascii.loop [OF at(1,2) at(3) [unfolded EC_ASCII] EC_ASCII assms(3-5), of "WriteCur dst"] EC_ASCII show ?thesis
      by (cases "length (enc_text (Enc dst) cs) \<le> space dst") (simp_all add: Transcode_def TranscodeLE_def)
  next
    case EC_UTF8
    from utf8.loop [OF at(1,2) at(3) [unfolded EC_UTF8] EC_UTF8 assms(3-5), of "WriteCur dst"] EC_UTF8 show ?thesis
      by (cases "length (enc_text (Enc dst) cs) \<le> space dst") (simp_all add: Transcode_def TranscodeLE_def)
  next
    case EC_UTF16LE
    from utf16le.loop [OF at(1,2) at(3) [unfolded EC_UTF16LE] EC_UTF16LE assms(3-5), of "WriteCur dst"] EC_UTF16LE show ?thesis
      by (cases "length (enc_text (Enc dst) cs) \<le> space dst") (simp_all add: Transcode_def TranscodeLE_def)
  next
    case EC_UTF16BE
    from utf16be.loop [OF at(1,2) at(3) [unfolded EC_UTF16BE] EC_UTF16BE assms(3-5), of "WriteCur dst"] EC_UTF16BE show ?thesis
      by (cases "length (enc_text (Enc dst) cs) \<le> space dst") (simp_all add: Transcode_def TranscodeUTF16BE_def)
  next
    case EC_UTF32LE
    from utf32le.loop [OF at(1,2) at(3) [unfolded EC_UTF32LE] EC_UTF32LE assms(3-5), of "WriteCur dst"] EC_UTF32LE show ?thesis
      by (cases "length (enc_text (Enc dst) cs) \<le> space dst") (simp_all add: Transcode_def TranscodeLE_def)
  next
    case EC_UTF32BE
    from utf32be.loop [OF at(1,2) at(3) [unfolded EC_UTF32BE] EC_UTF32BE assms(3-5), of "WriteCur dst"] EC_UTF32BE show ?thesis
      by (cases "length (enc_text (Enc dst) cs) \<le> space dst") (simp_all add: Transcode_def TranscodeUTF32BE_def)
  qed
qed

section \<open>Appending a character\<close>

lemma length_le_bytes [simp]: "length (le_bytes n w) = n"
  by (simp add: le_bytes_def)

lemma take_le_bytes: "k \<le> n \<Longrightarrow> take k (le_bytes n w) = le_bytes k w"
  by (simp add: le_bytes_def take_map)

text \<open>A variable of the caller's frame: it is apart from every object, and gone when the call returns.\<close>

lemma local_var:
  assumes "buf_ok m d" "region sp 4 \<inter> dom m = {}" "n \<le> 4"
  shows "buf_ok (push_local m sp (le_bytes 4 w)) d"
    and "holds (push_local m sp (le_bytes 4 w)) (Buffer sp (of_nat n) s) (le_bytes n w)"
    and "buf_region d \<inter> region sp n = {}"
proof -
  show "buf_ok (push_local m sp (le_bytes 4 w)) d"
    using assms(1) by (simp add: buf_ok_def push_local_def mapped_upd)
  have "bytes_at (push_local m sp (le_bytes 4 w)) sp (le_bytes 4 w)"
    by (simp add: push_local_def bytes_at_upd_same)
  then have "bytes_at (push_local m sp (le_bytes 4 w)) sp (le_bytes n w)"
    using bytes_at_take [of _ sp "le_bytes 4 w" n] take_le_bytes [OF assms(3)] by simp
  moreover have "unat (of_nat n :: usz) = n" using assms(3) by (intro unat_offset) simp
  ultimately show "holds (push_local m sp (le_bytes 4 w)) (Buffer sp (of_nat n) s) (le_bytes n w)"
    by (simp add: holds_def)
  have "buf_region d \<subseteq> dom m" using assms(1) by (simp add: buf_ok_def mapped_dom)
  then show "buf_region d \<inter> region sp n = {}"
    using assms(2) region_mono [OF assms(3), of sp] by blast
qed

lemma pop_append:
  assumes "buf_ok m d" "region sp n \<inter> dom m = {}" "length xs = n" "n \<le> 2 ^ 64"
    and r: "append_result (push_local m sp xs) d bs = (r, m', d')"
  shows "append_result m d bs = (r, pop_local m' sp n, d')"
proof -
  let ?m = "push_local m sp xs"
  have out: "m q = None" if "unat (q - sp) < n" for q
    using that assms(2) in_region_iff [OF assms(4), of q sp] by (auto simp: disjoint_iff domIff)
  have same: "?m q = m q" if "\<not> unat (q - sp) < n" for q
    using that assms(3) by (simp add: push_local_def upd_bytes_def)
  show ?thesis
  proof (cases "length bs \<le> space d")
    case False
    moreover have "pop_local ?m sp n = m" using out same by (auto simp: pop_local_def)
    ultimately show ?thesis using r by (auto simp: append_result_def)
  next
    case True
    let ?p = "Base d + WriteCur d"
    have sub: "region ?p (length bs) \<subseteq> dom m"
      using tail_region [OF assms(1) True] assms(1) by (auto simp: buf_ok_def mapped_dom)
    have le: "length bs \<le> 2 ^ 64" using True space_lt [of d] by simp
    have "pop_local (upd_bytes ?m ?p bs) sp n q = upd_bytes m ?p bs q" for q
    proof (cases "unat (q - sp) < n")
      case True
      then have "q \<notin> region ?p (length bs)" using out sub by auto
      then show ?thesis using True out le by (simp add: pop_local_def upd_bytes_out)
    next
      case False
      then show ?thesis using same by (simp add: pop_local_def upd_bytes_def)
    qed
    then have "pop_local (upd_bytes ?m ?p bs) sp n = upd_bytes m ?p bs" by (rule ext)
    with True r show ?thesis by (auto simp: append_result_def)
  qed
qed

lemma dom_append: "buf_ok m d \<Longrightarrow> append_result m d bs = (r, m', d') \<Longrightarrow> dom m' = dom m"
proof -
  assume ok: "buf_ok m d" and r: "append_result m d bs = (r, m', d')"
  show "dom m' = dom m"
  proof (cases "length bs \<le> space d")
    case True
    have sub: "region (Base d + WriteCur d) (length bs) \<subseteq> dom m"
      using tail_region [OF ok True] ok by (auto simp: buf_ok_def mapped_dom)
    let ?p = "Base d + WriteCur d"
    have "length bs \<le> 2 ^ 64" using True space_lt [of d] by simp
    then have "q \<in> dom m" if "unat (q - ?p) < length bs" for q
      using that sub in_region_iff [of "length bs" q ?p] by blast
    then have "dom (upd_bytes m ?p bs) = dom m"
      unfolding upd_bytes_def dom_def by auto
    then show ?thesis using True r by (auto simp: append_result_def)
  next
    case False
    with r show ?thesis by (auto simp: append_result_def)
  qed
qed

abbreviation char_pre :: "ptr \<Rightarrow> encoding \<Rightarrow> mem \<Rightarrow> tb_string \<Rightarrow> bool" where
  "char_pre sp enc m d \<equiv> region sp 4 \<inter> dom m = {} \<and> Enc d = enc"

interpretation char: appender "\<lambda>m d. AppendCharToString m sp ch d" "char_pre sp enc" "stored enc ch"
  for sp enc ch
proof (unfold_locales, goal_cases)
  case (1 m d)
  let ?n = "unat (GetMultibyteCharSize ch enc)" and ?w = "AdjustEndianness ch enc"
  let ?m = "push_local m sp (le_bytes 4 ?w)"
  obtain r m' d' where r: "append_result ?m d (le_bytes ?n ?w) = (r, m', d')" by (cases rule: prod_cases3)
  note pre = 1(1) conjunct1 [OF 1(2)] char_size_bounds(2) [of ch enc]
  note lv = local_var(1) [OF pre, of ?w] local_var(2) [OF pre, of ?w 0] local_var(3) [OF pre]
  have "AppendBufferToBuffer ?m (Buffer sp (ucast (GetMultibyteCharSize ch enc)) 0) d
      = Some (r, m', d')"
    using buf.f_eq [of ?m d "Buffer sp (of_nat ?n) 0" "le_bytes ?n ?w"] lv r by simp
  then show ?case
    using 1(2) pop_append [OF 1(1) conjunct1 [OF 1(2)] _ _ r]
    by (simp add: AppendCharToString_def Let_def stored_def)
next
  case (2 m d m' d')
  then show ?case using dom_append [OF 2(1,3)] append_fits(3) [OF 2(3)] by simp
qed

interpretation char_times: appender "\<lambda>m d. AppendCharToStringNTimes m sp ch count d"
  "\<lambda>m d. char_pre sp enc m d \<and> unat count * 4 < 2 ^ 64"
  "concat (replicate (unat count) (stored enc ch))"
  for sp enc ch count
proof (unfold_locales, goal_cases)
  case (1 m d)
  let ?n = "unat (GetMultibyteCharSize ch enc)" and ?w = "AdjustEndianness ch enc"
  let ?m = "push_local m sp (le_bytes 4 ?w)" and ?bs = "concat (replicate (unat count) (stored enc ch))"
  have free: "region sp 4 \<inter> dom m = {}" using 1 by simp
  obtain r m' d' where r: "append_result ?m d ?bs = (r, m', d')" by (cases rule: prod_cases3)
  note pre = 1(1) free char_size_bounds(2) [of ch enc]
  note lv = local_var(1) [OF pre, of ?w] local_var(2) [OF pre, of ?w 0] local_var(3) [OF pre]
  have "unat count * ?n \<le> unat count * 4" using char_size_bounds(2) by simp
  then have "unat count * ?n < 2 ^ 64" using 1(2) by linarith
  then have "AppendBufferToBufferNTimes ?m (Buffer sp (ucast (GetMultibyteCharSize ch enc)) 0) count d
      = Some (r, m', d')"
    using AppendBufferToBufferNTimes_eq [of ?m d "Buffer sp (of_nat ?n) 0" "le_bytes ?n ?w" count] lv r
    by (simp add: stored_def)
  then show ?case
    using 1(2) pop_append [OF 1(1) free _ _ r]
    by (simp add: AppendCharToStringNTimes_def Let_def)
next
  case (2 m d m' d')
  then show ?case using dom_append [OF 2(1,3)] append_fits(3) [OF 2(3)] by simp
qed

section \<open>Classification of a text\<close>

definition ascii_test :: "(mb_char \<Rightarrow> bool) \<Rightarrow> bool" where
  "ascii_test test \<longleftrightarrow> (\<forall>ch. test ch \<longrightarrow> ch < 0x80)"

lemma ascii_tests: "ascii_test CharIsDigit" "ascii_test CharIsLetter" "ascii_test CharIsAlphanum"
  by (auto simp: ascii_test_def CharIsDigit_def CharIsLetter_def CharIsAlphanum_def
      word_le_nat_alt word_less_nat_alt)

lemma EncodeChar_ascii: "c < 0x80 \<Longrightarrow> EncodeChar c enc = c"
  by (cases enc) (auto simp: EncodeChar_def UnicodeToUTF8_def UnicodeToUTF16_def
      word_le_nat_alt word_less_nat_alt)

lemma enc_ok_ascii: "c < 0x80 \<Longrightarrow> enc_ok enc c"
  by (auto simp: enc_ok_def word_less_nat_alt word_le_nat_alt)

lemma fixed_size_ascii:
  assumes "c < 0x80"
  shows "of_nat (length (char_bytes enc c)) = fixed_size (fixed_enc enc)"
proof -
  have "c \<le> 0xFFFF" "c \<le> 0xFF" using assms by (simp_all add: word_less_nat_alt word_le_nat_alt)
  then show ?thesis
    unfolding length_char_bytes [OF enc_ok_ascii [OF assms]] EncodeChar_ascii [OF assms]
    by (cases enc) (simp_all add: GetMultibyteCharSize_def fixed_size_def fixed_enc_def encoding_order)
qed

text \<open>The character that the fixed-width loops see at a character that is not of the tested kind.\<close>

lemma fixed_next:
  assumes "enc_ok enc c" "bytes_at m p (char_bytes enc c)" "ascii_test test"
  shows "\<exists>ch. GetNextChar m p (fixed_enc enc) = Some ch \<and> (test ch \<longleftrightarrow> test c)"
proof (cases "enc = EC_UTF8")
  case True
  let ?b = "of_nat (hd (utf8_bytes (unat c))) :: u8"
  have c: "unat c < 0x110000" using assms(1) True by (simp add: enc_ok_def word_less_nat_alt)
  have "m p = Some ?b"
    using assms(2) True by (auto simp: char_bytes_def code_bytes_def utf8_bytes_def split: if_splits)
  then have nx: "GetNextChar m p (fixed_enc enc) = Some (ucast ?b)"
    using True by (simp add: fixed_enc_def GetNextChar_def GetNextCharSize_def char_at_def AdjustEndianness_def)
  have lt: "hd (utf8_bytes (unat c)) < 256" using c by (auto simp: utf8_bytes_def)
  then have u: "unat (ucast ?b :: u32) = hd (utf8_bytes (unat c))"
    by (simp add: unsigned_ucast_eq unat_of_nat take_bit_nat_eq_self)
  show ?thesis
  proof (cases "c < 0x80")
    case True
    then have "unat (ucast ?b :: u32) = unat c"
      unfolding u by (simp add: utf8_bytes_def word_less_nat_alt)
    then have "ucast ?b = c" by (simp only: word_unat_eq_iff)
    with nx show ?thesis by metis
  next
    case False
    then have "0x80 \<le> unat (ucast ?b :: u32)"
      unfolding u by (auto simp: utf8_bytes_def word_less_nat_alt)
    then have "\<not> ucast ?b < (0x80 :: u32)" by (simp add: word_less_nat_alt)
    then show ?thesis using nx False assms(3) unfolding ascii_test_def by blast
  qed
next
  case False
  then have fe: "fixed_enc enc = enc" by (simp add: fixed_enc_def)
  have nx: "GetNextChar m p (fixed_enc enc) = Some (EncodeChar c enc)"
    unfolding fe by (rule GetNextChar_eq [OF assms(1,2)])
  show ?thesis
  proof (cases "c < 0x80")
    case True
    then show ?thesis using nx EncodeChar_ascii [OF True, of enc] by simp
  next
    case no: False
    have "\<not> EncodeChar c enc < 0x80"
    proof (cases "(enc = EC_UTF16LE \<or> enc = EC_UTF16BE) \<and> 0x10000 \<le> c")
      case True
      then have "c < 0x110000" using assms(1) by (auto simp: enc_ok_def)
      then have "0xFFFF < unat (UnicodeToUTF16 c)" using UTF16_pair(2,4) [of c] True by simp
      then show ?thesis using True by (auto simp: EncodeChar_def word_less_nat_alt)
    next
      case not_pair: False
      then have "EncodeChar c enc = c"
        using False by (cases enc) (auto simp: EncodeChar_def UnicodeToUTF16_def word_less_nat_alt word_le_nat_alt)
      with no show ?thesis by simp
    qed
    then show ?thesis using nx no assms(3) unfolding ascii_test_def by blast
  qed
qed

lemma all_chars_eq:
  assumes test: "ascii_test test"
    and "bytes_at m (Base A + of_nat i) (enc_text (Enc A) cs)" "\<forall>c\<in>set cs. enc_ok (Enc A) c"
    and "i + length (enc_text (Enc A) cs) = unat (WriteCur A)"
  shows "all_chars test m A (fixed_enc (Enc A)) (fixed_size (fixed_enc (Enc A))) (of_nat i)
    = Some (\<forall>c\<in>set cs. test c)"
  using assms(2-4)
proof (induction cs arbitrary: i)
  case Nil
  then have "of_nat i = WriteCur A" by simp
  then show ?case by (subst all_chars.simps) simp
next
  case (Cons c cs)
  have ok: "enc_ok (Enc A) c" using Cons.prems(2) by simp
  have "i < unat (WriteCur A)"
    using Cons.prems(3) char_bytes_bounds(1) [OF ok] unfolding enc_text_simps length_append by linarith
  note lt = of_nat_less_WriteCur [OF this]
  have "bytes_at m (Base A + of_nat i) (char_bytes (Enc A) c)" using Cons.prems(1) by simp
  then obtain ch where ch: "GetNextChar m (Base A + of_nat i) (fixed_enc (Enc A)) = Some ch"
      "test ch \<longleftrightarrow> test c" using fixed_next [OF ok _ test] by blast
  show ?case
  proof (cases "test c")
    case False
    then show ?thesis using lt(1) ch by (subst all_chars.simps) simp
  next
    case True
    then have "c < 0x80" using test by (simp add: ascii_test_def)
    from fixed_size_ascii [OF this, of "Enc A"]
    have "of_nat i + fixed_size (fixed_enc (Enc A)) = of_nat (i + length (char_bytes (Enc A) c))"
      by simp
    moreover have "all_chars test m A (fixed_enc (Enc A)) (fixed_size (fixed_enc (Enc A)))
        (of_nat (i + length (char_bytes (Enc A) c))) = Some (\<forall>c\<in>set cs. test c)"
      using Cons.prems by (intro Cons.IH) (simp_all add: add.assoc)
    ultimately show ?thesis using lt(1) ch True by (subst all_chars.simps) simp
  qed
qed

lemma all_chars_text:
  assumes "has_text m A cs" "ascii_test test"
  shows "all_chars test m A (fixed_enc (Enc A)) (fixed_size (fixed_enc (Enc A))) 0
    = Some (\<forall>c\<in>set cs. test c)"
  using all_chars_eq [OF assms(2), of m A 0 cs] assms(1) by (simp add: has_text_def holds_def)

section \<open>Advancing by characters\<close>

lemma AdvanceString_text:
  assumes "has_text m A cs" "unat k \<le> length cs" "WriteCur A \<le> Size A"
  shows "\<exists>A'. AdvanceString m A k = Some A' \<and> has_text m A' (drop (unat k) cs)
    \<and> Enc A' = Enc A \<and> WriteCur A' \<le> Size A' \<and> space A' = space A"
  using assms
proof (induction "unat k" arbitrary: k A cs)
  case 0
  then have "k = 0" by (simp add: unat_eq_zero)
  then have "AdvanceString m A k = Some A" by (subst AdvanceString.simps) simp
  with 0 show ?case by simp
next
  case (Suc n)
  then have k: "k \<noteq> 0" "0 < k" by (auto simp: word_gt_0)
  from unat_pred [OF k(2)] have n: "unat (k - 1) = n" using Suc.hyps(2) by simp
  obtain c ds where cs: "cs = c # ds" using Suc.hyps(2) Suc.prems(2) by (cases cs) auto
  let ?x = "char_bytes (Enc A) c"
  have ok: "enc_ok (Enc A) c" and h: "holds m A (?x @ enc_text (Enc A) ds)"
    using Suc.prems(1) by (simp_all add: has_text_def cs)
  have "GetNextCharSize m (Base A) (Enc A) = Some (GetMultibyteCharSize (EncodeChar c (Enc A)) (Enc A))"
    using h by (intro GetNextCharSize_eq [OF ok]) (simp add: holds_def)
  moreover have w: "ucast (GetMultibyteCharSize (EncodeChar c (Enc A)) (Enc A)) = (of_nat (length ?x) :: usz)"
    by (simp add: length_char_bytes [OF ok])
  ultimately have run: "AdvanceString m A k = AdvanceString m
      (A\<lparr>Base := Base A + of_nat (length ?x), WriteCur := WriteCur A - of_nat (length ?x),
        Size := Size A - of_nat (length ?x)\<rparr>) (k - 1)"
    using k(1) by (subst AdvanceString.simps) simp
  let ?A = "A\<lparr>Base := Base A + of_nat (length ?x), WriteCur := WriteCur A - of_nat (length ?x),
        Size := Size A - of_nat (length ?x)\<rparr>"
  have x: "unat (of_nat (length ?x) :: usz) = length ?x"
    using char_bytes_bounds(2) [OF ok] by (intro unat_offset) simp
  have le: "length ?x + length (enc_text (Enc A) ds) = unat (WriteCur A)"
    using h by (simp add: holds_def)
  have u: "unat (WriteCur A - of_nat (length ?x)) = unat (WriteCur A) - length ?x"
    "unat (Size A - of_nat (length ?x)) = unat (Size A) - length ?x"
    using le Suc.prems(3) x by (simp_all add: unat_sub word_le_nat_alt)
  have "has_text m ?A ds"
    using Suc.prems(1) h le u(1) by (simp add: has_text_def holds_def cs)
  moreover have "WriteCur ?A \<le> Size ?A" using u Suc.prems(3) by (simp add: word_le_nat_alt)
  moreover have "space ?A = space A"
    using u le Suc.prems(3) by (simp add: space_def word_le_nat_alt)
  moreover have "unat (k - 1) \<le> length ds" using n Suc.hyps(2) Suc.prems(2) cs by simp
  ultimately obtain A' where "AdvanceString m ?A (k - 1) = Some A'" "has_text m A' (drop (unat (k - 1)) ds)"
      "Enc A' = Enc A" "WriteCur A' \<le> Size A'" "space A' = space A"
    using Suc.hyps(1) [OF n [symmetric], of ?A ds] by auto
  then show ?case using run n Suc.hyps(2) by (simp add: cs flip: Suc.hyps(2))
qed

section \<open>Search of a character\<close>

lemma match_byte: "match_at [b] xs i \<longleftrightarrow> i < length xs \<and> xs ! i = b"
proof (cases "i < length xs")
  case True
  then show ?thesis by (simp add: match_at_def Cons_nth_drop_Suc [symmetric])
next
  case False
  then show ?thesis by (simp add: match_at_def)
qed

lemma first_match_byte: "first_match [b] xs = first_idx ((=) b) xs"
proof (cases "first_idx ((=) b) xs")
  case None
  then have "\<forall>i<length xs. xs ! i \<noteq> b" by (auto simp: first_idx_def find_upt_None)
  then have "first_match [b] xs = None"
    unfolding first_match_def find_upt_None by (auto simp: match_byte)
  with None show ?thesis by simp
next
  case (Some i)
  then have "first_match [b] xs = Some i"
    unfolding first_match_def find_upt_Some first_idx_def find_upt_Some by (auto simp: match_byte)
  with Some show ?thesis by simp
qed

lemma last_match_byte: "last_match [b] xs = last_idx ((=) b) xs"
proof (cases "last_idx ((=) b) xs")
  case None
  then have "\<forall>i<length xs. xs ! i \<noteq> b" by (auto simp: last_idx_def find_rev_upt_None)
  then have "last_match [b] xs = None"
    unfolding last_match_def find_rev_upt_None by (auto simp: match_byte)
  with None show ?thesis by simp
next
  case (Some i)
  then have "last_match [b] xs = Some i"
    unfolding last_match_def find_rev_upt_Some last_idx_def find_rev_upt_Some
    by (auto simp: match_byte)
  with Some show ?thesis by simp
qed

lemma le_bytes_1: "le_bytes (Suc 0) w = [ucast w]"
  using le_bytes_simps(1) [of w] by simp

lemma CharInString_bytes:
  fixes A :: tb_string and ch :: mb_char
  assumes "holds m A xs" "region sp 4 \<inter> dom m = {}"
  defines "n \<equiv> unat (GetMultibyteCharSize ch (Enc A))"
  shows "CharInString default_dispatch m sp ch A flags
    = Some (search_result flags (Base A) (of_nat n)
        (if has_flag flags SEARCH_REVERSE then last_match (le_bytes n ch) xs
         else first_match (le_bytes n ch) xs))"
proof (cases "GetMultibyteCharSize ch (Enc A) = 1")
  case True
  then have n: "n = Suc 0" by (simp add: n_def)
  have h: "holds m (Buf A) xs" using assms(1) by (simp add: holds_def)
  show ?thesis
    using True simple.forward [OF TrueI h, of flags "ucast ch"] byte_reverse [OF h, of flags _ "ucast ch"]
    by (simp add: CharInString_def n le_bytes_1 first_match_byte last_match_byte)
next
  case False
  let ?m = "push_local m sp (le_bytes 4 ch)"
  have n4: "n \<le> 4" "0 < n" using char_size_bounds [of ch "Enc A"] by (simp_all add: n_def)
  have "bytes_at ?m sp (le_bytes 4 ch)" by (simp add: push_local_def bytes_at_upd_same)
  then have "bytes_at ?m sp (le_bytes n ch)"
    using bytes_at_take [of _ sp "le_bytes 4 ch" n] take_le_bytes [OF n4(1)] by simp
  moreover have "unat (of_nat n :: usz) = n" using n4 by (intro unat_offset) simp
  ultimately have nd: "holds ?m (Buffer sp (of_nat n) 0) (le_bytes n ch)" by (simp add: holds_def)
  have "le_bytes n ch \<noteq> []" using n4(2) by (simp add: le_bytes_def)
  have "region (Base A) (length xs) \<subseteq> dom m"
    using assms(1) bytes_at_mapped [of m "Base A" xs] by (simp add: holds_def mapped_dom)
  then have "region (Base A) (length xs) \<inter> region sp (length (le_bytes 4 ch)) = {}"
    using assms(2) by auto
  then have h: "holds ?m (Buf A) xs"
    using assms(1) by (simp add: holds_def push_local_def bytes_at_upd_disj)
  have w: "ucast (GetMultibyteCharSize ch (Enc A)) = (of_nat n :: usz)" by (simp add: n_def)
  show ?thesis
    using False simple.match_forward [OF TrueI nd \<open>le_bytes n ch \<noteq> []\<close> h, of flags]
      match_reverse [OF nd \<open>le_bytes n ch \<noteq> []\<close> h, of flags]
    by (simp add: CharInString_def w)
qed

section \<open>Printable characters of UTF-16LE\<close>

text \<open>A byte above 0x7F in the low half of a code unit is sign-extended over the whole word.\<close>

lemma spread_high: "0x80 \<le> b \<Longrightarrow> 0xFFFF < spread [b, 0]"
proof -
  assume "0x80 \<le> b"
  then have "2 ^ 7 \<le> unat b" by (simp add: word_le_nat_alt)
  have "bit b 7"
  proof (rule ccontr)
    assume "\<not> bit b 7"
    then have "drop_bit 7 b = 0"
      by (intro word_eq_bits) (auto simp: bit_simps dest: bit_imp_le_length)
    then have "unat b div 2 ^ 7 = 0"
      by (metis drop_bit_eq_div unat_0 unat_drop_bit_eq)
    with \<open>2 ^ 7 \<le> unat b\<close> show False by (simp add: div_eq_0_iff)
  qed
  then have "bit (spread [b, 0]) 31" by (simp add: bit_simps)
  from bit_imp_exp_le [OF this] show ?thesis by (simp add: word_less_nat_alt)
qed

lemma UTF16LE_print_skips:
  assumes "bytes_at m p [b, 0, x, y]" "0x80 \<le> b" "unat p + 4 < 2 ^ 64"
  shows "UTF16LE_print m p (p + 4) r = Some (r + 1)"
proof -
  have "unat (p + 4) = unat p + 4" using assms(3) by (subst unat_add_lem [THEN iffD1]) simp_all
  then have lt: "p < p + 4" by (simp add: word_less_nat_alt)
  have size: "UTF16LECharSize m p = Some 2" using assms(1) by (simp add: UTF16LECharSize_def)
  have ld: "load_bytes m p (unat (2 :: u32)) = Some [b, 0]"
    using assms(1) by (intro load_bytes_at) simp_all
  note hi = spread_high [OF assms(2)]
  then have pr: "printable (spread [b, 0])" by (auto simp: printable_def word_less_nat_alt)
  have "UTF16LE_print m (p + 4) (p + 4) (r + 1) = Some (r + 1)"
    by (subst UTF16LE_print.simps) simp
  then show ?thesis
    using lt size ld hi pr by (subst UTF16LE_print.simps) (simp add: Let_def del: spread.simps)
qed

section \<open>Transcoding into a full string\<close>

lemma Transcode_full:
  assumes "has_text m src cs" "cs \<noteq> []" "\<forall>c\<in>set cs. enc_ok (Enc dst) c"
    and "buf_ok m dst" "unat (Size dst) + 4 < 2 ^ 64" "space dst = 0"
    and "buf_region dst \<inter> region (Base src) (unat (WriteCur src)) = {}"
  shows "Transcode m src dst = Some (False, m, dst)"
proof -
  have "0 < length (enc_text (Enc dst) cs)"
    using assms(2,3) char_bytes_bounds(1) by (cases cs) auto
  then obtain m' where "Transcode m src dst = Some (False, m', dst)" "\<forall>q. m' q = m q"
    using Transcode_text [OF assms(1,3,4,5,7)] assms(6) by auto
  moreover from this(2) have "m' = m" by auto
  ultimately show ?thesis by simp
qed

lemma Transcode_times_full:
  assumes "Transcode m src dst = Some (False, m, dst)"
  shows "Transcode_times m src i count dst = Some (m, dst)"
proof (induction i rule: word_up_induct [of count])
  case (step i)
  then show ?case using assms by (subst Transcode_times.simps) simp
qed

section \<open>Properties\<close>

text \<open>
  At the first byte of a character in memory, \<open>GetNextCharSize\<close> returns its size and
  \<open>GetNextChar\<close> the encoded character, in every encoding; \<open>DecodeChar\<close> then yields the code point.
\<close>

theorem GetNextChar_reads:
  assumes "enc_ok enc c" "bytes_at m p (char_bytes enc c)"
  shows "GetNextCharSize m p enc = Some (of_nat (length (char_bytes enc c)))
    \<and> GetNextChar m p enc = Some (EncodeChar c enc)
    \<and> DecodeChar (EncodeChar c enc) enc = c"
  using GetNextCharSize_eq [OF assms] GetNextChar_eq [OF assms] decode_encode [OF assms(1)]
    length_char_bytes [OF assms(1)] by simp

text \<open>An example: an A and a euro sign in UTF-8, and room for eight bytes.\<close>

definition ex_euro :: mem where
  "ex_euro = [0x10 \<mapsto> 0x41, 0x11 \<mapsto> 0xE2, 0x12 \<mapsto> 0x82, 0x13 \<mapsto> 0xAC,
     0x20 \<mapsto> 0, 0x21 \<mapsto> 0, 0x22 \<mapsto> 0, 0x23 \<mapsto> 0, 0x24 \<mapsto> 0, 0x25 \<mapsto> 0, 0x26 \<mapsto> 0, 0x27 \<mapsto> 0]"

definition ex_utf8 :: tb_string where
  "ex_utf8 = String 0x10 4 4 EC_UTF8"

definition ex_out :: "usz \<Rightarrow> tb_string" where
  "ex_out w = String 0x20 w 8 EC_UTF16BE"

lemma ex_euro_text: "has_text ex_euro ex_utf8 [0x41, 0x20AC]"
  by (simp add: has_text_def holds_def ex_utf8_def ex_euro_def char_bytes_def code_bytes_def
      utf8_bytes_def enc_ok_def)

lemma ex_out_ok: "w \<le> 8 \<Longrightarrow> buf_ok ex_euro (ex_out w)"
  by (simp add: buf_ok_def ex_out_def ex_euro_def)

lemma ex_out_apart: "buf_region (ex_out w) \<inter> region (Base ex_utf8) (unat (WriteCur ex_utf8)) = {}"
  by (simp add: ex_out_def ex_utf8_def)

theorem GetNextChar_reads_witness:
  "GetNextCharSize ex_euro 0x11 EC_UTF8 = Some 3 \<and> GetNextChar ex_euro 0x11 EC_UTF8 = Some 0xAC82E2"
proof -
  have b: "char_bytes EC_UTF8 0x20AC = [0xE2, 0x82, 0xAC]"
    by (simp add: char_bytes_def code_bytes_def utf8_bytes_def)
  have "EncodeChar 0x20AC EC_UTF8 = 0xAC82E2" by (simp add: EncodeChar_def UnicodeToUTF8_def)
  then show ?thesis
    using GetNextChar_reads [of EC_UTF8 "0x20AC" ex_euro "0x11"] b
    by (simp add: enc_ok_def ex_euro_def)
qed

lemma upd_bytes_same:
  assumes "bytes_at m p bs"
  shows "upd_bytes m p bs = m"
proof
  fix q
  show "upd_bytes m p bs q = m q"
    using assms by (cases "unat (q - p) < length bs") (auto simp: upd_bytes_def bytes_at_def dest!: spec [of _ "unat (q - p)"])
qed

lemma EatNextChar_eq:
  assumes "bytes_at m src (word_bytes p)"
  shows "EatNextChar m src enc =
     do { n \<leftarrow> GetNextCharSize m src enc; bytes \<leftarrow> char_at m p n; Some (AdjustEndianness bytes enc, m) }"
proof -
  have l: "length (word_bytes p) = 8" by (simp add: word_bytes_def)
  have "load_word m src = Some p" using load_word_at [OF assms, where 'a = 64] l by simp
  moreover have "store_word m src p = Some m"
    using store_word_upd [of m src p] bytes_at_mapped [OF assms] upd_bytes_same [OF assms] l by simp
  ultimately show ?thesis by (simp add: EatNextChar_def)
qed

text \<open>
  \<open>EatNextChar\<close> sizes the character by the bytes of the caller's pointer. In the encodings of one width this makes
  no difference, and it returns the character at the pointer. It leaves the pointer where it is in every case, where
  its documentation says that it advances past the character.
\<close>

theorem EatNextChar_stays:
  assumes "enc \<in> {EC_ASCII, EC_UTF32LE, EC_UTF32BE}" "enc_ok enc c" "bytes_at m p (char_bytes enc c)"
    and "bytes_at m src (word_bytes p)"
  shows "EatNextChar m src enc = Some (EncodeChar c enc, m)"
  using GetNextChar_eq [OF assms(2,3)] assms(1)
  by (auto simp: EatNextChar_eq [OF assms(4)] GetNextChar_def GetNextCharSize_def bind_eq_Some_conv)

definition ex_pointer :: "u8 \<Rightarrow> mem" where
  "ex_pointer b = ex_euro(0x20 \<mapsto> b)"

lemma ex_pointer_bytes:
  "bytes_at (ex_pointer 0x10) 0x20 (word_bytes (0x10 :: ptr))" "bytes_at (ex_pointer 0x11) 0x20 (word_bytes (0x11 :: ptr))"
proof -
  have "word_bytes (0x10 :: ptr) = [0x10, 0, 0, 0, 0, 0, 0, 0]" "word_bytes (0x11 :: ptr) = [0x11, 0, 0, 0, 0, 0, 0, 0]"
    by code_simp+
  then show "bytes_at (ex_pointer 0x10) 0x20 (word_bytes (0x10 :: ptr))" "bytes_at (ex_pointer 0x11) 0x20 (word_bytes (0x11 :: ptr))"
    by (simp_all add: ex_pointer_def ex_euro_def)
qed

theorem EatNextChar_stays_witness: "EatNextChar (ex_pointer 0x10) 0x20 EC_ASCII = Some (0x41, ex_pointer 0x10)"
  using EatNextChar_stays [of EC_ASCII "0x41" "ex_pointer 0x10" "0x10" "0x20"] ex_pointer_bytes(1)
  by (simp add: enc_ok_def char_bytes_def code_bytes_def EncodeChar_def ex_pointer_def ex_euro_def)

text \<open>
  In UTF-8, when the low byte of the pointer is below 0x80, \<open>EatNextChar\<close> returns the first byte of the character
  alone, whatever its length is; \<open>GetNextChar\<close> of the same pointer returns the character.
\<close>

theorem EatNextChar_misreads:
  assumes "enc_ok EC_UTF8 c" "bytes_at m p (char_bytes EC_UTF8 c)" "bytes_at m src (word_bytes p)" "ucast p < (0x80 :: u8)"
  shows "EatNextChar m src EC_UTF8 = Some (ucast (hd (char_bytes EC_UTF8 c)), m)"
    and "GetNextChar m p EC_UTF8 = Some (EncodeChar c EC_UTF8)"
proof -
  have "m src = Some (ucast p)"
    using assms(3) by (auto simp: bytes_at_def word_bytes_def dest!: spec [of _ 0])
  then have "GetNextCharSize m src EC_UTF8 = Some 1"
    using assms(4) by (simp add: GetNextCharSize_def UTF8CharSize_def word_le_nat_alt word_less_nat_alt)
  moreover have "m p = Some (hd (char_bytes EC_UTF8 c))"
    using assms(1,2) by (cases "char_bytes EC_UTF8 c") (auto simp: bytes_at_def char_bytes_def code_bytes_def utf8_bytes_def dest!: spec [of _ 0] split: if_splits)
  ultimately show "EatNextChar m src EC_UTF8 = Some (ucast (hd (char_bytes EC_UTF8 c)), m)"
    by (simp add: EatNextChar_eq [OF assms(3)] char_at_def AdjustEndianness_def)
  show "GetNextChar m p EC_UTF8 = Some (EncodeChar c EC_UTF8)" using assms(1,2) by (rule GetNextChar_eq)
qed

theorem EatNextChar_misreads_witness:
  "EatNextChar (ex_pointer 0x11) 0x20 EC_UTF8 = Some (0xE2, ex_pointer 0x11) \<and> GetNextChar (ex_pointer 0x11) 0x11 EC_UTF8 = Some 0xAC82E2"
proof -
  have b: "char_bytes EC_UTF8 0x20AC = [0xE2, 0x82, 0xAC]"
    by (simp add: char_bytes_def code_bytes_def utf8_bytes_def)
  have "EncodeChar 0x20AC EC_UTF8 = 0xAC82E2" by (simp add: EncodeChar_def UnicodeToUTF8_def)
  then show ?thesis
    using EatNextChar_misreads [of "0x20AC" "ex_pointer 0x11" "0x11" "0x20"] ex_pointer_bytes(2) b
    by (simp add: enc_ok_def ex_pointer_def ex_euro_def)
qed

text \<open>
  C26: \<open>StringLen\<close> with \<open>LEN_CODEPOINT\<close> is the number of characters of the text, in every encoding.
\<close>

theorem StringLen_counts_characters:
  assumes "has_text m A cs"
  shows "StringLen m A LEN_CODEPOINT = Some (of_nat (length cs))"
  using assms by (rule StringLen_codepoints)

theorem StringLen_counts_characters_witness: "StringLen ex_euro ex_utf8 LEN_CODEPOINT = Some 2"
  using StringLen_counts_characters [OF ex_euro_text] by simp

text \<open>
  C9: \<open>Transcode\<close>, from any encoding to any encoding that can represent the characters: when the
  text fits in the remaining space it returns true and the destination holds its old content and
  then the text in its own encoding; otherwise it returns false and the destination still holds
  its old content (bytes after the cursor may have been overwritten). No byte outside the
  destination changes.
\<close>

theorem Transcode_correct:
  assumes "has_text m src cs" "\<forall>c\<in>set cs. enc_ok (Enc dst) c" "holds m dst xs"
    and "buf_ok m dst" "unat (Size dst) + 4 < 2 ^ 64"
    and "buf_region dst \<inter> region (Base src) (unat (WriteCur src)) = {}"
  shows "\<exists>m' dst'. Transcode m src dst
      = Some (length (enc_text (Enc dst) cs) \<le> space dst, m', dst')
    \<and> holds m' dst' (if length (enc_text (Enc dst) cs) \<le> space dst
        then xs @ enc_text (Enc dst) cs else xs)
    \<and> (\<forall>q. q \<notin> buf_region dst \<longrightarrow> m' q = m q)"
proof (cases "length (enc_text (Enc dst) cs) \<le> space dst")
  case True
  then obtain m' d' where r: "append_result m dst (enc_text (Enc dst) cs) = (True, m', d')"
    by (auto simp: append_result_def)
  then show ?thesis
    using True Transcode_text [OF assms(1,2,4-6)] append_holds [OF assms(4,3) r]
      append_frame [OF assms(4) r] by auto
next
  case False
  then obtain m' where m': "Transcode m src dst = Some (False, m', dst)"
      "\<forall>q. q \<notin> region (Base dst + WriteCur dst) (space dst) \<longrightarrow> m' q = m q"
    using Transcode_text [OF assms(1,2,4-6)] by auto
  have "m' (Base dst + of_nat i) = m (Base dst + of_nat i)" if "i < length xs" for i
    using m'(2) head_tail_disj [OF assms(4) order.refl] that assms(3)
      region_memI [of i "unat (WriteCur dst)" "Base dst"]
    by (auto simp: holds_def)
  then have "holds m' dst xs" using assms(3) by (simp add: holds_def bytes_at_def)
  moreover have "m' q = m q" if "q \<notin> buf_region dst" for q
    using m'(2) tail_region [OF assms(4) order.refl] that by auto
  ultimately show ?thesis using False m'(1) by auto
qed

theorem Transcode_correct_witness:
  "\<exists>m' dst'. Transcode ex_euro ex_utf8 (ex_out 0) = Some (True, m', dst')
    \<and> holds m' dst' [0x00, 0x41, 0x20, 0xAC]"
proof -
  have e: "Enc (ex_out 0) = EC_UTF16BE" by (simp add: ex_out_def)
  have t: "enc_text EC_UTF16BE [0x41, 0x20AC] = [0x00, 0x41, 0x20, 0xAC]"
    by (simp add: char_bytes_def code_bytes_def utf16_units_def unit_bytes_def)
  have "holds ex_euro (ex_out 0) []" "\<forall>c\<in>set [0x41, 0x20AC]. enc_ok (Enc (ex_out 0)) c"
    "unat (Size (ex_out 0)) + 4 < 2 ^ 64" "space (ex_out 0) = 8"
    by (simp_all add: holds_def ex_out_def enc_ok_def space_def)
  with Transcode_correct [OF ex_euro_text, of "ex_out 0" "[]"] ex_out_ok [of 0] ex_out_apart [of 0]
  show ?thesis by (auto simp: e t simp del: enc_text_simps)
qed

text \<open>
  \<open>AppendCharToString\<close> appends to the content exactly the bytes that the encoding prescribes
  for the character, in its byte order, when they fit, and changes nothing otherwise.
\<close>

theorem AppendCharToString_correct:
  assumes "enc_ok (Enc dst) c" "buf_ok m dst" "holds m dst xs" "region sp 4 \<inter> dom m = {}"
  shows "if length (char_bytes (Enc dst) c) \<le> space dst
    then \<exists>m' dst'. AppendCharToString m sp (EncodeChar c (Enc dst)) dst = Some (True, m', dst')
      \<and> holds m' dst' (xs @ char_bytes (Enc dst) c) \<and> buf_ok m' dst'
      \<and> (\<forall>q. q \<notin> buf_region dst \<longrightarrow> m' q = m q)
    else AppendCharToString m sp (EncodeChar c (Enc dst)) dst = Some (False, m, dst)"
  using char.success [of m dst sp "Enc dst" xs "EncodeChar c (Enc dst)"]
    char.failure [of m dst sp "Enc dst" "EncodeChar c (Enc dst)"] assms
  by (auto simp: stored_EncodeChar)

theorem AppendCharToString_correct_witness:
  "\<exists>m' dst'. AppendCharToString ex_euro 0x80 0x20AC (ex_out 0) = Some (True, m', dst')
    \<and> holds m' dst' [0x20, 0xAC]"
proof -
  have "char_bytes EC_UTF16BE 0x20AC = [0x20, 0xAC]" "EncodeChar 0x20AC EC_UTF16BE = 0x20AC"
    by (simp_all add: char_bytes_def code_bytes_def utf16_units_def unit_bytes_def EncodeChar_def
        UnicodeToUTF16_def)
  moreover have "region (0x80 :: ptr) 4 \<inter> dom ex_euro = {}" by (simp add: ex_euro_def)
  moreover have "holds ex_euro (ex_out 0) []" "Enc (ex_out 0) = EC_UTF16BE" "space (ex_out 0) = 8"
    by (simp_all add: holds_def ex_out_def space_def)
  ultimately show ?thesis
    using AppendCharToString_correct [of "ex_out 0" "0x20AC" ex_euro "[]" "0x80"] ex_out_ok [of 0]
    by (auto simp: enc_ok_def)
qed

text \<open>
  \<open>StringIsDigit\<close>, \<open>StringIsLetter\<close> and \<open>StringIsAlphanum\<close> decide whether all characters of the
  text are of the kind, in every encoding, although they step over UTF-8 one byte at a time and
  over UTF-16 one unit at a time.
\<close>

theorem StringIs_correct:
  assumes "has_text m A cs"
  shows "StringIsDigit m A = Some (\<forall>c\<in>set cs. CharIsDigit c)
    \<and> StringIsLetter m A = Some (\<forall>c\<in>set cs. CharIsLetter c)
    \<and> StringIsAlphanum m A = Some (\<forall>c\<in>set cs. CharIsAlphanum c)"
  using all_chars_text [OF assms] ascii_tests
  by (simp add: StringIsDigit_def StringIsLetter_def StringIsAlphanum_def Let_def)

theorem StringIs_correct_witness:
  "StringIsLetter ex_euro ex_utf8 = Some False \<and> StringIsDigit ex_euro ex_utf8 = Some False"
  using StringIs_correct [OF ex_euro_text] by (simp add: CharIsLetter_def CharIsDigit_def)

text \<open>
  \<open>AdvanceString\<close> drops the given number of characters, in every encoding, and keeps the
  remaining space as it is.
\<close>

theorem AdvanceString_correct:
  assumes "has_text m A cs" "unat k \<le> length cs" "WriteCur A \<le> Size A"
  shows "\<exists>A'. AdvanceString m A k = Some A' \<and> has_text m A' (drop (unat k) cs)
    \<and> Enc A' = Enc A \<and> WriteCur A' \<le> Size A' \<and> space A' = space A"
  using assms by (rule AdvanceString_text)

theorem AdvanceString_correct_witness:
  "\<exists>A'. AdvanceString ex_euro ex_utf8 1 = Some A' \<and> has_text ex_euro A' [0x20AC]"
  using AdvanceString_correct [OF ex_euro_text, of 1] by (auto simp: ex_utf8_def)

text \<open>
  \<open>CharInString\<close> returns, under every combination of flags, the first (or last) place where
  the bytes of the character occur in the content, in the encodings whose bytes are in the order
  of \<open>mb_char\<close>: ASCII, UTF-8 and the little-endian ones.
\<close>

theorem CharInString_correct:
  assumes "holds m A xs" "region sp 4 \<inter> dom m = {}" "enc_ok (Enc A) c"
    and "Enc A \<noteq> EC_UTF16BE" "Enc A \<noteq> EC_UTF32BE"
  shows "CharInString default_dispatch m sp (EncodeChar c (Enc A)) A flags
    = Some (search_result flags (Base A) (of_nat (length (char_bytes (Enc A) c)))
        (if has_flag flags SEARCH_REVERSE then last_match (char_bytes (Enc A) c) xs
         else first_match (char_bytes (Enc A) c) xs))"
proof -
  have "char_bytes (Enc A) c = le_bytes (unat (GetMultibyteCharSize (EncodeChar c (Enc A)) (Enc A)))
      (EncodeChar c (Enc A))"
    using stored_EncodeChar [OF assms(3)] assms(4,5) by (simp add: stored_def AdjustEndianness_def)
  then show ?thesis
    using CharInString_bytes [OF assms(1,2), of "EncodeChar c (Enc A)" flags] by simp
qed

theorem CharInString_correct_witness:
  "CharInString default_dispatch ex_euro 0x80 0xAC82E2 ex_utf8 RETURN_IDX_FIND = Some 1"
proof -
  have b: "char_bytes EC_UTF8 0x20AC = [0xE2, 0x82, 0xAC]"
    by (simp add: char_bytes_def code_bytes_def utf8_bytes_def)
  have e: "EncodeChar 0x20AC EC_UTF8 = 0xAC82E2" by (simp add: EncodeChar_def UnicodeToUTF8_def)
  have h: "holds ex_euro ex_utf8 [0x41, 0xE2, 0x82, 0xAC]"
    by (simp add: holds_def ex_utf8_def ex_euro_def)
  have free: "region (0x80 :: ptr) 4 \<inter> dom ex_euro = {}" by (simp add: ex_euro_def)
  have "first_match [0xE2, 0x82, 0xAC] [0x41, 0xE2, 0x82, 0xAC :: u8] = Some 1"
    by (simp add: first_match_def match_at_def upt_rec)
  then show ?thesis
    using CharInString_correct [OF h free, of "0x20AC" RETURN_IDX_FIND] b e
    by (simp add: ex_utf8_def enc_ok_def search_result_def flag_defs)
qed

text \<open>
  In UTF-16BE \<open>CharInString\<close> does not find a character of the basic plane in the string that
  consists of it, unless its two bytes are equal: the needle is not put into the byte order of the
  string.
\<close>

theorem CharInString_UTF16BE_misses:
  assumes "has_text m A [c]" "Enc A = EC_UTF16BE" "c < 0x10000" "region sp 4 \<inter> dom m = {}"
    and "unat c div 256 \<noteq> unat c mod 256"
  shows "CharInString default_dispatch m sp (EncodeChar c (Enc A)) A RETURN_BOOL = Some 0"
proof -
  have c: "unat c < 65536" using assms(3) by (simp add: word_less_nat_alt)
  have u: "EncodeChar c EC_UTF16BE = c"
    using assms(3) by (auto simp: EncodeChar_def UnicodeToUTF16_def word_less_nat_alt)
  have size: "GetMultibyteCharSize c EC_UTF16BE = 2"
    using c by (simp add: GetMultibyteCharSize_def word_le_nat_alt)
  have hi: "char_bytes EC_UTF16BE c = [of_nat (unat c div 256), of_nat (unat c mod 256)]"
    using c by (simp add: char_bytes_def code_bytes_def utf16_units_def unit_bytes_def)
  have lo: "le_bytes 2 c = [of_nat (unat c mod 256), of_nat (unat c div 256)]"
    using unit_LE [OF c] by (simp add: unit_bytes_def)
  have "(of_nat (unat c mod 256) :: u8) \<noteq> of_nat (unat c div 256)"
    using assms(5) c by (subst of_nat_byte_eq) auto
  then have no: "le_bytes 2 c \<noteq> char_bytes EC_UTF16BE c" unfolding hi lo by simp
  have "\<not> match_at (le_bytes 2 c) (char_bytes EC_UTF16BE c) i" for i
  proof
    assume m: "match_at (le_bytes 2 c) (char_bytes EC_UTF16BE c) i"
    then have "i + 2 \<le> 2" using match_at_length [OF m] by (simp add: lo hi)
    with m no show False by (simp add: match_at_def lo hi)
  qed
  then have "first_match (le_bytes 2 c) (char_bytes EC_UTF16BE c) = None"
    by (simp only: first_match_def find_upt_None) simp
  moreover have "holds m A (char_bytes EC_UTF16BE c)"
    using assms(1,2) by (simp add: has_text_def)
  ultimately show ?thesis
    using CharInString_bytes [OF _ assms(4), of A "char_bytes EC_UTF16BE c" c RETURN_BOOL] assms(2)
    by (simp add: u size search_result_def flag_defs)
qed

theorem CharInString_UTF16BE_misses_witness:
  "CharInString default_dispatch ex_text 0x80 0x506 (String 0x10 2 2 EC_UTF16BE) RETURN_BOOL = Some 0"
proof -
  have "has_text ex_text (String 0x10 2 2 EC_UTF16BE) [0x506]"
    by (simp add: has_text_def holds_def ex_text_def char_bytes_def code_bytes_def utf16_units_def
        unit_bytes_def enc_ok_def)
  moreover have "region (0x80 :: ptr) 4 \<inter> dom ex_text = {}" by (simp add: ex_text_def)
  moreover have "EncodeChar 0x506 EC_UTF16BE = 0x506"
    by (simp add: EncodeChar_def UnicodeToUTF16_def)
  ultimately show ?thesis
    using CharInString_UTF16BE_misses [of ex_text "String 0x10 2 2 EC_UTF16BE" "0x506" "0x80"] by simp
qed

text \<open>
  \<open>StringLen\<close> with \<open>LEN_PRINTCHAR\<close> skips the character after one whose low byte is above
  0x7F in UTF-16LE, because it reads through \<open>char*\<close>: for a character of Latin-1 above U+00A0 and
  any other character of the basic plane it counts 1, not 2.
\<close>

theorem StringLen_UTF16LE_skips:
  assumes "has_text m A [c, d]" "Enc A = EC_UTF16LE" "0xA0 \<le> c" "c < 0x100" "d < 0x10000"
    and "unat (Base A) + 4 < 2 ^ 64"
  shows "StringLen m A LEN_PRINTCHAR = Some 1"
proof -
  have c: "unat c < 256" "0xA0 \<le> unat c" and d: "unat d < 65536"
    using assms(3-5) by (simp_all add: word_less_nat_alt word_le_nat_alt)
  have b: "enc_text EC_UTF16LE [c, d]
      = [of_nat (unat c), 0, of_nat (unat d mod 256), of_nat (unat d div 256)]"
    using c d by (simp add: char_bytes_def code_bytes_def utf16_units_def unit_bytes_def)
  have h: "length (enc_text EC_UTF16LE [c, d]) = unat (WriteCur A)"
    "bytes_at m (Base A) (enc_text EC_UTF16LE [c, d])"
    using assms(1,2) unfolding has_text_def holds_def by auto
  then have w: "WriteCur A = 4" unfolding b by (simp add: word_unat_eq_iff)
  have "0x80 \<le> (of_nat (unat c) :: u8)" using c by (simp add: word_le_nat_alt unsigned_ucast_eq take_bit_nat_eq_self)
  from UTF16LE_print_skips [OF h(2) [unfolded b] this assms(6), of 0] show ?thesis
    using assms(2) w by (simp add: StringLen_def UTF16LELenPrintChar_def)
qed

theorem StringLen_UTF16LE_skips_witness:
  "StringLen [0x10 \<mapsto> 0xE9, 0x11 \<mapsto> 0, 0x12 \<mapsto> 0x61, 0x13 \<mapsto> 0] (String 0x10 4 4 EC_UTF16LE)
     LEN_PRINTCHAR = Some 1"
  by (rule StringLen_UTF16LE_skips [of _ _ "0xE9" "0x61"])
    (simp_all add: has_text_def holds_def char_bytes_def code_bytes_def utf16_units_def unit_bytes_def
      enc_ok_def)

text \<open>
  \<open>AppendStringToStringNTimes\<close>, when the encodings differ, ignores the result of \<open>Transcode\<close>: on
  a destination with no space left it appends nothing and still returns true.
\<close>

theorem AppendStringToStringNTimes_ignores_failure:
  assumes "has_text m src cs" "cs \<noteq> []" "\<forall>c\<in>set cs. enc_ok (Enc dst) c" "Enc src \<noteq> Enc dst"
    and "buf_ok m dst" "unat (Size dst) + 4 < 2 ^ 64" "space dst = 0"
    and "buf_region dst \<inter> region (Base src) (unat (WriteCur src)) = {}"
  shows "AppendStringToStringNTimes m src count dst = Some (True, m, dst)"
  using Transcode_times_full [OF Transcode_full [OF assms(1-3,5-8)], of 0 count] assms(4)
  by (simp add: AppendStringToStringNTimes_def)

theorem AppendStringToStringNTimes_ignores_failure_witness:
  "AppendStringToStringNTimes ex_euro ex_utf8 3 (ex_out 8) = Some (True, ex_euro, ex_out 8)"
  using AppendStringToStringNTimes_ignores_failure [OF ex_euro_text, of "ex_out 8" 3]
    ex_out_ok [of 8] ex_out_apart [of 8]
  by (simp add: ex_out_def ex_utf8_def enc_ok_def space_def)

end
