(* ===== verification/NumText.thy ===== *)
theory NumText
  imports Strings
begin

text \<open>
  Integers to text and back: \<open>AppendUIntToString\<close>, \<open>AppendIntToString\<close>, \<open>StringToInt\<close>,
  \<open>StringToUInt\<close> and \<open>StringToHex\<close> of \<open>src/tinybase-strings.c\<close>, in every encoding. An \<open>i64\<close> is an
  \<open>int\<close> whose operations are checked for overflow (\<open>chk64\<close>). The lemmas give the text that the
  append functions write in terms of the reference digits \<open>dec_rev\<close>, the value that the parsers
  read, and the round trip.
\<close>

unbundle bit_operations_syntax

section \<open>Parsing\<close>

definition ISZ_MAX :: int where
  "ISZ_MAX = 0x7FFFFFFFFFFFFFFF"

partial_function (option) StringToInt_loop :: "mem \<Rightarrow> tb_string \<Rightarrow> usz \<Rightarrow> int \<Rightarrow> int \<Rightarrow> int option" where
  "StringToInt_loop m src idx result sign =
     (if idx < WriteCur src
      then do {
        ch \<leftarrow> GetNextChar m (Base src + idx) (Enc src);
        if \<not> CharIsDigit ch then Some ISZ_MAX
        else do {
          r10 \<leftarrow> chk64 (result * 10);
          rc \<leftarrow> chk64 (r10 + uint ch);
          result \<leftarrow> chk64 (rc - 0x30);
          StringToInt_loop m src (idx + fixed_size (Enc src)) result sign
        }
      }
      else chk64 (result * sign))"

definition StringToInt :: "mem \<Rightarrow> tb_string \<Rightarrow> int option" where
  "StringToInt m src =
     do {
       ch \<leftarrow> GetNextChar m (Base src) (Enc src);
       let charSize = fixed_size (Enc src);
       let sign = (if ch = 0x2D then - 1 else 1);
       let idx = (if ch = 0x2D then charSize else 0);
       StringToInt_loop m src idx 0 sign
     }"

partial_function (option) StringToUInt_loop :: "mem \<Rightarrow> tb_string \<Rightarrow> usz \<Rightarrow> u64 \<Rightarrow> usz option" where
  "StringToUInt_loop m src idx result =
     (if idx < WriteCur src
      then do {
        ch \<leftarrow> GetNextChar m (Base src + idx) (Enc src);
        if \<not> CharIsDigit ch then Some USZ_MAX
        else StringToUInt_loop m src (idx + fixed_size (Enc src)) (result * 10 + ucast ch - 0x30)
      }
      else Some result)"

definition StringToUInt :: "mem \<Rightarrow> tb_string \<Rightarrow> usz option" where
  "StringToUInt m src = StringToUInt_loop m src 0 0"

partial_function (option) StringToHex_loop :: "mem \<Rightarrow> tb_string \<Rightarrow> usz \<Rightarrow> usz \<Rightarrow> usz option" where
  "StringToHex_loop m src idx result =
     (if idx < WriteCur src
      then do {
        ch \<leftarrow> GetNextChar m (Base src + idx) (Enc src);
        if CharIsDigit ch
        then StringToHex_loop m src (idx + fixed_size (Enc src)) (result * 16 + ucast ch - 0x30)
        else if CharIsHexDigit ch
        then StringToHex_loop m src (idx + fixed_size (Enc src)) (result * 16 + ucast ch - 0x41 + 10)
        else Some USZ_MAX
      }
      else Some result)"

definition StringToHex :: "mem \<Rightarrow> tb_string \<Rightarrow> usz option" where
  "StringToHex m src = StringToHex_loop m src 0 0"

section \<open>Printing\<close>

text \<open>
  \<open>Digits\<close> is a local array of \<open>USZ_MAX_DIGITS * 4\<close> bytes, zero at the start; \<open>ptr\<close> is the offset
  of \<open>Ptr\<close> in it. A store outside the array has no defined result. The integer is not negative
  when the loop runs.
\<close>

definition char_offset :: "encoding \<Rightarrow> usz" where
  "char_offset enc = (if enc = EC_UTF32BE then 3 else if enc = EC_UTF16BE then 1 else 0)"

definition set_char :: "u8 list \<Rightarrow> usz \<Rightarrow> u8 \<Rightarrow> u8 list option" where
  "set_char arr i b = (if unat i < length arr then Some (arr[unat i := b]) else None)"

function Digits_loop ::
  "usz \<Rightarrow> usz \<Rightarrow> usz \<Rightarrow> usz \<Rightarrow> usz \<Rightarrow> int \<Rightarrow> u8 list \<Rightarrow> u8 list option" where
  "Digits_loop digit numDigits charSize offset ptr integer arr =
     (if digit < numDigits
      then do {
        let idx = (numDigits - digit - 1) * charSize + offset;
        arr \<leftarrow> set_char arr (ptr + idx) (word_of_int (integer mod 10 + 0x30));
        Digits_loop (digit + 1) numDigits charSize offset ptr (integer div 10) arr
      }
      else Some arr)"
  by pat_completeness auto
termination
  by (relation "measure (\<lambda>(i, n, _). unat n - unat i)")
    (auto simp: unat_Suc_less word_less_nat_alt)

declare Digits_loop.simps [simp del]

definition AppendUIntToString ::
  "mem \<Rightarrow> ptr \<Rightarrow> usz \<Rightarrow> tb_string \<Rightarrow> (bool \<times> mem \<times> tb_string) option" where
  "AppendUIntToString m sp integer dst =
     (let numDigits = NumberOfDigits (sint integer) in
      if Size dst - WriteCur dst \<ge> numDigits
      then do {
        let charSize = fixed_size (Enc dst);
        arr \<leftarrow> Digits_loop 0 numDigits charSize (char_offset (Enc dst)) 0 (uint integer) (replicate 80 0);
        (r, m', dst') \<leftarrow> AppendDataToBuffer (push_local m sp arr) sp (numDigits * charSize) dst;
        Some (r, pop_local m' sp 80, dst')
      }
      else Some (False, m, dst))"

definition AppendIntToString ::
  "mem \<Rightarrow> ptr \<Rightarrow> int \<Rightarrow> tb_string \<Rightarrow> (bool \<times> mem \<times> tb_string) option" where
  "AppendIntToString m sp integer dst =
     (let numDigits = NumberOfDigits integer;
          totalChars = numDigits + of_bool (integer < 0)
      in
      if Size dst - WriteCur dst \<ge> totalChars
      then do {
        let charSize = fixed_size (Enc dst);
        let offset = char_offset (Enc dst);
        (arr, ptr) \<leftarrow>
          (if integer < 0
           then do { arr \<leftarrow> set_char (replicate 80 0) offset 0x2D; Some (arr, charSize) }
           else Some (replicate 80 0, 0));
        integer \<leftarrow> Abs integer;
        arr \<leftarrow> Digits_loop 0 numDigits charSize offset ptr integer arr;
        (r, m', dst') \<leftarrow> AppendDataToBuffer (push_local m sp arr) sp (totalChars * charSize) dst;
        Some (r, pop_local m' sp 80, dst')
      }
      else Some (False, m, dst))"

section \<open>The text of a number\<close>

definition digit_char :: "nat \<Rightarrow> uchar" where
  "digit_char d = of_nat (0x30 + d)"

primrec low_digits :: "nat \<Rightarrow> nat \<Rightarrow> nat list" where
  "low_digits 0 n = []"
| "low_digits (Suc k) n = n mod 10 # low_digits k (n div 10)"

lemma length_low_digits [simp]: "length (low_digits k n) = k"
  by (induction k arbitrary: n) simp_all

lemma low_digits_less: "d \<in> set (low_digits k n) \<Longrightarrow> d < 10"
  by (induction k arbitrary: n) auto

lemma low_digits_dec_rev: "low_digits (length (dec_rev n)) n = dec_rev n"
proof (induction n rule: dec_rev.induct)
  case (1 n)
  then show ?case by (cases "n < 10") (auto simp: dec_rev_small dec_rev_big)
qed

text \<open>The value of digits, most significant first.\<close>

definition value10 :: "nat list \<Rightarrow> nat" where
  "value10 ds = foldl (\<lambda>v d. v * 10 + d) 0 ds"

lemma value10_rev_low_digits: "value10 (rev (low_digits k n)) = n mod 10 ^ k"
proof (induction k arbitrary: n)
  case 0
  then show ?case by (simp add: value10_def)
next
  case (Suc k)
  have "value10 (rev (low_digits (Suc k) n)) = value10 (rev (low_digits k (n div 10))) * 10 + n mod 10"
    by (simp add: value10_def)
  also have "\<dots> = n mod 10 ^ Suc k"
    by (simp add: Suc mod_mult2_eq)
  finally show ?case .
qed

lemma dec_rev_less: "n < 10 ^ length (dec_rev n)"
proof (induction n rule: dec_rev.induct)
  case (1 n)
  show ?case
  proof (cases "n < 10")
    case True
    then show ?thesis by (simp add: dec_rev_small)
  next
    case False
    with 1 have "n div 10 < 10 ^ length (dec_rev (n div 10))" by simp
    then have "n < 10 * 10 ^ length (dec_rev (n div 10))" by (simp add: div_less_iff_less_mult mult.commute)
    with False show ?thesis by (simp add: dec_rev_big)
  qed
qed

lemma value10_dec: "value10 (rev (dec_rev n)) = n"
  using value10_rev_low_digits [of "length (dec_rev n)" n] dec_rev_less [of n]
  by (simp add: low_digits_dec_rev)

lemma digit_char_props:
  assumes "d < 10"
  shows "digit_char d < 0x80" "CharIsDigit (digit_char d)" "unat (digit_char d) = 0x30 + d"
proof -
  show u: "unat (digit_char d) = 0x30 + d" unfolding digit_char_def unat_of_nat using assms by simp
  then show "digit_char d < 0x80" "CharIsDigit (digit_char d)"
    using assms by (simp_all add: word_less_nat_alt word_le_nat_alt CharIsDigit_def)
qed

text \<open>The bytes of an ASCII character in every encoding: a zeroed cell with one byte set.\<close>

lemma char_bytes_cell:
  assumes "c < 0x80"
  shows "char_bytes enc c = (replicate (unat (fixed_size enc)) 0) [unat (char_offset enc) := ucast c]"
proof -
  have c: "unat c < 128" using assms by (simp add: word_less_nat_alt)
  then have "(of_nat (unat c) :: u8) = ucast c" by simp
  moreover have "replicate 2 0 = [0, 0 :: u8]" "replicate 4 0 = [0, 0, 0, 0 :: u8]"
    by (simp_all add: numeral_eq_Suc)
  ultimately show ?thesis using c
    by (cases enc) (simp_all add: char_bytes_def code_bytes_def utf8_bytes_def utf16_units_def
        unit_bytes_def utf32_bytes_def fixed_size_def char_offset_def encoding_order)
qed

section \<open>What the digit loop writes\<close>

lemma cell_facts:
  "unat (fixed_size enc) \<le> 4" "0 < unat (fixed_size enc)" "unat (char_offset enc) < unat (fixed_size enc)"
  by (cases enc; simp add: fixed_size_def char_offset_def encoding_order)+

lemma digit_byte: "(word_of_int (int n mod 10 + 0x30) :: u8) = ucast (digit_char (n mod 10))"
proof -
  have "(ucast (digit_char (n mod 10)) :: u8) = of_nat (unat (digit_char (n mod 10)))" by simp
  also have "\<dots> = of_nat (0x30 + n mod 10)" using digit_char_props(3) [of "n mod 10"] by simp
  also have "\<dots> = word_of_int (int (0x30 + n mod 10))" by (rule of_int_of_nat_eq [symmetric])
  also have "int (0x30 + n mod 10) = int n mod 10 + 0x30" by (simp add: zmod_int)
  finally show ?thesis by simp
qed

lemma update_cell:
  assumes "off < c"
  shows "(pre @ replicate (Suc k * c) 0 @ rest) [length pre + k * c + off := b]
    = pre @ replicate (k * c) 0 @ (replicate c 0) [off := b] @ rest"
proof -
  have e: "replicate (Suc k * c) 0 = replicate (k * c) 0 @ replicate c 0"
    by (simp add: add.commute flip: replicate_add)
  show ?thesis unfolding e using assms by (simp add: list_update_append)
qed

lemma Digits_loop_eq:
  assumes "unat digit + k = unat num" "ptr = of_nat (length pre)"
    and "length pre + k * unat (fixed_size enc) + length rest < 2 ^ 64"
  shows "Digits_loop digit num (fixed_size enc) (char_offset enc) ptr (int n)
      (pre @ replicate (k * unat (fixed_size enc)) 0 @ rest)
    = Some (pre @ enc_text enc (map digit_char (rev (low_digits k n))) @ rest)"
  using assms
proof (induction k arbitrary: digit n rest)
  case 0
  then have "\<not> digit < num" by (simp add: word_less_nat_alt)
  then show ?case by (subst Digits_loop.simps) simp
next
  case (Suc k)
  let ?c = "unat (fixed_size enc)" and ?o = "unat (char_offset enc)"
  let ?b = "ucast (digit_char (n mod 10)) :: u8"
  have lt: "digit < num" using Suc.prems(1) by (simp add: word_less_nat_alt)
  note u = unat_Suc_less [OF lt]
  have "num = of_nat (unat digit + Suc k)" unfolding Suc.prems(1) by simp
  then have num: "num - digit - 1 = of_nat k" by simp
  let ?i = "length pre + k * ?c + ?o"
  have i: "?i < length (pre @ replicate (Suc k * ?c) 0 @ rest)"
    using cell_facts(3) [of enc] by simp
  have "ptr + ((num - digit - 1) * fixed_size enc + char_offset enc) = of_nat ?i"
    unfolding num Suc.prems(2) by simp
  moreover have "unat (of_nat ?i :: usz) = ?i"
    using i Suc.prems(3) by (intro unat_offset) simp
  ultimately have adr: "unat (ptr + ((num - digit - 1) * fixed_size enc + char_offset enc)) = ?i"
    by (simp only:)
  have set: "set_char (pre @ replicate (Suc k * ?c) 0 @ rest)
        (ptr + ((num - digit - 1) * fixed_size enc + char_offset enc)) ?b
      = Some (pre @ replicate (k * ?c) 0 @ char_bytes enc (digit_char (n mod 10)) @ rest)"
    unfolding set_char_def adr update_cell [OF cell_facts(3)]
    using i char_bytes_cell [OF digit_char_props(1) [of "n mod 10"], of enc] by simp
  have len: "length (char_bytes enc (digit_char (n mod 10))) = ?c"
    using char_bytes_cell [OF digit_char_props(1) [of "n mod 10"], of enc] by simp
  have "Digits_loop (digit + 1) num (fixed_size enc) (char_offset enc) ptr (int (n div 10))
      (pre @ replicate (k * ?c) 0 @ char_bytes enc (digit_char (n mod 10)) @ rest)
    = Some (pre @ enc_text enc (map digit_char (rev (low_digits k (n div 10))))
        @ char_bytes enc (digit_char (n mod 10)) @ rest)"
    using Suc.prems u len by (intro Suc.IH) simp_all
  then show ?case
    by (subst Digits_loop.simps, simp only: lt if_True Let_def digit_byte set bind.simps)
      (simp add: zdiv_int)
qed

lemma length_digit_text:
  "\<forall>d\<in>set ds. d < 10 \<Longrightarrow> length (enc_text enc (map digit_char ds)) = length ds * unat (fixed_size enc)"
proof (induction ds)
  case (Cons d ds)
  then show ?case
    using char_bytes_cell [OF digit_char_props(1) [of d], of enc] by simp
qed simp

section \<open>The append functions\<close>

text \<open>Appending an array that is a local variable of \<open>n\<close> bytes.\<close>

lemma local_array:
  assumes "buf_ok m d" "region sp n \<inter> dom m = {}" "n \<le> 2 ^ 64" "length bs + length rest = n"
    and "length bs = unat w"
  shows "do { (r, m', d') \<leftarrow> AppendDataToBuffer (push_local m sp (bs @ rest)) sp w d;
              Some (r, pop_local m' sp n, d') }
    = Some (append_result m d bs)"
proof -
  let ?m = "push_local m sp (bs @ rest)"
  obtain r m' d' where r: "append_result ?m d bs = (r, m', d')" by (cases rule: prod_cases3)
  have "bytes_at ?m sp (bs @ rest)"
    using assms(3,4) by (simp add: push_local_def bytes_at_upd_same del: bytes_at_append)
  then have "bytes_at ?m sp bs" by simp
  moreover have "buf_ok ?m d" using assms(1) by (simp add: buf_ok_def push_local_def mapped_upd)
  moreover have "buf_region d \<subseteq> dom m" using assms(1) by (simp add: buf_ok_def mapped_dom)
  then have "buf_region d \<inter> region sp (length bs) = {}"
    using assms(2,4) region_mono [of "length bs" n sp] by fastforce
  ultimately have "AppendDataToBuffer ?m sp w d = Some (r, m', d')"
    using AppendDataToBuffer_eq [of ?m d sp bs w] assms(5) r by simp
  then show ?thesis using pop_append [OF assms(1,2) _ assms(3) r] assms(4) by simp
qed

lemma digit_count_bound:
  assumes "n < 10 ^ k"
  shows "length (dec_rev n) \<le> max 1 k"
  using length_dec_rev [of n "k - 1"] assms by (cases k) (auto simp: dec_rev_small)

definition uint_text :: "usz \<Rightarrow> uchar list" where
  "uint_text n = map digit_char (rev (low_digits (length (dec_rev (nat \<bar>sint n\<bar>))) (unat n)))"

definition int_text :: "int \<Rightarrow> uchar list" where
  "int_text i = (if i < 0 then [0x2D] else []) @ map digit_char (rev (dec_rev (nat \<bar>i\<bar>)))"

lemma AppendUIntToString_eq:
  assumes "buf_ok m d" "region sp 80 \<inter> dom m = {}"
  shows "AppendUIntToString m sp n d = Some (append_result m d (enc_text (Enc d) (uint_text n)))"
proof -
  let ?k = "length (dec_rev (nat \<bar>sint n\<bar>))" and ?c = "unat (fixed_size (Enc d))"
  let ?bs = "enc_text (Enc d) (uint_text n)"
  have "nat \<bar>sint n\<bar> \<le> 2 ^ 63"
    using sint_ge [of n] sint_lt [of n] by simp
  then have k: "?k \<le> 19" by (rule length_dec_rev_isz)
  have num: "NumberOfDigits (sint n) = of_nat ?k" by (rule NumberOfDigits_eq)
  have uk: "unat (of_nat ?k :: usz) = ?k" using k by (intro unat_offset) simp
  have len: "length ?bs = ?k * ?c"
    unfolding uint_text_def using low_digits_less by (subst length_digit_text) auto
  have c: "?c \<le> 4" "0 < ?c" using cell_facts by auto
  then have kc: "?k * ?c \<le> 80" using mult_mono [OF k c(1)] by simp
  have rep: "replicate 80 0 = replicate (?k * ?c) 0 @ replicate (80 - ?k * ?c) (0 :: u8)"
    using kc by (simp flip: replicate_add)
  have loop: "Digits_loop 0 (of_nat ?k) (fixed_size (Enc d)) (char_offset (Enc d)) 0 (uint n) (replicate 80 0)
      = Some (?bs @ replicate (80 - ?k * ?c) 0)"
    using Digits_loop_eq [of 0 ?k "of_nat ?k" 0 "[]" "Enc d" "replicate (80 - ?k * ?c) 0" "unat n"] uk kc
    by (simp add: rep uint_text_def)
  have w: "length ?bs = unat (of_nat ?k * fixed_size (Enc d))"
    unfolding len using kc uk by (subst unat_mult_lem [THEN iffD1]) simp_all
  have la: "do { (r, m', d') \<leftarrow> AppendDataToBuffer (push_local m sp (?bs @ replicate (80 - ?k * ?c) 0)) sp
              (of_nat ?k * fixed_size (Enc d)) d;
              Some (r, pop_local m' sp 80, d') } = Some (append_result m d ?bs)"
    by (rule local_array [OF assms _ _ w]) (use len kc in simp_all)
  show ?thesis
  proof (cases "of_nat ?k \<le> Size d - WriteCur d")
    case True
    then show ?thesis using loop la by (simp add: AppendUIntToString_def num)
  next
    case False
    then have "space d < ?k" using uk by (simp add: word_le_nat_alt unat_space [OF assms(1)])
    moreover have "?k \<le> ?k * ?c" using c(2) by simp
    ultimately have "space d < length ?bs" unfolding len by linarith
    with False show ?thesis by (simp add: AppendUIntToString_def num append_result_def)
  qed
qed

lemma minus_cell:
  "set_char (replicate 80 0) (char_offset enc) 0x2D
    = Some (char_bytes enc 0x2D @ replicate (80 - unat (fixed_size enc)) 0)"
  "length (char_bytes enc 0x2D) = unat (fixed_size enc)"
proof -
  note c = cell_facts [of enc]
  have cb: "char_bytes enc 0x2D = (replicate (unat (fixed_size enc)) 0) [unat (char_offset enc) := 0x2D]"
    using char_bytes_cell [of "0x2D" enc] by simp
  then show "length (char_bytes enc 0x2D) = unat (fixed_size enc)" by simp
  have rep: "replicate 80 0 = replicate (unat (fixed_size enc)) 0 @ replicate (80 - unat (fixed_size enc)) (0 :: u8)"
    using c(1) by (simp flip: replicate_add)
  show "set_char (replicate 80 0) (char_offset enc) 0x2D
      = Some (char_bytes enc 0x2D @ replicate (80 - unat (fixed_size enc)) 0)"
    unfolding set_char_def cb rep using c by (simp add: list_update_append)
qed

lemma AppendIntToString_eq:
  assumes "buf_ok m d" "region sp 80 \<inter> dom m = {}" "\<bar>i\<bar> < 2 ^ 63"
  shows "AppendIntToString m sp i d = Some (append_result m d (enc_text (Enc d) (int_text i)))"
proof -
  let ?e = "Enc d"
  let ?k = "length (dec_rev (nat \<bar>i\<bar>))" and ?c = "unat (fixed_size ?e)"
  let ?pre = "if i < 0 then char_bytes ?e 0x2D else []" and ?t = "?k + of_bool (i < 0)"
  let ?bs = "enc_text ?e (int_text i)"
  have "nat \<bar>i\<bar> \<le> 2 ^ 63" using assms(3) by simp
  then have k: "?k \<le> 19" by (rule length_dec_rev_isz)
  moreover have "of_bool (i < 0) \<le> (1 :: nat)" by simp
  ultimately have t: "?t \<le> 20" by linarith
  have uk: "unat (of_nat ?k :: usz) = ?k" using k by (intro unat_offset) simp
  have "unat (of_nat ?t :: usz) = ?t" by (rule unat_offset, rule le_less_trans [OF t]) simp
  then have ut: "unat (of_nat ?k + of_bool (i < 0) :: usz) = ?t" by simp
  have num: "NumberOfDigits i = of_nat ?k" by (rule NumberOfDigits_eq)
  have abs: "Abs i = Some (int (nat \<bar>i\<bar>))" using assms(3) by (simp add: Abs_def)
  have c: "?c \<le> 4" "0 < ?c" using cell_facts by auto
  then have tc: "?t * ?c \<le> 80" using mult_mono [OF t c(1)] by simp
  have pre: "length ?pre = of_bool (i < 0) * ?c" by (simp add: minus_cell)
  have len: "length ?bs = ?t * ?c"
    using length_digit_text [of "rev (dec_rev (nat \<bar>i\<bar>))" ?e] dec_rev_digits [of _ "nat \<bar>i\<bar>"]
    by (simp add: int_text_def minus_cell)
  let ?rest = "replicate (80 - ?t * ?c) (0 :: u8)"
  have start: "(if i < 0
      then do { arr \<leftarrow> set_char (replicate 80 0) (char_offset ?e) 0x2D; Some (arr, fixed_size ?e) }
      else Some (replicate 80 0, 0))
    = Some (?pre @ replicate (?k * ?c) 0 @ ?rest, of_nat (length ?pre))"
  proof (cases "i < 0")
    case True
    have "80 - ?c = ?k * ?c + (80 - ?t * ?c)" using tc True by simp
    then have "replicate (80 - ?c) 0 = replicate (?k * ?c) 0 @ ?rest" by (metis replicate_add)
    then show ?thesis using True by (simp add: minus_cell)
  next
    case False
    have "80 = ?k * ?c + (80 - ?t * ?c)" using tc False by simp
    then have "replicate 80 0 = replicate (?k * ?c) 0 @ ?rest" by (metis replicate_add)
    then show ?thesis using False by simp
  qed
  have loop: "Digits_loop 0 (of_nat ?k) (fixed_size ?e) (char_offset ?e) (of_nat (length ?pre))
      (int (nat \<bar>i\<bar>)) (?pre @ replicate (?k * ?c) 0 @ ?rest) = Some (?bs @ ?rest)"
    using Digits_loop_eq [of 0 ?k "of_nat ?k" "of_nat (length ?pre)" ?pre ?e ?rest "nat \<bar>i\<bar>"] uk pre tc
    by (simp add: int_text_def low_digits_dec_rev algebra_simps)
  have w: "length ?bs = unat ((of_nat ?k + of_bool (i < 0)) * fixed_size ?e)"
    unfolding len using tc ut by (subst unat_mult_lem [THEN iffD1]) simp_all
  have la: "do { (r, m', d') \<leftarrow> AppendDataToBuffer (push_local m sp (?bs @ ?rest)) sp
              ((of_nat ?k + of_bool (i < 0)) * fixed_size ?e) d;
              Some (r, pop_local m' sp 80, d') } = Some (append_result m d ?bs)"
    by (rule local_array [OF assms(1,2) _ _ w]) (use len tc in simp_all)
  show ?thesis
  proof (cases "of_nat ?k + of_bool (i < 0) \<le> Size d - WriteCur d")
    case True
    then show ?thesis
      unfolding AppendIntToString_def num Let_def start abs
      by (simp only: if_True bind.simps prod.case loop la)
  next
    case False
    then have "space d < ?t" using ut by (simp add: word_le_nat_alt unat_space [OF assms(1)])
    moreover have "?t \<le> ?t * ?c" using c(2) by simp
    ultimately have "space d < length ?bs" unfolding len by linarith
    with False show ?thesis by (simp add: AppendIntToString_def num append_result_def)
  qed
qed

text \<open>Both are appends in the sense of \<open>appender\<close>.\<close>

interpretation append_uint: appender "\<lambda>m d. AppendUIntToString m sp n d"
  "\<lambda>m d. region sp 80 \<inter> dom m = {} \<and> Enc d = enc" "enc_text enc (uint_text n)"
  for sp n enc
proof (unfold_locales, goal_cases)
  case (1 m d)
  then show ?case using AppendUIntToString_eq [of m d sp n] by simp
next
  case (2 m d m' d')
  then show ?case using dom_append [OF 2(1,3)] append_fits(3) [OF 2(3)] by simp
qed

interpretation append_int: appender "\<lambda>m d. AppendIntToString m sp i d"
  "\<lambda>m d. region sp 80 \<inter> dom m = {} \<and> Enc d = enc \<and> \<bar>i\<bar> < 2 ^ 63" "enc_text enc (int_text i)"
  for sp i enc
proof (unfold_locales, goal_cases)
  case (1 m d)
  then show ?case using AppendIntToString_eq [of m d sp i] by simp
next
  case (2 m d m' d')
  then show ?case using dom_append [OF 2(1,3)] append_fits(3) [OF 2(3)] by simp
qed

section \<open>What the parsers read\<close>

lemma digit_text_ok: "\<forall>d\<in>set ds. d < 10 \<Longrightarrow> \<forall>c\<in>set (map digit_char ds). enc_ok enc c"
  using enc_ok_ascii digit_char_props(1) by auto

text \<open>One ASCII character at index \<open>i\<close>, as the three loops read it.\<close>

lemma ascii_step:
  assumes "bytes_at m (Base A + of_nat i) (enc_text (Enc A) (c # cs))" "c < 0x80"
    and "i + length (enc_text (Enc A) (c # cs)) \<le> unat (WriteCur A)"
  shows "of_nat i < WriteCur A"
    and "GetNextChar m (Base A + of_nat i) (Enc A) = Some c"
    and "of_nat i + fixed_size (Enc A) = of_nat (i + length (char_bytes (Enc A) c))"
proof -
  note ok = enc_ok_ascii [OF assms(2), of "Enc A"]
  have "i < unat (WriteCur A)"
    using assms(3) char_bytes_bounds(1) [OF ok] unfolding enc_text_simps length_append by linarith
  then show "of_nat i < WriteCur A" by (rule of_nat_less_WriteCur(1))
  show "GetNextChar m (Base A + of_nat i) (Enc A) = Some c"
    using GetNextChar_eq [OF ok] assms(1) by (simp add: EncodeChar_ascii [OF assms(2)])
  have "length (char_bytes (Enc A) c) = unat (fixed_size (Enc A))"
    using char_bytes_cell [OF assms(2)] by simp
  then show "of_nat i + fixed_size (Enc A) = of_nat (i + length (char_bytes (Enc A) c))"
    by simp
qed

lemma digit_step:
  assumes "bytes_at m (Base A + of_nat i) (enc_text (Enc A) (digit_char d # cs))" "d < 10"
    and "i + length (enc_text (Enc A) (digit_char d # cs)) \<le> unat (WriteCur A)"
  shows "of_nat i < WriteCur A"
    and "GetNextChar m (Base A + of_nat i) (Enc A) = Some (digit_char d)"
    and "of_nat i + fixed_size (Enc A) = of_nat (i + length (char_bytes (Enc A) (digit_char d)))"
  using ascii_step [OF assms(1) digit_char_props(1) [OF assms(2)] assms(3)] by simp_all

lemma StringToUInt_loop_eq:
  assumes "bytes_at m (Base A + of_nat i) (enc_text (Enc A) (map digit_char ds))" "\<forall>d\<in>set ds. d < 10"
    and "i + length (enc_text (Enc A) (map digit_char ds)) = unat (WriteCur A)"
  shows "StringToUInt_loop m A (of_nat i) (of_nat v) = Some (of_nat (foldl (\<lambda>v d. v * 10 + d) v ds))"
  using assms
proof (induction ds arbitrary: i v)
  case Nil
  then have "of_nat i = WriteCur A" by simp
  then show ?case by (subst StringToUInt_loop.simps) simp
next
  case (Cons d ds)
  have d: "d < 10" using Cons.prems(2) by simp
  note st = digit_step [of m A i d "map digit_char ds"]
  have st: "of_nat i < WriteCur A" "GetNextChar m (Base A + of_nat i) (Enc A) = Some (digit_char d)"
    "of_nat i + fixed_size (Enc A) = of_nat (i + length (char_bytes (Enc A) (digit_char d)))"
    using st d Cons.prems by simp_all
  have "ucast (digit_char d) = (of_nat (unat (digit_char d)) :: usz)" by simp
  then have uc: "ucast (digit_char d) = (of_nat d + 0x30 :: usz)"
    using digit_char_props(3) [OF d] by (simp only: of_nat_add of_nat_numeral add.commute)
  have "StringToUInt_loop m A (of_nat (i + length (char_bytes (Enc A) (digit_char d))))
      (of_nat (v * 10 + d)) = Some (of_nat (foldl (\<lambda>v d. v * 10 + d) (v * 10 + d) ds))"
    using Cons.prems by (intro Cons.IH) (simp_all add: add.assoc)
  then show ?case
    using st digit_char_props(2) [OF d] uc by (subst StringToUInt_loop.simps) simp
qed

lemma StringToUInt_text:
  assumes "has_text m A (map digit_char ds)" "\<forall>d\<in>set ds. d < 10"
  shows "StringToUInt m A = Some (of_nat (value10 ds))"
  using StringToUInt_loop_eq [of m A 0 ds 0] assms
  by (simp add: StringToUInt_def has_text_def holds_def value10_def)

lemma foldl_value_mono: "v \<le> foldl (\<lambda>v d. v * 10 + d) v ds" for v :: nat
proof (induction ds arbitrary: v)
  case (Cons d ds)
  have "v \<le> v * 10 + d" by simp
  also have "\<dots> \<le> foldl (\<lambda>v d. v * 10 + d) (v * 10 + d) ds" by (rule Cons.IH)
  finally show ?case by simp
qed simp

text \<open>The signed parser adds the character before it subtracts the digit 0, hence the 48.\<close>

lemma StringToInt_prefix:
  assumes "bytes_at m (Base A + of_nat i) (enc_text (Enc A) (map digit_char ds))" "\<forall>d\<in>set ds. d < 10"
    and "i + length (enc_text (Enc A) (map digit_char ds)) \<le> unat (WriteCur A)"
    and "int (foldl (\<lambda>v d. v * 10 + d) v ds) + 48 < 2 ^ 63"
  shows "StringToInt_loop m A (of_nat i) (int v) sign
    = StringToInt_loop m A (of_nat (i + length (enc_text (Enc A) (map digit_char ds))))
        (int (foldl (\<lambda>v d. v * 10 + d) v ds)) sign"
  using assms
proof (induction ds arbitrary: i v)
  case Nil
  then show ?case by simp
next
  case (Cons d ds)
  have d: "d < 10" using Cons.prems(2) by simp
  have st: "of_nat i < WriteCur A" "GetNextChar m (Base A + of_nat i) (Enc A) = Some (digit_char d)"
    "of_nat i + fixed_size (Enc A) = of_nat (i + length (char_bytes (Enc A) (digit_char d)))"
    using digit_step [of m A i d "map digit_char ds"] d Cons.prems by simp_all
  have u: "uint (digit_char d) = 48 + int d"
    using digit_char_props(3) [OF d] by (metis of_nat_add of_nat_numeral uint_nat)
  have "int (v * 10 + d) + 48 < 2 ^ 63"
    using foldl_value_mono [of "v * 10 + d" ds] Cons.prems(4) by simp
  then have chk: "chk64 (int v * 10) = Some (int v * 10)"
    "chk64 (int v * 10 + (48 + int d)) = Some (int v * 10 + (48 + int d))"
    "chk64 (int v * 10 + (48 + int d) - 48) = Some (int (v * 10 + d))"
    by (simp_all add: chk64_def)
  have "StringToInt_loop m A (of_nat i) (int v) sign
      = StringToInt_loop m A (of_nat (i + length (char_bytes (Enc A) (digit_char d)))) (int (v * 10 + d)) sign"
    using st digit_char_props(2) [OF d] chk u
    by (subst StringToInt_loop.simps) (simp del: of_nat_add of_nat_mult)
  also have "\<dots> = StringToInt_loop m A
      (of_nat (i + length (char_bytes (Enc A) (digit_char d)) + length (enc_text (Enc A) (map digit_char ds))))
      (int (foldl (\<lambda>v d. v * 10 + d) (v * 10 + d) ds)) sign"
    using Cons.prems by (intro Cons.IH) (simp_all add: add.assoc)
  finally show ?case by (simp add: add.assoc)
qed

lemma StringToInt_end:
  "StringToInt_loop m A (of_nat (unat (WriteCur A))) r sign = chk64 (r * sign)"
  by (subst StringToInt_loop.simps) simp

lemma int_text_ok: "\<forall>c\<in>set (int_text i). enc_ok enc c"
  using digit_text_ok [of "rev (dec_rev (nat \<bar>i\<bar>))" enc] dec_rev_digits [of _ "nat \<bar>i\<bar>"]
    enc_ok_ascii [of "0x2D" enc]
  by (auto simp: int_text_def)

lemma digit_not_minus: "d < 10 \<Longrightarrow> digit_char d \<noteq> 0x2D"
  using digit_char_props(3) [of d] by auto

text \<open>The first step: the sign, and the index where the digits start.\<close>

lemma StringToInt_start:
  assumes "has_text m A (int_text i)"
  shows "StringToInt m A
    = StringToInt_loop m A (of_nat (if i < 0 then length (char_bytes (Enc A) 0x2D) else 0)) 0
        (if i < 0 then - 1 else 1)"
proof (cases "i < 0")
  case True
  have "bytes_at m (Base A) (char_bytes (Enc A) 0x2D)"
    using assms True by (simp add: has_text_def holds_def int_text_def)
  from GetNextChar_eq [OF enc_ok_ascii this] have "GetNextChar m (Base A) (Enc A) = Some 0x2D"
    by (simp add: EncodeChar_ascii)
  then show ?thesis using True by (simp add: StringToInt_def Let_def minus_cell)
next
  case False
  obtain d ds where ds: "rev (dec_rev (nat \<bar>i\<bar>)) = d # ds"
    using dec_rev_nonempty [of "nat \<bar>i\<bar>"] by (cases "rev (dec_rev (nat \<bar>i\<bar>))") auto
  have "d \<in> set (rev (dec_rev (nat \<bar>i\<bar>)))" unfolding ds by simp
  then have d: "d < 10" using dec_rev_digits by simp
  have "bytes_at m (Base A) (char_bytes (Enc A) (digit_char d))"
    using assms False ds by (simp add: has_text_def holds_def int_text_def)
  from GetNextChar_eq [OF enc_ok_ascii [OF digit_char_props(1) [OF d]] this]
  have "GetNextChar m (Base A) (Enc A) = Some (digit_char d)"
    by (simp add: EncodeChar_ascii digit_char_props(1) [OF d])
  then show ?thesis using False digit_not_minus [OF d] by (simp add: StringToInt_def)
qed

lemma int_text_digits:
  assumes "has_text m A (int_text i)"
  defines "k \<equiv> (if i < 0 then length (char_bytes (Enc A) 0x2D) else 0)"
  shows "bytes_at m (Base A + of_nat k) (enc_text (Enc A) (map digit_char (rev (dec_rev (nat \<bar>i\<bar>)))))"
    and "k + length (enc_text (Enc A) (map digit_char (rev (dec_rev (nat \<bar>i\<bar>))))) = unat (WriteCur A)"
  using assms(1) by (auto simp: k_def has_text_def holds_def int_text_def)

lemma StringToInt_text:
  assumes "has_text m A (int_text i)" "\<bar>i\<bar> + 48 < 2 ^ 63"
  shows "StringToInt m A = Some i"
proof -
  let ?ds = "rev (dec_rev (nat \<bar>i\<bar>))"
  have v: "foldl (\<lambda>v d. v * 10 + d) 0 ?ds = nat \<bar>i\<bar>"
    using value10_dec [of "nat \<bar>i\<bar>"] by (simp add: value10_def)
  have "StringToInt m A = StringToInt_loop m A (of_nat (unat (WriteCur A))) \<bar>i\<bar> (if i < 0 then - 1 else 1)"
    unfolding StringToInt_start [OF assms(1)] int_text_digits(2) [OF assms(1), symmetric]
    using StringToInt_prefix [OF int_text_digits(1) [OF assms(1)], of 0]
      int_text_digits(2) [OF assms(1)] dec_rev_digits [of _ "nat \<bar>i\<bar>"] assms(2) v
    by simp
  also have "\<dots> = Some i"
    unfolding StringToInt_end using assms(2) by (auto simp: chk64_def)
  finally show ?thesis .
qed

lemma StringToInt_overflow_step:
  assumes "bytes_at m (Base A + of_nat i) (enc_text (Enc A) (digit_char d # cs))" "d < 10"
    and "i + length (enc_text (Enc A) (digit_char d # cs)) \<le> unat (WriteCur A)"
    and "2 ^ 63 \<le> v * 10 + int d + 48"
  shows "StringToInt_loop m A (of_nat i) v sign = None"
proof -
  have u: "uint (digit_char d) = 48 + int d"
    using digit_char_props(3) [OF assms(2)] by (metis of_nat_add of_nat_numeral uint_nat)
  have "chk64 (v * 10 + uint (digit_char d)) = None"
    unfolding u using assms(4) by (simp add: chk64_def)
  moreover have "chk64 (v * 10) = None \<or> chk64 (v * 10) = Some (v * 10)" by (simp add: chk64_def)
  ultimately have "do { r10 \<leftarrow> chk64 (v * 10); rc \<leftarrow> chk64 (r10 + uint (digit_char d)); f rc } = None" for f :: "int \<Rightarrow> int option"
    by (elim disjE) simp_all
  then show ?thesis
    using digit_step(1,2) [OF assms(1-3)] digit_char_props(2) [OF assms(2)]
    by (subst StringToInt_loop.simps) simp
qed

lemma StringToInt_text_overflow:
  assumes "has_text m A (int_text i)" "2 ^ 63 \<le> \<bar>i\<bar> + 48" "\<bar>i\<bar> < 2 ^ 63"
  shows "StringToInt m A = None"
proof -
  let ?n = "nat \<bar>i\<bar>" and ?e = "Enc A" and ?s = "if i < 0 then - 1 else 1 :: int"
  let ?k = "if i < 0 then length (char_bytes (Enc A) 0x2D) else 0"
  have n: "10 \<le> ?n" using assms(2) by simp
  let ?ds = "rev (dec_rev (?n div 10))" and ?d = "?n mod 10"
  have split: "rev (dec_rev ?n) = ?ds @ [?d]" using dec_rev_big [OF n] by simp
  have v: "foldl (\<lambda>v d. v * 10 + d) 0 ?ds = ?n div 10"
    using value10_dec [of "?n div 10"] by (simp add: value10_def)
  note at = int_text_digits [OF assms(1), unfolded split]
  have at1: "bytes_at m (Base A + of_nat ?k) (enc_text ?e (map digit_char ?ds))"
    and at2: "bytes_at m (Base A + of_nat (?k + length (enc_text ?e (map digit_char ?ds))))
      (enc_text ?e (digit_char ?d # []))"
    using at(1) by (simp_all add: add.assoc)
  have len: "?k + length (enc_text ?e (map digit_char ?ds)) + length (enc_text ?e (digit_char ?d # []))
      = unat (WriteCur A)"
    using at(2) by simp
  have small: "int (foldl (\<lambda>v d. v * 10 + d) 0 ?ds) + 48 < 2 ^ 63"
    unfolding v using assms(3) by (simp add: zdiv_int)
  have "StringToInt m A
      = StringToInt_loop m A (of_nat (?k + length (enc_text ?e (map digit_char ?ds)))) (int (?n div 10)) ?s"
    (is "_ = ?last")
  proof -
    have d: "\<forall>d\<in>set ?ds. d < 10" using dec_rev_digits by simp
    have l: "?k + length (enc_text ?e (map digit_char ?ds)) \<le> unat (WriteCur A)"
      by (rule order_trans [OF le_add1 eq_imp_le [OF len]])
    have "StringToInt_loop m A (of_nat ?k) (int 0) ?s = ?last"
      by (rule StringToInt_prefix [OF at1 d l small, of ?s, unfolded v])
    then show ?thesis unfolding StringToInt_start [OF assms(1)] by (simp only: int_ops)
  qed
  also have "\<dots> = None"
    by (rule StringToInt_overflow_step [OF at2 _ eq_imp_le [OF len]]) (use assms(2) in \<open>simp_all add: zdiv_int zmod_int\<close>)
  finally show ?thesis .
qed

text \<open>
  \<open>StringToHex\<close>: the weight of a character is what its branch adds, so a letter counts from the
  capital A whatever its case.
\<close>

definition nibble_weight :: "uchar \<Rightarrow> nat" where
  "nibble_weight c = (if CharIsDigit c then unat c - 0x30 else unat c - 0x41 + 10)"

lemma hex_digit_ascii:
  assumes "CharIsHexDigit c"
  shows "c < 0x80" "0x30 \<le> unat c" "\<not> CharIsDigit c \<Longrightarrow> 0x41 \<le> unat c"
  using assms by (auto simp: CharIsHexDigit_def CharIsDigit_def word_less_nat_alt word_le_nat_alt)

lemma of_nat_minus_add: "k \<le> n \<Longrightarrow> x + of_nat n - of_nat k = x + (of_nat (n - k) :: 'a :: ring_1)"
  by (simp add: of_nat_diff)

lemma StringToHex_loop_eq:
  assumes "bytes_at m (Base A + of_nat i) (enc_text (Enc A) cs)" "\<forall>c\<in>set cs. CharIsHexDigit c"
    and "i + length (enc_text (Enc A) cs) = unat (WriteCur A)"
  shows "StringToHex_loop m A (of_nat i) (of_nat v)
    = Some (of_nat (foldl (\<lambda>v c. v * 16 + nibble_weight c) v cs))"
  using assms
proof (induction cs arbitrary: i v)
  case Nil
  then have "of_nat i = WriteCur A" by simp
  then show ?case by (subst StringToHex_loop.simps) simp
next
  case (Cons c cs)
  have c: "CharIsHexDigit c" using Cons.prems(2) by simp
  note st = ascii_step [OF Cons.prems(1) hex_digit_ascii(1) [OF c] eq_imp_le [OF Cons.prems(3)]]
  have uc: "(ucast c :: usz) = of_nat (unat c)" by simp
  have step: "of_nat v * 16 + ucast c - 0x30 = (of_nat (v * 16 + nibble_weight c) :: usz)" if "CharIsDigit c"
    using of_nat_minus_add [of "0x30" "unat c" "of_nat v * 16 :: usz"] hex_digit_ascii(2) [OF c] that
    unfolding uc nibble_weight_def by simp
  have step': "of_nat v * 16 + ucast c - 0x41 + 10 = (of_nat (v * 16 + nibble_weight c) :: usz)"
    if "\<not> CharIsDigit c"
    using of_nat_minus_add [of "0x41" "unat c" "of_nat v * 16 :: usz"] hex_digit_ascii(3) [OF c that] that
    unfolding uc nibble_weight_def by (simp add: add.assoc)
  have IH: "StringToHex_loop m A (of_nat (i + length (char_bytes (Enc A) c))) (of_nat (v * 16 + nibble_weight c))
      = Some (of_nat (foldl (\<lambda>v c. v * 16 + nibble_weight c) (v * 16 + nibble_weight c) cs))"
    using Cons.prems by (intro Cons.IH) (simp_all add: add.assoc)
  show ?case
  proof (cases "CharIsDigit c")
    case True
    then show ?thesis using st(1,2) IH
      by (subst StringToHex_loop.simps) (simp only: if_True bind.simps st(3) step foldl_Cons)
  next
    case False
    then show ?thesis using st(1,2) IH c
      by (subst StringToHex_loop.simps) (simp only: if_True if_False not_False_eq_True bind.simps st(3) step' foldl_Cons)
  qed
qed

lemma StringToHex_text:
  assumes "has_text m A cs" "\<forall>c\<in>set cs. CharIsHexDigit c"
  shows "StringToHex m A = Some (of_nat (foldl (\<lambda>v c. v * 16 + nibble_weight c) 0 cs))"
  using StringToHex_loop_eq [of m A 0 cs 0] assms
  by (simp add: StringToHex_def has_text_def holds_def)

section \<open>Properties\<close>

text \<open>The decimal text of a number, and the value of a text in base sixteen.\<close>

definition decimal :: "nat \<Rightarrow> uchar list" where
  "decimal n = map digit_char (rev (dec_rev n))"

lemma uint_text_decimal: "unat n < 2 ^ 63 \<Longrightarrow> uint_text n = decimal (unat n)"
proof -
  assume n: "unat n < 2 ^ 63"
  then have "sint n = int (unat n)" by (rule sint_low)
  then show ?thesis by (simp add: uint_text_def decimal_def low_digits_dec_rev)
qed

lemma decimal_ok: "\<forall>c\<in>set (decimal n). enc_ok enc c"
  using digit_text_ok [of "rev (dec_rev n)" enc] dec_rev_digits [of _ n] by (simp add: decimal_def)

lemma decimal_small: "n < 10 \<Longrightarrow> decimal n = [digit_char n]"
  by (simp add: decimal_def dec_rev_small)

lemma decimal_big: "10 \<le> n \<Longrightarrow> decimal n = decimal (n div 10) @ [digit_char (n mod 10)]"
  by (simp add: decimal_def dec_rev_big)

lemma append_text:
  assumes "has_text m d xs" "buf_ok m d" "length (enc_text (Enc d) cs) \<le> space d"
    and "\<forall>c\<in>set cs. enc_ok (Enc d) c"
  shows "\<exists>m' d'. append_result m d (enc_text (Enc d) cs) = (True, m', d')
    \<and> has_text m' d' (xs @ cs) \<and> buf_ok m' d' \<and> Enc d' = Enc d
    \<and> (\<forall>q. q \<notin> buf_region d \<longrightarrow> m' q = m q)"
proof -
  obtain m' d' where r: "append_result m d (enc_text (Enc d) cs) = (True, m', d')"
    using assms(3) by (auto simp: append_result_def)
  have "Enc d' = Enc d" using append_fits(3) [OF r] by simp
  moreover have "holds m' d' (enc_text (Enc d) xs @ enc_text (Enc d) cs)"
    using assms(1) by (intro append_holds [OF assms(2) _ r]) (simp add: has_text_def)
  ultimately show ?thesis
    using r assms(1,4) append_buf_ok [OF assms(2) r] append_frame [OF assms(2) r]
    by (auto simp: has_text_def)
qed

lemma StringToUInt_decimal: "has_text m A (decimal n) \<Longrightarrow> StringToUInt m A = Some (of_nat n)"
  using StringToUInt_text [of m A "rev (dec_rev n)"] dec_rev_digits [of _ n]
  by (simp add: decimal_def value10_dec)

lemma int_text_decimal: "int_text i = (if i < 0 then [0x2D] else []) @ decimal (nat \<bar>i\<bar>)"
  by (simp add: int_text_def decimal_def)

lemma low_digits_take: "k \<le> length (dec_rev n) \<Longrightarrow> low_digits k n = take k (dec_rev n)"
proof (induction k arbitrary: n)
  case (Suc k)
  then show ?case by (cases "n < 10") (auto simp: dec_rev_small dec_rev_big)
qed simp

lemma length_dec_rev_mono: "a \<le> b \<Longrightarrow> length (dec_rev a) \<le> length (dec_rev b)"
proof (induction a arbitrary: b rule: dec_rev.induct)
  case (1 a)
  show ?case
  proof (cases "a < 10")
    case True
    then show ?thesis by (simp add: dec_rev_small Suc_leI)
  next
    case False
    with 1 show ?thesis by (simp add: dec_rev_big div_le_mono)
  qed
qed

lemma uint_text_high:
  assumes "2 ^ 63 \<le> unat n"
  shows "uint_text n = map digit_char (rev (take (length (dec_rev (2 ^ 64 - unat n))) (dec_rev (unat n))))"
proof -
  have "int (2 ^ 63) \<le> int (unat n)" using assms by (simp only: of_nat_le_iff)
  then have u: "2 ^ 63 \<le> uint n" "uint n < 2 ^ 64"
    using uint_lt2p [of n] by simp_all
  have "sint n = take_bit (Suc 63) (uint n + 2 ^ 63) - 2 ^ 63"
    unfolding sint_uint by (simp add: signed_take_bit_eq_take_bit_shift)
  also have "uint n + 2 ^ 63 = (uint n - 2 ^ 63) + 2 ^ Suc 63" by simp
  also have "take_bit (Suc 63) ((uint n - 2 ^ 63) + 2 ^ Suc 63) = take_bit (Suc 63) (uint n - 2 ^ 63)"
    unfolding take_bit_eq_mod by (rule mod_add_self2)
  also have "\<dots> = uint n - 2 ^ 63" using u by (intro take_bit_int_eq_self) simp_all
  finally have "sint n = uint n - 2 ^ 64" by simp
  then have "\<bar>sint n\<bar> = int (2 ^ 64 - unat n)" using u unat_lt_2p [of n] by (simp add: of_nat_diff)
  then have "nat \<bar>sint n\<bar> = 2 ^ 64 - unat n" by (simp only: nat_int)
  moreover have "2 ^ 64 - unat n \<le> unat n" using assms by simp
  ultimately show ?thesis
    using length_dec_rev_mono by (simp add: uint_text_def low_digits_take)
qed

text \<open>
  C15: below \<open>2 ^ 63\<close>, \<open>AppendUIntToString\<close> appends the decimal digits of the number in the encoding
  of the string when they fit, and nothing otherwise; on an empty string \<open>StringToUInt\<close> then reads
  the number back.
\<close>

theorem AppendUIntToString_round_trip:
  assumes "has_text m dst cs" "buf_ok m dst" "region sp 80 \<inter> dom m = {}" "unat n < 2 ^ 63"
  shows "if length (enc_text (Enc dst) (decimal (unat n))) \<le> space dst
    then \<exists>m' dst'. AppendUIntToString m sp n dst = Some (True, m', dst')
      \<and> has_text m' dst' (cs @ decimal (unat n)) \<and> buf_ok m' dst'
      \<and> (\<forall>q. q \<notin> buf_region dst \<longrightarrow> m' q = m q)
      \<and> (cs = [] \<longrightarrow> StringToUInt m' dst' = Some n)
    else AppendUIntToString m sp n dst = Some (False, m, dst)"
proof (cases "length (enc_text (Enc dst) (decimal (unat n))) \<le> space dst")
  case True
  from append_text [OF assms(1,2) this decimal_ok] obtain m' d' where
    "AppendUIntToString m sp n dst = Some (True, m', d')" and t: "has_text m' d' (cs @ decimal (unat n))"
    "buf_ok m' d'" "\<forall>q. q \<notin> buf_region dst \<longrightarrow> m' q = m q"
    using AppendUIntToString_eq [OF assms(2,3)] uint_text_decimal [OF assms(4)] by auto
  moreover have "cs = [] \<longrightarrow> StringToUInt m' d' = Some n"
    using t(1) StringToUInt_decimal [of m' d' "unat n"] by auto
  ultimately show ?thesis using True by auto
next
  case False
  then show ?thesis
    using append_uint.failure [OF assms(2), of sp "Enc dst" n] assms(3) uint_text_decimal [OF assms(4)]
    by simp
qed

lemma ex_out_text: "has_text ex_euro (ex_out 0) []"
  by (simp add: has_text_def holds_def ex_out_def)

lemma ex_stack: "region (0x80 :: ptr) 80 \<inter> dom ex_euro = {}"
  by (simp add: ex_euro_def)

lemma ex_text_length:
  assumes "\<forall>c\<in>set cs. c < 0x80"
  shows "length (enc_text (Enc (ex_out 0)) cs) = 2 * length cs" "space (ex_out 0) = 8"
proof -
  have "Enc (ex_out 0) = EC_UTF16BE" by (simp add: ex_out_def)
  then show "length (enc_text (Enc (ex_out 0)) cs) = 2 * length cs"
    using assms by (induction cs) (simp_all add: char_bytes_cell fixed_size_def encoding_order)
  show "space (ex_out 0) = 8" by (simp add: ex_out_def space_def)
qed

theorem AppendUIntToString_round_trip_witness:
  "\<exists>m' dst'. AppendUIntToString ex_euro 0x80 2025 (ex_out 0) = Some (True, m', dst')
    \<and> has_text m' dst' [0x32, 0x30, 0x32, 0x35] \<and> StringToUInt m' dst' = Some 2025"
proof -
  have "decimal 2025 = [0x32, 0x30, 0x32, 0x35]"
    by (simp add: decimal_big decimal_small digit_char_def)
  then show ?thesis
    using AppendUIntToString_round_trip [OF ex_out_text ex_out_ok ex_stack, of 2025]
      ex_text_length [of "decimal 2025"]
    by auto
qed

text \<open>
  From \<open>2 ^ 63\<close> on, the number of digits is that of the negative number with the same bits, so
  \<open>AppendUIntToString\<close> appends only that many of the low digits: the largest \<open>usz\<close> appends a 5.
\<close>

theorem AppendUIntToString_truncates:
  assumes "buf_ok m dst" "region sp 80 \<inter> dom m = {}" "2 ^ 63 \<le> unat n"
  shows "AppendUIntToString m sp n dst = Some (append_result m dst (enc_text (Enc dst)
    (map digit_char (rev (take (length (dec_rev (2 ^ 64 - unat n))) (dec_rev (unat n)))))))"
  using AppendUIntToString_eq [OF assms(1,2)] uint_text_high [OF assms(3)] by simp

theorem AppendUIntToString_truncates_witness:
  "AppendUIntToString ex_euro 0x80 0xFFFFFFFFFFFFFFFF (ex_out 0)
    = Some (append_result ex_euro (ex_out 0) [0x00, 0x35])"
proof -
  have "dec_rev (18446744073709551616 - 18446744073709551615) = [1]"
    "dec_rev 18446744073709551615 = 5 # dec_rev 1844674407370955161"
    by (simp_all add: dec_rev_small dec_rev_big)
  moreover have "enc_text (Enc (ex_out 0)) [digit_char 5] = [0x00, 0x35]"
    by (simp add: ex_out_def digit_char_def char_bytes_def code_bytes_def utf16_units_def unit_bytes_def)
  ultimately show ?thesis
    using AppendUIntToString_truncates [OF ex_out_ok ex_stack, of 0 "0xFFFFFFFFFFFFFFFF"] by simp
qed

text \<open>
  C16: for every \<open>isz\<close> but the smallest, whose \<open>Abs\<close> is undefined, \<open>AppendIntToString\<close> appends the sign and
  the decimal digits when they fit, and nothing otherwise. On a string that was empty \<open>StringToInt\<close>
  then reads the number back if its absolute value is below \<open>2 ^ 63 - 48\<close>; for the 48 values beyond,
  on each side, it overflows and has no defined result.
\<close>

theorem AppendIntToString_round_trip:
  assumes "has_text m dst cs" "buf_ok m dst" "region sp 80 \<inter> dom m = {}" "\<bar>i\<bar> < 2 ^ 63"
  shows "if length (enc_text (Enc dst) (int_text i)) \<le> space dst
    then \<exists>m' dst'. AppendIntToString m sp i dst = Some (True, m', dst')
      \<and> has_text m' dst' (cs @ int_text i) \<and> buf_ok m' dst'
      \<and> (\<forall>q. q \<notin> buf_region dst \<longrightarrow> m' q = m q)
      \<and> (cs = [] \<longrightarrow> StringToInt m' dst' = (if \<bar>i\<bar> + 48 < 2 ^ 63 then Some i else None))
    else AppendIntToString m sp i dst = Some (False, m, dst)"
proof (cases "length (enc_text (Enc dst) (int_text i)) \<le> space dst")
  case True
  from append_text [OF assms(1,2) this int_text_ok] obtain m' d' where
    "AppendIntToString m sp i dst = Some (True, m', d')" and t: "has_text m' d' (cs @ int_text i)"
    "buf_ok m' d'" "\<forall>q. q \<notin> buf_region dst \<longrightarrow> m' q = m q"
    using AppendIntToString_eq [OF assms(2,3), of i] assms(4) by auto
  moreover have "cs = [] \<longrightarrow> StringToInt m' d' = (if \<bar>i\<bar> + 48 < 2 ^ 63 then Some i else None)"
    using t(1) StringToInt_text [of m' d' i] StringToInt_text_overflow [of m' d' i] assms(4) by auto
  ultimately show ?thesis using True by auto
next
  case False
  then show ?thesis using append_int.failure [OF assms(2), of sp "Enc dst" i] assms(3,4) by simp
qed

theorem AppendIntToString_round_trip_witness:
  "\<exists>m' dst'. AppendIntToString ex_euro 0x80 (- 42) (ex_out 0) = Some (True, m', dst')
    \<and> has_text m' dst' [0x2D, 0x34, 0x32] \<and> StringToInt m' dst' = Some (- 42)"
proof -
  have "int_text (- 42) = [0x2D, 0x34, 0x32]"
    by (simp add: int_text_decimal decimal_big decimal_small digit_char_def)
  then show ?thesis
    using AppendIntToString_round_trip [OF ex_out_text ex_out_ok ex_stack, of "- 42"]
      ex_text_length [of "int_text (- 42)"]
    by auto
qed

text \<open>
  \<open>StringToInt\<close> adds the character before it subtracts the digit 0, so the text of any number
  within 48 of the bounds of \<open>isz\<close> overflows a signed integer: the last 48 values have no defined
  result.
\<close>

theorem StringToInt_overflows:
  assumes "has_text m A (int_text i)" "2 ^ 63 \<le> \<bar>i\<bar> + 48" "\<bar>i\<bar> < 2 ^ 63"
  shows "StringToInt m A = None"
  using assms by (rule StringToInt_text_overflow)

definition ex_max :: mem where
  "ex_max = upd_bytes Map.empty 0x10 (enc_text EC_ASCII (int_text ISZ_MAX))"

definition ex_max_string :: tb_string where
  "ex_max_string = String 0x10 19 19 EC_ASCII"

lemma ex_max_text: "has_text ex_max ex_max_string (int_text ISZ_MAX)"
proof -
  have "length (enc_text EC_ASCII (int_text ISZ_MAX)) = 19"
    by (simp add: int_text_decimal ISZ_MAX_def decimal_big decimal_small digit_char_def char_bytes_def
        code_bytes_def)
  then show ?thesis
    using int_text_ok [of ISZ_MAX EC_ASCII]
    by (simp add: has_text_def holds_def ex_max_def ex_max_string_def bytes_at_upd_same)
qed

theorem StringToInt_overflows_witness: "StringToInt ex_max ex_max_string = None"
  using StringToInt_overflows [OF ex_max_text] by (simp add: ISZ_MAX_def)

definition hex_value :: "uchar \<Rightarrow> nat" where
  "hex_value c = (if CharIsDigit c then unat c - 0x30
     else if unat c < 0x61 then unat c - 0x41 + 10 else unat c - 0x61 + 10)"

text \<open>
  \<open>StringToHex\<close> reads digits and the capitals A to F as a number in base sixteen, modulo
  \<open>2 ^ 64\<close>; a small letter, which \<open>CharIsHexDigit\<close> admits, counts 32 too much.
\<close>

theorem StringToHex_correct:
  assumes "has_text m A cs" "\<forall>c\<in>set cs. CharIsHexDigit c"
  shows "StringToHex m A = Some (of_nat (foldl (\<lambda>v c. v * 16
    + (hex_value c + (if c < 0x61 then 0 else 32))) 0 cs))"
proof -
  have "nibble_weight c = hex_value c + (if c < 0x61 then 0 else 32)" if "c \<in> set cs" for c
    using assms(2) that
    by (auto simp: nibble_weight_def hex_value_def CharIsHexDigit_def CharIsDigit_def
        word_le_nat_alt word_less_nat_alt)
  then have "foldl (\<lambda>v c. v * 16 + nibble_weight c) 0 cs
      = foldl (\<lambda>v c. v * 16 + (hex_value c + (if c < 0x61 then 0 else 32))) 0 cs"
    by (intro foldl_cong) simp_all
  then show ?thesis using StringToHex_text [OF assms] by simp
qed

definition ex_hex :: mem where
  "ex_hex = [0x10 \<mapsto> 0x31, 0x11 \<mapsto> 0x46, 0x12 \<mapsto> 0x66]"

theorem StringToHex_correct_witness:
  "StringToHex ex_hex (String 0x10 2 2 EC_ASCII) = Some 0x1F
    \<and> StringToHex ex_hex (String 0x12 1 1 EC_UTF8) = Some 47"
proof -
  have a: "char_bytes EC_ASCII 0x31 = [0x31]" "char_bytes EC_ASCII 0x46 = [0x46]"
    "char_bytes EC_UTF8 0x66 = [0x66]"
    by (simp_all add: char_bytes_def code_bytes_def utf8_bytes_def)
  have "has_text ex_hex (String 0x10 2 2 EC_ASCII) [0x31, 0x46]"
    "has_text ex_hex (String 0x12 1 1 EC_UTF8) [0x66]"
    using a by (simp_all add: has_text_def holds_def enc_ok_ascii ex_hex_def)
  from this [THEN StringToHex_correct] show ?thesis
    by (simp add: CharIsHexDigit_def CharIsDigit_def hex_value_def)
qed

end
