(* ===== verification/RingBuffer.thy ===== *)
theory RingBuffer
  imports Atomic
begin

text \<open>
  The bounded queue of \<open>src/tinybase-queues.c\<close>, lines 56 to 97: a ring of pointers between two
  cursors, shared by threads. \<open>MPMCRingBufferPush\<close> and \<open>MPMCRingBufferPop\<close> are the operations run
  alone; \<open>ring_step\<close> splits them at their accesses to shared memory, and \<open>ring_next\<close> interleaves
  the threads (sequentially consistent: every atomic operation of the code acquires and releases).
  The queue structure lies in memory: \<open>Ring\<close> at offset 0, \<open>MaxCur\<close> at 8, \<open>ReadCur\<close> at 16 and
  \<open>WriteCur\<close> at 24.
\<close>

unbundle bit_operations_syntax

section \<open>The operations\<close>

record mpmc_ringbuf =
  Ring :: ptr
  MaxCur :: usz
  ReadCur :: usz
  WriteCur :: usz

definition InitMPMCRingBuffer :: "ptr \<Rightarrow> usz \<Rightarrow> mpmc_ringbuf option" where
  "InitMPMCRingBuffer ring ringSize =
     (if ring \<noteq> 0
      then do {
        ringSize \<leftarrow> RoundDownToPow2 (ucast ringSize);
        Some \<lparr>Ring = ring, MaxCur = ringSize div 8 - 1, ReadCur = 0, WriteCur = 0\<rparr>
      }
      else Some \<lparr>Ring = 0, MaxCur = 0, ReadCur = 0, WriteCur = 0\<rparr>)"

text \<open>\<open>&Queue->Ring[Queue->ReadCur & Queue->MaxCur]\<close>, and the same for \<open>WriteCur\<close>.\<close>

definition slot_addr :: "mem \<Rightarrow> ptr \<Rightarrow> usz \<Rightarrow> ptr option" where
  "slot_addr m queue cursor =
     do {
       ring \<leftarrow> load_word m queue;
       cur \<leftarrow> load_word m (queue + cursor);
       maxCur \<leftarrow> load_word m (queue + 8);
       Some (ring + 8 * (cur AND maxCur))
     }"

definition MPMCRingBufferPush :: "compiler \<Rightarrow> mem \<Rightarrow> ptr \<Rightarrow> ptr \<Rightarrow> (bool \<times> mem) option" where
  "MPMCRingBufferPush cc m queue item =
     do {
       slot \<leftarrow> slot_addr m queue 24;
       (ok, m) \<leftarrow> AtomicCompareExchangePtr cc m slot 0 item;
       if ok
       then do { (_, m) \<leftarrow> AtomicAddFetchIsz cc m (queue + 24) 1; Some (True, m) }
       else Some (False, m)
     }"

definition MPMCRingBufferPop :: "compiler \<Rightarrow> mem \<Rightarrow> ptr \<Rightarrow> (ptr \<times> mem) option" where
  "MPMCRingBufferPop cc m queue =
     do {
       slot \<leftarrow> slot_addr m queue 16;
       item \<leftarrow> load_word m slot;
       if item \<noteq> 0
       then do {
         slot \<leftarrow> slot_addr m queue 16;
         (ok, m) \<leftarrow> AtomicCompareExchangePtr cc m slot item 0;
         if ok
         then do { (_, m) \<leftarrow> AtomicAddFetchIsz cc m (queue + 16) 1; Some (item, m) }
         else Some (0, m)
       }
       else Some (0, m)
     }"

section \<open>Threads\<close>

text \<open>
  Where a thread is in a call: at its start, with the address of the slot computed, after the
  compare-exchange, and returned. \<open>Ring\<close> and \<open>MaxCur\<close> never change, so the address is computed
  in one step: the read of the cursor.
\<close>

datatype ring_pc =
    PushCall ptr | PushSlot ptr ptr | PushCount | PushDone bool
  | PopCall | PopSlot ptr | PopItem ptr | PopTake ptr ptr | PopCount ptr | PopDone ptr

fun ring_step :: "compiler \<Rightarrow> ptr \<Rightarrow> mem \<Rightarrow> ring_pc \<Rightarrow> (mem \<times> ring_pc) option" where
  "ring_step cc queue m (PushCall item) =
     do { slot \<leftarrow> slot_addr m queue 24; Some (m, PushSlot slot item) }"
| "ring_step cc queue m (PushSlot slot item) =
     do {
       (ok, m) \<leftarrow> AtomicCompareExchangePtr cc m slot 0 item;
       Some (m, if ok then PushCount else PushDone False)
     }"
| "ring_step cc queue m PushCount =
     do { (_, m) \<leftarrow> AtomicAddFetchIsz cc m (queue + 24) 1; Some (m, PushDone True) }"
| "ring_step cc queue m (PushDone r) = None"
| "ring_step cc queue m PopCall = do { slot \<leftarrow> slot_addr m queue 16; Some (m, PopSlot slot) }"
| "ring_step cc queue m (PopSlot slot) =
     do { item \<leftarrow> load_word m slot; Some (m, if item \<noteq> 0 then PopItem item else PopDone 0) }"
| "ring_step cc queue m (PopItem item) =
     do { slot \<leftarrow> slot_addr m queue 16; Some (m, PopTake slot item) }"
| "ring_step cc queue m (PopTake slot item) =
     do {
       (ok, m) \<leftarrow> AtomicCompareExchangePtr cc m slot item 0;
       Some (m, if ok then PopCount item else PopDone 0)
     }"
| "ring_step cc queue m (PopCount item) =
     do { (_, m) \<leftarrow> AtomicAddFetchIsz cc m (queue + 16) 1; Some (m, PopDone item) }"
| "ring_step cc queue m (PopDone r) = None"

fun returned :: "ring_pc \<Rightarrow> bool" where
  "returned (PushDone r) = True"
| "returned (PopDone r) = True"
| "returned _ = False"

text \<open>A call run alone, for at most \<open>n\<close> steps.\<close>

fun ring_alone :: "nat \<Rightarrow> compiler \<Rightarrow> ptr \<Rightarrow> mem \<Rightarrow> ring_pc \<Rightarrow> (mem \<times> ring_pc) option" where
  "ring_alone 0 cc queue m pc = Some (m, pc)"
| "ring_alone (Suc n) cc queue m pc =
     (if returned pc then Some (m, pc)
      else do { (m, pc) \<leftarrow> ring_step cc queue m pc; ring_alone n cc queue m pc })"

lemma Push_alone:
  "ring_alone 3 cc queue m (PushCall item)
    = map_option (\<lambda>(r, m'). (m', PushDone r)) (MPMCRingBufferPush cc m queue item)"
  by (auto simp: numeral_3_eq_3 MPMCRingBufferPush_def split: option.splits Option.bind_splits prod.splits)

lemma Pop_alone:
  "ring_alone 5 cc queue m PopCall
    = map_option (\<lambda>(r, m'). (m', PopDone r)) (MPMCRingBufferPop cc m queue)"
  by (auto simp: eval_nat_numeral MPMCRingBufferPop_def split: option.splits Option.bind_splits prod.splits)

text \<open>
  The system: the memory, the program counter of every thread, and what has gone in and out, in
  the order of the compare-exchanges. \<open>producer\<close> and \<open>consumer\<close> say who may call what.
\<close>

record ring_sys =
  smem :: mem
  pcs :: "nat \<Rightarrow> ring_pc"
  pushed :: "ptr list"
  popped :: "ptr list"

fun goes_in :: "ring_pc \<Rightarrow> ring_pc \<Rightarrow> ptr list" where
  "goes_in (PushSlot slot item) PushCount = [item]"
| "goes_in _ _ = []"

fun goes_out :: "ring_pc \<Rightarrow> ring_pc \<Rightarrow> ptr list" where
  "goes_out (PopTake slot item) (PopCount item') = [item]"
| "goes_out _ _ = []"

inductive ring_next ::
  "compiler \<Rightarrow> ptr \<Rightarrow> nat set \<Rightarrow> nat set \<Rightarrow> ring_sys \<Rightarrow> ring_sys \<Rightarrow> bool"
  for cc queue producers consumers where
  call_push: "t \<in> producers \<Longrightarrow> returned (pcs s t) \<Longrightarrow> item \<noteq> 0 \<Longrightarrow>
    ring_next cc queue producers consumers s (s\<lparr>pcs := (pcs s)(t := PushCall item)\<rparr>)"
| call_pop: "t \<in> consumers \<Longrightarrow> returned (pcs s t) \<Longrightarrow>
    ring_next cc queue producers consumers s (s\<lparr>pcs := (pcs s)(t := PopCall)\<rparr>)"
| run: "ring_step cc queue (smem s) (pcs s t) = Some (m', pc') \<Longrightarrow>
    ring_next cc queue producers consumers s
      \<lparr>smem = m', pcs = (pcs s)(t := pc'), pushed = pushed s @ goes_in (pcs s t) pc',
       popped = popped s @ goes_out (pcs s t) pc'\<rparr>"

inductive_cases ring_nextE: "ring_next cc queue producers consumers s s'"

definition ring_start :: "mem \<Rightarrow> ring_sys" where
  "ring_start m = \<lparr>smem = m, pcs = (\<lambda>_. PopDone 0), pushed = [], popped = []\<rparr>"

definition ring_reach :: "ptr \<Rightarrow> nat set \<Rightarrow> nat set \<Rightarrow> mem \<Rightarrow> ring_sys \<Rightarrow> bool" where
  "ring_reach queue producers consumers m s \<longleftrightarrow>
     (ring_next TT_GCC queue producers consumers)\<^sup>*\<^sup>* (ring_start m) s"

section \<open>The ring in memory\<close>

text \<open>
  \<open>ring_at h queue ring n R W f\<close>: the cells of \<open>h\<close> hold the structure, with cursors \<open>R\<close> and \<open>W\<close>, and
  \<open>n\<close> slots whose values are given by \<open>f\<close>. \<open>ring_place\<close> says that they lie apart.
\<close>

definition slot_of :: "ptr \<Rightarrow> nat \<Rightarrow> ptr" where
  "slot_of ring i = ring + 8 * of_nat i"

definition ring_place :: "ptr \<Rightarrow> ptr \<Rightarrow> nat \<Rightarrow> bool" where
  "ring_place queue ring n \<longleftrightarrow> (\<exists>k<60. n = 2 ^ k)
     \<and> (\<forall>i<n. slot_of ring i \<notin> {queue, queue + 8, queue + 16, queue + 24})"

definition ring_at :: "(ptr \<Rightarrow> u64 option) \<Rightarrow> ptr \<Rightarrow> ptr \<Rightarrow> nat \<Rightarrow> usz \<Rightarrow> usz \<Rightarrow> (nat \<Rightarrow> ptr) \<Rightarrow> bool" where
  "ring_at h queue ring n R W f \<longleftrightarrow>
     h queue = Some ring \<and> h (queue + 8) = Some (of_nat n - 1)
     \<and> h (queue + 16) = Some R \<and> h (queue + 24) = Some W
     \<and> (\<forall>i<n. h (slot_of ring i) = Some (f i))"

lemma slot_of_inj:
  assumes "i < n" "j < n" "n \<le> 2 ^ 60" "slot_of ring i = slot_of ring j"
  shows "i = j"
proof -
  have "(of_nat (8 * i) :: ptr) = of_nat (8 * j)" using assms(4) by (simp add: slot_of_def)
  moreover have "8 * i < 2 ^ 64" "8 * j < 2 ^ 64" using assms(1-3) by simp_all
  ultimately have "8 * i = 8 * j" using unat_offset by metis
  then show ?thesis by simp
qed

lemma queue_offsets:
  "queue \<noteq> queue + 8" "queue \<noteq> queue + 16" "queue \<noteq> queue + 24" "queue + 8 \<noteq> queue + 16"
  "queue + 8 \<noteq> queue + 24" "queue + 16 \<noteq> queue + 24" for queue :: ptr
  by simp_all

lemma ring_place_n: "ring_place queue ring n \<Longrightarrow> 0 < n \<and> n \<le> 2 ^ 60"
proof -
  assume "ring_place queue ring n"
  then obtain k where k: "k < 60" "n = 2 ^ k" by (auto simp: ring_place_def)
  have "(2 :: nat) ^ k \<le> 2 ^ 60" by (rule power_increasing) (use k in simp_all)
  with k show ?thesis by simp
qed

lemma ring_at_slot:
  assumes "ring_place queue ring n" "ring_at h queue ring n R W f" "i < n"
  shows "ring_at (h(slot_of ring i \<mapsto> v)) queue ring n R W (f(i := v))"
  using assms slot_of_inj [of _ n i ring] ring_place_n [OF assms(1)]
  by (auto simp: ring_at_def ring_place_def)

lemma ring_at_cursor:
  assumes "ring_place queue ring n" "ring_at h queue ring n R W f"
  shows "ring_at (h(queue + 16 \<mapsto> v)) queue ring n v W f"
    and "ring_at (h(queue + 24 \<mapsto> v)) queue ring n R v f"
  using assms queue_offsets [of queue] by (auto simp: ring_at_def ring_place_def)

lemma cursor_mask:
  assumes "k < 60"
  shows "(of_nat j :: usz) AND (of_nat (2 ^ k) - 1) = of_nat (j mod 2 ^ k)"
proof -
  have "(of_nat j :: usz) AND (of_nat (2 ^ k) - 1) = take_bit k (of_nat j)"
    by (simp add: take_bit_eq_mask mask_eq_exp_minus_1)
  also have "\<dots> = of_nat (take_bit k j)" by (rule take_bit_of_nat)
  finally show ?thesis by (simp only: take_bit_eq_mod)
qed

lemma slot_addr_eq:
  assumes "ring_place queue ring n" "ring_at (cell m) queue ring n R W f"
  shows "W = of_nat j \<Longrightarrow> slot_addr m queue 24 = Some (slot_of ring (j mod n))"
    and "R = of_nat j \<Longrightarrow> slot_addr m queue 16 = Some (slot_of ring (j mod n))"
  using assms cursor_mask cell_load [of m]
  by (auto simp: ring_at_def ring_place_def slot_addr_def slot_of_def)

section \<open>The content\<close>

text \<open>
  \<open>fits n xs r f\<close>: of the sequence \<open>xs\<close> of all items ever put in, those from index \<open>r\<close> on lie in the
  slots, each at its index modulo \<open>n\<close>, and the other slots are empty.
\<close>

definition fits :: "nat \<Rightarrow> ptr list \<Rightarrow> nat \<Rightarrow> (nat \<Rightarrow> ptr) \<Rightarrow> bool" where
  "fits n xs r f \<longleftrightarrow> r \<le> length xs \<and> length xs \<le> r + n
     \<and> (\<forall>j. r \<le> j \<and> j < length xs \<longrightarrow> f (j mod n) = xs ! j)
     \<and> (\<forall>j. length xs \<le> j \<and> j < r + n \<longrightarrow> f (j mod n) = 0)"

lemma mod_differ:
  fixes i j n :: nat
  assumes "i < j" "j < i + n"
  shows "i mod n \<noteq> j mod n"
proof
  assume "i mod n = j mod n"
  then have "(j - i) mod n = 0" using assms(1) by (metis mod_eq_dvd_iff_nat dvd_eq_mod_eq_0 less_imp_le)
  then have "n dvd j - i" by auto
  moreover have "0 < j - i" "j - i < n" using assms by simp_all
  ultimately show False using nat_dvd_not_less by blast
qed

lemma fits_start: "0 < n \<Longrightarrow> fits n [] 0 (\<lambda>_. 0)"
  by (simp add: fits_def)

lemma fits_in:
  assumes "fits n xs r f" "f (length xs mod n) = 0" "\<forall>x\<in>set xs. x \<noteq> 0" "0 < n"
  shows "length xs < r + n" and "fits n (xs @ [x]) r (f(length xs mod n := x))"
proof -
  show lt: "length xs < r + n"
  proof (rule ccontr)
    assume "\<not> length xs < r + n"
    with assms(1) have e: "length xs = r + n" by (simp add: fits_def)
    with assms(1,4) have "f (r mod n) = xs ! r" by (simp add: fits_def)
    moreover have "xs ! r \<noteq> 0" using assms(3,4) e by simp
    ultimately show False using assms(2) e by simp
  qed
  have d: "j mod n \<noteq> length xs mod n" if "r \<le> j" "j < r + n" "j \<noteq> length xs" for j
  proof (cases "j < length xs")
    case True
    then show ?thesis using mod_differ [of j "length xs" n] that(1) lt by simp
  next
    case False
    then show ?thesis using mod_differ [of "length xs" j n] that assms(1) by (simp add: fits_def)
  qed
  have "(f(length xs mod n := x)) (j mod n) = (xs @ [x]) ! j" if "r \<le> j" "j < Suc (length xs)" for j
    using d [of j] that assms(1) lt by (cases "j = length xs") (auto simp: fits_def nth_append)
  moreover have "(f(length xs mod n := x)) (j mod n) = 0" if "Suc (length xs) \<le> j" "j < r + n" for j
    using d [of j] that assms(1) by (simp add: fits_def)
  ultimately show "fits n (xs @ [x]) r (f(length xs mod n := x))"
    using assms(1) lt by (simp add: fits_def)
qed

lemma fits_out:
  assumes "fits n xs r f" "f (r mod n) \<noteq> 0" "0 < n"
  shows "r < length xs" and "f (r mod n) = xs ! r" and "fits n xs (Suc r) (f(r mod n := 0))"
proof -
  show lt: "r < length xs" using assms by (rule_tac ccontr) (auto simp: fits_def)
  with assms(1) show "f (r mod n) = xs ! r" by (simp add: fits_def)
  have d: "j mod n \<noteq> r mod n" if "r < j" "j < r + n" for j
    using mod_differ [of r j n] that by simp
  have "(f(r mod n := 0)) (j mod n) = xs ! j" if "Suc r \<le> j" "j < length xs" for j
    using d [of j] that assms(1) by (simp add: fits_def)
  moreover have "(f(r mod n := 0)) (j mod n) = 0" if "length xs \<le> j" "j < Suc r + n" for j
    using d [of j] that assms(1) lt by (cases "j = r + n") (simp_all add: fits_def)
  ultimately show "fits n xs (Suc r) (f(r mod n := 0))"
    using assms(1) lt by (simp add: fits_def)
qed

lemma fits_empty: "fits n xs r f \<Longrightarrow> \<forall>x\<in>set xs. x \<noteq> 0 \<Longrightarrow> 0 < n \<Longrightarrow> f (r mod n) = 0 \<longleftrightarrow> r = length xs"
  by (cases "r < length xs") (auto simp: fits_def)

lemma fits_full:
  assumes "fits n xs r f" "\<forall>x\<in>set xs. x \<noteq> 0" "0 < n"
  shows "f (length xs mod n) \<noteq> 0 \<longleftrightarrow> length xs = r + n"
proof
  assume "f (length xs mod n) \<noteq> 0"
  with assms(1) show "length xs = r + n" by (auto simp: fits_def)
next
  assume e: "length xs = r + n"
  then have "f (r mod n) = xs ! r" using assms(1,3) by (simp add: fits_def)
  with assms(2,3) e show "f (length xs mod n) \<noteq> 0" by simp
qed

section \<open>One producer and one consumer\<close>

text \<open>
  What is known of the cursor and of the local variables of each of the two at every point of its
  call: \<open>W\<close> lags behind the number of items pushed exactly between the compare-exchange and the
  addition, and \<open>R\<close> likewise.
\<close>

fun producer_at :: "ptr \<Rightarrow> nat \<Rightarrow> ptr list \<Rightarrow> usz \<Rightarrow> ring_pc \<Rightarrow> bool" where
  "producer_at ring n xs W (PushCall item) \<longleftrightarrow> W = of_nat (length xs) \<and> item \<noteq> 0"
| "producer_at ring n xs W (PushSlot slot item) \<longleftrightarrow>
     W = of_nat (length xs) \<and> item \<noteq> 0 \<and> slot = slot_of ring (length xs mod n)"
| "producer_at ring n xs W PushCount \<longleftrightarrow> W + 1 = of_nat (length xs)"
| "producer_at ring n xs W (PushDone r) \<longleftrightarrow> W = of_nat (length xs)"
| "producer_at ring n xs W (PopDone r) \<longleftrightarrow> W = of_nat (length xs)"
| "producer_at ring n xs W _ \<longleftrightarrow> False"

fun consumer_at :: "ptr \<Rightarrow> nat \<Rightarrow> ptr list \<Rightarrow> nat \<Rightarrow> usz \<Rightarrow> ring_pc \<Rightarrow> bool" where
  "consumer_at ring n xs r R PopCall \<longleftrightarrow> R = of_nat r"
| "consumer_at ring n xs r R (PopSlot slot) \<longleftrightarrow> R = of_nat r \<and> slot = slot_of ring (r mod n)"
| "consumer_at ring n xs r R (PopItem item) \<longleftrightarrow> R = of_nat r \<and> r < length xs \<and> item = xs ! r"
| "consumer_at ring n xs r R (PopTake slot item) \<longleftrightarrow>
     R = of_nat r \<and> r < length xs \<and> item = xs ! r \<and> slot = slot_of ring (r mod n)"
| "consumer_at ring n xs r R (PopCount item) \<longleftrightarrow> R + 1 = of_nat r \<and> item \<noteq> 0"
| "consumer_at ring n xs r R (PushDone b) \<longleftrightarrow> R = of_nat r"
| "consumer_at ring n xs r R (PopDone b) \<longleftrightarrow> R = of_nat r"
| "consumer_at ring n xs r R _ \<longleftrightarrow> False"

lemma consumer_at_append: "consumer_at ring n xs r R pc \<Longrightarrow> consumer_at ring n (xs @ ys) r R pc"
  by (cases pc) (auto simp: nth_append)

lemma producer_step:
  assumes "ring_place queue ring n" "ring_at (cell m) queue ring n R W f" "fits n xs r f"
    and "producer_at ring n xs W pc" "\<forall>x\<in>set xs. x \<noteq> 0" "\<not> returned pc"
  shows "\<exists>m' pc' W' f'. ring_step TT_GCC queue m pc = Some (m', pc')
    \<and> ring_at (cell m') queue ring n R W' f' \<and> fits n (xs @ goes_in pc pc') r f'
    \<and> producer_at ring n (xs @ goes_in pc pc') W' pc' \<and> (\<forall>x\<in>set (xs @ goes_in pc pc'). x \<noteq> 0)
    \<and> goes_out pc pc' = [] \<and> (pc' = PushDone False \<longrightarrow> length xs = r + n)"
proof (cases pc)
  case (PushCall item)
  then show ?thesis
    using assms slot_addr_eq(1) [OF assms(1,2)] by auto
next
  case (PushSlot slot item)
  note n = ring_place_n [OF assms(1)]
  let ?i = "length xs mod n"
  have slot: "slot = slot_of ring ?i" "item \<noteq> 0" "W = of_nat (length xs)"
    using assms(4) PushSlot by simp_all
  have i: "?i < n" using n by simp
  have c: "cell m slot = Some (f ?i)" using assms(2) i slot by (simp add: ring_at_def)
  from cas_cell [OF this, of 0 item] obtain m' where
    m': "AtomicCompareExchangePtr TT_GCC m slot 0 item = Some (f ?i = 0, m')"
    "cell m' = (if f ?i = 0 then (cell m)(slot \<mapsto> item) else cell m)" by blast
  show ?thesis
  proof (cases "f ?i = 0")
    case True
    then have "ring_at (cell m') queue ring n R W (f(?i := item))"
      using ring_at_slot [OF assms(1,2) i, of item] m'(2) slot by simp
    moreover have "fits n (xs @ [item]) r (f(?i := item))"
      using fits_in(2) [OF assms(3) True assms(5)] n by simp
    ultimately show ?thesis
      using PushSlot m'(1) True slot assms(5)
      by (intro exI [of _ m'] exI [of _ PushCount] exI [of _ W] exI [of _ "f(?i := item)"]) simp
  next
    case False
    then have "length xs = r + n" using fits_full [OF assms(3,5)] n by simp
    then show ?thesis
      using PushSlot m' False slot assms
      by (intro exI [of _ m'] exI [of _ "PushDone False"] exI [of _ W] exI [of _ f]) simp
  qed
next
  case PushCount
  have c: "cell m (queue + 24) = Some W" using assms(2) by (simp add: ring_at_def)
  from add_cell [OF this, of 1] obtain m' where
    "AtomicAddFetchIsz TT_GCC m (queue + 24) 1 = Some (W + 1, m')"
    "cell m' = (cell m)(queue + 24 \<mapsto> W + 1)" by blast
  then show ?thesis
    using PushCount assms ring_at_cursor(2) [OF assms(1,2), of "W + 1"]
    by (intro exI [of _ m'] exI [of _ "PushDone True"] exI [of _ "W + 1"] exI [of _ f]) simp
qed (use assms(4,6) in simp_all)

lemma consumer_step:
  assumes "ring_place queue ring n" "ring_at (cell m) queue ring n R W f" "fits n xs r f"
    and "consumer_at ring n xs r R pc" "\<forall>x\<in>set xs. x \<noteq> 0" "\<not> returned pc"
  shows "\<exists>m' pc' R' f' r'. ring_step TT_GCC queue m pc = Some (m', pc')
    \<and> ring_at (cell m') queue ring n R' W f' \<and> fits n xs r' f' \<and> consumer_at ring n xs r' R' pc'
    \<and> goes_in pc pc' = [] \<and> goes_out pc pc' @ drop r' xs = drop r xs \<and> r' = r + length (goes_out pc pc')
    \<and> (pc' = PopDone 0 \<longrightarrow> r = length xs)"
proof -
  have n: "0 < n" using ring_place_n [OF assms(1)] by simp
  have i: "r mod n < n" using n by simp
  let ?i = "r mod n"
  have slot: "cell m (slot_of ring ?i) = Some (f ?i)" using assms(2) i by (simp add: ring_at_def)
  show ?thesis
  proof (cases pc)
    case PopCall
    then show ?thesis using assms slot_addr_eq(2) [OF assms(1,2)] by auto
  next
    case (PopSlot slot)
    then have "load_word m slot = Some (f ?i)" using assms(4) cell_load [OF slot] by simp
    moreover have "f ?i \<noteq> 0 \<Longrightarrow> r < length xs \<and> f ?i = xs ! r" using fits_out(1,2) [OF assms(3)] n by blast
    ultimately show ?thesis
      using PopSlot assms fits_empty [OF assms(3,5) n]
      by (intro exI [of _ m] exI [of _ "if f ?i \<noteq> 0 then PopItem (f ?i) else PopDone 0"] exI [of _ R]
          exI [of _ f] exI [of _ r]) simp
  next
    case (PopItem item)
    then show ?thesis using assms slot_addr_eq(2) [OF assms(1,2)] by auto
  next
    case (PopTake s item)
    then have t: "s = slot_of ring ?i" "item = xs ! r" "r < length xs" "R = of_nat r"
      using assms(4) by simp_all
    then have fi: "f ?i = item" "item \<noteq> 0" using assms(3,5) by (auto simp: fits_def)
    from cas_cell [OF slot, of item 0] obtain m' where
      m': "AtomicCompareExchangePtr TT_GCC m s item 0 = Some (True, m')" "cell m' = (cell m)(s \<mapsto> 0)"
      unfolding fi(1) t(1) by auto
    have "ring_at (cell m') queue ring n R W (f(?i := 0))"
      unfolding m'(2) t(1) by (rule ring_at_slot [OF assms(1,2) i])
    moreover have "fits n xs (Suc r) (f(?i := 0))" using fits_out(3) [OF assms(3) _ n] fi by simp
    moreover have "item # drop (Suc r) xs = drop r xs" using t by (simp add: Cons_nth_drop_Suc)
    ultimately show ?thesis
      using PopTake m'(1) t fi(2)
      by (intro exI [of _ m'] exI [of _ "PopCount item"] exI [of _ R] exI [of _ "f(?i := 0)"]
          exI [of _ "Suc r"]) simp
  next
    case (PopCount item)
    have "cell m (queue + 16) = Some R" using assms(2) by (simp add: ring_at_def)
    from add_cell [OF this, of 1] obtain m' where
      "AtomicAddFetchIsz TT_GCC m (queue + 16) 1 = Some (R + 1, m')"
      "cell m' = (cell m)(queue + 16 \<mapsto> R + 1)" by blast
    then show ?thesis
      using PopCount assms ring_at_cursor(1) [OF assms(1,2), of "R + 1"]
      by (intro exI [of _ m'] exI [of _ "PopDone item"] exI [of _ "R + 1"] exI [of _ f] exI [of _ r]) simp
  qed (use assms(4,6) in simp_all)
qed

definition spsc_inv :: "ptr \<Rightarrow> ptr \<Rightarrow> nat \<Rightarrow> nat \<Rightarrow> nat \<Rightarrow> ring_sys \<Rightarrow> bool" where
  "spsc_inv queue ring n p c s \<longleftrightarrow>
     (\<exists>R W f. ring_at (cell (smem s)) queue ring n R W f \<and> fits n (pushed s) (length (popped s)) f
       \<and> producer_at ring n (pushed s) W (pcs s p)
       \<and> consumer_at ring n (pushed s) (length (popped s)) R (pcs s c))
     \<and> pushed s = popped s @ drop (length (popped s)) (pushed s)
     \<and> (\<forall>x\<in>set (pushed s). x \<noteq> 0) \<and> (\<forall>t. t \<noteq> p \<and> t \<noteq> c \<longrightarrow> returned (pcs s t))"

lemma spsc_inv_start:
  assumes "ring_place queue ring n" "ring_at (cell m) queue ring n 0 0 (\<lambda>_. 0)"
  shows "spsc_inv queue ring n p c (ring_start m)"
  using assms fits_start [of n] ring_place_n [OF assms(1)] by (auto simp: spsc_inv_def ring_start_def)

lemma returned_no_step: "returned pc \<Longrightarrow> ring_step cc queue m pc = None"
  by (cases pc) simp_all

lemma returned_positions:
  "returned pc \<Longrightarrow> producer_at ring n xs W pc \<longleftrightarrow> W = of_nat (length xs)"
  "returned pc \<Longrightarrow> consumer_at ring n xs r R pc \<longleftrightarrow> R = of_nat r"
  by (cases pc; simp)+

lemma spsc_inv_step:
  assumes "ring_place queue ring n" "p \<noteq> c" "spsc_inv queue ring n p c s"
    and "ring_next TT_GCC queue {p} {c} s s'"
  shows "spsc_inv queue ring n p c s'"
proof -
  from assms(3) obtain R W f where
    inv: "ring_at (cell (smem s)) queue ring n R W f" "fits n (pushed s) (length (popped s)) f"
      "producer_at ring n (pushed s) W (pcs s p)"
      "consumer_at ring n (pushed s) (length (popped s)) R (pcs s c)"
    and rest: "pushed s = popped s @ drop (length (popped s)) (pushed s)"
      "\<forall>x\<in>set (pushed s). x \<noteq> 0" "\<forall>t. t \<noteq> p \<and> t \<noteq> c \<longrightarrow> returned (pcs s t)"
    by (auto simp: spsc_inv_def)
  from assms(4) show ?thesis
  proof (cases rule: ring_next.cases)
    case (call_push t item)
    then show ?thesis using inv rest assms(2) returned_positions
      unfolding spsc_inv_def by (intro conjI exI [of _ R] exI [of _ W] exI [of _ f]) auto
  next
    case (call_pop t)
    then show ?thesis using inv rest assms(2) returned_positions
      unfolding spsc_inv_def by (intro conjI exI [of _ R] exI [of _ W] exI [of _ f]) auto
  next
    case (run t m' pc')
    then have t: "\<not> returned (pcs s t)" using returned_no_step by force
    with rest(3) consider "t = p" | "t = c" by blast
    then show ?thesis
    proof cases
      case 1
      with t producer_step [OF assms(1) inv(1-3) rest(2)] run(2) obtain W' f' where
        "ring_at (cell m') queue ring n R W' f'"
        "fits n (pushed s @ goes_in (pcs s p) pc') (length (popped s)) f'"
        "producer_at ring n (pushed s @ goes_in (pcs s p) pc') W' pc'"
        "\<forall>x\<in>set (pushed s @ goes_in (pcs s p) pc'). x \<noteq> 0" "goes_out (pcs s p) pc' = []" by auto
      then show ?thesis
        using run 1 assms(2) rest consumer_at_append [OF inv(4)] inv(2)
        unfolding spsc_inv_def
        by (intro conjI exI [of _ R] exI [of _ W'] exI [of _ f']) (auto simp: fits_def)
    next
      case 2
      with t consumer_step [OF assms(1) inv(1,2,4) rest(2)] run(2) obtain R' f' where
        "ring_at (cell m') queue ring n R' W f'"
        "fits n (pushed s) (length (popped s) + length (goes_out (pcs s c) pc')) f'"
        "consumer_at ring n (pushed s) (length (popped s) + length (goes_out (pcs s c) pc')) R' pc'"
        "goes_in (pcs s c) pc' = []"
        "goes_out (pcs s c) pc' @ drop (length (popped s) + length (goes_out (pcs s c) pc')) (pushed s)
          = drop (length (popped s)) (pushed s)" by auto
      then show ?thesis
        using run 2 assms(2) rest inv(3)
        unfolding spsc_inv_def
        by (intro conjI exI [of _ R'] exI [of _ W] exI [of _ f']) auto
    qed
  qed
qed

lemma spsc_reach:
  assumes "ring_place queue ring n" "ring_at (cell m) queue ring n 0 0 (\<lambda>_. 0)" "p \<noteq> c"
    and "ring_reach queue {p} {c} m s"
  shows "spsc_inv queue ring n p c s"
  using assms(4) unfolding ring_reach_def
proof (induction rule: rtranclp_induct)
  case base
  show ?case using assms(1,2) by (rule spsc_inv_start)
next
  case (step s s')
  then show ?case using spsc_inv_step [OF assms(1,3)] by blast
qed

section \<open>Several producers\<close>

lemma cas_slot:
  assumes "ring_place queue ring n" "ring_at (cell m) queue ring n R W f" "i < n"
  shows "\<exists>m'. AtomicCompareExchangePtr TT_GCC m (slot_of ring i) c v = Some (f i = c, m')
    \<and> ring_at (cell m') queue ring n R W (if f i = c then f(i := v) else f) \<and> (f i \<noteq> c \<longrightarrow> m' = m)"
proof -
  have "cell m (slot_of ring i) = Some (f i)" using assms(2,3) by (simp add: ring_at_def)
  from cas_cell [OF this, of c v] show ?thesis
    using assms(2) ring_at_slot [OF assms, of v] by (auto split: if_splits)
qed

lemma add_cursor:
  assumes "ring_place queue ring n" "ring_at (cell m) queue ring n R W f"
  shows "\<exists>m'. AtomicAddFetchIsz TT_GCC m (queue + 24) 1 = Some (W + 1, m')
      \<and> ring_at (cell m') queue ring n R (W + 1) f"
    and "\<exists>m'. AtomicAddFetchIsz TT_GCC m (queue + 16) 1 = Some (R + 1, m')
      \<and> ring_at (cell m') queue ring n (R + 1) W f"
proof -
  have c: "cell m (queue + 24) = Some W" "cell m (queue + 16) = Some R"
    using assms(2) by (simp_all add: ring_at_def)
  show "\<exists>m'. AtomicAddFetchIsz TT_GCC m (queue + 24) 1 = Some (W + 1, m')
      \<and> ring_at (cell m') queue ring n R (W + 1) f"
    using add_cell [OF c(1), of 1] ring_at_cursor(2) [OF assms, of "W + 1"] by auto
  show "\<exists>m'. AtomicAddFetchIsz TT_GCC m (queue + 16) 1 = Some (R + 1, m')
      \<and> ring_at (cell m') queue ring n (R + 1) W f"
    using add_cell [OF c(2), of 1] ring_at_cursor(1) [OF assms, of "R + 1"] by auto
qed

text \<open>A schedule names the thread that moves, and the call it starts when it has returned.\<close>

datatype ring_event = Push nat ptr | Pop nat | Run nat

fun ring_exec :: "ptr \<Rightarrow> nat set \<Rightarrow> nat set \<Rightarrow> ring_sys \<Rightarrow> ring_event list \<Rightarrow> ring_sys option" where
  "ring_exec queue P C s [] = Some s"
| "ring_exec queue P C s (Push t item # es) =
     (if t \<in> P \<and> returned (pcs s t) \<and> item \<noteq> 0
      then ring_exec queue P C (s\<lparr>pcs := (pcs s)(t := PushCall item)\<rparr>) es else None)"
| "ring_exec queue P C s (Pop t # es) =
     (if t \<in> C \<and> returned (pcs s t)
      then ring_exec queue P C (s\<lparr>pcs := (pcs s)(t := PopCall)\<rparr>) es else None)"
| "ring_exec queue P C s (Run t # es) =
     (case ring_step TT_GCC queue (smem s) (pcs s t) of
        None \<Rightarrow> None
      | Some (m', pc') \<Rightarrow>
          ring_exec queue P C
            \<lparr>smem = m', pcs = (pcs s)(t := pc'), pushed = pushed s @ goes_in (pcs s t) pc',
             popped = popped s @ goes_out (pcs s t) pc'\<rparr> es)"

lemma ring_exec_reach:
  "ring_exec queue P C s es = Some s' \<Longrightarrow> ring_reach queue P C m s \<Longrightarrow> ring_reach queue P C m s'"
proof (induction es arbitrary: s)
  case Nil
  then show ?case by simp
next
  case (Cons e es)
  have into: "ring_next TT_GCC queue P C s s1 \<Longrightarrow> ring_reach queue P C m s1" for s1
    using Cons.prems(2) unfolding ring_reach_def by (rule rtranclp.rtrancl_into_rtrancl)
  show ?case
  proof (cases e)
    case (Push t item)
    with Cons.prems(1) show ?thesis
      by (auto split: if_splits intro!: Cons.IH into [OF ring_next.call_push])
  next
    case (Pop t)
    with Cons.prems(1) show ?thesis
      by (auto split: if_splits intro!: Cons.IH into [OF ring_next.call_pop])
  next
    case (Run t)
    with Cons.prems(1) obtain m' pc' where st: "ring_step TT_GCC queue (smem s) (pcs s t) = Some (m', pc')"
      by (auto split: option.splits)
    with Cons.prems(1) Run show ?thesis
      using Cons.IH [OF _ into [OF ring_next.run [OF st]]] by simp
  qed
qed

text \<open>
  The bad schedule on a ring of two slots: thread 0 puts \<open>a\<close> in, but has not yet advanced \<open>WriteCur\<close>
  when thread 2 takes \<open>a\<close> out and thread 1 puts \<open>b\<close> into the same slot. Then both advance it.
\<close>

lemma lost_slot:
  assumes "ring_place queue ring 2" "ring_at (cell m) queue ring 2 0 0 (\<lambda>_. 0)" "a \<noteq> 0" "b \<noteq> 0"
  shows "\<exists>s. ring_reach queue {0, 1} {2} m s \<and> (\<forall>t. returned (pcs s t)) \<and> pushed s = [a, b] \<and> popped s = [a]
    \<and> ring_at (cell (smem s)) queue ring 2 1 2 ((\<lambda>_. 0)(0 := b))"
proof -
  note pl = assms(1)
  let ?f = "\<lambda>_. 0 :: ptr" and ?s = "slot_of ring 0"
  obtain m1 where m1: "AtomicCompareExchangePtr TT_GCC m ?s 0 a = Some (True, m1)"
    "ring_at (cell m1) queue ring 2 0 0 (?f(0 := a))"
    using cas_slot [OF pl assms(2), of 0 0 a] by auto
  obtain m2 where m2: "AtomicCompareExchangePtr TT_GCC m1 ?s a 0 = Some (True, m2)"
    "ring_at (cell m2) queue ring 2 0 0 ?f"
    using cas_slot [OF pl m1(2), of 0 a 0] by (auto simp: fun_upd_idem)
  obtain m3 where m3: "AtomicAddFetchIsz TT_GCC m2 (queue + 16) 1 = Some (1, m3)"
    "ring_at (cell m3) queue ring 2 1 0 ?f"
    using add_cursor(2) [OF pl m2(2)] by auto
  obtain m4 where m4: "AtomicCompareExchangePtr TT_GCC m3 ?s 0 b = Some (True, m4)"
    "ring_at (cell m4) queue ring 2 1 0 (?f(0 := b))"
    using cas_slot [OF pl m3(2), of 0 0 b] by auto
  obtain m5 where m5: "AtomicAddFetchIsz TT_GCC m4 (queue + 24) 1 = Some (1, m5)"
    "ring_at (cell m5) queue ring 2 1 1 (?f(0 := b))"
    using add_cursor(1) [OF pl m4(2)] by auto
  obtain m6 where m6: "AtomicAddFetchIsz TT_GCC m5 (queue + 24) 1 = Some (2, m6)"
    "ring_at (cell m6) queue ring 2 1 2 (?f(0 := b))"
    using add_cursor(1) [OF pl m5(2)] by auto
  have w: "slot_addr m queue 24 = Some ?s" "slot_addr m3 queue 24 = Some ?s"
    "slot_addr m1 queue 16 = Some ?s"
    using slot_addr_eq(1) [OF pl assms(2), of 0] slot_addr_eq(1) [OF pl m3(2), of 0]
      slot_addr_eq(2) [OF pl m1(2), of 0] by simp_all
  have l: "load_word m1 ?s = Some a" using m1(2) by (intro cell_load) (simp add: ring_at_def)
  have "ring_exec queue {0, 1} {2} (ring_start m)
      [Push 0 a, Run 0, Run 0, Pop 2, Run 2, Run 2, Run 2, Run 2, Run 2, Push 1 b, Run 1, Run 1, Run 1, Run 0]
    = Some \<lparr>smem = m6, pcs = (\<lambda>_. PopDone 0)(0 := PushDone True, 2 := PopDone a, 1 := PushDone True),
        pushed = [a, b], popped = [a]\<rparr>" (is "_ = Some ?s'")
    using assms(3,4) w l m1(1) m2(1) m3(1) m4(1) m5(1) m6(1) by (simp add: ring_start_def fun_upd_twist)
  from ring_exec_reach [OF this, of m] m6(2) show ?thesis
    by (intro exI [of _ ?s'] conjI) (auto simp: ring_reach_def)
qed

lemma no_way_out:
  assumes "ring_place queue ring n" "ring_at (cell m) queue ring n (of_nat r) (of_nat w) f"
    and "f (w mod n) \<noteq> 0" "f (r mod n) = 0"
  shows "MPMCRingBufferPush TT_GCC m queue item = Some (False, m)" "MPMCRingBufferPop TT_GCC m queue = Some (0, m)"
proof -
  have n: "0 < n" using ring_place_n [OF assms(1)] by simp
  show "MPMCRingBufferPush TT_GCC m queue item = Some (False, m)"
    using slot_addr_eq(1) [OF assms(1,2) refl] cas_slot [OF assms(1,2), of "w mod n" 0 item] n assms(3)
    by (auto simp: MPMCRingBufferPush_def)
  have "load_word m (slot_of ring (r mod n)) = Some (f (r mod n))"
    using assms(2) n by (intro cell_load) (simp add: ring_at_def)
  then show "MPMCRingBufferPop TT_GCC m queue = Some (0, m)"
    using slot_addr_eq(2) [OF assms(1,2) refl] assms(4) by (simp add: MPMCRingBufferPop_def)
qed

lemma reach_start: "ring_reach queue P C m (ring_start m)"
  by (simp add: ring_reach_def)

section \<open>Properties\<close>

text \<open>The memory that \<open>InitMPMCRingBuffer\<close> describes: the structure at \<open>queue\<close>, over zeroed slots.\<close>

definition ring_ready :: "mem \<Rightarrow> ptr \<Rightarrow> ptr \<Rightarrow> usz \<Rightarrow> nat \<Rightarrow> bool" where
  "ring_ready m queue ring ringSize n \<longleftrightarrow> ring_place queue ring n
     \<and> (\<exists>q. InitMPMCRingBuffer ring ringSize = Some q \<and> Ring q = ring \<and> MaxCur q = of_nat n - 1
         \<and> cell m queue = Some (Ring q) \<and> cell m (queue + 8) = Some (MaxCur q)
         \<and> cell m (queue + 16) = Some (ReadCur q) \<and> cell m (queue + 24) = Some (WriteCur q))
     \<and> (\<forall>i<n. cell m (slot_of ring i) = Some 0)"

lemma ring_readyD:
  assumes "ring_ready m queue ring ringSize n"
  shows "ring_place queue ring n" "ring_at (cell m) queue ring n 0 0 (\<lambda>_. 0)"
proof -
  show "ring_place queue ring n" using assms by (simp add: ring_ready_def)
  from assms obtain q where q: "InitMPMCRingBuffer ring ringSize = Some q" "Ring q = ring" "MaxCur q = of_nat n - 1"
    "cell m queue = Some (Ring q)" "cell m (queue + 8) = Some (MaxCur q)"
    "cell m (queue + 16) = Some (ReadCur q)" "cell m (queue + 24) = Some (WriteCur q)"
    "\<forall>i<n. cell m (slot_of ring i) = Some 0" by (auto simp: ring_ready_def)
  have "ReadCur q = 0" "WriteCur q = 0"
    using q(1) by (auto simp: InitMPMCRingBuffer_def bind_eq_Some_conv split: if_splits)
  with q show "ring_at (cell m) queue ring n 0 0 (\<lambda>_. 0)" by (simp add: ring_at_def)
qed

text \<open>An example: the structure at 0x100, over a ring of 16 bytes at 0x200.\<close>

definition ex_ring :: mem where
  "ex_ring = upd_bytes (upd_bytes Map.empty 0x100
     ([0, 2, 0, 0, 0, 0, 0, 0] @ [1, 0, 0, 0, 0, 0, 0, 0] @ replicate 8 0 @ replicate 8 0))
     0x200 (replicate 8 0 @ replicate 8 0)"

lemma ex_ring_bytes:
  "bytes_at ex_ring 0x100 [0, 2, 0, 0, 0, 0, 0, 0]" "bytes_at ex_ring 0x108 [1, 0, 0, 0, 0, 0, 0, 0]"
  "bytes_at ex_ring 0x110 (replicate 8 0)" "bytes_at ex_ring 0x118 (replicate 8 0)"
  "bytes_at ex_ring 0x200 (replicate 8 0)" "bytes_at ex_ring 0x208 (replicate 8 0)"
proof -
  let ?q = "[0, 2, 0, 0, 0, 0, 0, 0] @ [1, 0, 0, 0, 0, 0, 0, 0] @ replicate 8 0 @ replicate 8 (0 :: u8)"
  let ?r = "replicate 8 0 @ replicate 8 (0 :: u8)"
  have q: "bytes_at ex_ring 0x100 ?q" and r: "bytes_at ex_ring 0x200 ?r"
    unfolding ex_ring_def by (rule two_blocks; simp)+
  from q show "bytes_at ex_ring 0x100 [0, 2, 0, 0, 0, 0, 0, 0]" "bytes_at ex_ring 0x108 [1, 0, 0, 0, 0, 0, 0, 0]"
    "bytes_at ex_ring 0x110 (replicate 8 0)" "bytes_at ex_ring 0x118 (replicate 8 0)"
    unfolding bytes_at_append by simp_all
  from r show "bytes_at ex_ring 0x200 (replicate 8 0)" "bytes_at ex_ring 0x208 (replicate 8 0)"
    unfolding bytes_at_append by simp_all
qed

lemma less_2: "i < (2 :: nat) \<longleftrightarrow> i = 0 \<or> i = 1"
  by auto

lemma ex_ring_ready: "ring_ready ex_ring 0x100 0x200 16 2"
proof -
  have z: "(bytes_word (replicate 8 0) :: u64) = 0" by (simp add: bytes_word_def numeral_eq_Suc)
  have c: "cell ex_ring 0x100 = Some 0x200" "cell ex_ring 0x108 = Some 1"
    "cell ex_ring 0x110 = Some 0" "cell ex_ring 0x118 = Some 0"
    "cell ex_ring 0x200 = Some 0" "cell ex_ring 0x208 = Some 0"
    using ex_ring_bytes [THEN load_word_at, where 'a = 64] z
    by (simp_all add: cell_def aligned_def bytes_word_def)
  have "RoundDownToPow2 16 = Some 16"
    by (simp add: RoundDownToPow2_def builtin_clzl_def upt_rec [of _ 64])
  then have i: "InitMPMCRingBuffer 0x200 16 = Some \<lparr>Ring = 0x200, MaxCur = 1, ReadCur = 0, WriteCur = 0\<rparr>"
    by (simp add: InitMPMCRingBuffer_def)
  have "ring_place 0x100 0x200 2"
    unfolding ring_place_def less_2 by (auto simp: slot_of_def intro: exI [of _ 1])
  then show ?thesis
    unfolding ring_ready_def i less_2 using c by (auto simp: slot_of_def)
qed

text \<open>
  C3: with one producer and one consumer, under every interleaving of their accesses, the items
  popped are the first ones pushed, in order; never more than the capacity are in flight; and no
  access is undefined: a thread in the middle of a call can always take its next step.
\<close>

theorem MPMCRingBuffer_SPSC_fifo:
  assumes "ring_ready m queue ring ringSize n" "p \<noteq> c" "ring_reach queue {p} {c} m s"
  shows "popped s = take (length (popped s)) (pushed s) \<and> length (pushed s) \<le> length (popped s) + n
    \<and> (\<forall>t. \<not> returned (pcs s t) \<longrightarrow> ring_step TT_GCC queue (smem s) (pcs s t) \<noteq> None)"
proof -
  note pl = ring_readyD(1) [OF assms(1)]
  from spsc_reach [OF ring_readyD [OF assms(1)] assms(2,3)] obtain R W f where
    inv: "ring_at (cell (smem s)) queue ring n R W f" "fits n (pushed s) (length (popped s)) f"
      "producer_at ring n (pushed s) W (pcs s p)"
      "consumer_at ring n (pushed s) (length (popped s)) R (pcs s c)"
    and rest: "pushed s = popped s @ drop (length (popped s)) (pushed s)"
      "\<forall>x\<in>set (pushed s). x \<noteq> 0" "\<forall>t. t \<noteq> p \<and> t \<noteq> c \<longrightarrow> returned (pcs s t)"
    by (auto simp: spsc_inv_def)
  have "popped s = take (length (popped s)) (pushed s)"
    using rest(1) by (metis append_eq_conv_conj)
  moreover have "ring_step TT_GCC queue (smem s) (pcs s t) \<noteq> None" if "\<not> returned (pcs s t)" for t
  proof (cases "t = p")
    case True
    then show ?thesis using producer_step [OF pl inv(1-3) rest(2)] that by auto
  next
    case False
    with that rest(3) have "t = c" by blast
    then show ?thesis using consumer_step [OF pl inv(1,2,4) rest(2)] that by auto
  qed
  ultimately show ?thesis using inv(2) by (simp add: fits_def)
qed

theorem MPMCRingBuffer_SPSC_fifo_witness:
  "ring_step TT_GCC 0x100 ex_ring (PushCall 7) \<noteq> None"
proof -
  have "ring_exec 0x100 {0} {1} (ring_start ex_ring) [Push 0 7]
      = Some ((ring_start ex_ring)\<lparr>pcs := (\<lambda>_. PopDone 0)(0 := PushCall 7)\<rparr>)"
    by (simp add: ring_start_def)
  from MPMCRingBuffer_SPSC_fifo [OF ex_ring_ready _ ring_exec_reach [OF this reach_start]]
  show ?thesis by (auto simp: ring_start_def dest: spec [of _ 0])
qed

text \<open>
  Under the same conditions, \<open>MPMCRingBufferPush\<close> returns false only at a moment at which the ring
  is full, and \<open>MPMCRingBufferPop\<close> returns null only at a moment at which everything pushed has been
  popped.
\<close>

theorem MPMCRingBuffer_SPSC_results:
  assumes "ring_ready m queue ring ringSize n" "p \<noteq> c" "ring_reach queue {p} {c} m s"
  shows "(ring_step TT_GCC queue (smem s) (pcs s t) = Some (m', PushDone False)
      \<longrightarrow> length (pushed s) = length (popped s) + n)
    \<and> (ring_step TT_GCC queue (smem s) (pcs s t) = Some (m', PopDone 0) \<longrightarrow> popped s = pushed s)"
proof -
  note pl = ring_readyD(1) [OF assms(1)]
  from spsc_reach [OF ring_readyD [OF assms(1)] assms(2,3)] obtain R W f where
    inv: "ring_at (cell (smem s)) queue ring n R W f" "fits n (pushed s) (length (popped s)) f"
      "producer_at ring n (pushed s) W (pcs s p)"
      "consumer_at ring n (pushed s) (length (popped s)) R (pcs s c)"
    and rest: "pushed s = popped s @ drop (length (popped s)) (pushed s)"
      "\<forall>x\<in>set (pushed s). x \<noteq> 0" "\<forall>t. t \<noteq> p \<and> t \<noteq> c \<longrightarrow> returned (pcs s t)"
    by (auto simp: spsc_inv_def)
  consider "returned (pcs s t)" | "t = p" "\<not> returned (pcs s t)" | "t = c" "\<not> returned (pcs s t)"
    using rest(3) by blast
  then show ?thesis
  proof cases
    case 1
    then show ?thesis by (simp add: returned_no_step)
  next
    case 2
    then have "\<not> (\<exists>r. pc' = PopDone r)" if "ring_step TT_GCC queue (smem s) (pcs s t) = Some (m'', pc')" for m'' pc'
      using that inv(3) by (cases "pcs s t") (auto simp: bind_eq_Some_conv split: if_splits)
    with 2 producer_step [OF pl inv(1-3) rest(2)] show ?thesis by auto
  next
    case 3
    then have "\<not> (\<exists>r. pc' = PushDone r)" if "ring_step TT_GCC queue (smem s) (pcs s t) = Some (m'', pc')" for m'' pc'
      using that inv(4) by (cases "pcs s t") (auto simp: bind_eq_Some_conv split: if_splits)
    moreover have "length (popped s) = length (pushed s) \<Longrightarrow> popped s = pushed s" using rest(1) by simp
    ultimately show ?thesis using 3 consumer_step [OF pl inv(1,2,4) rest(2)] by auto
  qed
qed

theorem MPMCRingBuffer_SPSC_results_witness:
  "\<exists>s. ring_reach 0x100 {0} {1} ex_ring s
    \<and> ring_step TT_GCC 0x100 (smem s) (pcs s 1) = Some (ex_ring, PopDone 0) \<and> popped s = pushed s"
proof -
  note d = ring_readyD [OF ex_ring_ready]
  have "cell ex_ring (slot_of 0x200 0) = Some 0" using d(2) by (simp add: ring_at_def)
  from cell_load [OF this] have slot: "slot_addr ex_ring 0x100 16 = Some 0x200"
    "load_word ex_ring 0x200 = Some (0 :: u64)"
    using slot_addr_eq(2) [OF d, of 0] by (simp_all add: slot_of_def)
  have "ring_exec 0x100 {0} {1} (ring_start ex_ring) [Pop 1, Run 1]
      = Some ((ring_start ex_ring)\<lparr>pcs := (\<lambda>_. PopDone 0)(1 := PopSlot 0x200)\<rparr>)" (is "_ = Some ?s")
    using slot by (simp add: ring_start_def)
  from ring_exec_reach [OF this reach_start] have r: "ring_reach 0x100 {0} {1} ex_ring ?s" .
  have "ring_step TT_GCC 0x100 (smem ?s) (pcs ?s 1) = Some (ex_ring, PopDone 0)"
    using slot by (simp add: ring_start_def)
  with MPMCRingBuffer_SPSC_results [OF ex_ring_ready _ r, of 1] r show ?thesis by fastforce
qed

text \<open>
  C32: with two producers, threads 0 and 1, and one consumer, thread 2, on a ring of two slots there is
  a schedule after which all calls have returned, the item \<open>b\<close> is in the ring and one slot is free, but
  every push returns false and every pop returns null, and leaves the memory as it is: the queue is
  stuck for ever.
\<close>

theorem MPMCRingBuffer_stuck:
  assumes "ring_ready m queue ring ringSize 2" "a \<noteq> 0" "b \<noteq> 0"
  shows "\<exists>s. ring_reach queue {0, 1} {2} m s \<and> (\<forall>t. returned (pcs s t))
    \<and> pushed s = [a, b] \<and> popped s = [a]
    \<and> (\<forall>item. MPMCRingBufferPush TT_GCC (smem s) queue item = Some (False, smem s))
    \<and> MPMCRingBufferPop TT_GCC (smem s) queue = Some (0, smem s)"
proof -
  note d = ring_readyD [OF assms(1)]
  from lost_slot [OF d assms(2,3)] obtain s where
    s: "ring_reach queue {0, 1} {2} m s" "\<forall>t. returned (pcs s t)" "pushed s = [a, b]" "popped s = [a]"
    and r: "ring_at (cell (smem s)) queue ring 2 (of_nat 1) (of_nat 2) ((\<lambda>_. 0)(0 := b))" by auto
  from no_way_out [OF d(1) r] assms(3) s show ?thesis by auto
qed

theorem MPMCRingBuffer_stuck_witness:
  "\<exists>s. ring_reach 0x100 {0, 1} {2} ex_ring s \<and> pushed s = [5, 6] \<and> popped s = [5]
    \<and> MPMCRingBufferPop TT_GCC (smem s) 0x100 = Some (0, smem s)"
  using MPMCRingBuffer_stuck [OF ex_ring_ready, of 5 6] by auto

end
