(* ===== verification/FreeList.thy ===== *)
theory FreeList
  imports Atomic
begin

text \<open>
  The unbounded queue of \<open>src/tinybase-queues.c\<close>, lines 5 to 53: a linked list of nodes, into which
  any number of threads push and from which one pops. The structure lies in memory: \<open>Head\<close> at
  offset 0, \<open>Tail\<close> at 8 and the node \<open>Stub\<close> at 16; the first field of a node is \<open>Next\<close>.
  \<open>list_next\<close> interleaves the producers and the consumer at their accesses to shared memory.
  The invariant is a chain of nodes from \<open>Tail\<close> to \<open>Head\<close> in which a link is missing exactly while
  a producer is between its exchange and its store.
\<close>

section \<open>The operations\<close>

definition stub_of :: "ptr \<Rightarrow> ptr" where
  "stub_of queue = queue + 16"

definition InitMPSCFreeList :: "mem \<Rightarrow> ptr \<Rightarrow> mem option" where
  "InitMPSCFreeList m queue =
     do { m \<leftarrow> store_word m queue (stub_of queue); store_word m (queue + 8) (stub_of queue) }"

definition MPSCFreeListPush :: "compiler \<Rightarrow> mem \<Rightarrow> ptr \<Rightarrow> ptr \<Rightarrow> mem option" where
  "MPSCFreeListPush cc m queue node =
     do {
       m \<leftarrow> store_word m node (0 :: ptr);
       (prev, m) \<leftarrow> AtomicExchangePtr cc m queue node;
       store_word m prev node
     }"

definition MPSCFreeListPop :: "compiler \<Rightarrow> mem \<Rightarrow> ptr \<Rightarrow> (ptr \<times> mem) option" where
  "MPSCFreeListPop cc m queue =
     do {
       tail \<leftarrow> load_word m (queue + 8);
       next \<leftarrow> load_word m tail;
       if tail = stub_of queue \<and> next = 0 then Some (0, m)
       else do {
         (tail, next, m) \<leftarrow>
           (if tail = stub_of queue
            then do { m \<leftarrow> store_word m (queue + 8) next; next' \<leftarrow> load_word m next; Some (next, next', m) }
            else Some (tail, next, m));
         if next \<noteq> 0 then do { m \<leftarrow> store_word m (queue + 8) next; Some (tail, m) }
         else do {
           head \<leftarrow> load_word m queue;
           if tail \<noteq> head then Some (0, m)
           else do {
             m \<leftarrow> MPSCFreeListPush cc m queue (stub_of queue);
             next \<leftarrow> (load_word m tail :: ptr option);
             if next \<noteq> 0 then do { m \<leftarrow> store_word m (queue + 8) next; Some (tail, m) }
             else Some (0, m)
           }
         }
       }
     }"

section \<open>Threads\<close>

text \<open>
  Where a producer and the consumer are in a call. \<open>Tail\<close> is the consumer's own, so its accesses
  to it are not steps of their own.
\<close>

datatype push_pc = PDone | PNull ptr | PSwap ptr | PLink ptr ptr

fun push_step :: "ptr \<Rightarrow> mem \<Rightarrow> push_pc \<Rightarrow> (mem \<times> push_pc) option" where
  "push_step queue m PDone = None"
| "push_step queue m (PNull node) = do { m \<leftarrow> store_word m node (0 :: ptr); Some (m, PSwap node) }"
| "push_step queue m (PSwap node) =
     do { (prev, m) \<leftarrow> AtomicExchangePtr TT_GCC m queue node; Some (m, PLink prev node) }"
| "push_step queue m (PLink prev node) = do { m \<leftarrow> store_word m prev node; Some (m, PDone) }"

datatype pop_pc =
  CDone ptr | CCall | CSkip ptr | CTest ptr ptr | CStub ptr push_pc | CLast ptr

fun pop_step :: "ptr \<Rightarrow> mem \<Rightarrow> pop_pc \<Rightarrow> (mem \<times> pop_pc) option" where
  "pop_step queue m (CDone r) = None"
| "pop_step queue m CCall =
     do {
       tail \<leftarrow> load_word m (queue + 8);
       next \<leftarrow> load_word m tail;
       Some (m, if tail = stub_of queue then if next = 0 then CDone 0 else CSkip next
                else CTest tail next)
     }"
| "pop_step queue m (CSkip next) =
     do { m \<leftarrow> store_word m (queue + 8) next; next' \<leftarrow> load_word m next; Some (m, CTest next next') }"
| "pop_step queue m (CTest tail next) =
     (if next \<noteq> 0 then do { m \<leftarrow> store_word m (queue + 8) next; Some (m, CDone tail) }
      else do {
        head \<leftarrow> load_word m queue;
        Some (m, if tail \<noteq> head then CDone 0 else CStub tail (PNull (stub_of queue)))
      })"
| "pop_step queue m (CStub tail pc) =
     (if pc = PDone then Some (m, CLast tail)
      else do { (m, pc) \<leftarrow> push_step queue m pc; Some (m, CStub tail pc) })"
| "pop_step queue m (CLast tail) =
     do {
       next \<leftarrow> (load_word m tail :: ptr option);
       if next \<noteq> 0 then do { m \<leftarrow> store_word m (queue + 8) next; Some (m, CDone tail) }
       else Some (m, CDone 0)
     }"

text \<open>
  The system, and what has gone in and out, in the order of the exchanges and of the returns.
  \<open>nodes\<close> are the addresses of the client's nodes; a client pushes a node that is not in the queue
  and that no thread is pushing.
\<close>

record list_sys =
  smem :: mem
  producer :: "nat \<Rightarrow> push_pc"
  consumer :: pop_pc
  pushed :: "ptr list"
  popped :: "ptr list"

fun swapped :: "push_pc \<Rightarrow> push_pc \<Rightarrow> ptr list" where
  "swapped (PSwap node) (PLink prev node') = [node]"
| "swapped _ _ = []"

fun taken :: "pop_pc \<Rightarrow> ptr list" where
  "taken (CDone r) = (if r = 0 then [] else [r])"
| "taken _ = []"

fun holds_node :: "push_pc \<Rightarrow> ptr set" where
  "holds_node PDone = {}"
| "holds_node (PNull n) = {n}"
| "holds_node (PSwap n) = {n}"
| "holds_node (PLink a n) = {n}"

inductive list_next :: "ptr \<Rightarrow> ptr set \<Rightarrow> list_sys \<Rightarrow> list_sys \<Rightarrow> bool" for queue nodes where
  call_push: "producer s t = PDone \<Longrightarrow> node \<in> nodes \<Longrightarrow> node \<notin> set (drop (length (popped s)) (pushed s)) \<Longrightarrow>
    (\<forall>u. node \<notin> holds_node (producer s u)) \<Longrightarrow>
    list_next queue nodes s (s\<lparr>producer := (producer s)(t := PNull node)\<rparr>)"
| run_push: "push_step queue (smem s) (producer s t) = Some (m', pc') \<Longrightarrow>
    list_next queue nodes s (s\<lparr>smem := m', producer := (producer s)(t := pc'),
      pushed := pushed s @ swapped (producer s t) pc'\<rparr>)"
| call_pop: "consumer s = CDone r \<Longrightarrow> list_next queue nodes s (s\<lparr>consumer := CCall\<rparr>)"
| run_pop: "pop_step queue (smem s) (consumer s) = Some (m', pc') \<Longrightarrow>
    list_next queue nodes s (s\<lparr>smem := m', consumer := pc', popped := popped s @ taken pc'\<rparr>)"

definition list_start :: "mem \<Rightarrow> list_sys" where
  "list_start m = \<lparr>smem = m, producer = (\<lambda>_. PDone), consumer = CDone 0, pushed = [], popped = []\<rparr>"

definition list_reach :: "ptr \<Rightarrow> ptr set \<Rightarrow> mem \<Rightarrow> list_sys \<Rightarrow> bool" where
  "list_reach queue nodes m s \<longleftrightarrow> (list_next queue nodes)\<^sup>*\<^sup>* (list_start m) s"

section \<open>The chain\<close>

text \<open>
  \<open>chain h L P\<close>: the nodes of \<open>L\<close> are linked in order, except that the link is still missing for the
  pairs in \<open>P\<close>, and the last has none.
\<close>

fun links :: "(ptr \<Rightarrow> u64 option) \<Rightarrow> ptr list \<Rightarrow> (ptr \<times> ptr) set \<Rightarrow> bool" where
  "links h [] P = False"
| "links h [a] P = (h a = Some 0)"
| "links h (a # b # L) P = (h a = Some (if (a, b) \<in> P then 0 else b) \<and> links h (b # L) P)"

definition neighbours :: "ptr list \<Rightarrow> (ptr \<times> ptr) set" where
  "neighbours L = set (zip L (tl L))"

definition chain :: "(ptr \<Rightarrow> u64 option) \<Rightarrow> ptr list \<Rightarrow> (ptr \<times> ptr) set \<Rightarrow> bool" where
  "chain h L P \<longleftrightarrow> links h L P \<and> distinct L \<and> P \<subseteq> neighbours L"

lemma neighbours_simps [simp]:
  "neighbours [] = {}" "neighbours [a] = {}" "neighbours (a # b # L) = insert (a, b) (neighbours (b # L))"
  by (simp_all add: neighbours_def)

lemma neighbours_members: "(a, b) \<in> neighbours L \<Longrightarrow> a \<in> set L \<and> b \<in> set L"
  by (induction L rule: remdups_adj.induct) auto

lemma neighbours_snoc: "L \<noteq> [] \<Longrightarrow> neighbours (L @ [n]) = insert (last L, n) (neighbours L)"
proof (induction L)
  case (Cons a L)
  then show ?case by (cases L) (simp_all add: insert_commute)
qed simp

lemma links_nonempty: "links h L P \<Longrightarrow> L \<noteq> []"
  by auto

lemma links_cong:
  "\<forall>n\<in>set L. h' n = h n \<Longrightarrow> P \<inter> neighbours L = P' \<inter> neighbours L \<Longrightarrow> links h L P \<longleftrightarrow> links h' L P'"
proof (induction h L P rule: links.induct)
  case (3 h a b L P)
  then have "P \<inter> neighbours (b # L) = P' \<inter> neighbours (b # L)" "(a, b) \<in> P \<longleftrightarrow> (a, b) \<in> P'" by auto
  then show ?case using 3(1) 3(2) by simp
qed auto

lemma chain_frame:
  assumes "chain h L P" "\<forall>n\<in>set L. h' n = h n"
  shows "chain h' L P"
proof -
  have "links h L P \<longleftrightarrow> links h' L P" by (rule links_cong [OF assms(2) refl])
  then show ?thesis using assms(1) unfolding chain_def by blast
qed

lemma chain_start: "h n = Some 0 \<Longrightarrow> chain h [n] {}"
  by (simp add: chain_def)

lemma links_snoc:
  "links h L P \<Longrightarrow> h n = Some 0 \<Longrightarrow> (last L, n) \<in> P \<Longrightarrow> links h (L @ [n]) P"
  by (induction L rule: remdups_adj.induct) auto

lemma chain_push:
  assumes "chain h L P" "n \<notin> set L" "h n = Some 0"
  shows "chain h (L @ [n]) (insert (last L, n) P)"
proof -
  have "P \<inter> neighbours L = insert (last L, n) P \<inter> neighbours L"
    using neighbours_members [of _ n L] assms(2) by auto
  then have "links h L (insert (last L, n) P)"
    using assms(1) links_cong [of L h h P "insert (last L, n) P"] by (simp add: chain_def)
  then show ?thesis
    using assms links_snoc [of h L "insert (last L, n) P" n] neighbours_snoc [of L n]
      links_nonempty [of h L P] by (auto simp: chain_def)
qed

lemma neighbours_unique:
  "distinct L \<Longrightarrow> (a, b) \<in> neighbours L \<Longrightarrow> (a, c) \<in> neighbours L \<Longrightarrow> b = c"
proof (induction L rule: remdups_adj.induct)
  case (3 x y L)
  then show ?case using neighbours_members [of x _ "y # L"] by auto
qed auto

lemma links_link:
  "links h L P \<Longrightarrow> distinct L \<Longrightarrow> (a, b) \<in> neighbours L \<Longrightarrow> links (h(a \<mapsto> b)) L (P - {(a, b)})"
proof (induction h L P rule: links.induct)
  case (3 h x y L P)
  show ?case
  proof (cases "x = a")
    case True
    then have "y = b" using 3(4) neighbours_members [of a b "y # L"] 3(3) by auto
    have "links (h(a \<mapsto> b)) (y # L) (P - {(a, b)}) \<longleftrightarrow> links h (y # L) P"
      using 3(3) True neighbours_members [of a b "y # L"] by (intro links_cong [symmetric]) auto
    then show ?thesis using 3(2) True \<open>y = b\<close> by (simp del: fun_upd_apply add: fun_upd_same)
  next
    case False
    then have "links (h(a \<mapsto> b)) (y # L) (P - {(a, b)})" using 3 by (intro 3(1)) auto
    then show ?thesis using 3(2) False by (simp del: fun_upd_apply add: fun_upd_other)
  qed
qed auto

lemma chain_link:
  assumes "chain h L P" "(a, b) \<in> P"
  shows "chain (h(a \<mapsto> b)) L (P - {(a, b)})"
  using assms links_link [of h L P a b] by (auto simp: chain_def)

lemma links_values: "links h L P \<Longrightarrow> n \<in> set L \<Longrightarrow> h n \<noteq> None"
  by (induction L rule: remdups_adj.induct) auto

lemma links_missing: "links h L P \<Longrightarrow> (a, b) \<in> P \<Longrightarrow> (a, b) \<in> neighbours L \<Longrightarrow> h a = Some 0"
  by (induction L rule: remdups_adj.induct) auto

lemma chain_members:
  assumes "chain h L P"
  shows "(a, b) \<in> P \<Longrightarrow> a \<in> set L \<and> b \<in> set L \<and> h a = Some 0" "n \<in> set L \<Longrightarrow> h n \<noteq> None"
  using assms links_missing [of h L P a b] neighbours_members [of a b L] links_values [of h L P n]
  by (auto simp: chain_def)

text \<open>Following the link of the first node.\<close>

lemma chain_hd:
  assumes "chain h L P" "h (hd L) = Some v" "v \<noteq> 0"
  obtains L' where "L = hd L # v # L'"
proof (cases L rule: remdups_adj.cases)
  case (3 a b L')
  with assms have "b = v" by (auto simp: chain_def split: if_splits)
  with 3 show ?thesis using that [of L'] by simp
qed (use assms in \<open>auto simp: chain_def\<close>)

lemma chain_pop:
  assumes "chain h (a # b # L) P" "h a = Some b" "b \<noteq> 0"
  shows "chain h (b # L) P"
proof -
  have "(a, b) \<notin> P" using chain_members(1) [OF assms(1), of a b] assms(2,3) by auto
  with assms(1) show ?thesis by (auto simp: chain_def)
qed

lemma chain_single: "chain h L P \<Longrightarrow> hd L = last L \<Longrightarrow> L = [hd L]"
  by (cases L rule: remdups_adj.cases) (auto simp: chain_def split: if_splits)

lemma chain_next: "chain h (a # b # L) P \<Longrightarrow> (a, b) \<notin> P \<Longrightarrow> h a = Some b"
  by (simp add: chain_def)

lemma chain_nonempty: "chain h L P \<Longrightarrow> L \<noteq> []"
  by (auto simp: chain_def)

section \<open>The invariant\<close>

definition list_place :: "ptr \<Rightarrow> ptr set \<Rightarrow> bool" where
  "list_place queue nodes \<longleftrightarrow> stub_of queue \<notin> nodes \<and> queue \<notin> nodes \<and> queue + 8 \<notin> nodes
     \<and> 0 \<notin> nodes \<and> stub_of queue \<noteq> 0"

fun links_of :: "push_pc \<Rightarrow> (ptr \<times> ptr) set" where
  "links_of (PLink a n) = {(a, n)}"
| "links_of _ = {}"

fun stub_links :: "pop_pc \<Rightarrow> (ptr \<times> ptr) set" where
  "stub_links (CStub tail pc) = links_of pc"
| "stub_links _ = {}"

definition pending :: "list_sys \<Rightarrow> (ptr \<times> ptr) set" where
  "pending s = (\<Union>t. links_of (producer s t)) \<union> stub_links (consumer s)"

text \<open>\<open>push_at\<close>: what is known of a node on its way into the queue, for every point of a push.\<close>

fun push_at :: "(ptr \<Rightarrow> u64 option) \<Rightarrow> ptr list \<Rightarrow> (ptr \<Rightarrow> bool) \<Rightarrow> push_pc \<Rightarrow> bool" where
  "push_at h L ok PDone = True"
| "push_at h L ok (PNull n) = (ok n \<and> n \<notin> set L)"
| "push_at h L ok (PSwap n) = (ok n \<and> n \<notin> set L \<and> h n = Some 0)"
| "push_at h L ok (PLink a n) = ok n"

fun pop_at :: "ptr \<Rightarrow> (ptr \<Rightarrow> u64 option) \<Rightarrow> ptr list \<Rightarrow> pop_pc \<Rightarrow> bool" where
  "pop_at stub h L (CDone r) = True"
| "pop_at stub h L CCall = True"
| "pop_at stub h L (CSkip next) = (hd L = stub \<and> h stub = Some next \<and> next \<noteq> 0)"
| "pop_at stub h L (CTest tail next) = (hd L = tail \<and> tail \<noteq> stub \<and> (next \<noteq> 0 \<longrightarrow> h tail = Some next))"
| "pop_at stub h L (CStub tail pc) = (hd L = tail \<and> tail \<noteq> stub \<and> push_at h L (\<lambda>n. n = stub) pc)"
| "pop_at stub h L (CLast tail) = (hd L = tail \<and> tail \<noteq> stub)"

definition list_inv :: "ptr \<Rightarrow> ptr set \<Rightarrow> ptr list \<Rightarrow> list_sys \<Rightarrow> bool" where
  "list_inv queue nodes L s \<longleftrightarrow>
     chain (cell (smem s)) L (pending s)
     \<and> cell (smem s) queue = Some (last L) \<and> cell (smem s) (queue + 8) = Some (hd L)
     \<and> set L \<subseteq> insert (stub_of queue) nodes
     \<and> (\<forall>n\<in>insert (stub_of queue) nodes. cell (smem s) n \<noteq> None)
     \<and> pushed s = popped s @ filter (\<lambda>n. n \<noteq> stub_of queue) L
     \<and> (\<forall>t. push_at (cell (smem s)) L (\<lambda>n. n \<in> nodes) (producer s t))
     \<and> (\<forall>t u. t \<noteq> u \<longrightarrow> holds_node (producer s t) \<inter> holds_node (producer s u) = {})
     \<and> pop_at (stub_of queue) (cell (smem s)) L (consumer s)"

lemma list_offsets: "queue \<noteq> queue + 8" "stub_of queue \<noteq> queue" "stub_of queue \<noteq> queue + 8"
  by (simp_all add: stub_of_def)

lemma links_held: "(a, n) \<in> links_of pc \<Longrightarrow> n \<in> holds_node pc"
  by (cases pc) auto

lemma links_ok: "push_at h L ok pc \<Longrightarrow> (a, n) \<in> links_of pc \<Longrightarrow> ok n"
  by (cases pc) auto

lemma stub_links_ok: "pop_at stub h L c \<Longrightarrow> (a, n) \<in> stub_links c \<Longrightarrow> n = stub"
  using links_ok [of h L "\<lambda>n. n = stub" _ a n] by (cases c) auto

lemma push_at_held: "push_at h L ok pc \<Longrightarrow> n \<in> holds_node pc \<Longrightarrow> ok n"
  by (cases pc) auto

lemma push_at_frame:
  assumes "push_at h L ok pc" "\<forall>n\<in>holds_node pc. n \<notin> set L \<longrightarrow> n \<notin> set L' \<and> h' n = h n"
  shows "push_at h' L' ok pc"
  using assms by (cases pc) auto

lemma pop_at_frame:
  assumes "pop_at stub h L c" "L \<noteq> []" "hd L' = hd L"
    and "\<forall>a v. a \<in> set L \<and> h a = Some v \<and> v \<noteq> 0 \<longrightarrow> h' a = Some v"
    and "stub \<notin> set L \<longrightarrow> stub \<notin> set L' \<and> h' stub = h stub"
  shows "pop_at stub h' L' c"
proof (cases c)
  case (CStub tail pc)
  then show ?thesis using assms(1,3,5) push_at_frame [of h L "\<lambda>n. n = stub" pc L' h'] by (cases pc) auto
qed (use assms hd_in_set [OF assms(2)] in auto)

text \<open>The three steps of a push, whoever makes them.\<close>

lemma push_null:
  assumes "chain (cell m) L P" "n \<notin> set L" "cell m n \<noteq> None"
  shows "\<exists>m'. push_step queue m (PNull n) = Some (m', PSwap n) \<and> cell m' = (cell m)(n \<mapsto> 0) \<and> chain (cell m') L P"
proof -
  from assms(3) obtain u where "cell m n = Some u" by auto
  from cell_store [OF this, of 0] obtain m' where m': "store_word m n (0 :: ptr) = Some m'" "cell m' = (cell m)(n \<mapsto> 0)"
    by blast
  moreover have "chain (cell m') L P" by (rule chain_frame [OF assms(1)]) (use m'(2) assms(2) in auto)
  ultimately show ?thesis by simp
qed

lemma push_swap:
  assumes "chain (cell m) L P" "n \<notin> set L" "cell m n = Some 0" "cell m queue = Some (last L)" "queue \<notin> set L" "n \<noteq> queue"
  shows "\<exists>m'. push_step queue m (PSwap n) = Some (m', PLink (last L) n) \<and> cell m' = (cell m)(queue \<mapsto> n)
    \<and> chain (cell m') (L @ [n]) (insert (last L, n) P)"
proof -
  from exchange_cell [OF assms(4), of n] obtain m' where
    m': "AtomicExchangePtr TT_GCC m queue n = Some (last L, m')" "cell m' = (cell m)(queue \<mapsto> n)" by blast
  have "chain (cell m') L P" by (rule chain_frame [OF assms(1)]) (use m'(2) assms(5) in auto)
  then have "chain (cell m') (L @ [n]) (insert (last L, n) P)"
    by (rule chain_push) (use assms m'(2) in auto)
  with m' show ?thesis by simp
qed

lemma push_link:
  assumes "chain (cell m) L P" "(a, n) \<in> P"
  shows "\<exists>m'. push_step queue m (PLink a n) = Some (m', PDone) \<and> cell m' = (cell m)(a \<mapsto> n)
    \<and> chain (cell m') L (P - {(a, n)})"
proof -
  have "cell m a = Some 0" using chain_members(1) [OF assms] by simp
  from cell_store [OF this, of n] obtain m' where "store_word m a n = Some m'" "cell m' = (cell m)(a \<mapsto> n)" by blast
  with chain_link [OF assms] show ?thesis by auto
qed

definition others :: "list_sys \<Rightarrow> nat \<Rightarrow> (ptr \<times> ptr) set" where
  "others s t = (\<Union>u\<in>- {t}. links_of (producer s u)) \<union> stub_links (consumer s)"

lemma pending_split: "pending s = links_of (producer s t) \<union> others s t"
  by (auto simp: pending_def others_def)

lemma pending_update:
  "pending (s\<lparr>smem := m, producer := (producer s)(t := pc), pushed := xs\<rparr>) = links_of pc \<union> others s t"
  "pending (s\<lparr>producer := (producer s)(t := pc)\<rparr>) = links_of pc \<union> others s t"
  by (subst pending_split [of _ t], simp add: others_def)+

lemma list_invD:
  assumes "list_inv queue nodes L s" "list_place queue nodes"
  shows "chain (cell (smem s)) L (pending s)" "cell (smem s) queue = Some (last L)"
    "cell (smem s) (queue + 8) = Some (hd L)" "L \<noteq> []" "set L \<subseteq> insert (stub_of queue) nodes"
    "queue \<notin> set L" "queue + 8 \<notin> set L"
    "n \<in> insert (stub_of queue) nodes \<Longrightarrow> \<exists>v. cell (smem s) n = Some v"
    "pushed s = popped s @ filter (\<lambda>n. n \<noteq> stub_of queue) L"
    "push_at (cell (smem s)) L (\<lambda>n. n \<in> nodes) (producer s t)"
    "t \<noteq> u \<Longrightarrow> holds_node (producer s t) \<inter> holds_node (producer s u) = {}"
    "pop_at (stub_of queue) (cell (smem s)) L (consumer s)"
  using assms chain_nonempty [of "cell (smem s)" L "pending s"] list_offsets [of queue]
  unfolding list_inv_def list_place_def by auto

lemma others_link:
  assumes "list_inv queue nodes L s" "list_place queue nodes" "producer s t = PLink a n"
  shows "others s t = pending s - {(a, n)}"
proof -
  note d = list_invD [OF assms(1,2)]
  have "n \<in> nodes" using d(10) [of t] assms(3) by simp
  then have "(a, n) \<notin> stub_links (consumer s)"
    using stub_links_ok [OF d(12), of a n] assms(2) by (auto simp: list_place_def)
  moreover have "(a, n) \<notin> links_of (producer s u)" if "u \<noteq> t" for u
    using d(11) [OF that] assms(3) links_held [of a n "producer s u"] by auto
  ultimately have "(a, n) \<notin> others s t" by (auto simp: others_def)
  then show ?thesis using assms(3) by (auto simp: pending_split [of s t])
qed

lemma producer_push_inv:
  assumes "list_inv queue nodes L s" "list_place queue nodes" "node \<in> nodes"
    and "node \<notin> set (drop (length (popped s)) (pushed s))" "\<forall>u. node \<notin> holds_node (producer s u)" "producer s t = PDone"
  shows "list_inv queue nodes L (s\<lparr>producer := (producer s)(t := PNull node)\<rparr>)"
proof -
  note d = list_invD [OF assms(1,2)]
  have "node \<noteq> stub_of queue" using assms(2,3) by (auto simp: list_place_def)
  then have "node \<notin> set L" using assms(4) d(9) by auto
  moreover have "pending (s\<lparr>producer := (producer s)(t := PNull node)\<rparr>) = pending s"
    unfolding pending_update(2) using assms(6) by (simp add: pending_split [of s t])
  ultimately show ?thesis
    using assms(1,3,5) unfolding list_inv_def by auto
qed

text \<open>A step of a producer.\<close>

lemma producer_run_inv:
  assumes "list_inv queue nodes L s" "list_place queue nodes" "producer s t \<noteq> PDone"
  shows "\<exists>m' pc' L'. push_step queue (smem s) (producer s t) = Some (m', pc')
    \<and> list_inv queue nodes L' (s\<lparr>smem := m', producer := (producer s)(t := pc'),
      pushed := pushed s @ swapped (producer s t) pc'\<rparr>)"
proof -
  note d = list_invD [OF assms(1,2)]
  let ?h = "cell (smem s)" and ?ok = "\<lambda>n. n \<in> nodes"
  have disj: "n \<notin> holds_node (producer s u)" if "n \<in> holds_node (producer s t)" "u \<noteq> t" for n u
    using d(11) [of u t] that by auto
  have nodes: "n \<noteq> queue \<and> queue \<noteq> n \<and> n \<noteq> queue + 8 \<and> queue + 8 \<noteq> n \<and> n \<noteq> stub_of queue" if "n \<in> nodes" for n
    using assms(2) that by (auto simp: list_place_def)
  have held: "\<forall>u v. u \<noteq> v \<longrightarrow> holds_node (((producer s)(t := pc')) u) \<inter> holds_node (((producer s)(t := pc')) v) = {}"
    if "holds_node pc' \<subseteq> holds_node (producer s t)" for pc'
    using that d(11) by (auto split: if_splits)
  show ?thesis
  proof (cases "producer s t")
    case PDone
    with assms(3) show ?thesis by simp
  next
    case (PNull n)
    then have n: "n \<in> nodes" "n \<notin> set L" using d(10) [of t] by simp_all
    from push_null [OF d(1) n(2), of queue] d(8) [of n] n(1) obtain m' where
      m': "push_step queue (smem s) (PNull n) = Some (m', PSwap n)" "cell m' = ?h(n \<mapsto> 0)"
      "chain (cell m') L (pending s)" by auto
    let ?s = "s\<lparr>smem := m', producer := (producer s)(t := PSwap n), pushed := pushed s\<rparr>"
    have "push_at (cell m') L ?ok (((producer s)(t := PSwap n)) u)" for u
      using n m'(2) disj [of n u] PNull push_at_frame [OF d(10) [of u], of L "cell m'"] by auto
    moreover have "pop_at (stub_of queue) (cell m') L (consumer s)"
      by (rule pop_at_frame [OF d(12,4) refl]) (use m'(2) n nodes [of n] in auto)
    moreover have "pending ?s = pending s" unfolding pending_update using PNull by (simp add: pending_split [of s t])
    ultimately have "list_inv queue nodes L ?s"
      using m'(2,3) d(2,3,5,8,9) held [of "PSwap n"] PNull nodes [OF n(1)]
      unfolding list_inv_def by simp
    then show ?thesis using m'(1) PNull by auto
  next
    case (PSwap n)
    then have n: "n \<in> nodes" "n \<notin> set L" "?h n = Some 0" using d(10) [of t] by simp_all
    from push_swap [OF d(1) n(2,3) d(2,6)] nodes [OF n(1)] obtain m' where
      m': "push_step queue (smem s) (PSwap n) = Some (m', PLink (last L) n)" "cell m' = ?h(queue \<mapsto> n)"
      "chain (cell m') (L @ [n]) (insert (last L, n) (pending s))" by auto
    let ?s = "s\<lparr>smem := m', producer := (producer s)(t := PLink (last L) n), pushed := pushed s @ [n]\<rparr>"
    have "push_at (cell m') (L @ [n]) ?ok (((producer s)(t := PLink (last L) n)) u)" for u
    proof (cases "u = t")
      case False
      then have "k \<noteq> n \<and> k \<noteq> queue" if "k \<in> holds_node (producer s u)" for k
        using disj [of n u] PSwap that nodes push_at_held [OF d(10) that] by auto
      then have "push_at (cell m') (L @ [n]) ?ok (producer s u)"
        by (intro push_at_frame [OF d(10)]) (simp add: m'(2))
      then show ?thesis using False by simp
    qed (use n in simp)
    moreover have "pop_at (stub_of queue) (cell m') (L @ [n]) (consumer s)"
      by (rule pop_at_frame [OF d(12,4)]) (use m'(2) n nodes [of n] d(4,6) list_offsets in auto)
    moreover have "pending ?s = insert (last L, n) (pending s)"
      unfolding pending_update using PSwap by (simp add: pending_split [of s t])
    ultimately have "list_inv queue nodes (L @ [n]) ?s"
      using m'(2,3) d(3,4,5,8,9) n held [of "PLink (last L) n"] PSwap nodes [OF n(1)] list_offsets
      unfolding list_inv_def by simp
    then show ?thesis using m'(1) PSwap by auto
  next
    case (PLink a n)
    then have n: "n \<in> nodes" "(a, n) \<in> pending s" using d(10) [of t] by (simp_all add: pending_split [of s t])
    from push_link [OF d(1) n(2), of queue] obtain m' where
      m': "push_step queue (smem s) (PLink a n) = Some (m', PDone)" "cell m' = ?h(a \<mapsto> n)"
      "chain (cell m') L (pending s - {(a, n)})" by auto
    have a: "a \<in> set L" "?h a = Some 0" using chain_members(1) [OF d(1) n(2)] by simp_all
    let ?s = "s\<lparr>smem := m', producer := (producer s)(t := PDone), pushed := pushed s\<rparr>"
    have "push_at (cell m') L ?ok (((producer s)(t := PDone)) u)" for u
      using push_at_frame [OF d(10) [of u], of L "cell m'"] m'(2) a(1) by auto
    moreover have "pop_at (stub_of queue) (cell m') L (consumer s)"
      by (rule pop_at_frame [OF d(12,4) refl]) (use m'(2) a in auto)
    moreover have "pending ?s = pending s - {(a, n)}"
      unfolding pending_update using others_link [OF assms(1,2) PLink] by simp
    ultimately have "list_inv queue nodes L ?s"
      using m'(2,3) d(2,3,5,6,7,8,9) held [of PDone] a
      unfolding list_inv_def by auto
    then show ?thesis using m'(1) PLink by auto
  qed
qed


text \<open>The consumer moves without writing, or takes the first node off the chain.\<close>

lemma same_mem: "s\<lparr>smem := smem s, consumer := c, popped := xs\<rparr> = s\<lparr>consumer := c, popped := xs\<rparr>"
  by simp

lemma consumer_pc_inv:
  assumes "list_inv queue nodes L s" "stub_links pc' = stub_links (consumer s)"
    and "pop_at (stub_of queue) (cell (smem s)) L pc'" "taken pc' = []"
  shows "list_inv queue nodes L (s\<lparr>consumer := pc', popped := popped s @ taken pc'\<rparr>)"
  using assms by (simp add: list_inv_def pending_def)

lemma consumer_tail_inv:
  assumes "list_inv queue nodes L s" "list_place queue nodes" "cell (smem s) (hd L) = Some b" "b \<noteq> 0"
    and "stub_links (consumer s) = {}"
  obtains m' L' where "store_word (smem s) (queue + 8) b = Some m'" "L = hd L # b # L'"
    "cell m' = (cell (smem s))(queue + 8 \<mapsto> b)"
    "\<forall>pc'. stub_links pc' = {} \<and> pop_at (stub_of queue) (cell m') (b # L') pc' \<and>
      taken pc' = (if hd L = stub_of queue then [] else [hd L]) \<longrightarrow>
      list_inv queue nodes (b # L') (s\<lparr>smem := m', consumer := pc', popped := popped s @ taken pc'\<rparr>)"
proof -
  note d = list_invD [OF assms(1,2)]
  from chain_hd [OF d(1) assms(3,4)] obtain L' where L': "L = hd L # b # L'" .
  from cell_store [OF d(3), of b] obtain m' where
    m': "store_word (smem s) (queue + 8) b = Some m'" "cell m' = (cell (smem s))(queue + 8 \<mapsto> b)" by blast
  have "chain (cell (smem s)) (b # L') (pending s)"
    using chain_pop [of "cell (smem s)" "hd L" b L' "pending s"] d(1) assms(3,4) L' by simp
  then have c: "chain (cell m') (b # L') (pending s)"
    by (rule chain_frame) (use m'(2) d(7) L' in \<open>auto dest: arg_cong [of L _ set]\<close>)
  have p: "push_at (cell m') (b # L') (\<lambda>n. n \<in> nodes) (producer s t)" for t
  proof (rule push_at_frame [OF d(10)], intro ballI impI conjI)
    fix n assume n: "n \<in> holds_node (producer s t)" "n \<notin> set L"
    then show "n \<notin> set (b # L')" using arg_cong [OF L', of set] by auto
    have "n \<in> nodes" by (rule push_at_held [OF d(10) n(1)])
    then show "cell m' n = cell (smem s) n" using assms(2) m'(2) by (auto simp: list_place_def)
  qed
  have "list_inv queue nodes (b # L') (s\<lparr>smem := m', consumer := pc', popped := popped s @ taken pc'\<rparr>)"
    if pc: "stub_links pc' = {}" "pop_at (stub_of queue) (cell m') (b # L') pc'"
      "taken pc' = (if hd L = stub_of queue then [] else [hd L])" for pc'
  proof -
    have "filter (\<lambda>n. n \<noteq> stub_of queue) L = taken pc' @ filter (\<lambda>n. n \<noteq> stub_of queue) (b # L')"
      by (subst L') (simp add: pc(3))
    moreover have "last L = last (b # L')" "set (b # L') \<subseteq> set L"
      using arg_cong [OF L', of last] arg_cong [OF L', of set] by auto
    ultimately show ?thesis
      using c p pc(1,2) m'(2) d(2,5,8,9,11) assms(5) list_offsets [of queue]
      unfolding list_inv_def by (auto simp: pending_def)
  qed
  with m' L' show ?thesis using that by blast
qed

text \<open>The consumer putting the stub back.\<close>

lemma pending_consumer:
  "pending (s\<lparr>smem := m, consumer := CStub tail pc\<rparr>) = (\<Union>t. links_of (producer s t)) \<union> links_of pc"
  by (simp add: pending_def)

lemma consumer_link:
  assumes "list_inv queue nodes L s" "list_place queue nodes" "consumer s = CStub tail (PLink a n)"
  shows "(\<Union>t. links_of (producer s t)) = pending s - {(a, n)}"
proof -
  note d = list_invD [OF assms(1,2)]
  have "n = stub_of queue" using d(12) assms(3) by simp
  then have "(a, n) \<notin> links_of (producer s t)" for t
    using links_ok [OF d(10), of a n t] assms(2) by (auto simp: list_place_def)
  then show ?thesis using assms(3) by (auto simp: pending_def)
qed

lemma consumer_stub_inv:
  assumes "list_inv queue nodes L s" "list_place queue nodes" "consumer s = CStub tail pc" "pc \<noteq> PDone"
  shows "\<exists>m' pc' L'. push_step queue (smem s) pc = Some (m', pc')
    \<and> list_inv queue nodes L' (s\<lparr>smem := m', consumer := CStub tail pc'\<rparr>)"
proof -
  note d = list_invD [OF assms(1,2)]
  let ?h = "cell (smem s)" and ?stub = "stub_of queue" and ?ok = "\<lambda>n. n \<in> nodes"
  have held: "n \<noteq> queue \<and> n \<noteq> ?stub" if "n \<in> holds_node (producer s t)" for n t
    using push_at_held [OF d(10) that] assms(2) by (auto simp: list_place_def)
  have stub: "?stub \<noteq> queue" "queue \<noteq> ?stub" "queue + 8 \<noteq> ?stub" using list_offsets [of queue] by auto
  show ?thesis
  proof (cases pc)
    case PDone
    with assms(4) show ?thesis by simp
  next
    case (PNull n)
    then have n: "n = ?stub" "n \<notin> set L" "hd L = tail" "tail \<noteq> ?stub" using d(12) assms(3) by auto
    from push_null [OF d(1) n(2), of queue] d(8) [of n] n(1) obtain m' where
      m': "push_step queue (smem s) (PNull n) = Some (m', PSwap n)" "cell m' = ?h(n \<mapsto> 0)"
      "chain (cell m') L (pending s)" by auto
    have "push_at (cell m') L ?ok (producer s u)" for u
      by (rule push_at_frame [OF d(10)]) (use m'(2) held n(1) in auto)
    then have "list_inv queue nodes L (s\<lparr>smem := m', consumer := CStub tail (PSwap n)\<rparr>)"
      using m'(2,3) d(2,3,5,8,9,11) n stub assms(3) PNull
      unfolding list_inv_def pending_consumer by (simp add: pending_def)
    then show ?thesis using m'(1) PNull by blast
  next
    case (PSwap n)
    then have n: "n = ?stub" "n \<notin> set L" "?h n = Some 0" "hd L = tail" "tail \<noteq> ?stub" using d(12) assms(3) by auto
    from push_swap [OF d(1) n(2,3) d(2,6)] n(1) stub obtain m' where
      m': "push_step queue (smem s) (PSwap n) = Some (m', PLink (last L) n)" "cell m' = ?h(queue \<mapsto> n)"
      "chain (cell m') (L @ [n]) (insert (last L, n) (pending s))" by auto
    have "push_at (cell m') (L @ [n]) ?ok (producer s u)" for u
      by (rule push_at_frame [OF d(10)]) (use m'(2) held n(1) in auto)
    then have "list_inv queue nodes (L @ [n]) (s\<lparr>smem := m', consumer := CStub tail (PLink (last L) n)\<rparr>)"
      using m'(2,3) d(3,4,5,8,9,11) n stub assms(3) PSwap
      unfolding list_inv_def pending_consumer by (simp add: pending_def)
    then show ?thesis using m'(1) PSwap by blast
  next
    case (PLink a n)
    then have n: "n = ?stub" "(a, n) \<in> pending s" "hd L = tail" "tail \<noteq> ?stub"
      using d(12) assms(3) by (auto simp: pending_def)
    from push_link [OF d(1) n(2), of queue] obtain m' where
      m': "push_step queue (smem s) (PLink a n) = Some (m', PDone)" "cell m' = ?h(a \<mapsto> n)"
      "chain (cell m') L (pending s - {(a, n)})" by auto
    have a: "a \<in> set L" using chain_members(1) [OF d(1) n(2)] by simp
    have "push_at (cell m') L ?ok (producer s u)" for u
      by (rule push_at_frame [OF d(10)]) (use m'(2) a in auto)
    then have "list_inv queue nodes L (s\<lparr>smem := m', consumer := CStub tail PDone\<rparr>)"
      using m'(2,3) d(2,3,5,6,7,8,9,11) n a consumer_link [OF assms(1,2) assms(3) [unfolded PLink]]
      unfolding list_inv_def pending_consumer by auto
    then show ?thesis using m'(1) PLink by blast
  qed
qed

lemma consumer_run_inv:
  assumes "list_inv queue nodes L s" "list_place queue nodes" "\<forall>r. consumer s \<noteq> CDone r"
  shows "\<exists>m' pc' L'. pop_step queue (smem s) (consumer s) = Some (m', pc')
    \<and> list_inv queue nodes L' (s\<lparr>smem := m', consumer := pc', popped := popped s @ taken pc'\<rparr>)"
proof -
  note d = list_invD [OF assms(1,2)]
  have hd: "hd L \<in> set L" "hd L \<noteq> 0" using d(4,5) assms(2) by (auto simp: list_place_def dest: hd_in_set)
  then obtain v where v: "cell (smem s) (hd L) = Some v" using chain_members(2) [OF d(1)] by blast
  have vs: "hd L = stub_of queue \<Longrightarrow> cell (smem s) (stub_of queue) = Some v" using v by metis
  show ?thesis
  proof (cases "consumer s")
    case (CDone r)
    with assms(3) show ?thesis by simp
  next
    case CCall
    let ?pc = "if hd L = stub_of queue then if v = 0 then CDone 0 else CSkip v else CTest (hd L) v"
    have "pop_step queue (smem s) CCall = Some (smem s, ?pc)"
      using cell_load [OF d(3)] cell_load [OF v] by simp
    moreover have "list_inv queue nodes L (s\<lparr>consumer := ?pc, popped := popped s @ taken ?pc\<rparr>)"
      by (rule consumer_pc_inv [OF assms(1)]) (simp_all add: CCall v vs)
    ultimately show ?thesis unfolding CCall same_mem [where s = s, symmetric] by blast
  next
    case (CSkip nx)
    then have n: "cell (smem s) (hd L) = Some nx" "nx \<noteq> 0" "hd L = stub_of queue" using d(12) by auto
    from CSkip have "stub_links (consumer s) = {}" by simp
    from consumer_tail_inv [OF assms(1,2) n(1,2) this] obtain m' L' where
      m': "store_word (smem s) (queue + 8) nx = Some m'" "L = hd L # nx # L'"
      "cell m' = (cell (smem s))(queue + 8 \<mapsto> nx)"
      "\<forall>pc'. stub_links pc' = {} \<and> pop_at (stub_of queue) (cell m') (nx # L') pc' \<and>
      taken pc' = (if hd L = stub_of queue then [] else [hd L]) \<longrightarrow>
      list_inv queue nodes (nx # L') (s\<lparr>smem := m', consumer := pc', popped := popped s @ taken pc'\<rparr>)" .
    have "nx \<in> set L" "nx \<noteq> hd L"
      using m'(2) d(1) by (metis list.set_intros(1,2), metis chain_def distinct_length_2_or_more)
    then obtain w where w: "cell m' nx = Some w" using chain_members(2) [OF d(1), of nx] m'(3) by (cases "nx = queue + 8") auto
    then have "pop_step queue (smem s) (CSkip nx) = Some (m', CTest nx w)"
      using m'(1) cell_load [OF w] by simp
    then show ?thesis using spec [OF m'(4), of "CTest nx w"] w n(3) \<open>nx \<noteq> hd L\<close> CSkip by auto
  next
    case (CTest tail nx)
    then have t: "hd L = tail" "tail \<noteq> stub_of queue" "nx \<noteq> 0 \<Longrightarrow> cell (smem s) tail = Some nx" using d(12) by auto
    show ?thesis
    proof (cases "nx = 0")
      case False
      from CTest have "stub_links (consumer s) = {}" by simp
      from consumer_tail_inv [OF assms(1,2) _ False this] t(1) t(3) [OF False] obtain m' L' where
        m': "store_word (smem s) (queue + 8) nx = Some m'"
        "\<forall>pc'. stub_links pc' = {} \<and> pop_at (stub_of queue) (cell m') (nx # L') pc' \<and>
      taken pc' = (if hd L = stub_of queue then [] else [hd L]) \<longrightarrow>
        list_inv queue nodes (nx # L') (s\<lparr>smem := m', consumer := pc', popped := popped s @ taken pc'\<rparr>)" by blast
      then show ?thesis using spec [OF m'(2), of "CDone tail"] t hd(2) False CTest by (auto intro: exI [of _ "nx # L'"])
    next
      case True
      let ?pc = "if tail \<noteq> last L then CDone 0 else CStub tail (PNull (stub_of queue))"
      have "pop_step queue (smem s) (CTest tail nx) = Some (smem s, ?pc)"
        using cell_load [OF d(2)] True by simp
      moreover have "stub_of queue \<notin> set L" if "tail = last L"
        using chain_single [OF d(1)] t(1,2) that by (metis empty_iff empty_set set_ConsD)
      then have "list_inv queue nodes L (s\<lparr>consumer := ?pc, popped := popped s @ taken ?pc\<rparr>)"
        by (intro consumer_pc_inv [OF assms(1)]) (use CTest t in auto)
      ultimately show ?thesis unfolding CTest same_mem [where s = s, symmetric] by blast
    qed
  next
    case (CStub tail pc)
    show ?thesis
    proof (cases "pc = PDone")
      case True
      have "list_inv queue nodes L (s\<lparr>consumer := CLast tail, popped := popped s @ taken (CLast tail)\<rparr>)"
        by (rule consumer_pc_inv [OF assms(1)]) (use CStub True d(12) in auto)
      then show ?thesis using CStub True by (auto intro!: exI [of _ L])
    next
      case False
      from consumer_stub_inv [OF assms(1,2) CStub False] show ?thesis using CStub False by auto
    qed
  next
    case (CLast tail)
    then have t: "hd L = tail" "tail \<noteq> stub_of queue" using d(12) by auto
    show ?thesis
    proof (cases "v = 0")
      case False
      from CLast have "stub_links (consumer s) = {}" by simp
      from consumer_tail_inv [OF assms(1,2) v False this] obtain m' L' where
        m': "store_word (smem s) (queue + 8) v = Some m'"
        "\<forall>pc'. stub_links pc' = {} \<and> pop_at (stub_of queue) (cell m') (v # L') pc' \<and>
      taken pc' = (if hd L = stub_of queue then [] else [hd L]) \<longrightarrow>
        list_inv queue nodes (v # L') (s\<lparr>smem := m', consumer := pc', popped := popped s @ taken pc'\<rparr>)" by blast
      then show ?thesis using spec [OF m'(2), of "CDone tail"] t hd(2) False CLast cell_load [OF v] by (auto intro: exI [of _ "v # L'"])
    next
      case True
      have "list_inv queue nodes L (s\<lparr>consumer := CDone 0, popped := popped s @ taken (CDone 0)\<rparr>)"
        by (rule consumer_pc_inv [OF assms(1)]) (use CLast in auto)
      then show ?thesis using CLast cell_load [OF v] True t by (auto intro!: exI [of _ L])
    qed
  qed
qed


section \<open>Every interleaving\<close>

text \<open>
  A structure and nodes that can be used, the link of the stub null: memory that has been zeroed. \<open>InitMPSCFreeList\<close>
  does not clear that link, so this is a condition on the memory before it.
\<close>

definition list_ready :: "mem \<Rightarrow> ptr \<Rightarrow> ptr set \<Rightarrow> bool" where
  "list_ready m queue nodes \<longleftrightarrow> list_place queue nodes \<and> cell m (stub_of queue) = Some 0
     \<and> (\<forall>n\<in>insert queue (insert (queue + 8) nodes). cell m n \<noteq> None)"

lemma list_next_inv:
  assumes "list_next queue nodes s s'" "list_inv queue nodes L s" "list_place queue nodes"
  shows "\<exists>L'. list_inv queue nodes L' s'"
  using assms(1)
proof cases
  case (call_push t node)
  then show ?thesis using producer_push_inv [OF assms(2,3)] by metis
next
  case (run_push t m' pc')
  then have "producer s t \<noteq> PDone" by auto
  from producer_run_inv [OF assms(2,3) this] run_push show ?thesis by auto
next
  case (call_pop r)
  then show ?thesis using consumer_pc_inv [OF assms(2), of CCall] by auto
next
  case (run_pop m' pc')
  then have "\<forall>r. consumer s \<noteq> CDone r" by auto
  from consumer_run_inv [OF assms(2,3) this] run_pop show ?thesis by auto
qed

lemma InitMPSCFreeList_cells:
  assumes "cell m queue \<noteq> None" "cell m (queue + 8) \<noteq> None"
  shows "\<exists>m'. InitMPSCFreeList m queue = Some m'
    \<and> cell m' = (cell m)(queue \<mapsto> stub_of queue, queue + 8 \<mapsto> stub_of queue)"
proof -
  from assms(1) obtain u where "cell m queue = Some u" by auto
  from cell_store [OF this] obtain m1 where
    m1: "store_word m queue (stub_of queue) = Some m1" "cell m1 = (cell m)(queue \<mapsto> stub_of queue)" by blast
  moreover from this assms(2) obtain v where "cell m1 (queue + 8) = Some v" by auto
  from cell_store [OF this] obtain m2 where
    "store_word m1 (queue + 8) (stub_of queue) = Some m2" "cell m2 = (cell m1)(queue + 8 \<mapsto> stub_of queue)" by blast
  ultimately show ?thesis by (simp add: InitMPSCFreeList_def)
qed

lemma list_start_inv:
  assumes "list_ready m queue nodes"
  shows "\<exists>m'. InitMPSCFreeList m queue = Some m' \<and> list_inv queue nodes [stub_of queue] (list_start m')"
proof -
  have "cell m queue \<noteq> None" "cell m (queue + 8) \<noteq> None" using assms by (simp_all add: list_ready_def)
  from InitMPSCFreeList_cells [OF this] obtain m' where
    m': "InitMPSCFreeList m queue = Some m'"
    "cell m' = (cell m)(queue \<mapsto> stub_of queue, queue + 8 \<mapsto> stub_of queue)" by blast
  have "chain (cell m') [stub_of queue] {}"
    using m'(2) assms list_offsets [of queue] by (intro chain_start) (simp add: list_ready_def)
  then have "list_inv queue nodes [stub_of queue] (list_start m')"
    using m'(2) assms list_offsets [of queue]
    by (auto simp: list_inv_def list_start_def pending_def list_ready_def)
  with m'(1) show ?thesis by blast
qed

lemma list_reach_inv:
  assumes "list_inv queue nodes L (list_start m)" "list_place queue nodes" "list_reach queue nodes m s"
  shows "\<exists>L. list_inv queue nodes L s"
  using assms(3) unfolding list_reach_def
proof induction
  case base
  then show ?case using assms(1) by blast
next
  case (step s s')
  then show ?case using list_next_inv [OF step(2) _ assms(2)] by blast
qed

text \<open>
  C1: any number of threads push nodes, one thread pops. Under every interleaving of their accesses
  to memory, the nodes popped are the first ones whose exchange has been made, in that order, no
  node is in the list twice, and no access is undefined: a thread in the middle of a call can always
  take its next step.
\<close>

theorem MPSCFreeList_fifo:
  assumes "list_ready m queue nodes"
  shows "\<exists>m'. InitMPSCFreeList m queue = Some m' \<and> (\<forall>s. list_reach queue nodes m' s \<longrightarrow>
    popped s = take (length (popped s)) (pushed s)
    \<and> distinct (drop (length (popped s)) (pushed s)) \<and> set (drop (length (popped s)) (pushed s)) \<subseteq> nodes
    \<and> (\<forall>t. producer s t \<noteq> PDone \<longrightarrow> push_step queue (smem s) (producer s t) \<noteq> None)
    \<and> ((\<forall>r. consumer s \<noteq> CDone r) \<longrightarrow> pop_step queue (smem s) (consumer s) \<noteq> None))"
proof -
  from list_start_inv [OF assms] obtain m' where
    m': "InitMPSCFreeList m queue = Some m'" "list_inv queue nodes [stub_of queue] (list_start m')" by blast
  have pl: "list_place queue nodes" using assms by (simp add: list_ready_def)
  have "popped s = take (length (popped s)) (pushed s)
    \<and> distinct (drop (length (popped s)) (pushed s)) \<and> set (drop (length (popped s)) (pushed s)) \<subseteq> nodes
    \<and> (\<forall>t. producer s t \<noteq> PDone \<longrightarrow> push_step queue (smem s) (producer s t) \<noteq> None)
    \<and> ((\<forall>r. consumer s \<noteq> CDone r) \<longrightarrow> pop_step queue (smem s) (consumer s) \<noteq> None)"
    if "list_reach queue nodes m' s" for s
  proof -
    from list_reach_inv [OF m'(2) pl that] obtain L where L: "list_inv queue nodes L s" by blast
    note d = list_invD [OF L pl]
    have "distinct L" using d(1) by (simp add: chain_def)
    then show ?thesis using d(5,9) producer_run_inv [OF L pl] consumer_run_inv [OF L pl] by fastforce
  qed
  with m'(1) show ?thesis by blast
qed


section \<open>Calls that are not interleaved\<close>

definition free_list :: "ptr \<Rightarrow> ptr set \<Rightarrow> mem \<Rightarrow> ptr list \<Rightarrow> bool" where
  "free_list queue nodes m xs \<longleftrightarrow> (\<exists>L. chain (cell m) L {}
     \<and> cell m queue = Some (last L) \<and> cell m (queue + 8) = Some (hd L)
     \<and> set L \<subseteq> insert (stub_of queue) nodes \<and> (\<forall>n\<in>insert (stub_of queue) nodes. cell m n \<noteq> None)
     \<and> xs = filter (\<lambda>n. n \<noteq> stub_of queue) L)"

lemma push_alone:
  assumes "chain (cell m) L {}" "n \<notin> set L" "cell m n \<noteq> None" "cell m queue = Some (last L)" "queue \<notin> set L" "n \<noteq> queue"
  obtains m' where "MPSCFreeListPush TT_GCC m queue n = Some m'" "chain (cell m') (L @ [n]) {}"
    "cell m' = (cell m)(n \<mapsto> 0, queue \<mapsto> n, last L \<mapsto> n)"
proof -
  from push_null [OF assms(1-3), of queue] obtain m1 where
    m1: "push_step queue m (PNull n) = Some (m1, PSwap n)" "cell m1 = (cell m)(n \<mapsto> 0)" "chain (cell m1) L {}" by blast
  from push_swap [OF m1(3) assms(2), of queue] m1(2) assms(4-6) obtain m2 where
    m2: "push_step queue m1 (PSwap n) = Some (m2, PLink (last L) n)" "cell m2 = (cell m1)(queue \<mapsto> n)"
    "chain (cell m2) (L @ [n]) (insert (last L, n) {})" by auto
  from push_link [OF m2(3), of "last L" n queue] obtain m3 where
    m3: "push_step queue m2 (PLink (last L) n) = Some (m3, PDone)" "cell m3 = (cell m2)(last L \<mapsto> n)"
    "chain (cell m3) (L @ [n]) {}" by auto
  have "MPSCFreeListPush TT_GCC m queue n = Some m3"
    using m1(1) m2(1) m3(1) by (auto simp: MPSCFreeListPush_def bind_eq_Some_conv)
  then show ?thesis using that m1(2) m2(2) m3(2,3) by simp
qed

text \<open>The second half of \<open>MPSCFreeListPop\<close>, from the test of \<open>Next\<close> on.\<close>

definition pop_rest :: "compiler \<Rightarrow> mem \<Rightarrow> ptr \<Rightarrow> ptr \<Rightarrow> ptr \<Rightarrow> (ptr \<times> mem) option" where
  "pop_rest cc m queue tail next =
     (if next \<noteq> 0 then do { m \<leftarrow> store_word m (queue + 8) next; Some (tail, m) }
      else do {
        head \<leftarrow> load_word m queue;
        if tail \<noteq> head then Some (0, m)
        else do {
          m \<leftarrow> MPSCFreeListPush cc m queue (stub_of queue);
          next \<leftarrow> (load_word m tail :: ptr option);
          if next \<noteq> 0 then do { m \<leftarrow> store_word m (queue + 8) next; Some (tail, m) } else Some (0, m)
        }
      })"

lemma MPSCFreeListPop_unfold:
  "load_word m (queue + 8) = Some tail \<Longrightarrow> load_word m tail = Some next \<Longrightarrow> tail \<noteq> stub_of queue \<Longrightarrow>
     MPSCFreeListPop cc m queue = pop_rest cc m queue tail next"
  "load_word m (queue + 8) = Some (stub_of queue) \<Longrightarrow> load_word m (stub_of queue) = Some (0 :: ptr) \<Longrightarrow>
     MPSCFreeListPop cc m queue = Some (0, m)"
  "load_word m (queue + 8) = Some (stub_of queue) \<Longrightarrow> load_word m (stub_of queue) = Some next \<Longrightarrow> next \<noteq> 0 \<Longrightarrow>
     store_word m (queue + 8) next = Some m' \<Longrightarrow> load_word m' next = Some next' \<Longrightarrow>
     MPSCFreeListPop cc m queue = pop_rest cc m' queue next next'"
  by (simp_all add: MPSCFreeListPop_def pop_rest_def)

lemma pop_rest_refines:
  assumes "chain (cell m) (a # L) {}" "a \<noteq> stub_of queue" "set (a # L) \<subseteq> insert (stub_of queue) nodes"
    and "list_place queue nodes" "cell m queue = Some (last (a # L))" "cell m (queue + 8) \<noteq> None" "cell m a = Some v"
    and "\<forall>n\<in>insert (stub_of queue) nodes. cell m n \<noteq> None"
  shows "\<exists>m'. pop_rest TT_GCC m queue a v = Some (a, m') \<and> free_list queue nodes m' (filter (\<lambda>n. n \<noteq> stub_of queue) L)"
proof -
  have nodes: "queue \<notin> set (a # L)" "queue + 8 \<notin> set (a # L)" "0 \<notin> set (a # L)"
    using assms(3,4) list_offsets [of queue] by (auto simp: list_place_def)
  show ?thesis
  proof (cases L)
    case (Cons b L')
    have "v = b" using chain_next [of "cell m" a b L' "{}"] assms(1,7) Cons by simp
    moreover have "b \<noteq> 0" using nodes(3) Cons by auto
    ultimately have v: "v = b" "v \<noteq> 0" by simp_all
    from assms(6) obtain u where "cell m (queue + 8) = Some u" by auto
    from cell_store [OF this, of b] obtain m' where
      m': "store_word m (queue + 8) b = Some m'" "cell m' = (cell m)(queue + 8 \<mapsto> b)" by blast
    have "chain (cell m) L {}" using chain_pop [of "cell m" a b L' "{}"] assms(1,7) Cons v by simp
    then have "chain (cell m') L {}" by (rule chain_frame) (use m'(2) nodes(2) in auto)
    then have "free_list queue nodes m' (filter (\<lambda>n. n \<noteq> stub_of queue) L)"
      unfolding free_list_def using m'(2) assms(3,5,8) Cons list_offsets(1) [of queue] by (intro exI [of _ L]) auto
    then show ?thesis using m'(1) v by (simp add: pop_rest_def)
  next
    case Nil
    then have v: "v = 0" using assms(1,7) by (simp add: chain_def)
    have st: "stub_of queue \<noteq> queue" "stub_of queue \<noteq> queue + 8" "stub_of queue \<noteq> 0"
      using assms(4) list_offsets [of queue] by (simp_all add: list_place_def)
    from push_alone [of m "[a]" "stub_of queue" queue] assms nodes Nil st obtain m1 where
      m1: "MPSCFreeListPush TT_GCC m queue (stub_of queue) = Some m1" "chain (cell m1) [a, stub_of queue] {}"
      "cell m1 = (cell m)(stub_of queue \<mapsto> 0, queue \<mapsto> stub_of queue, a \<mapsto> stub_of queue)" by auto
    have a: "cell m1 a = Some (stub_of queue)" using m1(3) by simp
    obtain u where "cell m1 (queue + 8) = Some u" using m1(3) assms(6) nodes(2) st list_offsets [of queue] by auto
    from cell_store [OF this, of "stub_of queue"] obtain m' where
      m': "store_word m1 (queue + 8) (stub_of queue) = Some m'" "cell m' = (cell m1)(queue + 8 \<mapsto> stub_of queue)" by blast
    have "chain (cell m1) [stub_of queue] {}" using chain_pop [OF m1(2) a st(3)] .
    then have "chain (cell m') [stub_of queue] {}" by (rule chain_frame) (use m'(2) st(2) in auto)
    then have "free_list queue nodes m' []"
      unfolding free_list_def using m'(2) m1(3) assms(2,8) nodes st by (intro exI [of _ "[stub_of queue]"]) auto
    moreover have "load_word m queue = Some a" using assms(5) Nil by (intro cell_load) simp
    ultimately show ?thesis using m1(1) m'(1) cell_load [OF a] v st(3) Nil by (simp add: pop_rest_def)
  qed
qed


lemma free_listE:
  assumes "free_list queue nodes m xs" "list_place queue nodes"
  obtains L where "chain (cell m) L {}" "cell m queue = Some (last L)" "cell m (queue + 8) = Some (hd L)"
    "set L \<subseteq> insert (stub_of queue) nodes" "xs = filter (\<lambda>n. n \<noteq> stub_of queue) L"
    "\<forall>n\<in>insert (stub_of queue) nodes. cell m n \<noteq> None"
    "L \<noteq> []" "queue \<notin> set L" "queue + 8 \<notin> set L" "0 \<notin> set L"
proof -
  from assms(1) obtain L where
    L: "chain (cell m) L {}" "cell m queue = Some (last L)" "cell m (queue + 8) = Some (hd L)"
    "set L \<subseteq> insert (stub_of queue) nodes" "xs = filter (\<lambda>n. n \<noteq> stub_of queue) L"
    "\<forall>n\<in>insert (stub_of queue) nodes. cell m n \<noteq> None" unfolding free_list_def by blast
  show ?thesis
    by (rule that [OF L]) (use L(4) chain_nonempty [OF L(1)] assms(2) list_offsets [of queue] in \<open>auto simp: list_place_def\<close>)
qed

lemma MPSCFreeListPush_refines:
  assumes "list_place queue nodes" "free_list queue nodes m xs" "node \<in> nodes" "node \<notin> set xs"
  shows "\<exists>m'. MPSCFreeListPush TT_GCC m queue node = Some m' \<and> free_list queue nodes m' (xs @ [node])"
proof -
  from free_listE [OF assms(2,1)] obtain L where
    L: "chain (cell m) L {}" "cell m queue = Some (last L)" "cell m (queue + 8) = Some (hd L)"
    "set L \<subseteq> insert (stub_of queue) nodes" "xs = filter (\<lambda>n. n \<noteq> stub_of queue) L"
    and r: "\<forall>n\<in>insert (stub_of queue) nodes. cell m n \<noteq> None"
    and st: "L \<noteq> []" "queue \<notin> set L" "queue + 8 \<notin> set L" by metis
  have n: "node \<notin> set L" "node \<noteq> queue" "node \<noteq> queue + 8" "node \<noteq> stub_of queue"
    using assms(1,3,4) L(5) by (auto simp: list_place_def)
  have "cell m node \<noteq> None" using r assms(3) by blast
  from push_alone [OF L(1) n(1) this L(2) st(2) n(2)] obtain m' where
    m': "MPSCFreeListPush TT_GCC m queue node = Some m'" "chain (cell m') (L @ [node]) {}"
    "cell m' = (cell m)(node \<mapsto> 0, queue \<mapsto> node, last L \<mapsto> node)" .
  have "last L \<noteq> queue" "last L \<noteq> queue + 8" using st last_in_set by metis+
  then have "free_list queue nodes m' (xs @ [node])"
    unfolding free_list_def m'(3) using m'(2,3) L(3,4,5) r assms(3) n st(1) list_offsets [of queue]
    by (intro exI [of _ "L @ [node]"]) auto
  with m'(1) show ?thesis by blast
qed

lemma MPSCFreeListPop_refines:
  assumes "list_place queue nodes" "free_list queue nodes m xs"
  shows "\<exists>m'. MPSCFreeListPop TT_GCC m queue = Some (case xs of [] \<Rightarrow> 0 | x # _ \<Rightarrow> x, m')
    \<and> free_list queue nodes m' (tl xs)"
proof -
  let ?stub = "stub_of queue"
  from free_listE [OF assms(2,1)] obtain K where
    K: "chain (cell m) K {}" "cell m queue = Some (last K)" "cell m (queue + 8) = Some (hd K)"
    "set K \<subseteq> insert ?stub nodes" "xs = filter (\<lambda>n. n \<noteq> ?stub) K"
    and r: "\<forall>n\<in>insert ?stub nodes. cell m n \<noteq> None"
    and k: "K \<noteq> []" "queue \<notin> set K" "queue + 8 \<notin> set K" "0 \<notin> set K" .
  from k(1) obtain a L where aL: "K = a # L" by (cases K) auto
  note L = K(1,2) [unfolded aL] K(3) [unfolded aL list.sel] K(4,5) [unfolded aL] and st = k(2-4) [unfolded aL]
  obtain v where v: "cell m a = Some v" using chain_members(2) [OF L(1), of a] by auto
  consider "a \<noteq> ?stub" | "a = ?stub" "L = []" | b L' where "a = ?stub" "L = b # L'" by (cases L) auto
  then show ?thesis
  proof cases
    case 1
    have "MPSCFreeListPop TT_GCC m queue = pop_rest TT_GCC m queue a v"
      by (rule MPSCFreeListPop_unfold(1) [OF cell_load [OF L(3)] cell_load [OF v] 1])
    then show ?thesis using pop_rest_refines [OF L(1) 1 L(4) assms(1) L(2) _ v r] L(3,5) 1 by auto
  next
    case 2
    then have "cell m ?stub = Some 0" "load_word m (queue + 8) = Some ?stub" using L(1) cell_load [OF L(3)] by (simp_all add: chain_def)
    from MPSCFreeListPop_unfold(2) [OF this(2) cell_load [OF this(1)]]
    show ?thesis using assms(2) L(5) 2 by auto
  next
    case 3
    have s: "cell m ?stub = Some b" using chain_next [of "cell m" a b L' "{}"] L(1) 3 by simp
    have q: "load_word m (queue + 8) = Some ?stub" using cell_load [OF L(3)] 3 by simp
    have b: "b \<noteq> 0" "b \<noteq> ?stub" using st L(1) 3 by (auto simp: chain_def)
    from cell_store [OF L(3), of b] obtain m1 where
      m1: "store_word m (queue + 8) b = Some m1" "cell m1 = (cell m)(queue + 8 \<mapsto> b)" by blast
    have "chain (cell m) (b # L') {}" using chain_pop [of "cell m" a b L' "{}"] L(1) 3 s b(1) by simp
    then have c: "chain (cell m1) (b # L') {}" by (rule chain_frame) (use m1(2) st(2) 3 in auto)
    obtain w where w: "cell m1 b = Some w" using chain_members(2) [OF c, of b] by auto
    have "MPSCFreeListPop TT_GCC m queue = pop_rest TT_GCC m1 queue b w"
      by (rule MPSCFreeListPop_unfold(3) [OF q cell_load [OF s] b(1) m1(1) cell_load [OF w]])
    moreover have "\<exists>m'. pop_rest TT_GCC m1 queue b w = Some (b, m')
        \<and> free_list queue nodes m' (filter (\<lambda>n. n \<noteq> ?stub) L')"
      by (rule pop_rest_refines [OF c b(2) _ assms(1) _ _ w]) (use m1(2) L(2,4) 3 r list_offsets [of queue] in auto)
    ultimately show ?thesis using L(5) 3 b(2) by auto
  qed
qed

lemma free_list_start:
  assumes "list_ready m queue nodes"
  shows "\<exists>m'. InitMPSCFreeList m queue = Some m' \<and> free_list queue nodes m' []"
proof -
  from list_start_inv [OF assms] obtain m' where
    m': "InitMPSCFreeList m queue = Some m'" "list_inv queue nodes [stub_of queue] (list_start m')" by blast
  then have "free_list queue nodes m' []"
    unfolding free_list_def by (intro exI [of _ "[stub_of queue]"]) (auto simp: list_inv_def list_start_def pending_def)
  with m'(1) show ?thesis by blast
qed

text \<open>What the init makes is a queue just when the link of the stub, which it leaves as it was, is null.\<close>

lemma InitMPSCFreeList_makes:
  assumes "list_place queue nodes" "\<forall>n\<in>insert queue (insert (queue + 8) (insert (stub_of queue) nodes)). cell m n \<noteq> None"
  shows "\<exists>m'. InitMPSCFreeList m queue = Some m' \<and> (free_list queue nodes m' [] \<longleftrightarrow> cell m (stub_of queue) = Some 0)"
proof -
  from InitMPSCFreeList_cells [of m queue] assms(2) obtain m' where
    m': "InitMPSCFreeList m queue = Some m'" "cell m' = (cell m)(queue \<mapsto> stub_of queue, queue + 8 \<mapsto> stub_of queue)" by auto
  have "free_list queue nodes m' []" if "cell m (stub_of queue) = Some 0"
    using free_list_start [of m queue nodes] assms that m'(1) by (auto simp: list_ready_def)
  moreover have "cell m (stub_of queue) = Some 0" if "free_list queue nodes m' []"
  proof -
    from that obtain L where L: "chain (cell m') L {}" "last L = stub_of queue" "hd L = stub_of queue"
      using m'(2) list_offsets [of queue] by (auto simp: free_list_def)
    then have "L = [stub_of queue]" using chain_single [OF L(1)] by simp
    then show ?thesis using L(1) m'(2) list_offsets [of queue] by (simp add: chain_def)
  qed
  ultimately show ?thesis using m'(1) by blast
qed


text \<open>The contract of a queue, and what a client that fills and then drains it gets back.\<close>

locale queue_ops =
  fixes repr :: "'s \<Rightarrow> 'a list \<Rightarrow> bool" and push :: "'s \<Rightarrow> 'a \<Rightarrow> 's option" and pop :: "'s \<Rightarrow> ('a \<times> 's) option"
    and item :: "'a \<Rightarrow> bool"
  assumes push_law: "repr s xs \<Longrightarrow> item x \<Longrightarrow> x \<notin> set xs \<Longrightarrow> \<exists>s'. push s x = Some s' \<and> repr s' (xs @ [x])"
    and pop_law: "repr s (x # xs) \<Longrightarrow> \<exists>s'. pop s = Some (x, s') \<and> repr s' xs"
begin

primrec push_all :: "'s \<Rightarrow> 'a list \<Rightarrow> 's option" where
  "push_all s [] = Some s"
| "push_all s (x # xs) = do { s \<leftarrow> push s x; push_all s xs }"

primrec pop_many :: "'s \<Rightarrow> nat \<Rightarrow> ('a list \<times> 's) option" where
  "pop_many s 0 = Some ([], s)"
| "pop_many s (Suc n) = do { (x, s) \<leftarrow> pop s; (xs, s) \<leftarrow> pop_many s n; Some (x # xs, s) }"

lemma push_all_repr:
  "repr s xs \<Longrightarrow> distinct (xs @ ys) \<Longrightarrow> (\<forall>y\<in>set ys. item y) \<Longrightarrow> \<exists>s'. push_all s ys = Some s' \<and> repr s' (xs @ ys)"
proof (induction ys arbitrary: s xs)
  case (Cons y ys)
  then obtain s1 where "push s y = Some s1" "repr s1 (xs @ [y])" using push_law [of s xs y] by auto
  with Cons show ?case using Cons.IH [of s1 "xs @ [y]"] by auto
qed simp

lemma pop_many_repr: "repr s (xs @ ys) \<Longrightarrow> \<exists>s'. pop_many s (length xs) = Some (xs, s') \<and> repr s' ys"
proof (induction xs arbitrary: s)
  case (Cons x xs)
  then obtain s1 where "pop s = Some (x, s1)" "repr s1 (xs @ ys)" using pop_law [of s x "xs @ ys"] by auto
  moreover from Cons.IH [OF this(2)] obtain s2 where "pop_many s1 (length xs) = Some (xs, s2)" "repr s2 ys" by auto
  ultimately show ?case by auto
qed simp

lemma fill_drain:
  assumes "repr s []" "distinct xs" "\<forall>x\<in>set xs. item x"
  shows "\<exists>s' s''. push_all s xs = Some s' \<and> pop_many s' (length xs) = Some (xs, s'') \<and> repr s'' []"
  using push_all_repr [of s "[]" xs] pop_many_repr [of _ xs "[]"] assms by fastforce

end

interpretation freelist: queue_ops "\<lambda>m xs. list_place queue nodes \<and> free_list queue nodes m xs"
  "\<lambda>m. MPSCFreeListPush TT_GCC m queue" "\<lambda>m. MPSCFreeListPop TT_GCC m queue" "\<lambda>n. n \<in> nodes"
  for queue nodes
proof
  show "\<exists>m'. MPSCFreeListPop TT_GCC m queue = Some (x, m') \<and> list_place queue nodes \<and> free_list queue nodes m' xs"
    if "list_place queue nodes \<and> free_list queue nodes m (x # xs)" for m x xs
    using MPSCFreeListPop_refines [of queue nodes m "x # xs"] that by auto
qed (use MPSCFreeListPush_refines in blast)


text \<open>
  C8: called one at a time. \<open>InitMPSCFreeList\<close> makes an empty queue of the structure just when the link of the stub in
  it is null, since it does not clear that link: zeroed memory, say. On a queue, \<open>MPSCFreeListPush\<close> adds a node that is
  not in it behind the others, and \<open>MPSCFreeListPop\<close> takes the first one, or returns null when there is none.
\<close>

theorem MPSCFreeList_refines_queue:
  assumes "list_place queue nodes"
  shows "((\<forall>n\<in>insert queue (insert (queue + 8) (insert (stub_of queue) nodes)). cell m n \<noteq> None) \<longrightarrow>
       (\<exists>m'. InitMPSCFreeList m queue = Some m' \<and> (free_list queue nodes m' [] \<longleftrightarrow> cell m (stub_of queue) = Some 0)))
    \<and> (free_list queue nodes m xs \<and> node \<in> nodes - set xs \<longrightarrow>
       (\<exists>m'. MPSCFreeListPush TT_GCC m queue node = Some m' \<and> free_list queue nodes m' (xs @ [node])))
    \<and> (free_list queue nodes m xs \<longrightarrow>
       (\<exists>m'. MPSCFreeListPop TT_GCC m queue = Some (case xs of [] \<Rightarrow> 0 | x # _ \<Rightarrow> x, m')
         \<and> free_list queue nodes m' (tl xs)))"
  using InitMPSCFreeList_makes [OF assms, of m] MPSCFreeListPush_refines [OF assms, of m xs node]
    MPSCFreeListPop_refines [OF assms, of m xs] by blast

section \<open>What a consumer may miss\<close>

lemma reach_call_push:
  assumes "list_reach queue nodes m s" "producer s t = PDone" "node \<in> nodes"
    "node \<notin> set (drop (length (popped s)) (pushed s))" "\<forall>u. node \<notin> holds_node (producer s u)"
  shows "list_reach queue nodes m (s\<lparr>producer := (producer s)(t := PNull node)\<rparr>)"
  using assms(1) list_next.call_push [OF assms(2-5)] unfolding list_reach_def by (rule rtranclp.rtrancl_into_rtrancl)

lemma reach_run_push:
  assumes "list_reach queue nodes m s" "push_step queue (smem s) (producer s t) = Some (m', pc')"
  shows "list_reach queue nodes m (s\<lparr>smem := m', producer := (producer s)(t := pc'),
      pushed := pushed s @ swapped (producer s t) pc'\<rparr>)"
  using assms(1) list_next.run_push [OF assms(2)] unfolding list_reach_def by (rule rtranclp.rtrancl_into_rtrancl)

lemma reach_call_pop:
  assumes "list_reach queue nodes m s" "consumer s = CDone r"
  shows "list_reach queue nodes m (s\<lparr>consumer := CCall\<rparr>)"
  using assms(1) list_next.call_pop [OF assms(2)] unfolding list_reach_def by (rule rtranclp.rtrancl_into_rtrancl)

text \<open>
  Thread 0 pushes \<open>a\<close> up to its exchange, thread 1 pushes \<open>b\<close> to the end.
\<close>

lemma overlapping_pushes:
  assumes "list_inv queue nodes [stub_of queue] (list_start m)" "list_place queue nodes" "a \<in> nodes" "b \<in> nodes" "a \<noteq> b"
  shows "\<exists>s. list_reach queue nodes m s \<and> pushed s = [a, b] \<and> popped s = [] \<and> producer s 1 = PDone
    \<and> consumer s = CDone 0 \<and> cell (smem s) (queue + 8) = Some (stub_of queue) \<and> cell (smem s) (stub_of queue) = Some 0"
proof -
  let ?st = "stub_of queue"
  note d = list_invD [OF assms(1,2)]
  have c0: "chain (cell m) [?st] {}" "cell m queue = Some ?st" "cell m (queue + 8) = Some ?st"
    "cell m a \<noteq> None" "cell m b \<noteq> None"
    using d(1,2,3) d(8) [of a] d(8) [of b] assms(3,4) by (auto simp: list_start_def pending_def)
  have ne: "a \<noteq> queue" "b \<noteq> queue" "a \<noteq> queue + 8" "b \<noteq> queue + 8" "a \<noteq> ?st" "b \<noteq> ?st" "?st \<noteq> queue"
      "queue \<noteq> a" "queue \<noteq> b" "queue \<noteq> ?st"
    using assms(2-4) list_offsets [of queue] by (auto simp: list_place_def)
  from push_null [OF c0(1) _ c0(4), of queue] ne obtain m1 where
    m1: "push_step queue m (PNull a) = Some (m1, PSwap a)" "cell m1 = (cell m)(a \<mapsto> 0)" "chain (cell m1) [?st] {}" by auto
  from push_swap [OF m1(3), of a queue] m1(2) c0(2) ne obtain m2 where
    m2: "push_step queue m1 (PSwap a) = Some (m2, PLink ?st a)" "cell m2 = (cell m1)(queue \<mapsto> a)"
    "chain (cell m2) [?st, a] {(?st, a)}" by auto
  from push_null [OF m2(3), of b queue] m1(2) m2(2) c0(5) ne assms(5) obtain m3 where
    m3: "push_step queue m2 (PNull b) = Some (m3, PSwap b)" "cell m3 = (cell m2)(b \<mapsto> 0)"
    "chain (cell m3) [?st, a] {(?st, a)}" by auto
  from push_swap [OF m3(3), of b queue] m2(2) m3(2) ne assms(5) obtain m4 where
    m4: "push_step queue m3 (PSwap b) = Some (m4, PLink a b)" "cell m4 = (cell m3)(queue \<mapsto> b)"
    "chain (cell m4) [?st, a, b] {(a, b), (?st, a)}" by auto
  from push_link [OF m4(3), of a b queue] obtain m5 where
    m5: "push_step queue m4 (PLink a b) = Some (m5, PDone)" "cell m5 = (cell m4)(a \<mapsto> b)"
    "chain (cell m5) [?st, a, b] {(?st, a)}" using ne(5) by (auto simp: insert_Diff_if)
  have "list_reach queue nodes m (list_start m)" by (simp add: list_reach_def)
  from reach_call_push [OF this, of 0 a] assms(3) have
    "list_reach queue nodes m ((list_start m)\<lparr>producer := (\<lambda>_. PDone)(0 := PNull a)\<rparr>)" by (simp add: list_start_def)
  from reach_run_push [OF this, of 0 m1 "PSwap a"] m1(1) have
    "list_reach queue nodes m ((list_start m)\<lparr>smem := m1, producer := (\<lambda>_. PDone)(0 := PSwap a)\<rparr>)" by (simp add: list_start_def)
  from reach_run_push [OF this, of 0 m2 "PLink ?st a"] m2(1) have
    "list_reach queue nodes m ((list_start m)\<lparr>smem := m2, producer := (\<lambda>_. PDone)(0 := PLink ?st a), pushed := [a]\<rparr>)"
    by (simp add: list_start_def)
  from reach_call_push [OF this, of 1 b] assms(4,5) have
    "list_reach queue nodes m ((list_start m)\<lparr>smem := m2, producer := (\<lambda>_. PDone)(0 := PLink ?st a, 1 := PNull b), pushed := [a]\<rparr>)"
    by (simp add: list_start_def)
  from reach_run_push [OF this, of 1 m3 "PSwap b"] m3(1) have
    "list_reach queue nodes m ((list_start m)\<lparr>smem := m3, producer := (\<lambda>_. PDone)(0 := PLink ?st a, 1 := PSwap b), pushed := [a]\<rparr>)"
    by (simp add: list_start_def)
  from reach_run_push [OF this, of 1 m4 "PLink a b"] m4(1) have
    "list_reach queue nodes m ((list_start m)\<lparr>smem := m4, producer := (\<lambda>_. PDone)(0 := PLink ?st a, 1 := PLink a b), pushed := [a, b]\<rparr>)"
    by (simp add: list_start_def)
  from reach_run_push [OF this, of 1 m5 PDone] m5(1) have
    r: "list_reach queue nodes m ((list_start m)\<lparr>smem := m5, producer := (\<lambda>_. PDone)(0 := PLink ?st a, 1 := PDone), pushed := [a, b]\<rparr>)"
    (is "list_reach _ _ _ ?s") by (simp add: list_start_def)
  have "cell m5 ?st = Some 0" "cell m5 (queue + 8) = Some ?st"
    using chain_members(1) [OF m5(3), of ?st a] m1(2) m2(2) m3(2) m4(2) m5(2) c0(3) ne list_offsets [of queue] by auto
  with r show ?thesis by (intro exI [of _ ?s]) (simp add: list_start_def)
qed

text \<open>
  C33: \<open>MPSCFreeListPop\<close> may return null although a push has returned whose node has not been popped: a
  producer that is between its exchange and its store hides every node pushed after its own.
\<close>

theorem MPSCFreeListPop_misses:
  assumes "list_ready m queue nodes" "a \<in> nodes" "b \<in> nodes" "a \<noteq> b"
  shows "\<exists>m' s. InitMPSCFreeList m queue = Some m' \<and> list_reach queue nodes m' s \<and> pushed s = [a, b] \<and> popped s = []
    \<and> producer s 1 = PDone \<and> consumer s = CCall \<and> pop_step queue (smem s) CCall = Some (smem s, CDone 0)"
proof -
  from list_start_inv [OF assms(1)] obtain m' where
    m': "InitMPSCFreeList m queue = Some m'" "list_inv queue nodes [stub_of queue] (list_start m')" by blast
  have pl: "list_place queue nodes" using assms(1) by (simp add: list_ready_def)
  from overlapping_pushes [OF m'(2) pl assms(2-4)] obtain s where
    s: "list_reach queue nodes m' s" "pushed s = [a, b]" "popped s = []" "producer s 1 = PDone" "consumer s = CDone 0"
    "cell (smem s) (queue + 8) = Some (stub_of queue)" "cell (smem s) (stub_of queue) = Some 0" by blast
  have "pop_step queue (smem s) CCall = Some (smem s, CDone 0)" using cell_load [OF s(6)] cell_load [OF s(7)] by simp
  with reach_call_pop [OF s(1,5)] s m'(1) show ?thesis by (intro exI [of _ m'] exI [of _ "s\<lparr>consumer := CCall\<rparr>"]) simp
qed

text \<open>
  \<open>InitMPSCFreeList\<close> leaves the link of the stub as it was: with another node's address \<open>g\<close> in it,
  the first \<open>MPSCFreeListPop\<close> returns \<open>g\<close>, which nobody has pushed.
\<close>

theorem InitMPSCFreeList_keeps_stub_link:
  assumes "cell m queue \<noteq> None" "cell m (queue + 8) \<noteq> None" "cell m (stub_of queue) = Some g" "g \<noteq> 0"
    and "g \<noteq> queue" "g \<noteq> queue + 8" "cell m g = Some v" "v \<noteq> 0"
  shows "\<exists>m1 m2. InitMPSCFreeList m queue = Some m1 \<and> MPSCFreeListPop TT_GCC m1 queue = Some (g, m2)"
proof -
  from InitMPSCFreeList_cells [OF assms(1,2)] obtain m1 where
    m1: "InitMPSCFreeList m queue = Some m1" "cell m1 = (cell m)(queue \<mapsto> stub_of queue, queue + 8 \<mapsto> stub_of queue)" by blast
  have q: "cell m1 (queue + 8) = Some (stub_of queue)" and s: "cell m1 (stub_of queue) = Some g"
    using m1(2) assms(3) list_offsets [of queue] by simp_all
  from cell_store [OF q, of g] obtain m2 where
    m2: "store_word m1 (queue + 8) g = Some m2" "cell m2 = (cell m1)(queue + 8 \<mapsto> g)" by blast
  then have g: "cell m2 g = Some v" and q2: "cell m2 (queue + 8) = Some g" using m1(2) assms(5-7) by simp_all
  from cell_store [OF q2, of v] obtain m3 where "store_word m2 (queue + 8) v = Some m3" by blast
  then have "pop_rest TT_GCC m2 queue g v = Some (g, m3)" using assms(8) by (simp add: pop_rest_def)
  with MPSCFreeListPop_unfold(3) [OF cell_load [OF q] cell_load [OF s] assms(4) m2(1) cell_load [OF g]] m1(1)
  show ?thesis by simp
qed


section \<open>A concrete queue\<close>

text \<open>
  The structure at \<open>0x100\<close>, with \<open>[x, y]\<close> as the two low bytes of the stub's link, and two nodes
  after it, the first with the link \<open>y\<close>. \<open>ex_list 0 0\<close> is zeroed memory.
\<close>

definition ex_list :: "u8 \<Rightarrow> u8 \<Rightarrow> mem" where
  "ex_list x y = upd_bytes Map.empty 0x100
     (replicate 8 0 @ replicate 8 0 @ (x # y # replicate 6 0) @ (y # 0 # replicate 6 0) @ replicate 8 0)"

lemma ex_list_cells:
  "cell (ex_list x y) 0x100 = Some 0" "cell (ex_list x y) 0x108 = Some 0"
  "cell (ex_list x y) 0x110 = Some (push_bit 8 (ucast y) OR ucast x)"
  "cell (ex_list x y) 0x118 = Some (ucast y)" "cell (ex_list x y) 0x120 = Some 0"
proof -
  have "bytes_at (ex_list x y) 0x100
      (replicate 8 0 @ replicate 8 0 @ (x # y # replicate 6 0) @ (y # 0 # replicate 6 0) @ replicate 8 0)"
    unfolding ex_list_def by (rule bytes_at_upd_same) simp
  then have b: "bytes_at (ex_list x y) 0x100 (replicate 8 0)" "bytes_at (ex_list x y) 0x108 (replicate 8 0)"
    "bytes_at (ex_list x y) 0x110 (x # y # replicate 6 0)" "bytes_at (ex_list x y) 0x118 (y # 0 # replicate 6 0)"
    "bytes_at (ex_list x y) 0x120 (replicate 8 0)"
    unfolding bytes_at_append by simp_all
  have w: "(bytes_word (replicate 8 0) :: u64) = 0"
    "(bytes_word (z # w # replicate 6 0) :: u64) = push_bit 8 (ucast w) OR ucast z" for z w :: u8
    by (simp_all add: bytes_word_def numeral_eq_Suc)
  show "cell (ex_list x y) 0x100 = Some 0" "cell (ex_list x y) 0x108 = Some 0"
    "cell (ex_list x y) 0x110 = Some (push_bit 8 (ucast y) OR ucast x)"
    "cell (ex_list x y) 0x118 = Some (ucast y)" "cell (ex_list x y) 0x120 = Some 0"
    using b [THEN load_word_at, where 'a = 64] w by (simp_all add: cell_def aligned_def)
qed

lemma ex_list_ready: "list_ready (ex_list 0 0) 0x100 {0x118, 0x120}"
  using ex_list_cells [of 0 0] by (simp add: list_ready_def list_place_def stub_of_def)

theorem MPSCFreeList_fifo_witness:
  "\<exists>m'. InitMPSCFreeList (ex_list 0 0) 0x100 = Some m'
    \<and> list_reach 0x100 {0x118, 0x120} m' ((list_start m')\<lparr>consumer := CCall\<rparr>) \<and> pop_step 0x100 m' CCall \<noteq> None"
proof -
  from MPSCFreeList_fifo [OF ex_list_ready] obtain m' where
    m': "InitMPSCFreeList (ex_list 0 0) 0x100 = Some m'"
    "\<And>s. list_reach 0x100 {0x118, 0x120} m' s \<Longrightarrow>
      (\<forall>r. consumer s \<noteq> CDone r) \<longrightarrow> pop_step 0x100 (smem s) (consumer s) \<noteq> None" by blast
  have r: "list_reach 0x100 {0x118, 0x120} m' ((list_start m')\<lparr>consumer := CCall\<rparr>)"
    by (rule reach_call_pop) (simp_all add: list_reach_def list_start_def)
  from m'(2) [OF this] m'(1) r show ?thesis by (intro exI [of _ m']) (simp add: list_start_def)
qed

theorem MPSCFreeList_refines_queue_witness:
  "\<exists>m0 m1 m2. InitMPSCFreeList (ex_list 0 0) 0x100 = Some m0 \<and> MPSCFreeListPush TT_GCC m0 0x100 0x118 = Some m1
    \<and> MPSCFreeListPop TT_GCC m1 0x100 = Some (0x118, m2) \<and> free_list 0x100 {0x118, 0x120} m2 []"
proof -
  have pl: "list_place 0x100 {0x118, 0x120}" using ex_list_ready by (simp add: list_ready_def)
  note q = MPSCFreeList_refines_queue [OF pl]
  have "\<forall>n\<in>insert 0x100 (insert (0x100 + 8) (insert (stub_of 0x100) {0x118, 0x120})). cell (ex_list 0 0) n \<noteq> None"
    using ex_list_cells [of 0 0] by (simp add: stub_of_def)
  with q [of "ex_list 0 0" "[]" 0] ex_list_ready obtain m0 where
    m0: "InitMPSCFreeList (ex_list 0 0) 0x100 = Some m0" "free_list 0x100 {0x118, 0x120} m0 []" unfolding list_ready_def by blast
  from q [of m0 "[]" "0x118"] m0(2) obtain m1 where
    m1: "MPSCFreeListPush TT_GCC m0 0x100 0x118 = Some m1" "free_list 0x100 {0x118, 0x120} m1 [0x118]" by auto
  from q [of m1 "[0x118]" 0] m1(2) obtain m2 where
    "MPSCFreeListPop TT_GCC m1 0x100 = Some (0x118, m2)" "free_list 0x100 {0x118, 0x120} m2 []" by auto
  with m0(1) m1(1) show ?thesis by blast
qed

theorem MPSCFreeListPop_misses_witness:
  "\<exists>m' s. list_reach 0x100 {0x118, 0x120} m' s \<and> pushed s = [0x118, 0x120] \<and> producer s 1 = PDone
    \<and> pop_step 0x100 (smem s) CCall = Some (smem s, CDone 0)"
  using MPSCFreeListPop_misses [OF ex_list_ready, of "0x118" "0x120"] by auto

theorem InitMPSCFreeList_keeps_stub_link_witness:
  "\<exists>m1 m2. InitMPSCFreeList (ex_list 0x18 1) 0x100 = Some m1 \<and> MPSCFreeListPop TT_GCC m1 0x100 = Some (0x118, m2)"
  by (rule InitMPSCFreeList_keeps_stub_link [where v = 1]) (simp_all add: ex_list_cells stub_of_def)

section \<open>The steps run alone\<close>

text \<open>Without other threads the steps of a call are the function.\<close>

fun pop_alone :: "nat \<Rightarrow> ptr \<Rightarrow> mem \<Rightarrow> pop_pc \<Rightarrow> (ptr \<times> mem) option" where
  "pop_alone k queue m (CDone r) = Some (r, m)"
| "pop_alone 0 queue m pc = None"
| "pop_alone (Suc k) queue m pc = do { (m, pc) \<leftarrow> pop_step queue m pc; pop_alone k queue m pc }"

lemma pop_alone_Pop: "pop_alone 8 queue m CCall = MPSCFreeListPop TT_GCC m queue"
  by (simp add: MPSCFreeListPop_def MPSCFreeListPush_def numeral_eq_Suc split: Option.bind_splits)

end
