(* ===== verification/Paths.thy ===== *)
theory Paths
  imports Strings
begin

text \<open>
  Paths on Linux (\<open>src/tinybase-platform-linux.c\<close>, lines 440 to 600): strings in UTF-8 with room for
  \<open>MAX_PATH_SIZE\<close> bytes. \<open>sp\<close> is the address of the local variables of \<open>CharInString\<close> and
  \<open>AppendCharToString\<close>. \<open>parent\<close> and \<open>resolve\<close> say what moving up and joining do to the bytes.
\<close>

unbundle bit_operations_syntax

type_synonym path = tb_string

definition MAX_PATH_SIZE :: usz where "MAX_PATH_SIZE = 4096"

abbreviation slash :: u8 where "slash \<equiv> 0x2F"
abbreviation dot :: u8 where "dot \<equiv> 0x2E"

section \<open>Operations\<close>

definition Path :: "ptr \<Rightarrow> path" where
  "Path mem = String mem 0 (MAX_PATH_SIZE - 1) EC_UTF8"

definition PathCString :: "mem \<Rightarrow> ptr \<Rightarrow> path option" where
  "PathCString m cString =
     do {
       cStringSize \<leftarrow> strlen m cString;
       Some ((String cString 0 0 EC_UTF8)\<lparr>WriteCur := Min cStringSize MAX_PATH_SIZE\<rparr>)
     }"

function MoveUp_loop :: "dispatch \<Rightarrow> mem \<Rightarrow> ptr \<Rightarrow> path \<Rightarrow> usz \<Rightarrow> usz \<Rightarrow> path option" where
  "MoveUp_loop d m sp p count moveUpCount =
     (if count < moveUpCount
      then do {
        backslashIdx \<leftarrow> CharInString d m sp 0x2F p (RETURN_IDX_FIND OR SEARCH_REVERSE);
        if backslashIdx = INVALID_IDX then Some (p\<lparr>WriteCur := 0\<rparr>)
        else MoveUp_loop d m sp (p\<lparr>WriteCur := backslashIdx\<rparr>) (count + 1) moveUpCount
      }
      else Some p)"
  by pat_completeness auto
termination
  by (relation "measure (\<lambda>(d, m, sp, p, i, n). unat n - unat i)") (auto simp: unat_Suc_less word_less_nat_alt)

declare MoveUp_loop.simps [simp del]

definition MoveUpPath :: "dispatch \<Rightarrow> mem \<Rightarrow> ptr \<Rightarrow> path \<Rightarrow> usz \<Rightarrow> (bool \<times> path) option" where
  "MoveUpPath d m sp p moveUpCount =
     do {
       c \<leftarrow> m (Base p + (WriteCur p - 1));
       let p = (if c = slash then p\<lparr>WriteCur := WriteCur p - 1\<rparr> else p);
       let currentWriteCur = WriteCur p;
       p \<leftarrow> MoveUp_loop d m sp p 0 moveUpCount;
       let p = (if WriteCur p > 0 then p\<lparr>WriteCur := WriteCur p + 1\<rparr> else p);
       Some (WriteCur p \<noteq> currentWriteCur, p)
     }"

text \<open>
  One character of the loop of \<open>_AppendPathToPath\<close>. The state is the memory, \<open>Tmp\<close>, \<open>DirCharCount\<close>,
  \<open>ReadStart\<close> and the characters \<open>C1\<close> and \<open>C2\<close> of the last round; None in the result is the early
  return of false.
\<close>

definition Path_char ::
  "dispatch \<Rightarrow> ptr \<Rightarrow> path \<Rightarrow> usz \<Rightarrow> mem \<Rightarrow> path \<Rightarrow> usz \<Rightarrow> usz \<Rightarrow> u8 \<Rightarrow> u8 \<Rightarrow> u8
    \<Rightarrow> (mem \<times> (path \<times> usz \<times> usz) option) option" where
  "Path_char d sp src readIdx m tmp dirCharCount readStart c0 c1 c2 =
     (if c2 = slash
      then
        if dirCharCount = 1 \<and> c1 = dot then Some (m, Some (tmp, 0, readIdx + 1))
        else if dirCharCount = 2 \<and> c0 = dot \<and> c1 = dot
        then do { (_, tmp) \<leftarrow> MoveUpPath d m sp tmp 1; Some (m, Some (tmp, 0, readIdx + 1)) }
        else do {
          let dir = String (Base src + readStart) (readIdx - readStart) 0 (Enc src);
          (ok, m, tmp) \<leftarrow> AppendStringToString m dir tmp;
          if \<not> ok then Some (m, None)
          else do {
            (ok, m, tmp) \<leftarrow> AppendCharToString m sp 0x2F tmp;
            if \<not> ok then Some (m, None) else Some (m, Some (tmp, 0, readIdx + 1))
          }
        }
      else Some (m, Some (tmp, dirCharCount + 1, readStart)))"

function AppendPath_loop ::
  "dispatch \<Rightarrow> ptr \<Rightarrow> path \<Rightarrow> usz \<Rightarrow> mem \<Rightarrow> path \<Rightarrow> usz \<Rightarrow> usz \<Rightarrow> u8 \<Rightarrow> u8
    \<Rightarrow> (mem \<times> (path \<times> usz \<times> usz) option) option" where
  "AppendPath_loop d sp src readIdx m tmp dirCharCount readStart c1 c2 =
     (if readIdx < WriteCur src
      then
        do {
          c \<leftarrow> m (Base src + readIdx);
          (m, r) \<leftarrow> Path_char d sp src readIdx m tmp dirCharCount readStart c1 c2 c;
          case r of
            None \<Rightarrow> Some (m, None)
          | Some (tmp, dirCharCount, readStart) \<Rightarrow>
              AppendPath_loop d sp src (readIdx + 1) m tmp dirCharCount readStart c2 c
        }
      else Some (m, Some (tmp, dirCharCount, readStart)))"
  by pat_completeness auto
termination
  by (relation "measure (\<lambda>(d, sp, src, i, _). unat (WriteCur src) - unat i)")
    (auto simp: unat_Suc_less word_less_nat_alt)

declare AppendPath_loop.simps [simp del]

text \<open>\<open>_AppendPathToPath\<close>.\<close>

definition AppendPath :: "dispatch \<Rightarrow> mem \<Rightarrow> ptr \<Rightarrow> path \<Rightarrow> path \<Rightarrow> (bool \<times> mem \<times> path) option" where
  "AppendPath d m sp src dst =
     do {
       let tmp = dst;
       c \<leftarrow> (if WriteCur tmp > 0 then m (Base tmp + (WriteCur tmp - 1)) else Some slash);
       (ok, m, tmp) \<leftarrow>
         (if WriteCur tmp > 0 \<and> c \<noteq> slash then AppendCharToString m sp 0x2F tmp else Some (True, m, tmp));
       if \<not> ok then Some (False, m, dst)
       else do {
         c \<leftarrow> (if WriteCur dst > 0 then m (Base src) else Some 0);
         let src = (if WriteCur dst > 0 \<and> c = slash then AdvanceBuffer src 1 else src);
         (m, r) \<leftarrow> AppendPath_loop d sp src 0 m tmp 0 0 0 0;
         case r of
           None \<Rightarrow> Some (False, m, dst)
         | Some (tmp, dirCharCount, readStart) \<Rightarrow>
             do {
               let dir = String (Base src + readStart) (WriteCur src - readStart) 0 (Enc src);
               (ok, m, tmp) \<leftarrow>
                 (if dirCharCount > 0 then AppendStringToString m dir tmp else Some (True, m, tmp));
               if \<not> ok then Some (False, m, dst)
               else do { m \<leftarrow> store8 m (Base tmp + WriteCur tmp) 0; Some (True, m, tmp) }
             }
       }
     }"

definition AppendPathToPath :: "dispatch \<Rightarrow> mem \<Rightarrow> ptr \<Rightarrow> path \<Rightarrow> path \<Rightarrow> (bool \<times> mem \<times> path) option" where
  "AppendPathToPath d m sp newPart dst =
     (if Enc newPart = Enc dst \<and> WriteCur newPart \<le> Size dst - WriteCur dst
      then AppendPath d m sp newPart dst
      else Some (False, m, dst))"

text \<open>\<open>buf\<close> is the address of the local array \<open>NewPartUTF8\<close>, and of \<open>CWD\<close> below.\<close>

definition AppendStringToPath ::
  "dispatch \<Rightarrow> mem \<Rightarrow> ptr \<Rightarrow> ptr \<Rightarrow> tb_string \<Rightarrow> path \<Rightarrow> (bool \<times> mem \<times> path) option" where
  "AppendStringToPath d m sp buf newPart dst =
     (if Enc newPart \<noteq> Enc dst
      then do {
        (ok, m, src) \<leftarrow> Transcode (push_local m buf (replicate (unat MAX_PATH_SIZE) 0)) newPart (Path buf);
        (r, m, dst) \<leftarrow> (if ok then AppendPath d m sp src dst else Some (False, m, dst));
        Some (r, pop_local m buf (unat MAX_PATH_SIZE), dst)
      }
      else AppendPath d m sp newPart dst)"

definition AppendDataToPath ::
  "dispatch \<Rightarrow> mem \<Rightarrow> ptr \<Rightarrow> ptr \<Rightarrow> usz \<Rightarrow> path \<Rightarrow> (bool \<times> mem \<times> path) option" where
  "AppendDataToPath d m sp newPart newPartSize dst =
     AppendPath d m sp ((Path newPart)\<lparr>WriteCur := newPartSize\<rparr>) dst"

definition AppendArrayToPath ::
  "dispatch \<Rightarrow> mem \<Rightarrow> ptr \<Rightarrow> ptr \<Rightarrow> path \<Rightarrow> (bool \<times> mem \<times> path) option" where
  "AppendArrayToPath d m sp newPart dst =
     do { newPartPath \<leftarrow> PathCString m newPart; AppendPath d m sp newPartPath dst }"

text \<open>\<open>getcwd\<close> gives what the system writes into an array of the size it is passed, if it fits.\<close>

definition AppendCWDToPath ::
  "(usz \<Rightarrow> u8 list option) \<Rightarrow> dispatch \<Rightarrow> mem \<Rightarrow> ptr \<Rightarrow> ptr \<Rightarrow> path \<Rightarrow> (bool \<times> mem \<times> path) option" where
  "AppendCWDToPath getcwd d m sp cwd dst =
     do {
       let m = push_local m cwd (replicate (unat MAX_PATH_SIZE) 0);
       (r, m, dst) \<leftarrow>
         (case getcwd MAX_PATH_SIZE of
            None \<Rightarrow> Some (False, m, dst)
          | Some name \<Rightarrow>
              do {
                m \<leftarrow> store_bytes m cwd name;
                n \<leftarrow> StringLen m (Path cwd) LEN_CSTRING;
                AppendPath d m sp ((Path cwd)\<lparr>WriteCur := n\<rparr>) dst
              });
       Some (r, pop_local m cwd (unat MAX_PATH_SIZE), dst)
     }"

section \<open>Specification\<close>

text \<open>
  \<open>parent\<close> of a path: without its last component, with the slash before it. \<open>resolve\<close> joins a path
  to the bytes \<open>tmp\<close> with room for \<open>cap\<close> bytes: \<open>cur\<close> is the component read so far. Only components
  with a slash after them are interpreted.
\<close>

definition strip :: "u8 list \<Rightarrow> u8 list" where
  "strip xs = (if xs \<noteq> [] \<and> last xs = slash then butlast xs else xs)"

definition parent :: "u8 list \<Rightarrow> u8 list" where
  "parent xs =
     (case last_idx ((=) slash) (strip xs) of
        None \<Rightarrow> []
      | Some i \<Rightarrow> if i = 0 then [] else take (Suc i) xs)"

datatype outcome = Joined "u8 list" | Full | Outside

fun resolve :: "nat \<Rightarrow> u8 list \<Rightarrow> u8 list \<Rightarrow> u8 list \<Rightarrow> outcome" where
  "resolve cap tmp cur [] = (if length tmp + length cur \<le> cap then Joined (tmp @ cur) else Full)"
| "resolve cap tmp cur (b # bs) =
     (if b \<noteq> slash then resolve cap tmp (cur @ [b]) bs
      else if cur = [dot] then resolve cap tmp [] bs
      else if cur = [dot, dot] then (if tmp = [] then Outside else resolve cap (parent tmp) [] bs)
      else if length tmp + length cur + 1 \<le> cap then resolve cap (tmp @ cur @ [slash]) [] bs
      else Full)"

definition join :: "nat \<Rightarrow> u8 list \<Rightarrow> u8 list \<Rightarrow> outcome" where
  "join cap ds ss =
     (if ds = [] then resolve cap [] [] ss
      else
        let tmp = (if last ds = slash then ds else ds @ [slash]);
            ss = (if ss \<noteq> [] \<and> hd ss = slash then tl ss else ss)
        in if length tmp \<le> cap then resolve cap tmp [] ss else Full)"


section \<open>Moving up\<close>

lemma of_nat_pos: "k < 2 ^ 64 \<Longrightarrow> 0 < (of_nat k :: usz) \<longleftrightarrow> 0 < k"
  by (simp only: word_less_nat_alt unat_offset) simp

lemma of_nat_usz_eq: "a < 2 ^ 64 \<Longrightarrow> b < 2 ^ 64 \<Longrightarrow> (of_nat a :: usz) = of_nat b \<longleftrightarrow> a = b"
  by (metis unat_offset)

lemma last_idx_Some:
  "last_idx ((=) c) xs = Some i \<longleftrightarrow> i < length xs \<and> xs ! i = c \<and> c \<notin> set (drop (Suc i) xs)"
proof -
  have "c \<notin> set (drop (Suc i) xs) \<longleftrightarrow> (\<forall>j<length xs. i < j \<longrightarrow> c \<noteq> xs ! j)" (is "?l \<longleftrightarrow> ?r")
  proof
    assume ?l
    show ?r
    proof (intro allI impI)
      fix j assume j: "j < length xs" "i < j"
      then have "drop (Suc i) xs ! (j - Suc i) \<in> set (drop (Suc i) xs)" by (intro nth_mem) simp
      then show "c \<noteq> xs ! j" using \<open>?l\<close> j by auto
    qed
  next
    assume r: ?r
    have "drop (Suc i) xs ! k \<noteq> c" if "k < length (drop (Suc i) xs)" for k
    proof -
      have "Suc i + k < length xs" using that by simp
      from r [rule_format, OF this] show ?thesis using that by simp
    qed
    then show ?l by (auto simp: in_set_conv_nth)
  qed
  then show ?thesis by (auto simp: last_idx_def find_rev_upt_Some)
qed

lemma last_idx_None: "last_idx ((=) c) xs = None \<longleftrightarrow> c \<notin> set xs"
  by (auto simp: last_idx_def find_rev_upt_None in_set_conv_nth)

lemma find_slash:
  assumes "holds m p xs" "Enc p = EC_UTF8"
  shows "CharInString default_dispatch m sp 0x2F p (RETURN_IDX_FIND OR SEARCH_REVERSE)
    = Some (idx_word (last_idx ((=) slash) xs))"
proof -
  have "holds m (Buf p) xs" using assms(1) by (simp add: holds_def)
  from byte_reverse [OF this, of "RETURN_IDX_FIND OR SEARCH_REVERSE" default_dispatch slash] show ?thesis
    using assms(2) by (simp add: CharInString_def GetMultibyteCharSize_def search_result_def flag_defs)
qed

fun ups :: "nat \<Rightarrow> u8 list \<Rightarrow> u8 list" where
  "ups 0 xs = xs"
| "ups (Suc n) xs = (case last_idx ((=) slash) xs of None \<Rightarrow> [] | Some i \<Rightarrow> ups n (take i xs))"

lemma ups_take: "\<exists>k. k \<le> length xs \<and> ups n xs = take k xs"
proof (induction n arbitrary: xs)
  case (Suc n)
  show ?case
  proof (cases "last_idx ((=) slash) xs")
    case (Some i)
    with Suc [of "take i xs"] obtain k where "k \<le> min i (length xs)" "ups n (take i xs) = take k (take i xs)" by auto
    then show ?thesis using Some by (intro exI [of _ k]) auto
  qed (auto intro: exI [of _ 0])
qed auto

lemma ups_Nil [simp]: "ups n [] = []"
  using ups_take [of "[]" n] by simp

lemma holds_take: "holds m p xs \<Longrightarrow> k \<le> length xs \<Longrightarrow> holds m (p\<lparr>WriteCur := of_nat k\<rparr>) (take k xs)"
  using bytes_at_take [of m "Base p" xs k] unat_offset [of k] unat_lt_2p [of "WriteCur p"]
  by (simp add: holds_def)

lemma MoveUp_loop_eq:
  assumes "holds m p xs" "Enc p = EC_UTF8"
  shows "MoveUp_loop default_dispatch m sp p i n
    = Some (p\<lparr>WriteCur := of_nat (length (ups (unat n - unat i) xs))\<rparr>)"
  using assms
proof (induction "unat n - unat i" arbitrary: i p xs)
  case 0
  then have "\<not> i < n" by (simp add: word_less_nat_alt)
  moreover have "of_nat (length xs) = WriteCur p" using 0(2) by (simp add: holds_def)
  ultimately show ?case using 0(1) by (subst MoveUp_loop.simps) simp
next
  case (Suc k)
  then have lt: "i < n" by (simp add: word_less_nat_alt)
  then have n: "unat n - unat i = Suc (unat n - unat (i + 1))" using Suc(2) by (simp add: unat_Suc_less)
  show ?case
  proof (cases "last_idx ((=) slash) xs")
    case None
    then show ?thesis using lt find_slash [OF Suc(3,4)] n by (subst MoveUp_loop.simps) simp
  next
    case (Some j)
    then have j: "j < length xs" by (simp add: last_idx_Some)
    then have "j < 2 ^ 64 - 1" using Suc(3) unat_lt_2p [of "WriteCur p"] by (simp add: holds_def)
    from of_nat_ne_INVALID [OF this] show ?thesis
      using lt find_slash [OF Suc(3,4)] Some n Suc(1) [of "i + 1" "p\<lparr>WriteCur := of_nat j\<rparr>" "take j xs"]
        holds_take [OF Suc(3), of j] j Suc(2,4)
      by (subst MoveUp_loop.simps) simp
  qed
qed

lemma ups_less:
  assumes "0 < n" "xs \<noteq> []"
  shows "length (ups n xs) < length xs"
proof -
  from assms(1) obtain j where n: "n = Suc j" by (cases n) auto
  show ?thesis
  proof (cases "last_idx ((=) slash) xs")
    case (Some i)
    then have "i < length xs" by (simp add: last_idx_Some)
    then show ?thesis using ups_take [of "take i xs" j] n Some by auto
  qed (use n assms(2) in simp)
qed

lemma strip_take: "\<exists>k. k \<le> length xs \<and> strip xs = take k xs"
  by (auto simp: strip_def butlast_conv_take intro: exI [of _ "length xs - 1"] exI [of _ "length xs"])

lemma length_strip: "length (strip xs) \<le> length xs"
  by (simp add: strip_def)

lemma parent_ups: "parent xs = (if ups 1 (strip xs) = [] then [] else take (Suc (length (ups 1 (strip xs)))) xs)"
proof (cases "last_idx ((=) slash) (strip xs)")
  case (Some i)
  then have "i < length (strip xs)" by (simp add: last_idx_Some)
  then show ?thesis using Some by (auto simp: parent_def)
qed (simp add: parent_def)

lemma strip_parent: "strip (parent xs) = ups 1 (strip xs)"
proof (cases "last_idx ((=) slash) (strip xs)")
  case (Some i)
  then have i: "i < length (strip xs)" "strip xs ! i = slash" by (simp_all add: last_idx_Some)
  obtain k where k: "k \<le> length xs" "strip xs = take k xs" using strip_take by blast
  then have x: "i < length xs" "xs ! i = slash" "take i (strip xs) = take i xs" using i by auto
  show ?thesis
  proof (cases "i = 0")
    case True
    then show ?thesis using Some by (simp add: parent_def strip_def)
  next
    case False
    have "parent xs = take i xs @ [slash]" using Some False x by (simp add: parent_def take_Suc_conv_app_nth)
    then have "strip (parent xs) = take i xs" by (simp add: strip_def)
    then show ?thesis using Some x(3) by simp
  qed
qed (simp add: parent_def strip_def)

lemma parent_funpow:
  "0 < n \<Longrightarrow> (parent ^^ n) xs = (if ups n (strip xs) = [] then [] else take (Suc (length (ups n (strip xs)))) xs)"
proof (induction n arbitrary: xs)
  case (Suc n)
  show ?case
  proof (cases "n = 0")
    case True
    then show ?thesis using parent_ups [of xs] by simp
  next
    case False
    then have "(parent ^^ Suc n) xs
        = (if ups n (ups 1 (strip xs)) = [] then [] else take (Suc (length (ups n (ups 1 (strip xs))))) (parent xs))"
      using Suc.IH [of "parent xs"] strip_parent [of xs] by (simp add: funpow_Suc_right del: funpow.simps)
    moreover have "ups n (ups 1 (strip xs)) = ups (Suc n) (strip xs)"
      by (simp split: option.split)
    moreover have "length (ups n (ups 1 (strip xs))) \<le> length (ups 1 (strip xs))"
      using ups_take [of "ups 1 (strip xs)" n] by auto
    ultimately show ?thesis using parent_ups [of xs] by (auto simp: min_def)
  qed
qed simp

lemma last_byte:
  assumes "holds m p xs" "xs \<noteq> []"
  shows "WriteCur p - 1 = of_nat (length xs - 1)" "m (Base p + (WriteCur p - 1)) = Some (last xs)"
proof -
  have "WriteCur p = of_nat (length xs)" using assms(1) by (simp add: holds_def)
  then show w: "WriteCur p - 1 = of_nat (length xs - 1)" using assms(2) by (cases xs) simp_all
  have "bytes_at m (Base p) xs" using assms(1) by (simp add: holds_def)
  from bytes_at_nth [OF this, of "length xs - 1"] show "m (Base p + (WriteCur p - 1)) = Some (last xs)"
    using assms(2) w by (metis diff_less last_conv_nth length_greater_0_conv zero_less_one)
qed

lemma MoveUpPath_eq:
  assumes "holds m p xs" "xs \<noteq> []" "Enc p = EC_UTF8" "0 < n"
  shows "MoveUpPath default_dispatch m sp p n
    = Some (length ((parent ^^ unat n) xs) \<noteq> length (strip xs), p\<lparr>WriteCur := of_nat (length ((parent ^^ unat n) xs))\<rparr>)
    \<and> holds m (p\<lparr>WriteCur := of_nat (length ((parent ^^ unat n) xs))\<rparr>) ((parent ^^ unat n) xs)"
proof -
  let ?ys = "ups (unat n) (strip xs)" and ?r = "(parent ^^ unat n) xs"
  have n: "0 < unat n" using assms(4) by (simp add: word_gt_0 unat_gt_0)
  have w: "WriteCur p = of_nat (length xs)" "length xs < 2 ^ 64" using assms(1) unat_lt_2p [of "WriteCur p"] by (auto simp: holds_def)
  note c = last_byte(2) [OF assms(1,2)] and w1 = last_byte(1) [OF assms(1,2)]
  let ?p = "p\<lparr>WriteCur := of_nat (length (strip xs))\<rparr>"
  obtain k where k: "k \<le> length xs" "strip xs = take k xs" using strip_take by blast
  then have h: "holds m ?p (strip xs)" using holds_take [OF assms(1) k(1)] by simp
  have p: "(if last xs = slash then p\<lparr>WriteCur := WriteCur p - 1\<rparr> else p) = ?p"
  proof (cases "last xs = slash")
    case True
    then show ?thesis using assms(2) w1 by (simp add: strip_def)
  next
    case False
    then show ?thesis by (simp add: strip_def flip: w(1))
  qed
  have up: "length ?ys < length xs"
  proof (cases "strip xs = []")
    case True
    then show ?thesis using assms(2) by simp
  next
    case False
    from ups_less [OF n this] show ?thesis using length_strip [of xs] by simp
  qed
  have r: "length ?r = (if ?ys = [] then 0 else Suc (length ?ys))" using parent_funpow [OF n, of xs] up by auto
  have z: "(of_nat (length ?ys) :: usz) > 0 \<longleftrightarrow> ?ys \<noteq> []"
    using up w(2) by (simp add: of_nat_pos)
  have "MoveUp_loop default_dispatch m sp ?p 0 n = Some (p\<lparr>WriteCur := of_nat (length ?ys)\<rparr>)"
    using MoveUp_loop_eq [OF h, of sp 0 n] assms(3) by simp
  then have "MoveUpPath default_dispatch m sp p n
      = Some ((of_nat (length ?r) :: usz) \<noteq> of_nat (length (strip xs)), p\<lparr>WriteCur := of_nat (length ?r)\<rparr>)"
    using z r unfolding MoveUpPath_def c by (simp add: p add.commute del: funpow.simps)
  moreover have "(of_nat (length ?r) :: usz) = of_nat (length (strip xs)) \<longleftrightarrow> length ?r = length (strip xs)"
    using w(2) up r length_strip [of xs] by (intro of_nat_usz_eq) auto
  moreover have "holds m (p\<lparr>WriteCur := of_nat (length ?r)\<rparr>) ?r"
    using parent_funpow [OF n, of xs] holds_take [OF assms(1), of "length ?r"] r up by (auto simp del: funpow.simps)
  ultimately show ?thesis by simp
qed

lemma MoveUpPath_none:
  assumes "holds m p xs" "xs \<noteq> []" "Enc p = EC_UTF8"
  shows "MoveUpPath default_dispatch m sp p 0
    = Some (strip xs \<noteq> [], p\<lparr>WriteCur := of_nat (if strip xs = [] then 0 else Suc (length (strip xs)))\<rparr>)"
proof -
  have w: "WriteCur p = of_nat (length xs)" "length xs < 2 ^ 64" using assms(1) unat_lt_2p [of "WriteCur p"] by (auto simp: holds_def)
  note c = last_byte(2) [OF assms(1,2)] and w1 = last_byte(1) [OF assms(1,2)]
  have p: "(if last xs = slash then p\<lparr>WriteCur := WriteCur p - 1\<rparr> else p) = p\<lparr>WriteCur := of_nat (length (strip xs))\<rparr>"
  proof (cases "last xs = slash")
    case True
    then show ?thesis using assms(2) w1 by (simp add: strip_def)
  next
    case False
    then show ?thesis by (simp add: strip_def flip: w(1))
  qed
  have z: "(of_nat (length (strip xs)) :: usz) > 0 \<longleftrightarrow> strip xs \<noteq> []"
    using length_strip [of xs] w(2) by (simp add: of_nat_pos)
  have loop: "MoveUp_loop default_dispatch m sp q 0 0 = Some q" for q by (subst MoveUp_loop.simps) simp
  show ?thesis unfolding MoveUpPath_def c by (simp add: p z loop add.commute)
qed

text \<open>
  C29: \<open>MoveUpPath\<close> on a path that is not empty, with a count that is not 0, cuts the path to its
  ancestor: as often as asked, the last component and a slash after it go, and the slash before it
  stays, unless it is the first byte. The result says whether what is left has another length than the path without
  the slash at its end: it is false, although the path has changed, for \<open>/\<close>, which becomes empty, and for \<open>a//\<close>.
  With the count 0 the path is not left as it was: one that does not end in a slash is made a byte longer, the single
  slash becomes empty, and the result is true for every path but that one.
\<close>

theorem MoveUpPath_correct:
  assumes "holds m p xs" "xs \<noteq> []" "Enc p = EC_UTF8"
  shows "(0 < n \<longrightarrow> MoveUpPath default_dispatch m sp p n
      = Some (length ((parent ^^ unat n) xs) \<noteq> length (strip xs), p\<lparr>WriteCur := of_nat (length ((parent ^^ unat n) xs))\<rparr>)
      \<and> holds m (p\<lparr>WriteCur := of_nat (length ((parent ^^ unat n) xs))\<rparr>) ((parent ^^ unat n) xs))
    \<and> (n = 0 \<longrightarrow> MoveUpPath default_dispatch m sp p n
      = Some (strip xs \<noteq> [], p\<lparr>WriteCur := of_nat (if strip xs = [] then 0 else Suc (length (strip xs)))\<rparr>))"
  using MoveUpPath_eq [OF assms] MoveUpPath_none [OF assms] by simp


section \<open>Building a path in place\<close>

definition holding :: "path \<Rightarrow> u8 list \<Rightarrow> path" where
  "holding dst ts = dst\<lparr>WriteCur := of_nat (length ts)\<rparr>"

definition building :: "mem \<Rightarrow> path \<Rightarrow> u8 list \<Rightarrow> bool" where
  "building m dst ts \<longleftrightarrow> bytes_at m (Base dst) ts \<and> length ts \<le> unat (Size dst) \<and> mapped m (Base dst) (unat (Size dst))"

text \<open>\<open>frame\<close>: nothing outside the space of the path has changed, and no memory was lost.\<close>

definition frame :: "path \<Rightarrow> mem \<Rightarrow> mem \<Rightarrow> bool" where
  "frame dst m m' \<longleftrightarrow> (\<forall>q. q \<notin> buf_region dst \<longrightarrow> m' q = m q) \<and> dom m' = dom m"

lemma frame_refl [simp]: "frame dst m m"
  by (simp add: frame_def)

lemma frame_trans [trans]: "frame dst m m' \<Longrightarrow> frame dst m' m'' \<Longrightarrow> frame dst m m''"
  by (simp add: frame_def)

lemma frame_bytes_at: "frame dst m m' \<Longrightarrow> buf_region dst \<inter> region p (length xs) = {} \<Longrightarrow> bytes_at m p xs \<Longrightarrow> bytes_at m' p xs"
  unfolding frame_def bytes_at_def using region_memI by (metis disjoint_iff)

lemma holding_sel [simp]:
  "Base (holding dst ts) = Base dst" "Size (holding dst ts) = Size dst" "Enc (holding dst ts) = Enc dst"
  "WriteCur (holding dst ts) = of_nat (length ts)"
  by (simp_all add: holding_def)

lemma holding_holding [simp]: "holding (holding dst ts) us = holding dst us" "(holding dst ts)\<lparr>WriteCur := w\<rparr> = dst\<lparr>WriteCur := w\<rparr>"
  by (simp_all add: holding_def)

lemma building_facts:
  assumes "building m dst ts"
  shows "unat (of_nat (length ts) :: usz) = length ts" "holds m (holding dst ts) ts" "buf_ok m (holding dst ts)"
    "space (holding dst ts) = unat (Size dst) - length ts"
proof -
  have l: "length ts < 2 ^ 64" using assms unat_lt_2p [of "Size dst"] by (simp add: building_def)
  show u: "unat (of_nat (length ts) :: usz) = length ts" by (rule unat_offset [OF l])
  show "holds m (holding dst ts) ts" using assms u by (simp add: holds_def building_def)
  show "buf_ok m (holding dst ts)" using assms u by (simp add: buf_ok_def building_def word_le_nat_alt)
  show "space (holding dst ts) = unat (Size dst) - length ts" using u by (simp add: space_def)
qed

lemma append_building:
  assumes "building m dst ts" "length ts + length bs \<le> unat (Size dst)"
  obtains m' where "append_result m (holding dst ts) bs = (True, m', holding dst (ts @ bs))"
    "building m' dst (ts @ bs)" "frame dst m m'"
proof -
  note f = building_facts [OF assms(1)]
  have "length bs \<le> space (holding dst ts)" using assms(2) f(4) by simp
  then obtain m' d' where r: "append_result m (holding dst ts) bs = (True, m', d')"
    by (auto simp: append_result_def)
  have d': "d' = holding dst (ts @ bs)" using append_fits(3) [OF r] by (simp add: holding_def)
  have "building m' dst (ts @ bs)"
    using append_holds [OF f(3,2) r] append_buf_ok [OF f(3) r] assms(2) by (simp add: d' building_def holds_def buf_ok_def)
  moreover have "frame dst m m'"
    using append_frame [OF f(3) r] dom_append [OF f(3) r] by (simp add: frame_def)
  ultimately show ?thesis using that r d' by blast
qed

lemma append_full:
  "building m dst ts \<Longrightarrow> unat (Size dst) < length ts + length bs \<Longrightarrow>
    append_result m (holding dst ts) bs = (False, m, holding dst ts)"
  using building_facts(4) [of m dst ts] by (auto simp: append_result_def building_def)

lemma append_dir_eq:
  assumes "building m dst ts" "Enc src = Enc dst" "holds m src bs" "buf_region dst \<inter> region (Base src) (length bs) = {}"
  shows "AppendStringToString m src (holding dst ts) = Some (append_result m (holding dst ts) bs)"
  using buf.f_eq [of m "holding dst ts" "Buf src" bs] building_facts(3) [OF assms(1)] assms
  by (simp add: AppendStringToString_def holds_def)

lemma append_slash_eq:
  assumes "building m dst ts" "Enc dst = EC_UTF8" "region sp 4 \<inter> dom m = {}"
  shows "AppendCharToString m sp 0x2F (holding dst ts) = Some (append_result m (holding dst ts) [slash])"
proof -
  have "stored EC_UTF8 0x2F = [slash]" by (simp add: stored_def le_bytes_def AdjustEndianness_def GetMultibyteCharSize_def)
  then show ?thesis using char.f_eq [of m "holding dst ts" sp EC_UTF8 "0x2F"] building_facts(3) [OF assms(1)] assms(2,3) by simp
qed

section \<open>Joining paths\<close>

text \<open>\<open>walk\<close> is \<open>resolve\<close> up to the last component.\<close>

fun walk :: "nat \<Rightarrow> u8 list \<Rightarrow> u8 list \<Rightarrow> u8 list \<Rightarrow> outcome + u8 list \<times> u8 list" where
  "walk cap tmp cur [] = Inr (tmp, cur)"
| "walk cap tmp cur (b # bs) =
     (if b \<noteq> slash then walk cap tmp (cur @ [b]) bs
      else if cur = [dot] then walk cap tmp [] bs
      else if cur = [dot, dot] then (if tmp = [] then Inl Outside else walk cap (parent tmp) [] bs)
      else if length tmp + length cur + 1 \<le> cap then walk cap (tmp @ cur @ [slash]) [] bs
      else Inl Full)"

lemma resolve_walk:
  "resolve cap tmp cur bs = (case walk cap tmp cur bs of
     Inl e \<Rightarrow> e | Inr (t, c) \<Rightarrow> if length t + length c \<le> cap then Joined (t @ c) else Full)"
  by (induction cap tmp cur bs rule: resolve.induct) auto


definition recent :: "'a list \<Rightarrow> 'a \<Rightarrow> 'a \<Rightarrow> bool" where
  "recent cur c0 c1 \<longleftrightarrow> (cur \<noteq> [] \<longrightarrow> c1 = last cur) \<and> (2 \<le> length cur \<longrightarrow> c0 = last (butlast cur))"

lemma recent_snoc: "recent cur c0 c1 \<Longrightarrow> recent (cur @ [c]) c1 c"
  by (auto simp: recent_def)

lemma dot_tests:
  assumes "recent cur c0 c1" "length cur < 2 ^ 64"
  shows "(of_nat (length cur) :: usz) = 1 \<and> c1 = d \<longleftrightarrow> cur = [d]"
    "(of_nat (length cur) :: usz) = 2 \<and> c0 = d \<and> c1 = d \<longleftrightarrow> cur = [d, d]"
proof -
  have "(of_nat (length cur) :: usz) = 1 \<longleftrightarrow> length cur = 1" using of_nat_usz_eq [OF assms(2), of 1] by simp
  then show "(of_nat (length cur) :: usz) = 1 \<and> c1 = d \<longleftrightarrow> cur = [d]"
    using assms(1) by (cases cur) (auto simp: recent_def)
  have "(of_nat (length cur) :: usz) = 2 \<longleftrightarrow> length cur = 2" using of_nat_usz_eq [OF assms(2), of 2] by simp
  then show "(of_nat (length cur) :: usz) = 2 \<and> c0 = d \<and> c1 = d \<longleftrightarrow> cur = [d, d]"
    using assms(1) by (cases cur rule: remdups_adj.cases) (auto simp: recent_def)
qed

lemma MoveUpPath_building:
  assumes "building m dst ts" "ts \<noteq> []" "Enc dst = EC_UTF8"
  shows "\<exists>r. MoveUpPath default_dispatch m sp (holding dst ts) 1 = Some (r, holding dst (parent ts))"
    "building m dst (parent ts)"
proof -
  note u = MoveUpPath_eq [OF building_facts(2) [OF assms(1)] assms(2), of 1 sp]
  then show "\<exists>r. MoveUpPath default_dispatch m sp (holding dst ts) 1 = Some (r, holding dst (parent ts))"
    using assms(3) by (simp add: holding_def)
  obtain k where "k \<le> length ts" "parent ts = take k ts"
    using parent_ups [of ts] length_strip [of ts] ups_take [of "strip ts" 1]
    by (metis le0 nat_le_linear take_0 take_all)
  then show "building m dst (parent ts)"
    using assms(1) bytes_at_take [of m "Base dst" ts k] by (simp add: building_def)
qed

lemma Path_char_append:
  assumes "building m dst ts" "Enc dst = EC_UTF8" "Enc src = EC_UTF8" "region sp 4 \<inter> dom m = {}"
    and "bytes_at m (Base src + of_nat k) cur" "buf_region dst \<inter> region (Base src + of_nat k) (length cur) = {}"
    and "recent cur c0 c1" "length cur < 2 ^ 64" "cur \<noteq> [dot]" "cur \<noteq> [dot, dot]"
    and idx: "i = of_nat k + of_nat (length cur)"
  defines "r \<equiv> Path_char default_dispatch sp src i m (holding dst ts) (of_nat (length cur)) (of_nat k) c0 c1 slash"
  shows "if length ts + length cur + 1 \<le> unat (Size dst)
    then \<exists>m'. r = Some (m', Some (holding dst (ts @ cur @ [slash]), 0, i + 1))
      \<and> building m' dst (ts @ cur @ [slash]) \<and> frame dst m m'
    else \<exists>m'. r = Some (m', None) \<and> frame dst m m'"
proof -
  let ?dir = "String (Base src + of_nat k) (i - of_nat k) 0 (Enc src)"
  have "holds m ?dir cur" using assms(5) unat_offset [OF assms(8)] by (simp add: holds_def idx)
  then have a: "AppendStringToString m ?dir (holding dst ts) = Some (append_result m (holding dst ts) cur)"
    using assms(2,3,6) by (intro append_dir_eq [OF assms(1)]) simp_all
  have r: "r = do {
      (ok, m, tmp) \<leftarrow> AppendStringToString m ?dir (holding dst ts);
      if \<not> ok then Some (m, None)
      else do {
        (ok, m, tmp) \<leftarrow> AppendCharToString m sp 0x2F tmp;
        if \<not> ok then Some (m, None) else Some (m, Some (tmp, 0, i + 1))
      } }"
    using dot_tests [OF assms(7,8)] assms(9,10) by (auto simp: r_def Path_char_def)
  show ?thesis
  proof (cases "length ts + length cur \<le> unat (Size dst)")
    case False
    then show ?thesis using append_full [OF assms(1), of cur] a r by simp
  next
    case True
    from append_building [OF assms(1) True] obtain m1 where
      m1: "append_result m (holding dst ts) cur = (True, m1, holding dst (ts @ cur))" "building m1 dst (ts @ cur)" "frame dst m m1" .
    have "region sp 4 \<inter> dom m1 = {}" using assms(4) m1(3) by (simp add: frame_def)
    note s = append_slash_eq [OF m1(2) assms(2) this]
    show ?thesis
    proof (cases "length (ts @ cur) + length [slash] \<le> unat (Size dst)")
      case False
      then show ?thesis using append_full [OF m1(2), of "[slash]"] a r m1 s by simp
    next
      case True
      from append_building [OF m1(2) True] obtain m2 where
        m2: "append_result m1 (holding dst (ts @ cur)) [slash] = (True, m2, holding dst ((ts @ cur) @ [slash]))"
        "building m2 dst ((ts @ cur) @ [slash])" "frame dst m1 m2" .
      with True show ?thesis using a r m1 s frame_trans [OF m1(3) m2(3)] by simp
    qed
  qed
qed


definition walked :: "mem \<Rightarrow> path \<Rightarrow> u8 list \<Rightarrow> outcome + u8 list \<times> u8 list \<Rightarrow> (mem \<times> (path \<times> usz \<times> usz) option) option \<Rightarrow> bool" where
  "walked m dst ss w r \<longleftrightarrow>
     (case w of
        Inl Full \<Rightarrow> (\<exists>m'. r = Some (m', None) \<and> frame dst m m')
      | Inl _ \<Rightarrow> True
      | Inr (ts, cur) \<Rightarrow> (\<exists>m' pre. r = Some (m', Some (holding dst ts, of_nat (length cur), of_nat (length pre)))
          \<and> ss = pre @ cur \<and> building m' dst ts \<and> frame dst m m'))"

lemma walked_frame: "walked m' dst ss w r \<Longrightarrow> frame dst m m' \<Longrightarrow> walked m dst ss w r"
  by (auto simp: walked_def split: sum.splits outcome.splits intro: frame_trans)

lemma AppendPath_loop_eq:
  assumes "building m dst ts" "Enc dst = EC_UTF8" "Enc src = EC_UTF8" "region sp 4 \<inter> dom m = {}"
    and "holds m src ss" "buf_region dst \<inter> region (Base src) (length ss) = {}"
    and "ss = pre @ cur @ bs" "recent cur c1 c2" "i = of_nat (length pre) + of_nat (length cur)"
  shows "walked m dst ss (walk (unat (Size dst)) ts cur bs)
    (AppendPath_loop default_dispatch sp src i m (holding dst ts) (of_nat (length cur)) (of_nat (length pre)) c1 c2)"
  using assms
proof (induction bs arbitrary: m ts pre cur c1 c2 i)
  case Nil
  have "of_nat (length ss) = WriteCur src" using Nil.prems(5) by (simp add: holds_def)
  moreover have "of_nat (length ss) = i" using Nil.prems(7,9) by simp
  ultimately have "WriteCur src = i" by simp
  then show ?case using Nil.prems by (subst AppendPath_loop.simps) (auto simp: walked_def)
next
  case (Cons b bs)
  note p = Cons.prems
  have w: "length ss = unat (WriteCur src)" "bytes_at m (Base src) ss" using p(5) by (simp_all add: holds_def)
  have len: "length ss < 2 ^ 64" using w(1) unat_lt_2p [of "WriteCur src"] by simp
  have i: "i = of_nat (length pre + length cur)" using p(9) by simp
  have lt: "length pre + length cur < length ss" using p(7) by simp
  have ui: "unat i = length pre + length cur" unfolding i by (rule unat_offset) (use lt len in simp)
  then have "i < WriteCur src" using lt w(1) by (simp add: word_less_nat_alt)
  moreover have "ss ! (length pre + length cur) = b" by (simp add: p(7) nth_append)
  then have "m (Base src + i) = Some b" using bytes_at_nth [OF w(2) lt] i by simp
  ultimately have unf: "AppendPath_loop default_dispatch sp src i m (holding dst ts) (of_nat (length cur)) (of_nat (length pre)) c1 c2
    = do {
        (m, r) \<leftarrow> Path_char default_dispatch sp src i m (holding dst ts) (of_nat (length cur)) (of_nat (length pre)) c1 c2 b;
        case r of
          None \<Rightarrow> Some (m, None)
        | Some (tmp, n, k) \<Rightarrow> AppendPath_loop default_dispatch sp src (i + 1) m tmp n k c2 b
      }" (is "?loop = _") by (subst AppendPath_loop.simps) simp
  have "bytes_at m (Base src + of_nat (length pre)) (take (length cur) (drop (length pre) ss))"
    by (rule bytes_at_take [OF bytes_at_drop [OF w(2)]]) (use lt in simp)
  then have cur: "bytes_at m (Base src + of_nat (length pre)) cur" by (simp add: p(7))
  have reg: "buf_region dst \<inter> region (Base src + of_nat (length pre)) (length cur) = {}"
    using p(6) region_offset [of "length pre" "length cur" "length ss" "Base src"] lt by fastforce
  have "length cur < 2 ^ 64" using lt len by simp
  note dots = dot_tests [OF p(8) this]
  have k: "of_nat (length (pre @ cur @ [slash])) = i + 1" using i by (simp add: add.commute add.assoc)
  have next_i: "i + 1 = of_nat (length (pre @ cur @ [slash])) + of_nat (length [])" using i by simp
  consider "b \<noteq> slash" | "b = slash" "cur = [dot]" | "b = slash" "cur = [dot, dot]" "ts = []"
    | "b = slash" "cur = [dot, dot]" "ts \<noteq> []" | "b = slash" "cur \<noteq> [dot]" "cur \<noteq> [dot, dot]" by blast
  then show ?case
  proof cases
    case 1
    then have "?loop = AppendPath_loop default_dispatch sp src (i + 1) m (holding dst ts) (of_nat (length (cur @ [b]))) (of_nat (length pre)) c2 b"
      unfolding unf by (simp add: Path_char_def add.commute)
    then show ?thesis
      using 1 Cons.IH [OF p(1-6) _ recent_snoc [OF p(8)], of pre b "i + 1"] p(7) i by simp
  next
    case 2
    then have "?loop = AppendPath_loop default_dispatch sp src (i + 1) m (holding dst ts) (of_nat (length [])) (of_nat (length (pre @ cur @ [slash]))) c2 b"
      unfolding unf using dots i by (simp add: Path_char_def)
    then show ?thesis
      using 2 Cons.IH [OF p(1-6) _ _ next_i, of c2 b] p(7) by (simp add: recent_def)
  next
    case 3
    then show ?thesis by (simp add: walked_def)
  next
    case 4
    from MoveUpPath_building [OF p(1) 4(3) p(2)] obtain r where
      r: "MoveUpPath default_dispatch m sp (holding dst ts) 1 = Some (r, holding dst (parent ts))" "building m dst (parent ts)" by blast
    then have "?loop = AppendPath_loop default_dispatch sp src (i + 1) m (holding dst (parent ts)) (of_nat (length [])) (of_nat (length (pre @ cur @ [slash]))) c2 b"
      unfolding unf using dots i 4 by (simp add: Path_char_def)
    then show ?thesis
      using 4 Cons.IH [OF r(2) p(2-6) _ _ next_i, of c2 b] p(7) by (simp add: recent_def)
  next
    case 5
    note a = Path_char_append [OF p(1-4) cur reg p(8) \<open>length cur < 2 ^ 64\<close> 5(2,3) p(9)]
    show ?thesis
    proof (cases "length ts + length cur + 1 \<le> unat (Size dst)")
      case True
      with a obtain m1 where
        m1: "Path_char default_dispatch sp src i m (holding dst ts) (of_nat (length cur)) (of_nat (length pre)) c1 c2 slash
          = Some (m1, Some (holding dst (ts @ cur @ [slash]), 0, i + 1))" "building m1 dst (ts @ cur @ [slash])" "frame dst m m1"
        by auto
      then have "?loop = AppendPath_loop default_dispatch sp src (i + 1) m1 (holding dst (ts @ cur @ [slash])) (of_nat (length [])) (of_nat (length (pre @ cur @ [slash]))) c2 b"
        unfolding unf k using 5(1) by simp
      moreover have "region sp 4 \<inter> dom m1 = {}" "holds m1 src ss"
        using p(4,5) m1(3) frame_bytes_at [OF m1(3) p(6)] by (simp_all add: frame_def holds_def)
      ultimately show ?thesis
        using 5 True walked_frame [OF Cons.IH [OF m1(2) p(2,3) _ _ p(6) _ _ next_i, of c2 b] m1(3)] p(7) by (simp add: recent_def)
    next
      case False
      with a show ?thesis unfolding unf using 5 by (auto simp: walked_def)
    qed
  qed
qed


text \<open>The loop and what follows it.\<close>

definition path_rest :: "dispatch \<Rightarrow> mem \<Rightarrow> ptr \<Rightarrow> path \<Rightarrow> path \<Rightarrow> path \<Rightarrow> (bool \<times> mem \<times> path) option" where
  "path_rest d m sp src dst tmp =
     do {
       (m, r) \<leftarrow> AppendPath_loop d sp src 0 m tmp 0 0 0 0;
       case r of
         None \<Rightarrow> Some (False, m, dst)
       | Some (tmp, dirCharCount, readStart) \<Rightarrow>
           do {
             let dir = String (Base src + readStart) (WriteCur src - readStart) 0 (Enc src);
             (ok, m, tmp) \<leftarrow>
               (if dirCharCount > 0 then AppendStringToString m dir tmp else Some (True, m, tmp));
             if \<not> ok then Some (False, m, dst)
             else do { m \<leftarrow> store8 m (Base tmp + WriteCur tmp) 0; Some (True, m, tmp) }
           }
     }"

text \<open>The contract: \<open>joined\<close> relates the outcome to what a call returns. One byte more than \<open>Size\<close> belongs to the path.\<close>

definition joined :: "mem \<Rightarrow> path \<Rightarrow> outcome \<Rightarrow> (bool \<times> mem \<times> path) option \<Rightarrow> bool" where
  "joined m dst e r \<longleftrightarrow>
     (case e of
        Joined xs \<Rightarrow> \<exists>m'. r = Some (True, m', holding dst xs) \<and> holds m' (holding dst xs) xs
          \<and> m' (Base dst + of_nat (length xs)) = Some 0
          \<and> (\<forall>q. q \<notin> region (Base dst) (Suc (unat (Size dst))) \<longrightarrow> m' q = m q) \<and> dom m' = dom m
      | Full \<Rightarrow> \<exists>m'. r = Some (False, m', dst) \<and> frame dst m m'
      | Outside \<Rightarrow> True)"

lemma walk_not_joined: "walk cap tmp cur bs \<noteq> Inl (Joined xs)"
  by (induction cap tmp cur bs rule: walk.induct) auto

lemma joined_frame: "joined m' dst e r \<Longrightarrow> frame dst m m' \<Longrightarrow> joined m dst e r"
proof -
  assume j: "joined m' dst e r" and f: "frame dst m m'"
  have "q \<notin> buf_region dst" if "q \<notin> region (Base dst) (Suc (unat (Size dst)))" for q
    using that region_mono [of "unat (Size dst)" "Suc (unat (Size dst))" "Base dst"] by auto
  with j f show "joined m dst e r" by (auto simp: joined_def frame_def split: outcome.splits)
qed

lemma terminate_path:
  assumes "building m dst xs" "mapped m (Base dst) (Suc (unat (Size dst)))" "unat (Size dst) < 2 ^ 64 - 1"
  shows "\<exists>m'. store8 m (Base dst + of_nat (length xs)) 0 = Some m' \<and> joined m dst (Joined xs) (Some (True, m', holding dst xs))"
proof -
  let ?p = "Base dst + of_nat (length xs)"
  have l: "length xs < Suc (unat (Size dst))" using assms(1) by (simp add: building_def)
  then have "m ?p \<noteq> None" using assms(2) unfolding mapped_def by blast
  then have s: "store8 m ?p 0 = Some (m(?p \<mapsto> 0))" by (auto simp: store8_def)
  have "(of_nat i :: ptr) \<noteq> of_nat (length xs)" if "i < length xs" for i
    using that l assms(3) of_nat_usz_eq [of i "length xs"] by simp
  then have "bytes_at (m(?p \<mapsto> 0)) (Base dst) xs"
    using assms(1) by (simp add: building_def bytes_at_def)
  moreover have "?p \<in> region (Base dst) (Suc (unat (Size dst)))" using l by (rule region_memI)
  moreover have "dom (m(?p \<mapsto> 0)) = dom m" using \<open>m ?p \<noteq> None\<close> by auto
  ultimately have "joined m dst (Joined xs) (Some (True, m(?p \<mapsto> 0), holding dst xs))"
    using building_facts(1) [OF assms(1)] by (simp add: joined_def holds_def)
  with s show ?thesis by blast
qed

lemma path_rest_correct:
  assumes "building m dst ts" "Enc dst = EC_UTF8" "Enc src = EC_UTF8" "region sp 4 \<inter> dom m = {}"
    and "holds m src ss" "buf_region dst \<inter> region (Base src) (length ss) = {}"
    and "mapped m (Base dst) (Suc (unat (Size dst)))" "unat (Size dst) < 2 ^ 64 - 1"
  shows "joined m dst (resolve (unat (Size dst)) ts [] ss) (path_rest default_dispatch m sp src dst (holding dst ts))"
proof -
  let ?l = "AppendPath_loop default_dispatch sp src 0 m (holding dst ts) 0 0 0 0"
  have w: "walked m dst ss (walk (unat (Size dst)) ts [] ss) ?l"
    using AppendPath_loop_eq [OF assms(1-6), of "[]" "[]" ss 0 0 0] by (simp add: recent_def)
  show ?thesis
  proof (cases "walk (unat (Size dst)) ts [] ss")
    case (Inl e)
    then show ?thesis using w by (cases e) (auto simp: walked_def resolve_walk joined_def path_rest_def walk_not_joined)
  next
    case (Inr tc)
    obtain us cur where tc: "tc = (us, cur)" by (cases tc)
    with w Inr obtain m1 pre where
      l: "?l = Some (m1, Some (holding dst us, of_nat (length cur), of_nat (length pre)))"
      and ss: "ss = pre @ cur" and b: "building m1 dst us" and fr: "frame dst m m1" by (auto simp: walked_def)
    have mp: "mapped m1 (Base dst) (Suc (unat (Size dst)))" using assms(7) fr by (simp add: mapped_dom frame_def)
    have len: "length ss < 2 ^ 64" "WriteCur src = of_nat (length ss)"
      using assms(5) unat_lt_2p [of "WriteCur src"] by (simp_all add: holds_def)
    have res: "resolve (unat (Size dst)) ts [] ss = (if length us + length cur \<le> unat (Size dst) then Joined (us @ cur) else Full)"
      using Inr tc by (simp add: resolve_walk)
    let ?dir = "String (Base src + of_nat (length pre)) (WriteCur src - of_nat (length pre)) 0 (Enc src)"
    have n: "(of_nat (length cur) :: usz) > 0 \<longleftrightarrow> cur \<noteq> []" using len(1) ss by (simp add: of_nat_pos)
    have rest: "path_rest default_dispatch m sp src dst (holding dst ts) =
      do {
        (ok, m, tmp) \<leftarrow> Some (append_result m1 (holding dst us) cur);
        if \<not> ok then Some (False, m, dst)
        else do { m \<leftarrow> store8 m (Base tmp + WriteCur tmp) 0; Some (True, m, tmp) }
      }"
    proof (cases "cur = []")
      case True
      then show ?thesis unfolding path_rest_def l using n by (simp add: append_Nil)
    next
      case False
      have "bytes_at m1 (Base src) ss" using frame_bytes_at [OF fr assms(6)] assms(5) by (simp add: holds_def)
      then have "bytes_at m1 (Base src + of_nat (length pre)) cur" by (simp add: ss)
      moreover have "unat (of_nat (length cur) :: usz) = length cur" using len(1) ss by (intro unat_offset) simp
      ultimately have h: "holds m1 ?dir cur" using len(2) ss by (simp add: holds_def)
      have "buf_region dst \<inter> region (Base src + of_nat (length pre)) (length cur) = {}"
        using assms(6) region_offset [of "length pre" "length cur" "length ss" "Base src"] ss by fastforce
      then have "AppendStringToString m1 ?dir (holding dst us) = Some (append_result m1 (holding dst us) cur)"
        using assms(2,3) h by (intro append_dir_eq [OF b]) simp_all
      then show ?thesis unfolding path_rest_def l using n False by simp
    qed
    show ?thesis
    proof (cases "length us + length cur \<le> unat (Size dst)")
      case False
      then show ?thesis using rest res append_full [OF b, of cur] fr by (simp add: joined_def)
    next
      case True
      from append_building [OF b True] obtain m2 where
        m2: "append_result m1 (holding dst us) cur = (True, m2, holding dst (us @ cur))" "building m2 dst (us @ cur)" "frame dst m1 m2" .
      have "mapped m2 (Base dst) (Suc (unat (Size dst)))" using mp m2(3) by (simp add: mapped_dom frame_def)
      from terminate_path [OF m2(2) this assms(8)] obtain m3 where
        m3: "store8 m2 (Base dst + of_nat (length (us @ cur))) 0 = Some m3"
        "joined m2 dst (Joined (us @ cur)) (Some (True, m3, holding dst (us @ cur)))" by blast
      then show ?thesis
        using rest res True m2(1) joined_frame [OF m3(2) frame_trans [OF fr m2(3)]] by simp
    qed
  qed
qed


lemma AppendPath_unfold:
  assumes "WriteCur dst > 0 \<Longrightarrow> m (Base dst + (WriteCur dst - 1)) = Some c"
    and "(if WriteCur dst > 0 \<and> c \<noteq> slash then AppendCharToString m sp 0x2F dst else Some (True, m, dst)) = Some (ok, m1, tmp)"
    and "WriteCur dst > 0 \<Longrightarrow> m1 (Base src) = Some c'"
  shows "AppendPath d m sp src dst = (if \<not> ok then Some (False, m1, dst)
    else path_rest d m1 sp (if WriteCur dst > 0 \<and> c' = slash then AdvanceBuffer src 1 else src) dst tmp)"
  using assms by (cases "WriteCur dst > 0") (auto simp: AppendPath_def path_rest_def Let_def)

lemma advance_source:
  assumes "holds m src ss" "m (Base src) = Some c" "ss = [] \<Longrightarrow> c \<noteq> slash" "buf_region dst \<inter> region (Base src) (length ss) = {}"
  defines "src' \<equiv> if c = slash then AdvanceBuffer src 1 else src" and "ss' \<equiv> if ss \<noteq> [] \<and> hd ss = slash then tl ss else ss"
  shows "holds m src' ss'" "Enc src' = Enc src" "buf_region dst \<inter> region (Base src') (length ss') = {}"
proof -
  have "holds m src' ss' \<and> Enc src' = Enc src \<and> buf_region dst \<inter> region (Base src') (length ss') = {}"
  proof (cases ss)
    case Nil
    then show ?thesis using assms(1,3,4) by (simp add: src'_def ss'_def)
  next
    case (Cons a as)
    then have "c = a" using assms(1,2) by (simp add: holds_def)
    moreover have "holds m (AdvanceBuffer src 1) as" if "a = slash"
    proof -
      have "unat (WriteCur src) = Suc (length as)" using assms(1) Cons by (simp add: holds_def)
      then have "unat (WriteCur src - 1) = length as" by (simp add: unat_minus_one word_gt_0 unat_eq_zero flip: unat_eq_0)
      then show ?thesis using assms(1) Cons by (simp add: holds_def AdvanceBuffer_def)
    qed
    moreover have "region (Base src + 1) (length as) \<subseteq> region (Base src) (length ss)" using Cons by (auto simp: region_Suc)
    ultimately show ?thesis using assms(1,4) Cons by (auto simp: src'_def ss'_def AdvanceBuffer_def)
  qed
  then show "holds m src' ss'" "Enc src' = Enc src" "buf_region dst \<inter> region (Base src') (length ss') = {}" by simp_all
qed

lemma path_rest_joins:
  assumes "holds m src ss" "Enc dst = EC_UTF8" "Enc src = EC_UTF8"
    and "mapped m (Base dst) (Suc (unat (Size dst)))" "unat (Size dst) < 2 ^ 64 - 1"
    and "buf_region dst \<inter> region (Base src) (length ss) = {}" "region sp 4 \<inter> dom m = {}"
    and m1: "building m1 dst ts" "frame dst m m1" and c1: "m1 (Base src) = Some c" and empty: "ss = [] \<Longrightarrow> c \<noteq> slash"
  shows "joined m dst (resolve (unat (Size dst)) ts [] (if ss \<noteq> [] \<and> hd ss = slash then tl ss else ss))
    (path_rest default_dispatch m1 sp (if c = slash then AdvanceBuffer src 1 else src) dst (holding dst ts))"
proof -
  let ?ss = "if ss \<noteq> [] \<and> hd ss = slash then tl ss else ss" and ?src = "if c = slash then AdvanceBuffer src 1 else src"
  have "holds m1 src ss" using frame_bytes_at [OF m1(2) assms(6)] assms(1) by (simp add: holds_def)
  note src = advance_source [OF this c1 empty assms(6)]
  have "joined m1 dst (resolve (unat (Size dst)) ts [] ?ss) (path_rest default_dispatch m1 sp ?src dst (holding dst ts))"
    by (rule path_rest_correct [OF m1(1) assms(2) _ _ src(1,3) _ assms(5)])
      (use src(2) assms(3,4,7) m1(2) in \<open>simp_all add: frame_def mapped_dom\<close>)
  then show ?thesis by (rule joined_frame [OF _ m1(2)])
qed

lemma AppendPath_joins:
  assumes "holds m dst ds" "buf_ok m dst" "holds m src ss" "Enc dst = EC_UTF8" "Enc src = EC_UTF8"
    and "mapped m (Base dst) (Suc (unat (Size dst)))" "unat (Size dst) < 2 ^ 64 - 1"
    and "buf_region dst \<inter> region (Base src) (length ss) = {}" "region sp 4 \<inter> dom m = {}"
    and "ss = [] \<Longrightarrow> Base src \<notin> buf_region dst \<and> (\<exists>c. m (Base src) = Some c \<and> c \<noteq> slash)"
  shows "joined m dst (join (unat (Size dst)) ds ss) (AppendPath default_dispatch m sp src dst)"
proof -
  have dst: "dst = holding dst ds" and n: "unat (WriteCur dst) = length ds" using assms(1) by (simp_all add: holding_def holds_def)
  have b: "building m dst ds" using assms(1,2) by (simp add: building_def holds_def buf_ok_def word_le_nat_alt)
  obtain c' where c': "m (Base src) = Some c'" "ss = [] \<Longrightarrow> c' \<noteq> slash"
    using assms(3,10) by (cases ss) (auto simp: holds_def)
  show ?thesis
  proof (cases "ds = []")
    case True
    then have "WriteCur dst = 0" using n by (simp add: unat_eq_zero flip: unat_eq_0)
    then have "AppendPath default_dispatch m sp src dst = path_rest default_dispatch m sp src dst dst"
      using AppendPath_unfold [of dst m 0 sp True m dst src 0] by simp
    then show ?thesis
      using path_rest_correct [OF b assms(4,5,9,3,8,6,7)] dst True by (simp add: join_def)
  next
    case False
    then have pos: "WriteCur dst > 0" using n by (simp add: word_less_nat_alt)
    note last = last_byte(2) [OF assms(1) False]
    let ?src = "if c' = slash then AdvanceBuffer src 1 else src"
    note rest = path_rest_joins [OF assms(3-9) _ _ _ c'(2)]
    consider "last ds = slash" | "last ds \<noteq> slash" "length ds + length [slash] \<le> unat (Size dst)"
      | "last ds \<noteq> slash" "unat (Size dst) < length ds + length [slash]" by linarith
    then show ?thesis
    proof cases
      case 1
      then have "AppendPath default_dispatch m sp src dst = path_rest default_dispatch m sp ?src dst dst"
        using AppendPath_unfold [of dst m "last ds" sp True m dst src c'] last c'(1) pos by simp
      moreover have "length ds \<le> unat (Size dst)" using b by (simp add: building_def)
      ultimately show ?thesis using rest [OF b frame_refl c'(1)] dst 1 False by (simp add: join_def)
    next
      case 2
      from append_building [OF b 2(2)] obtain m1 where
        m1: "append_result m (holding dst ds) [slash] = (True, m1, holding dst (ds @ [slash]))"
        "building m1 dst (ds @ [slash])" "frame dst m m1" .
      have "Base src \<notin> buf_region dst"
        using assms(8,10) region_memI [of 0 "length ss" "Base src"] by (cases ss) auto
      then have "m1 (Base src) = Some c'" using m1(3) c'(1) by (simp add: frame_def)
      moreover from this have "AppendPath default_dispatch m sp src dst = path_rest default_dispatch m1 sp ?src dst (holding dst (ds @ [slash]))"
        using AppendPath_unfold [of dst m "last ds" sp True m1 "holding dst (ds @ [slash])" src c'] last pos 2(1) m1(1)
          append_slash_eq [OF b assms(4,9)] dst by simp
      ultimately show ?thesis using rest [OF m1(2,3)] 2 False by (simp add: join_def)
    next
      case 3
      have "AppendPath default_dispatch m sp src dst = Some (False, m, dst)"
        using AppendPath_unfold [of dst m "last ds" sp False m dst src c'] last c'(1) pos 3(1)
          append_slash_eq [OF b assms(4,9)] append_full [OF b 3(2)] dst by simp
      then show ?thesis using 3 False by (simp add: join_def joined_def)
    qed
  qed
qed

text \<open>
  C4: \<open>_AppendPathToPath\<close> joins the paths as \<open>join\<close> says and puts a zero behind the result, or returns
  false without moving the cursor when the result does not fit. It changes nothing outside the space
  of the path and the byte behind it. The case that goes above the start of an empty path is left open.
\<close>

theorem AppendPath_correct:
  assumes "holds m dst ds" "buf_ok m dst" "holds m src ss" "Enc dst = EC_UTF8" "Enc src = EC_UTF8"
    and "mapped m (Base dst) (Suc (unat (Size dst)))" "unat (Size dst) < 2 ^ 64 - 1"
    and "buf_region dst \<inter> region (Base src) (length ss) = {}" "region sp 4 \<inter> dom m = {}"
    and "ss = [] \<Longrightarrow> Base src \<notin> buf_region dst \<and> (\<exists>c. m (Base src) = Some c \<and> c \<noteq> slash)"
  shows "joined m dst (join (unat (Size dst)) ds ss) (AppendPath default_dispatch m sp src dst)"
  using assms by (rule AppendPath_joins)


lemma resolve_name: "slash \<notin> set bs \<Longrightarrow>
    resolve cap tmp cur bs = (if length tmp + length cur + length bs \<le> cap then Joined (tmp @ cur @ bs) else Full)"
  by (induction bs arbitrary: cur) auto

definition with_slash :: "u8 list \<Rightarrow> u8 list" where
  "with_slash ds = (if last ds = slash then ds else ds @ [slash])"

lemma join_name:
  assumes "ds \<noteq> []" "name \<noteq> []" "slash \<notin> set name" "length (with_slash ds @ name) \<le> cap"
  shows "join cap ds name = Joined (with_slash ds @ name)"
proof -
  have "hd name \<noteq> slash" using assms(2,3) by (metis list.set_sel(1))
  then show ?thesis using assms by (simp add: join_def with_slash_def resolve_name)
qed

lemma last_idx_append: "c \<notin> set ys \<Longrightarrow> last_idx ((=) c) (xs @ [c] @ ys) = Some (length xs)"
  by (simp add: last_idx_Some nth_append)

lemma parent_name:
  assumes "name \<noteq> []" "slash \<notin> set name" "xs \<noteq> []"
  shows "parent (xs @ [slash] @ name) = xs @ [slash]"
proof -
  have "last name \<noteq> slash" using assms(1,2) last_in_set by metis
  then have "strip (xs @ [slash] @ name) = xs @ [slash] @ name" using assms(1) by (simp add: strip_def)
  then show ?thesis using last_idx_append [OF assms(2), of xs] assms(3) by (simp add: parent_def)
qed

text \<open>
  Appending the name of a file to the path of a directory and moving up one step gives the path of
  the directory back, with a slash at its end, unless that is the root.
\<close>

theorem AppendPath_MoveUpPath:
  assumes "holds m dst ds" "buf_ok m dst" "holds m src name" "Enc dst = EC_UTF8" "Enc src = EC_UTF8"
    and "mapped m (Base dst) (Suc (unat (Size dst)))" "unat (Size dst) < 2 ^ 64 - 1"
    and "buf_region dst \<inter> region (Base src) (length name) = {}" "region sp 4 \<inter> dom m = {}"
    and "ds \<noteq> []" "ds \<noteq> [slash]" "name \<noteq> []" "slash \<notin> set name" "length (with_slash ds @ name) \<le> unat (Size dst)"
  shows "\<exists>m' dst' dst''. AppendPath default_dispatch m sp src dst = Some (True, m', dst')
    \<and> holds m' dst' (with_slash ds @ name)
    \<and> MoveUpPath default_dispatch m' sp dst' 1 = Some (True, dst'') \<and> holds m' dst'' (with_slash ds)"
proof -
  let ?xs = "with_slash ds @ name"
  from AppendPath_joins [OF assms(1-9)] assms(12) join_name [OF assms(10,12,13,14)] obtain m' where
    m': "AppendPath default_dispatch m sp src dst = Some (True, m', holding dst ?xs)" "holds m' (holding dst ?xs) ?xs"
    by (auto simp: joined_def)
  have "\<exists>d. with_slash ds = d @ [slash] \<and> d \<noteq> []"
  proof (cases "last ds = slash")
    case True
    then have "ds = butlast ds @ [slash]" using assms(10) append_butlast_last_id [of ds] by simp
    then show ?thesis using True assms(11) by (intro exI [of _ "butlast ds"]) (auto simp: with_slash_def)
  qed (use assms(10) in \<open>auto simp: with_slash_def\<close>)
  then obtain d where d: "with_slash ds = d @ [slash]" "d \<noteq> []" by blast
  then have p: "parent ?xs = with_slash ds" using parent_name [OF assms(12,13) d(2)] by simp
  have "last name \<noteq> slash" using assms(12,13) last_in_set by metis
  then have "strip ?xs = ?xs" using assms(12) by (simp add: strip_def)
  then show ?thesis
    using MoveUpPath_eq [OF m'(2), of 1 sp] m' p assms(4,12) by fastforce
qed


text \<open>
  Moving up from a file in the root directory gives the empty path, not the root.
\<close>

theorem MoveUpPath_drops_root:
  assumes "holds m p (slash # name)" "name \<noteq> []" "slash \<notin> set name" "Enc p = EC_UTF8"
  shows "MoveUpPath default_dispatch m sp p 1 = Some (True, p\<lparr>WriteCur := 0\<rparr>)"
proof -
  have "last name \<noteq> slash" using assms(2,3) last_in_set by metis
  then have s: "strip (slash # name) = slash # name" using assms(2) by (simp add: strip_def)
  have "last_idx ((=) slash) (slash # name) = Some 0" using last_idx_append [OF assms(3), of "[]"] by simp
  then have "parent (slash # name) = []" unfolding parent_def s by simp
  then show ?thesis using MoveUpPath_eq [OF assms(1) _ assms(4), of 1 sp] s by simp
qed

lemma loop_runs_off:
  assumes "bytes_at m (Base src + i) xs" "slash \<notin> set xs" "m (Base src + i + of_nat (length xs)) = None"
    and "unat i + length xs < unat (WriteCur src)"
  shows "AppendPath_loop d sp src i m tmp n k c1 c2 = None"
  using assms
proof (induction xs arbitrary: i n c1 c2)
  case Nil
  then show ?case by (subst AppendPath_loop.simps) (simp add: word_less_nat_alt)
next
  case (Cons b xs)
  have "i < WriteCur src" using Cons.prems(4) by (simp add: word_less_nat_alt)
  then have "unat (i + 1) = Suc (unat i)" by (rule unat_Suc_less)
  then have "AppendPath_loop d sp src (i + 1) m tmp (n + 1) k c2 b = None"
    using Cons.prems by (intro Cons.IH) (simp_all add: add.assoc)
  then show ?case
    using Cons.prems \<open>i < WriteCur src\<close> by (subst AppendPath_loop.simps) (simp add: Path_char_def)
qed

text \<open>
  Appending an empty path whose memory starts with a slash (such as \<open>MoveUpPath\<close> leaves in the case
  above) makes the cursor of the copy wrap: the call reads on behind the path, as long as it finds memory
  without a slash.
\<close>

theorem AppendPathToPath_reads_on:
  assumes "holds m dst ds" "buf_ok m dst" "ds \<noteq> []" "last ds = slash" "Enc src = Enc dst"
    and "WriteCur src = 0" "m (Base src) = Some slash" "bytes_at m (Base src + 1) xs" "slash \<notin> set xs"
    and "m (Base src + 1 + of_nat (length xs)) = None" "length xs < 2 ^ 64 - 1"
  shows "AppendPathToPath d m sp src dst = None"
proof -
  have n: "unat (WriteCur dst) = length ds" using assms(1) by (simp add: holds_def)
  then have pos: "WriteCur dst > 0" using assms(3) by (simp add: word_less_nat_alt)
  have "WriteCur dst - 1 = of_nat (length ds - 1)"
    using n assms(3) by (metis One_nat_def Suc_leI length_greater_0_conv of_nat_1 of_nat_diff of_nat_unat ucast_id)
  moreover have "bytes_at m (Base dst) ds" using assms(1) by (simp add: holds_def)
  from bytes_at_nth [OF this, of "length ds - 1"] assms(3,4) have "m (Base dst + of_nat (length ds - 1)) = Some slash"
    by (simp add: last_conv_nth)
  ultimately have last: "m (Base dst + (WriteCur dst - 1)) = Some slash" by simp
  have "AppendPath d m sp src dst = path_rest d m sp (AdvanceBuffer src 1) dst dst"
    using AppendPath_unfold [of dst m slash sp True m dst src slash d] last assms(7) pos by simp
  moreover have "AppendPath_loop d sp (AdvanceBuffer src 1) 0 m dst 0 0 0 0 = None"
    using assms(6,8-11) by (intro loop_runs_off [where xs = xs])
      (simp_all add: AdvanceBuffer_def unsigned_minus_1_eq_mask mask_eq_exp_minus_1)
  ultimately show ?thesis using assms(5,6) by (simp add: AppendPathToPath_def path_rest_def)
qed


section \<open>Concrete paths\<close>

text \<open>A path with room for 16 bytes at \<open>0x100\<close>, holding \<open>xs\<close>, and a name of one letter at \<open>0x200\<close>.\<close>

definition ex_paths :: "u8 list \<Rightarrow> u8 \<Rightarrow> mem" where
  "ex_paths xs c = upd_bytes (upd_bytes Map.empty 0x100 (take 17 (xs @ replicate 17 0))) 0x200 [c, 0]"

definition ex_dir :: "u8 list \<Rightarrow> path" where
  "ex_dir xs = String 0x100 (of_nat (length xs)) 16 EC_UTF8"

definition ex_name :: "usz \<Rightarrow> path" where
  "ex_name n = String 0x200 n 0 EC_UTF8"

lemma ex_paths_facts:
  assumes "length xs \<le> 16"
  shows "holds (ex_paths xs c) (ex_dir xs) xs" "buf_ok (ex_paths xs c) (ex_dir xs)" "mapped (ex_paths xs c) 0x100 17"
    "bytes_at (ex_paths xs c) 0x200 [c, 0]" "region 0x300 4 \<inter> dom (ex_paths xs c) = {}"
    "ex_paths xs c 0x202 = None"
proof -
  let ?bs = "take 17 (xs @ replicate 17 0)" and ?m = "ex_paths xs c"
  have l: "length ?bs = 17" by simp
  have two: "bytes_at ?m 0x100 ?bs" "bytes_at ?m 0x200 [c, 0]"
    unfolding ex_paths_def by (rule two_blocks; (simp only: l)?; simp add: region_Suc)+
  moreover have "?bs = xs @ take (17 - length xs) (replicate 17 0)" using assms by simp
  ultimately have b: "bytes_at ?m 0x100 (xs @ take (17 - length xs) (replicate 17 0))" by simp
  then have "bytes_at ?m 0x100 xs" by simp
  moreover have u: "unat (of_nat (length xs) :: usz) = length xs" using assms by (intro unat_offset) simp
  ultimately show "holds ?m (ex_dir xs) xs" by (simp add: holds_def ex_dir_def)
  show mp: "mapped ?m 0x100 17" using bytes_at_mapped [OF b] assms by simp
  show "buf_ok ?m (ex_dir xs)"
    using mapped_mono [OF mp, of 16] assms u by (simp add: buf_ok_def ex_dir_def word_le_nat_alt)
  show "bytes_at ?m 0x200 [c, 0]" by (rule two(2))
  have out: "?m q = None" if "q \<notin> region 0x100 17" "q \<notin> region 0x200 2" for q
  proof -
    have "?m q = upd_bytes Map.empty 0x100 ?bs q"
      unfolding ex_paths_def by (rule upd_bytes_out) (use that(2) in \<open>simp_all add: region_Suc\<close>)
    also have "\<dots> = None" by (subst upd_bytes_out) (use that(1) in \<open>simp_all only: l\<close>, simp_all)
    finally show ?thesis .
  qed
  have "q \<notin> region 0x100 17" "q \<notin> region 0x200 2" if "q \<in> region 0x300 4" for q :: ptr
    using that by auto
  then have "?m q = None" if "q \<in> region 0x300 4" for q using out that by blast
  then show "region 0x300 4 \<inter> dom ?m = {}" by (auto simp del: region_numeral)
  show "?m 0x202 = None" by (rule out) simp_all
qed

theorem MoveUpPath_correct_witness:
  "MoveUpPath default_dispatch (ex_paths [0x61, slash, 0x62, slash, 0x63, slash] 0) 0x300 (ex_dir [0x61, slash, 0x62, slash, 0x63, slash]) 2
    = Some (True, String 0x100 2 16 EC_UTF8)"
proof -
  let ?xs = "[0x61, slash, 0x62, slash, 0x63, slash] :: u8 list"
  have "unat (2 :: usz) = Suc (Suc 0)" by simp
  then have "(parent ^^ unat (2 :: usz)) ?xs = [0x61, slash]"
    by (simp only: funpow.simps comp_apply id_apply) (simp add: parent_def strip_def last_idx_def upt_rec)
  moreover have "holds (ex_paths ?xs 0) (ex_dir ?xs) ?xs" by (rule ex_paths_facts) simp
  ultimately show ?thesis
    using MoveUpPath_correct [of "ex_paths ?xs 0" "ex_dir ?xs" ?xs 2 "0x300"] by (simp add: strip_def ex_dir_def String_def)
qed

theorem AppendPath_correct_witness:
  "\<exists>m'. AppendPath default_dispatch (ex_paths [0x61] 0x62) 0x300 (ex_name 1) (ex_dir [0x61]) = Some (True, m', String 0x100 3 16 EC_UTF8)
    \<and> holds m' (String 0x100 3 16 EC_UTF8) [0x61, slash, 0x62]"
proof -
  have l: "length [0x61 :: u8] \<le> 16" by simp
  note f = ex_paths_facts [OF l, of "0x62"]
  have "holds (ex_paths [0x61] 0x62) (ex_name 1) [0x62]" using f(4) by (simp add: holds_def ex_name_def)
  from AppendPath_correct [OF f(1,2) this _ _ _ _ _ f(5)] f(3)
  have "joined (ex_paths [0x61] 0x62) (ex_dir [0x61]) (Joined [0x61, slash, 0x62])
      (AppendPath default_dispatch (ex_paths [0x61] 0x62) 0x300 (ex_name 1) (ex_dir [0x61]))"
    by (simp add: ex_dir_def ex_name_def join_def)
  moreover have "holding (ex_dir [0x61]) [0x61, slash, 0x62] = String 0x100 3 16 EC_UTF8"
    by (simp add: holding_def ex_dir_def String_def)
  ultimately show ?thesis unfolding joined_def by auto
qed

theorem AppendPath_MoveUpPath_witness:
  "\<exists>m' dst' dst''. AppendPath default_dispatch (ex_paths [0x61] 0x62) 0x300 (ex_name 1) (ex_dir [0x61]) = Some (True, m', dst')
    \<and> MoveUpPath default_dispatch m' 0x300 dst' 1 = Some (True, dst'') \<and> holds m' dst'' [0x61, slash]"
proof -
  have l: "length [0x61 :: u8] \<le> 16" by simp
  note f = ex_paths_facts [OF l, of "0x62"]
  have "holds (ex_paths [0x61] 0x62) (ex_name 1) [0x62]" using f(4) by (simp add: holds_def ex_name_def)
  from AppendPath_MoveUpPath [OF f(1,2) this _ _ _ _ _ f(5)] f(3) show ?thesis
    by (simp add: ex_dir_def ex_name_def with_slash_def) blast
qed

theorem MoveUpPath_drops_root_witness:
  "MoveUpPath default_dispatch (ex_paths [slash, 0x61] 0) 0x300 (ex_dir [slash, 0x61]) 1 = Some (True, String 0x100 0 16 EC_UTF8)"
proof -
  have "holds (ex_paths [slash, 0x61] 0) (ex_dir [slash, 0x61]) [slash, 0x61]" by (rule ex_paths_facts) simp
  from MoveUpPath_drops_root [OF this] show ?thesis by (simp add: ex_dir_def String_def)
qed

theorem AppendPathToPath_reads_on_witness:
  "AppendPathToPath default_dispatch (ex_paths [0x61, slash] slash) 0x300 (ex_name 0) (ex_dir [0x61, slash]) = None"
proof -
  have l: "length [0x61, slash :: u8] \<le> 16" by simp
  note f = ex_paths_facts [OF l, of slash]
  show ?thesis
    by (rule AppendPathToPath_reads_on [OF f(1,2), where xs = "[0]"]) (use f(4,6) in \<open>simp_all add: ex_name_def ex_dir_def\<close>)
qed

end
