(* ===== verification/Files.thy ===== *)
theory Files
  imports Paths
begin

text \<open>
  Memory from the system and files on Linux (\<open>src/tinybase-platform-linux.c\<close>, lines 57 to 428). The
  system calls are the parameter \<open>os\<close>: functions of their arguments and of the state \<open>'w\<close> of the
  system, which they return changed. A call that fails returns \<open>- 1\<close> or None. \<open>posix\<close> states what the
  manual pages promise of them for regular files. Memory that the system maps is modelled as readable
  and writable whatever protection was asked for.
\<close>

unbundle bit_operations_syntax

section \<open>The system\<close>

datatype inode = Regular usz | Block | Other

record aiocb =
  aio_fildes :: int
  aio_buf :: ptr
  aio_nbytes :: usz
  aio_offset :: int

record 'w os =
  sys_mmap :: "mem \<Rightarrow> ptr \<Rightarrow> usz \<Rightarrow> u32 \<Rightarrow> 'w \<Rightarrow> ptr option \<times> 'w"
  sys_munmap :: "ptr \<Rightarrow> usz \<Rightarrow> 'w \<Rightarrow> 'w"
  sys_open :: "u8 list \<Rightarrow> u32 \<Rightarrow> u32 \<Rightarrow> 'w \<Rightarrow> 32 word \<times> 'w"
  sys_close :: "32 word \<Rightarrow> 'w \<Rightarrow> 'w"
  sys_unlink :: "u8 list \<Rightarrow> 'w \<Rightarrow> int \<times> 'w"
  sys_access :: "u8 list \<Rightarrow> 'w \<Rightarrow> int"
  sys_fstat :: "32 word \<Rightarrow> 'w \<Rightarrow> inode option"
  sys_blksize :: "32 word \<Rightarrow> 'w \<Rightarrow> u64 option"
  sys_mtime :: "32 word \<Rightarrow> 'w \<Rightarrow> (int \<times> int) option"
  sys_lseek :: "32 word \<Rightarrow> int \<Rightarrow> 'w \<Rightarrow> int \<times> 'w"
  sys_read :: "32 word \<Rightarrow> usz \<Rightarrow> 'w \<Rightarrow> u8 list option \<times> 'w"
  sys_write :: "32 word \<Rightarrow> u8 list \<Rightarrow> 'w \<Rightarrow> int \<times> 'w"
  sys_copy_file_range :: "32 word \<Rightarrow> 32 word \<Rightarrow> usz \<Rightarrow> 'w \<Rightarrow> int \<times> 'w"
  sys_aio_read :: "aiocb \<Rightarrow> 'w \<Rightarrow> int \<times> 'w"
  sys_aio_write :: "aiocb \<Rightarrow> 'w \<Rightarrow> int \<times> 'w"
  sys_aio_suspend :: "aiocb \<Rightarrow> bool \<Rightarrow> 'w \<Rightarrow> int \<times> 'w"
  sys_aio_return :: "aiocb \<Rightarrow> 'w \<Rightarrow> int \<times> 'w"

type_synonym handle = usz

definition INVALID_FILE :: handle where "INVALID_FILE = USZ_MAX"

text \<open>The conversions \<open>(int)File\<close>, of an \<open>int\<close> to \<open>usz\<close>, and of \<open>usz\<close> to a signed type.\<close>

definition fd_of :: "handle \<Rightarrow> 32 word" where "fd_of f = ucast f"
definition file_of :: "32 word \<Rightarrow> handle" where "file_of fd = scast fd"

definition cstring :: "mem \<Rightarrow> ptr \<Rightarrow> u8 list option" where
  "cstring m p = do { n \<leftarrow> strlen m p; load_bytes m p (unat n) }"

section \<open>Memory\<close>

definition MEM_READ :: u32 where "MEM_READ = 0x1"
definition MEM_WRITE :: u32 where "MEM_WRITE = 0x2"
definition MEM_GUARD :: u32 where "MEM_GUARD = 0x4"
definition MEM_EXEC :: u32 where "MEM_EXEC = 0x8"

definition empty_buffer :: buffer where
  "empty_buffer = Buffer 0 0 0"

definition ClearMemory :: "mem \<Rightarrow> 'a buffer_scheme \<Rightarrow> (mem \<times> 'a buffer_scheme) option" where
  "ClearMemory m b = do { m \<leftarrow> memset m (Base b) 0 (Size b); Some (m, b\<lparr>WriteCur := 0\<rparr>) }"

definition mem_prot :: "u32 \<Rightarrow> u32" where
  "mem_prot flags =
     (let prot = 0;
          prot = (if has_flag flags MEM_READ then prot OR 0x1 else prot);
          prot = (if has_flag flags MEM_WRITE then prot OR 0x1 OR 0x2 else prot);
          prot = (if has_flag flags MEM_EXEC then prot OR 0x4 else prot)
      in if has_flag flags MEM_GUARD then 0 else prot)"

text \<open>\<open>pageSize\<close> is \<open>gSysInfo.PageSize\<close>, 0 before \<open>LoadSystemInfo\<close>; the system maps whole pages of 4096 bytes.\<close>

definition GetMemory ::
  "'w os \<Rightarrow> usz \<Rightarrow> mem \<Rightarrow> 'w \<Rightarrow> usz \<Rightarrow> ptr \<Rightarrow> u32 \<Rightarrow> buffer \<times> mem \<times> 'w" where
  "GetMemory os pageSize m w n address flags =
     (case sys_mmap os m address n (mem_prot flags) w of
        (None, w) \<Rightarrow> (empty_buffer, m, w)
      | (Some p, w) \<Rightarrow>
          (Buffer p 0 (if pageSize \<noteq> 0 then Align n pageSize else n),
           upd_bytes m p (replicate (unat (Align n 4096)) 0), w))"

definition FreeMemory :: "'w os \<Rightarrow> mem \<Rightarrow> 'w \<Rightarrow> buffer \<Rightarrow> buffer \<times> mem \<times> 'w" where
  "FreeMemory os m w b =
     (empty_buffer, pop_local m (Base b) (unat (Align (Size b) 4096)), sys_munmap os (Base b) (Size b) w)"

text \<open>\<open>calloc\<close> and \<open>free\<close> give and take the address of a block.\<close>

definition GetMemoryFromHeap :: "(usz \<Rightarrow> ptr) \<Rightarrow> mem \<Rightarrow> usz \<Rightarrow> buffer \<times> mem" where
  "GetMemoryFromHeap calloc m n =
     (let p = calloc n in
      if p \<noteq> 0 then (Buffer p 0 n, upd_bytes m p (replicate (unat n) 0)) else (empty_buffer, m))"

definition FreeMemoryFromHeap :: "mem \<Rightarrow> buffer \<Rightarrow> buffer \<times> mem" where
  "FreeMemoryFromHeap m b =
     (empty_buffer, if Base b \<noteq> 0 then pop_local m (Base b) (unat (Size b)) else m)"

section \<open>Opening files\<close>

definition READ_SOLO :: u32 where "READ_SOLO = 0x1"
definition WRITE_SOLO :: u32 where "WRITE_SOLO = 0x2"
definition READ_SHARE :: u32 where "READ_SHARE = 0x4"
definition WRITE_SHARE :: u32 where "WRITE_SHARE = 0x8"
definition HIDDEN_FILE :: u32 where "HIDDEN_FILE = 0x20"
definition ASYNC_FILE :: u32 where "ASYNC_FILE = 0x40"
definition APPEND_FILE :: u32 where "APPEND_FILE = 0x80"
definition FORCE_CREATE :: u32 where "FORCE_CREATE = 0x100"
definition FORCE_OPEN :: u32 where "FORCE_OPEN = 0x200"

text \<open>The constants of \<open>fcntl.h\<close> on Linux.\<close>

definition O_WRONLY :: u32 where "O_WRONLY = 0x1"
definition O_RDWR :: u32 where "O_RDWR = 0x2"
definition O_CREAT :: u32 where "O_CREAT = 0x40"
definition O_EXCL :: u32 where "O_EXCL = 0x80"
definition O_TRUNC :: u32 where "O_TRUNC = 0x200"
definition O_APPEND :: u32 where "O_APPEND = 0x400"
definition O_NONBLOCK :: u32 where "O_NONBLOCK = 0x800"
definition O_ASYNC :: u32 where "O_ASYNC = 0x2000"

lemmas file_flag_defs = READ_SOLO_def WRITE_SOLO_def READ_SHARE_def WRITE_SHARE_def HIDDEN_FILE_def
  ASYNC_FILE_def APPEND_FILE_def FORCE_CREATE_def FORCE_OPEN_def O_WRONLY_def O_RDWR_def O_CREAT_def
  O_EXCL_def O_TRUNC_def O_APPEND_def O_NONBLOCK_def O_ASYNC_def

definition open_opts :: "bool \<Rightarrow> u32 \<Rightarrow> u32" where
  "open_opts isCreate flags =
     (let opts = (if isCreate then O_CREAT OR (if has_flag flags FORCE_CREATE then O_TRUNC else O_EXCL) else 0);
          r = has_flag flags (READ_SOLO OR READ_SHARE);
          w = has_flag flags (WRITE_SOLO OR WRITE_SHARE);
          opts = (if r \<and> w then opts OR O_RDWR else if r then opts else if w then opts OR O_WRONLY else opts);
          opts = (if has_flag flags APPEND_FILE then opts OR O_APPEND else opts)
      in if has_flag flags ASYNC_FILE then opts OR (O_ASYNC OR O_NONBLOCK) else opts)"

text \<open>
  The name of a hidden file, written into the local array at \<open>buf\<close>, whose content is \<open>junk\<close>. \<open>sp\<close> is
  the address of the needle of \<open>CharInString\<close>.
\<close>

definition hidden_name :: "dispatch \<Rightarrow> mem \<Rightarrow> ptr \<Rightarrow> ptr \<Rightarrow> u8 list \<Rightarrow> ptr \<Rightarrow> mem option" where
  "hidden_name d m sp buf junk filename =
     do {
       (m, new) \<leftarrow> ClearMemory (push_local m buf junk) (String buf 0 MAX_PATH_SIZE EC_UTF8);
       let old = String filename 0 MAX_PATH_SIZE EC_UTF8;
       n \<leftarrow> StringLen m old LEN_CSTRING;
       let old = old\<lparr>WriteCur := n\<rparr>;
       slashIdx \<leftarrow> CharInString d m sp 0x2F old (RETURN_IDX_AFTER OR SEARCH_REVERSE);
       (_, m, new) \<leftarrow>
         (if slashIdx \<noteq> INVALID_IDX then AppendDataToString m (Base old) slashIdx new else Some (True, m, new));
       c \<leftarrow> m (Base old + slashIdx);
       (m, new) \<leftarrow>
         (if c \<noteq> dot
          then do { m \<leftarrow> store8 m (Base new + WriteCur new) dot; Some (m, new\<lparr>WriteCur := WriteCur new + 1\<rparr>) }
          else Some (m, new));
       (_, m, new) \<leftarrow> AppendDataToString m (Base old + slashIdx) (WriteCur old - slashIdx) new;
       Some m
     }"

definition NewFile ::
  "'w os \<Rightarrow> dispatch \<Rightarrow> mem \<Rightarrow> ptr \<Rightarrow> ptr \<Rightarrow> u8 list \<Rightarrow> 'w \<Rightarrow> ptr \<Rightarrow> bool \<Rightarrow> u32 \<Rightarrow> (handle \<times> 'w) option" where
  "NewFile os d m sp buf junk w filename isCreate flags =
     do {
       let opts = open_opts isCreate flags;
       let mode = (if isCreate then 0x180 else 0);
       name \<leftarrow>
         (if has_flag flags HIDDEN_FILE
          then do { m \<leftarrow> hidden_name d m sp buf junk filename; cstring m buf }
          else cstring m filename);
       let (fd, w) = sys_open os name opts mode w;
       Some (file_of fd, w)
     }"

definition CreateNewFile ::
  "'w os \<Rightarrow> dispatch \<Rightarrow> mem \<Rightarrow> ptr \<Rightarrow> ptr \<Rightarrow> u8 list \<Rightarrow> 'w \<Rightarrow> ptr \<Rightarrow> u32 \<Rightarrow> (handle \<times> 'w) option" where
  "CreateNewFile os d m sp buf junk w filename flags = NewFile os d m sp buf junk w filename True flags"

definition OpenFileHandle ::
  "'w os \<Rightarrow> dispatch \<Rightarrow> mem \<Rightarrow> ptr \<Rightarrow> ptr \<Rightarrow> u8 list \<Rightarrow> 'w \<Rightarrow> ptr \<Rightarrow> u32 \<Rightarrow> (handle \<times> 'w) option" where
  "OpenFileHandle os d m sp buf junk w filename flags =
     do {
       (result, w) \<leftarrow> NewFile os d m sp buf junk w filename False flags;
       if has_flag flags FORCE_OPEN \<and> result = INVALID_FILE
       then NewFile os d m sp buf junk w filename True flags
       else Some (result, w)
     }"

definition CloseFileHandle :: "'w os \<Rightarrow> 'w \<Rightarrow> handle \<Rightarrow> 'w" where
  "CloseFileHandle os w f = sys_close os (fd_of f) w"

definition RemoveFile :: "'w os \<Rightarrow> mem \<Rightarrow> 'w \<Rightarrow> ptr \<Rightarrow> (bool \<times> 'w) option" where
  "RemoveFile os m w filename =
     do { name \<leftarrow> cstring m filename; let (result, w) = sys_unlink os name w; Some (result = 0, w) }"


section \<open>Reading and writing files\<close>

definition FileSizeOf :: "'w os \<Rightarrow> 'w \<Rightarrow> handle \<Rightarrow> usz" where
  "FileSizeOf os w f =
     (case sys_fstat os (fd_of f) w of
        None \<Rightarrow> USZ_MAX
      | Some (Regular n) \<Rightarrow> n
      | Some Block \<Rightarrow> (case sys_blksize os (fd_of f) w of None \<Rightarrow> USZ_MAX | Some n \<Rightarrow> n)
      | Some Other \<Rightarrow> USZ_MAX)"

definition SeekFile :: "'w os \<Rightarrow> 'w \<Rightarrow> handle \<Rightarrow> usz \<Rightarrow> bool \<times> 'w" where
  "SeekFile os w f pos =
     (let (result, w) = sys_lseek os (fd_of f) (sint pos) w in (word_of_int result = pos, w))"

definition ReadFromFile ::
  "'w os \<Rightarrow> mem \<Rightarrow> 'w \<Rightarrow> handle \<Rightarrow> 'a buffer_scheme \<Rightarrow> usz \<Rightarrow> usz \<Rightarrow> (bool \<times> mem \<times> 'a buffer_scheme \<times> 'w) option" where
  "ReadFromFile os m w f dst amountToRead startPos =
     (let fileSize = FileSizeOf os w f in
      if startPos + amountToRead \<le> fileSize \<and> amountToRead \<le> Size dst - WriteCur dst
      then do {
        let (_, w) = SeekFile os w f startPos;
        let (r, w) = sys_read os (fd_of f) amountToRead w;
        m \<leftarrow> (case r of None \<Rightarrow> Some m | Some bs \<Rightarrow> store_bytes m (Base dst + WriteCur dst) bs);
        let bytesRead = (case r of None \<Rightarrow> - 1 | Some bs \<Rightarrow> of_nat (length bs));
        if bytesRead \<noteq> amountToRead then Some (False, m, dst, w)
        else Some (True, m, dst\<lparr>WriteCur := WriteCur dst + amountToRead\<rparr>, w)
      }
      else Some (False, m, dst, w))"

definition ReadEntireFile :: "'w os \<Rightarrow> usz \<Rightarrow> mem \<Rightarrow> 'w \<Rightarrow> handle \<Rightarrow> (buffer \<times> mem \<times> 'w) option" where
  "ReadEntireFile os pageSize m w f =
     do {
       let fileSize = FileSizeOf os w f;
       let (b, m, w) = GetMemory os pageSize m w fileSize 0 MEM_WRITE;
       if Base b \<noteq> 0
       then do {
         (ok, m, b, w) \<leftarrow> ReadFromFile os m w f b fileSize 0;
         Some (if ok then (b\<lparr>WriteCur := fileSize\<rparr>, m, w) else FreeMemory os m w b)
       }
       else Some (b, m, w)
     }"

definition AppendToFile :: "'w os \<Rightarrow> mem \<Rightarrow> 'w \<Rightarrow> handle \<Rightarrow> buffer \<Rightarrow> (bool \<times> 'w) option" where
  "AppendToFile os m w f content =
     do {
       bs \<leftarrow> load_bytes m (Base content) (unat (WriteCur content));
       let (bytesWritten, w) = sys_write os (fd_of f) bs w;
       Some (word_of_int bytesWritten = WriteCur content, w)
     }"

definition WriteEntireFile :: "'w os \<Rightarrow> mem \<Rightarrow> 'w \<Rightarrow> handle \<Rightarrow> buffer \<Rightarrow> (bool \<times> 'w) option" where
  "WriteEntireFile os m w f content = (let (_, w) = SeekFile os w f 0 in AppendToFile os m w f content)"

definition WriteToFile :: "'w os \<Rightarrow> mem \<Rightarrow> 'w \<Rightarrow> handle \<Rightarrow> buffer \<Rightarrow> usz \<Rightarrow> (bool \<times> 'w) option" where
  "WriteToFile os m w f content startPos =
     (let (_, w) = SeekFile os w f startPos in AppendToFile os m w f content)"

text \<open>The context of an asynchronous call, which the code keeps in \<open>Async->Data\<close>, is returned.\<close>

definition ReadFileAsync ::
  "'w os \<Rightarrow> 'w \<Rightarrow> handle \<Rightarrow> 'a buffer_scheme \<Rightarrow> usz \<Rightarrow> usz \<Rightarrow> aiocb \<Rightarrow> bool \<times> 'a buffer_scheme \<times> aiocb \<times> 'w" where
  "ReadFileAsync os w f dst amountToRead startPos async =
     (if amountToRead \<le> Size dst - WriteCur dst
      then
        let context = \<lparr>aio_fildes = sint (fd_of f), aio_buf = Base dst, aio_nbytes = amountToRead, aio_offset = sint startPos\<rparr>;
            (r, w) = sys_aio_read os context w
        in if r = 0 then (True, dst\<lparr>WriteCur := WriteCur dst + amountToRead\<rparr>, context, w) else (False, dst, context, w)
      else (False, dst, async, w))"

definition WriteFileAsync :: "'w os \<Rightarrow> 'w \<Rightarrow> handle \<Rightarrow> ptr \<Rightarrow> usz \<Rightarrow> usz \<Rightarrow> bool \<times> aiocb \<times> 'w" where
  "WriteFileAsync os w f src amountToWrite startPos =
     (let context = \<lparr>aio_fildes = sint (fd_of f), aio_buf = src, aio_nbytes = amountToWrite, aio_offset = sint startPos\<rparr>;
          (r, w) = sys_aio_write os context w
      in (r = 0, context, w))"

definition WaitOnIoCompletion :: "'w os \<Rightarrow> 'w \<Rightarrow> aiocb \<Rightarrow> bool \<Rightarrow> usz \<times> 'w" where
  "WaitOnIoCompletion os w async block =
     (let (r, w) = sys_aio_suspend os async block w in
      if r = 0 then let (n, w) = sys_aio_return os async w in (word_of_int n, w) else (0, w))"

text \<open>None is the value of a structure that \<open>fstat\<close> has not filled.\<close>

definition FileLastWriteTime :: "'w os \<Rightarrow> 'w \<Rightarrow> handle \<Rightarrow> usz option" where
  "FileLastWriteTime os w f = map_option (\<lambda>(sec, nsec). word_of_int nsec) (sys_mtime os (fd_of f) w)"

section \<open>Whole files\<close>

definition FilesAreEqual :: "'w os \<Rightarrow> usz \<Rightarrow> mem \<Rightarrow> 'w \<Rightarrow> handle \<Rightarrow> handle \<Rightarrow> (bool \<times> mem \<times> 'w) option" where
  "FilesAreEqual os pageSize m w A B =
     (if FileSizeOf os w A = FileSizeOf os w B
      then do {
        (a, m, w) \<leftarrow> ReadEntireFile os pageSize m w A;
        (b, m, w) \<leftarrow> ReadEntireFile os pageSize m w B;
        if Base a \<noteq> 0 \<and> Base b \<noteq> 0
        then do {
          r \<leftarrow> EqualBuffers m a b;
          let (_, m, w) = FreeMemory os m w a;
          let (_, m, w) = FreeMemory os m w b;
          Some (r, m, w)
        }
        else Some (False, m, w)
      }
      else Some (False, m, w))"

definition DuplicateFile ::
  "'w os \<Rightarrow> dispatch \<Rightarrow> mem \<Rightarrow> ptr \<Rightarrow> ptr \<Rightarrow> u8 list \<Rightarrow> 'w \<Rightarrow> ptr \<Rightarrow> ptr \<Rightarrow> bool \<Rightarrow> (bool \<times> 'w) option" where
  "DuplicateFile os d m sp buf junk w srcPath dstPath overwriteIfExists =
     do {
       (srcFile, w) \<leftarrow> OpenFileHandle os d m sp buf junk w srcPath READ_SHARE;
       if srcFile \<noteq> INVALID_FILE
       then do {
         let flags = (if overwriteIfExists then WRITE_SHARE OR FORCE_CREATE else WRITE_SHARE);
         (dstFile, w) \<leftarrow> CreateNewFile os d m sp buf junk w dstPath flags;
         let (r, w) =
           (if dstFile \<noteq> INVALID_FILE
            then
              let n = FileSizeOf os w srcFile;
                  (bytesWritten, w) = sys_copy_file_range os (fd_of srcFile) (fd_of dstFile) n w;
                  w = CloseFileHandle os w srcFile;
                  w = CloseFileHandle os w dstFile
              in (word_of_int bytesWritten = n, w)
            else (False, w));
         Some (r, CloseFileHandle os w srcFile)
       }
       else Some (False, w)
     }"

definition IsExistingPath :: "'w os \<Rightarrow> mem \<Rightarrow> 'w \<Rightarrow> ptr \<Rightarrow> bool option" where
  "IsExistingPath os m w filepath = do { name \<leftarrow> cstring m filepath; Some (sys_access os name w = 0) }"

definition IsFileHidden :: "'w os \<Rightarrow> dispatch \<Rightarrow> mem \<Rightarrow> ptr \<Rightarrow> 'w \<Rightarrow> ptr \<Rightarrow> bool option" where
  "IsFileHidden os d m sp w filename =
     do {
       ok \<leftarrow> IsExistingPath os m w filename;
       if ok
       then do {
         let f = String filename 0 0 EC_UTF8;
         n \<leftarrow> StringLen m f LEN_CSTRING;
         let f = f\<lparr>WriteCur := n\<rparr>;
         slashIdx \<leftarrow> CharInString d m sp 0x2F f (RETURN_IDX_AFTER OR SEARCH_REVERSE);
         firstByte \<leftarrow> (if slashIdx \<noteq> INVALID_IDX then m (Base f + slashIdx) else m (Base f));
         Some (firstByte = dot)
       }
       else Some False
     }"


section \<open>What the system promises\<close>

text \<open>
  Regular files: a descriptor has a content and an offset. \<open>read\<close> and \<open>write\<close> may fail or transfer
  less than asked for; \<open>lseek\<close> refuses a negative position. A mapping of no bytes is refused, and a
  mapping is apart from all memory in use.
\<close>

definition overwrite :: "u8 list \<Rightarrow> nat \<Rightarrow> u8 list \<Rightarrow> u8 list" where
  "overwrite bs off ys = take off (bs @ replicate (off - length bs) 0) @ ys @ drop (off + length ys) bs"

definition read_law :: "'w os \<Rightarrow> ('w \<Rightarrow> 32 word \<Rightarrow> u8 list option) \<Rightarrow> ('w \<Rightarrow> 32 word \<Rightarrow> nat) \<Rightarrow> bool" where
  "read_law os content offset \<longleftrightarrow>
     (\<forall>w fd bs n r w'. content w fd = Some bs \<longrightarrow> sys_read os fd n w = (r, w') \<longrightarrow>
        content w' = content w
        \<and> (case r of None \<Rightarrow> offset w' = offset w
           | Some ys \<Rightarrow> (\<exists>k\<le>unat n. ys = take k (drop (offset w fd) bs)) \<and> offset w' = (offset w)(fd := offset w fd + length ys)))"

definition write_law :: "'w os \<Rightarrow> ('w \<Rightarrow> 32 word \<Rightarrow> u8 list option) \<Rightarrow> ('w \<Rightarrow> 32 word \<Rightarrow> nat) \<Rightarrow> bool" where
  "write_law os content offset \<longleftrightarrow>
     (\<forall>w fd bs xs r w'. content w fd = Some bs \<longrightarrow> sys_write os fd xs w = (r, w') \<longrightarrow>
        (r = - 1 \<and> content w' = content w \<and> offset w' = offset w)
        \<or> (\<exists>k\<le>length xs. r = int k \<and> content w' = (content w)(fd \<mapsto> overwrite bs (offset w fd) (take k xs))
             \<and> offset w' = (offset w)(fd := offset w fd + k)))"

definition seek_law :: "'w os \<Rightarrow> ('w \<Rightarrow> 32 word \<Rightarrow> u8 list option) \<Rightarrow> ('w \<Rightarrow> 32 word \<Rightarrow> nat) \<Rightarrow> bool" where
  "seek_law os content offset \<longleftrightarrow>
     (\<forall>w fd bs. content w fd = Some bs \<longrightarrow> sys_fstat os fd w = Some (Regular (of_nat (length bs))) \<and> length bs < 2 ^ 63
        \<and> (\<forall>pos r w'. sys_lseek os fd pos w = (r, w') \<longrightarrow> content w' = content w
             \<and> (if pos < 0 then r = - 1 \<and> offset w' = offset w else r = pos \<and> offset w' = (offset w)(fd := nat pos))))"

definition posix :: "'w os \<Rightarrow> ('w \<Rightarrow> 32 word \<Rightarrow> u8 list option) \<Rightarrow> ('w \<Rightarrow> 32 word \<Rightarrow> nat) \<Rightarrow> bool" where
  "posix os content offset \<longleftrightarrow> seek_law os content offset \<and> read_law os content offset \<and> write_law os content offset"

definition maps :: "'w os \<Rightarrow> ('w \<Rightarrow> 32 word \<Rightarrow> u8 list option) \<Rightarrow> bool" where
  "maps os content \<longleftrightarrow>
     (\<forall>m addr n prot w r w'. sys_mmap os m addr n prot w = (r, w') \<longrightarrow> content w' = content w
        \<and> (n = 0 \<longrightarrow> r = None) \<and> (\<forall>p. r = Some p \<longrightarrow> p \<noteq> 0 \<and> region p (unat (Align n 4096)) \<inter> dom m = {}))
     \<and> (\<forall>p n w. content (sys_munmap os p n w) = content w)"

lemma USZ_MAX_eq: "USZ_MAX = - 1"
  by (simp add: USZ_MAX_def)

lemma posixD:
  assumes "posix os content offset" "content w fd = Some bs"
  shows "sys_fstat os fd w = Some (Regular (of_nat (length bs)))" "length bs < 2 ^ 63"
    "sys_lseek os fd pos w = (i, w') \<Longrightarrow> content w' = content w
      \<and> (if pos < 0 then i = - 1 \<and> offset w' = offset w else i = pos \<and> offset w' = (offset w)(fd := nat pos))"
    "sys_read os fd n w = (r, w') \<Longrightarrow> content w' = content w
      \<and> (case r of None \<Rightarrow> offset w' = offset w
         | Some ys \<Rightarrow> (\<exists>k\<le>unat n. ys = take k (drop (offset w fd) bs)) \<and> offset w' = (offset w)(fd := offset w fd + length ys))"
    "sys_write os fd xs w = (i, w') \<Longrightarrow>
      (i = - 1 \<and> content w' = content w \<and> offset w' = offset w)
      \<or> (\<exists>k\<le>length xs. i = int k \<and> content w' = (content w)(fd \<mapsto> overwrite bs (offset w fd) (take k xs))
           \<and> offset w' = (offset w)(fd := offset w fd + k))"
  using assms unfolding posix_def seek_law_def read_law_def write_law_def by blast+

lemma sint_high: "2 ^ 63 \<le> unat w \<Longrightarrow> sint w < 0" for w :: "64 word"
proof -
  assume "2 ^ 63 \<le> unat w"
  then have "int (2 ^ 63) \<le> int (unat w)" by (simp only: of_nat_le_iff)
  then have h: "2 ^ 63 \<le> uint w" by (simp only: uint_nat of_nat_power of_nat_numeral)
  have h2: "uint w < 2 ^ 64" using uint_lt2p [of w] by simp
  have "sint w = (uint w + 2 ^ 63) mod 2 ^ 64 - 2 ^ 63"
    by (simp add: sint_uint signed_take_bit_eq_take_bit_shift take_bit_eq_mod)
  also have "(uint w + 2 ^ 63) mod 2 ^ 64 = (uint w - 2 ^ 63 + 2 ^ 64) mod 2 ^ 64" by (simp add: add.commute)
  also have "\<dots> = uint w - 2 ^ 63" using h h2 by (simp only: mod_add_self2) (simp add: mod_pos_pos_trivial)
  finally show ?thesis using h2 by simp
qed

lemma FileSizeOf_regular:
  assumes "posix os content offset" "content w (fd_of f) = Some bs"
  shows "FileSizeOf os w f = of_nat (length bs)" "length bs < 2 ^ 63"
  using posixD(1,2) [OF assms] by (auto simp: FileSizeOf_def)

lemma SeekFile_regular:
  assumes "posix os content offset" "content w (fd_of f) = Some bs"
  obtains ok w' where "SeekFile os w f pos = (ok, w')" "content w' = content w"
    "unat pos < 2 ^ 63 \<longrightarrow> ok \<and> offset w' = (offset w)(fd_of f := unat pos)"
    "2 ^ 63 \<le> unat pos \<longrightarrow> offset w' = offset w"
proof -
  obtain r w' where l: "sys_lseek os (fd_of f) (sint pos) w = (r, w')" by (cases "sys_lseek os (fd_of f) (sint pos) w")
  have law: "content w' = content w"
    "if sint pos < 0 then r = - 1 \<and> offset w' = offset w else r = sint pos \<and> offset w' = (offset w)(fd_of f := nat (sint pos))"
    using posixD(3) [OF assms l] by auto
  have low: "sint pos = int (unat pos)" if "unat pos < 2 ^ 63" using that by (rule sint_low)
  have high: "sint pos < 0" if "2 ^ 63 \<le> unat pos"
    using that by (rule sint_high)
  show ?thesis
  proof (rule that)
    show "SeekFile os w f pos = (word_of_int r = pos, w')" by (simp add: SeekFile_def l)
  qed (use law low high in auto)
qed


section \<open>Reading and writing\<close>

text \<open>The read itself, after the seek: into the space of a buffer.\<close>

lemma read_into:
  assumes "posix os content offset" "content w fd = Some bs" "buf_ok m dst" "holds m dst xs" "unat n \<le> space dst"
    and "sys_read os fd n w = (r, w')"
  obtains m' where "(case r of None \<Rightarrow> Some m | Some ys \<Rightarrow> store_bytes m (Base dst + WriteCur dst) ys) = Some m'"
    "holds m' dst xs" "\<forall>q. q \<notin> buf_region dst \<longrightarrow> m' q = m q" "content w' = content w"
    "\<forall>ys. r = Some ys \<and> length ys = unat n \<longrightarrow> ys = take (unat n) (drop (offset w fd) bs)
      \<and> holds m' (dst\<lparr>WriteCur := WriteCur dst + n\<rparr>) (xs @ ys) \<and> buf_ok m' (dst\<lparr>WriteCur := WriteCur dst + n\<rparr>)"
proof (cases r)
  case None
  then show ?thesis using that [of m] posixD(4) [OF assms(1,2,6)] assms(4) by auto
next
  case (Some ys)
  have law: "content w' = content w" "\<exists>k\<le>unat n. ys = take k (drop (offset w fd) bs)"
    using posixD(4) [OF assms(1,2,6)] Some by auto
  then have le: "length ys \<le> space dst" using assms(5) by auto
  obtain m' d' where a: "append_result m dst ys = (True, m', d')" using le by (simp add: append_result_def)
  note f = append_fits [OF a]
  have st: "store_bytes m (Base dst + WriteCur dst) ys = Some m'"
    using tail_mapped [OF assms(3) le] le space_lt [of dst] f(2) by (intro store_bytes_upd [THEN trans]) auto
  have h: "holds m' d' (xs @ ys)" "buf_ok m' d'" using append_holds [OF assms(3,4) a] append_buf_ok [OF assms(3) a] by auto
  have h0: "holds m' dst xs" using h(1) assms(4) f(3) by (simp add: holds_def)
  show ?thesis
  proof (rule that [of m'])
    show "\<forall>ys'. r = Some ys' \<and> length ys' = unat n \<longrightarrow> ys' = take (unat n) (drop (offset w fd) bs)
      \<and> holds m' (dst\<lparr>WriteCur := WriteCur dst + n\<rparr>) (xs @ ys') \<and> buf_ok m' (dst\<lparr>WriteCur := WriteCur dst + n\<rparr>)"
    proof (intro allI impI)
      fix ys' assume "r = Some ys' \<and> length ys' = unat n"
      then have ys': "ys' = ys" "length ys = unat n" using Some by simp_all
      from law(2) obtain k where k: "k \<le> unat n" "ys = take k (drop (offset w fd) bs)" by blast
      then have "k = unat n" using ys'(2) by (simp add: min_def split: if_splits)
      then have "ys = take (unat n) (drop (offset w fd) bs)" using k(2) by simp
      moreover have "(of_nat (length ys) :: usz) = n" using ys'(2) by simp
      ultimately show "ys' = take (unat n) (drop (offset w fd) bs)
          \<and> holds m' (dst\<lparr>WriteCur := WriteCur dst + n\<rparr>) (xs @ ys') \<and> buf_ok m' (dst\<lparr>WriteCur := WriteCur dst + n\<rparr>)"
        using h f(3) ys'(1) by simp
    qed
  qed (use Some st h0 law(1) append_frame [OF assms(3) a] in auto)
qed


text \<open>\<open>read_at\<close>: the read of \<open>ReadFromFile\<close>, from the descriptor as the seek leaves it, transfers all it should.\<close>

definition read_all :: "'w os \<Rightarrow> 'w \<Rightarrow> handle \<Rightarrow> usz \<Rightarrow> usz \<Rightarrow> bool" where
  "read_all os w f n start =
     (case fst (sys_read os (fd_of f) n (snd (SeekFile os w f start))) of None \<Rightarrow> False | Some ys \<Rightarrow> length ys = unat n)"

lemma ReadFromFile_at:
  assumes "posix os content offset" "content w (fd_of f) = Some bs" "buf_ok m dst" "holds m dst xs" "unat n \<le> space dst"
    and "start + n \<le> of_nat (length bs)" "n \<noteq> USZ_MAX"
  obtains m' dst' w' where "ReadFromFile os m w f dst n start = Some (read_all os w f n start, m', dst', w')"
    "content w' = content w" "\<forall>q. q \<notin> buf_region dst \<longrightarrow> m' q = m q"
    "\<not> read_all os w f n start \<longrightarrow> dst' = dst \<and> holds m' dst xs"
    "read_all os w f n start \<longrightarrow> dst' = dst\<lparr>WriteCur := WriteCur dst + n\<rparr> \<and> buf_ok m' dst'
      \<and> holds m' dst' (xs @ take (unat n) (drop (if unat start < 2 ^ 63 then unat start else offset w (fd_of f)) bs))"
proof -
  note sz = FileSizeOf_regular [OF assms(1,2)]
  have fit: "n \<le> Size dst - WriteCur dst"
    using assms(5) unat_space [OF assms(3)] by (simp add: word_le_nat_alt)
  obtain ok w1 where s: "SeekFile os w f start = (ok, w1)" "content w1 = content w"
    "unat start < 2 ^ 63 \<longrightarrow> ok \<and> offset w1 = (offset w)(fd_of f := unat start)"
    "2 ^ 63 \<le> unat start \<longrightarrow> offset w1 = offset w"
    by (rule SeekFile_regular [OF assms(1,2), of start])
  have off: "offset w1 (fd_of f) = (if unat start < 2 ^ 63 then unat start else offset w (fd_of f))"
    using s(3,4) by auto
  obtain r w2 where rd: "sys_read os (fd_of f) n w1 = (r, w2)" by (cases "sys_read os (fd_of f) n w1")
  have c1: "content w1 (fd_of f) = Some bs" using s(2) assms(2) by simp
  obtain m' where m': "(case r of None \<Rightarrow> Some m | Some ys \<Rightarrow> store_bytes m (Base dst + WriteCur dst) ys) = Some m'"
    "holds m' dst xs" "\<forall>q. q \<notin> buf_region dst \<longrightarrow> m' q = m q" "content w2 = content w1"
    "\<forall>ys. r = Some ys \<and> length ys = unat n \<longrightarrow> ys = take (unat n) (drop (offset w1 (fd_of f)) bs)
      \<and> holds m' (dst\<lparr>WriteCur := WriteCur dst + n\<rparr>) (xs @ ys) \<and> buf_ok m' (dst\<lparr>WriteCur := WriteCur dst + n\<rparr>)"
    by (rule read_into [OF assms(1) c1 assms(3,4,5) rd]) blast
  have all: "read_all os w f n start \<longleftrightarrow> (\<exists>ys. r = Some ys \<and> length ys = unat n)"
    by (auto simp: read_all_def s(1) rd split: option.splits)
  have cmp: "(case r of None \<Rightarrow> - 1 | Some ys \<Rightarrow> of_nat (length ys)) = n \<longleftrightarrow> read_all os w f n start"
  proof (cases r)
    case None
    have "n \<noteq> - 1" using assms(7) by (simp add: USZ_MAX_eq)
    then show ?thesis using None all by auto
  next
    case (Some ys)
    then have "length ys \<le> unat n" using posixD(4) [OF assms(1) c1 rd] by auto
    then have "unat (of_nat (length ys) :: usz) = length ys" using unat_lt_2p [of n] by (intro unat_offset) simp
    then show ?thesis using Some all by (auto simp: word_unat_eq_iff)
  qed
  let ?d = "if read_all os w f n start then dst\<lparr>WriteCur := WriteCur dst + n\<rparr> else dst"
  have "ReadFromFile os m w f dst n start = Some (read_all os w f n start, m', ?d, w2)"
    using assms(6) fit cmp m'(1) by (simp add: ReadFromFile_def sz(1) s(1) rd)
  then show ?thesis
    by (rule that) (use s(2) m'(2-5) all off in auto)
qed


lemma ReadFromFile_refused:
  assumes "posix os content offset" "content w (fd_of f) = Some bs" "buf_ok m dst"
    and "\<not> start + n \<le> of_nat (length bs) \<or> space dst < unat n"
  shows "ReadFromFile os m w f dst n start = Some (False, m, dst, w)"
  using assms(4) FileSizeOf_regular [OF assms(1,2)] unat_space [OF assms(3)]
  by (auto simp: ReadFromFile_def word_le_nat_alt)

lemma ReadFromFile_cases:
  assumes "posix os content offset" "content w (fd_of f) = Some bs" "buf_ok m dst" "holds m dst xs"
    and "unat start < 2 ^ 63" "unat start + unat n < 2 ^ 64" "n \<noteq> USZ_MAX"
  shows "if unat start + unat n \<le> length bs \<and> unat n \<le> space dst
    then \<exists>m' dst' w'. ReadFromFile os m w f dst n start = Some (read_all os w f n start, m', dst', w')
      \<and> content w' = content w \<and> (\<forall>q. q \<notin> buf_region dst \<longrightarrow> m' q = m q)
      \<and> (if read_all os w f n start then holds m' dst' (xs @ take (unat n) (drop (unat start) bs)) \<and> buf_ok m' dst'
         else dst' = dst \<and> holds m' dst xs)
    else ReadFromFile os m w f dst n start = Some (False, m, dst, w)"
proof -
  note sz = FileSizeOf_regular [OF assms(1,2)]
  have "unat (start + n) = unat start + unat n" using assms(6) by (subst unat_add_lem [THEN iffD1]) simp_all
  then have in_file: "start + n \<le> of_nat (length bs) \<longleftrightarrow> unat start + unat n \<le> length bs"
    using unat_offset [of "length bs"] sz(2) by (simp add: word_le_nat_alt)
  show ?thesis
  proof (cases "unat start + unat n \<le> length bs \<and> unat n \<le> space dst")
    case True
    obtain m' dst' w' where "ReadFromFile os m w f dst n start = Some (read_all os w f n start, m', dst', w')"
      "content w' = content w" "\<forall>q. q \<notin> buf_region dst \<longrightarrow> m' q = m q"
      "\<not> read_all os w f n start \<longrightarrow> dst' = dst \<and> holds m' dst xs"
      "read_all os w f n start \<longrightarrow> dst' = dst\<lparr>WriteCur := WriteCur dst + n\<rparr> \<and> buf_ok m' dst'
        \<and> holds m' dst' (xs @ take (unat n) (drop (if unat start < 2 ^ 63 then unat start else offset w (fd_of f)) bs))"
      by (rule ReadFromFile_at [OF assms(1-4), of n start]) (use True in_file assms(7) in auto)
    then show ?thesis using True assms(5) by (auto split: if_splits)
  next
    case False
    then show ?thesis using ReadFromFile_refused [OF assms(1-3), of start n] in_file by auto
  qed
qed

text \<open>
  C17: \<open>ReadFromFile\<close> on a regular file, from a position below \<open>2 ^ 63\<close>, for a range whose end does not
  wrap and whose length is not \<open>USZ_MAX\<close>, the value that \<open>read\<close> fails with: a range that is inside the
  file and fits in the buffer is appended to the buffer, and true returned, when the read transfers all of
  it; when it does not, false is returned and the buffer holds what it did. Any other range is refused and
  nothing changes. The file is not changed, and no memory outside the buffer. From \<open>2 ^ 63\<close> on this is
  false, as C40 shows.
\<close>

theorem ReadFromFile_correct:
  assumes "posix os content offset" "content w (fd_of f) = Some bs" "buf_ok m dst" "holds m dst xs"
    and "unat start < 2 ^ 63" "unat start + unat n < 2 ^ 64" "n \<noteq> USZ_MAX"
  shows "if unat start + unat n \<le> length bs \<and> unat n \<le> space dst
    then \<exists>m' dst' w'. ReadFromFile os m w f dst n start = Some (read_all os w f n start, m', dst', w')
      \<and> content w' = content w \<and> (\<forall>q. q \<notin> buf_region dst \<longrightarrow> m' q = m q)
      \<and> (if read_all os w f n start then holds m' dst' (xs @ take (unat n) (drop (unat start) bs)) \<and> buf_ok m' dst'
         else dst' = dst \<and> holds m' dst xs)
    else ReadFromFile os m w f dst n start = Some (False, m, dst, w)"
  using assms by (rule ReadFromFile_cases)

text \<open>
  C40: from a position of 2^63 on, the sum in the range test may wrap and pass it. The seek then fails,
  which the code ignores: the bytes at the descriptor's current offset are appended and true is returned.
\<close>

theorem ReadFromFile_wraps:
  assumes "posix os content offset" "content w (fd_of f) = Some bs" "buf_ok m dst" "holds m dst xs"
    and "2 ^ 63 \<le> unat start" "start + n \<le> of_nat (length bs)" "unat n \<le> space dst" "n \<noteq> USZ_MAX"
    and "read_all os w f n start"
  shows "\<exists>m' dst' w'. ReadFromFile os m w f dst n start = Some (True, m', dst', w')
    \<and> holds m' dst' (xs @ take (unat n) (drop (offset w (fd_of f)) bs))"
proof -
  obtain m' dst' w' where "ReadFromFile os m w f dst n start = Some (read_all os w f n start, m', dst', w')"
    "read_all os w f n start \<longrightarrow> dst' = dst\<lparr>WriteCur := WriteCur dst + n\<rparr> \<and> buf_ok m' dst'
      \<and> holds m' dst' (xs @ take (unat n) (drop (if unat start < 2 ^ 63 then unat start else offset w (fd_of f)) bs))"
    by (rule ReadFromFile_at [OF assms(1-4,7,6,8)]) blast
  then show ?thesis using assms(5,9) by auto
qed

section \<open>Writing\<close>

lemma AppendToFile_regular:
  assumes "posix os content offset" "content w (fd_of f) = Some bs" "holds m c cs" "WriteCur c \<noteq> USZ_MAX"
  obtains ok w' where "AppendToFile os m w f c = Some (ok, w')"
    "ok \<longrightarrow> content w' = (content w)(fd_of f \<mapsto> overwrite bs (offset w (fd_of f)) cs)"
    "\<forall>fd. fd \<noteq> fd_of f \<longrightarrow> content w' fd = content w fd"
proof -
  have ld: "load_bytes m (Base c) (unat (WriteCur c)) = Some cs"
    using assms(3) by (simp add: holds_def load_bytes_at)
  obtain r w' where wr: "sys_write os (fd_of f) cs w = (r, w')" by (cases "sys_write os (fd_of f) cs w")
  have lc: "length cs = unat (WriteCur c)" using assms(3) by (simp add: holds_def)
  show ?thesis
  proof (rule that)
    show "AppendToFile os m w f c = Some (word_of_int r = WriteCur c, w')" by (simp add: AppendToFile_def ld wr)
    show "word_of_int r = WriteCur c \<longrightarrow> content w' = (content w)(fd_of f \<mapsto> overwrite bs (offset w (fd_of f)) cs)"
    proof
      assume eq: "word_of_int r = WriteCur c"
      then have "r \<noteq> - 1" using assms(4) by (auto simp: USZ_MAX_eq)
      then obtain k where k: "k \<le> length cs" "r = int k"
        "content w' = (content w)(fd_of f \<mapsto> overwrite bs (offset w (fd_of f)) (take k cs))"
        using posixD(5) [OF assms(1,2) wr] by auto
      have "k < 2 ^ 64" using k(1) lc unat_lt_2p [of "WriteCur c"] by simp
      from unat_offset [OF this] have "k = length cs" using eq k(2) lc by simp
      then show "content w' = (content w)(fd_of f \<mapsto> overwrite bs (offset w (fd_of f)) cs)" using k(3) by simp
    qed
    show "\<forall>fd. fd \<noteq> fd_of f \<longrightarrow> content w' fd = content w fd"
      using posixD(5) [OF assms(1,2) wr] by auto
  qed
qed


lemma overwrite_read: "take (length cs) (drop off (overwrite bs off cs)) = cs"
  by (simp add: overwrite_def)

lemma length_overwrite: "length (overwrite bs off cs) = max (length bs) (off + length cs)"
  by (auto simp: overwrite_def)


text \<open>
  \<open>AppendToFile\<close> writes at the descriptor's offset: it appends only when that is the end of the file,
  and overwrites otherwise.
\<close>

theorem AppendToFile_overwrites:
  assumes "posix os content offset" "content w (fd_of f) = Some bs" "holds m c cs" "WriteCur c \<noteq> USZ_MAX"
    and "offset w (fd_of f) \<le> length bs"
  shows "\<exists>ok w'. AppendToFile os m w f c = Some (ok, w') \<and> (ok \<longrightarrow> content w' (fd_of f)
    = Some (take (offset w (fd_of f)) bs @ cs @ drop (offset w (fd_of f) + length cs) bs))"
proof -
  obtain ok w' where a: "AppendToFile os m w f c = Some (ok, w')"
    "ok \<longrightarrow> content w' = (content w)(fd_of f \<mapsto> overwrite bs (offset w (fd_of f)) cs)"
    by (rule AppendToFile_regular [OF assms(1-4)])
  moreover have "overwrite bs (offset w (fd_of f)) cs = take (offset w (fd_of f)) bs @ cs @ drop (offset w (fd_of f) + length cs) bs"
    using assms(5) by (simp add: overwrite_def)
  ultimately show ?thesis by auto
qed


section \<open>Names of files\<close>

lemma scan_zero_at:
  "bytes_at m p (xs @ [0]) \<Longrightarrow> 0 \<notin> set xs \<Longrightarrow> scan_zero 1 m p = Some (p + of_nat (length xs))"
proof (induction xs arbitrary: p)
  case Nil
  then show ?case by (subst scan_zero.simps) simp
next
  case (Cons b xs)
  then have "scan_zero 1 m (p + 1) = Some (p + 1 + of_nat (length xs))" by simp
  then show ?case using Cons.prems by (subst scan_zero.simps) (simp add: add.assoc)
qed

lemma strlen_at: "bytes_at m p (xs @ [0]) \<Longrightarrow> 0 \<notin> set xs \<Longrightarrow> strlen m p = Some (of_nat (length xs))"
  unfolding strlen_def by (drule (1) scan_zero_at) (simp only: Option.bind.simps add_diff_cancel_left')

lemma cstring_at:
  assumes "bytes_at m p (xs @ [0])" "length xs < 2 ^ 64"
  shows "cstring m p = Some (takeWhile (\<lambda>b. b \<noteq> 0) xs)"
proof -
  let ?ys = "takeWhile (\<lambda>b. b \<noteq> 0) xs"
  have "\<exists>zs. xs @ [0] = ?ys @ 0 # zs"
  proof (cases "0 \<in> set xs")
    case True
    then have "dropWhile (\<lambda>b. b \<noteq> 0) xs \<noteq> []" by (auto simp: dropWhile_eq_Nil_conv)
    then obtain b zs where d: "dropWhile (\<lambda>b. b \<noteq> 0) xs = b # zs" by (cases "dropWhile (\<lambda>b. b \<noteq> 0) xs") auto
    then have "b = 0" using hd_dropWhile [of "\<lambda>b. b \<noteq> 0" xs] by simp
    then have "xs = ?ys @ 0 # zs" using takeWhile_dropWhile_id [of "\<lambda>b. b \<noteq> 0" xs] d by simp
    then show ?thesis by (intro exI [of _ "zs @ [0]"]) (metis append.assoc append_Cons)
  next
    case False
    then have "?ys = xs" by (auto simp: takeWhile_eq_all_conv)
    then have "xs @ [0] = ?ys @ 0 # []" by (simp only:)
    then show ?thesis by blast
  qed
  then obtain zs where "xs @ [0] = (?ys @ [0]) @ zs" by auto
  then have b: "bytes_at m p (?ys @ [0])" using assms(1) bytes_at_append by metis
  have "length ?ys \<le> length xs" by (rule length_takeWhile_le)
  then have u: "unat (of_nat (length ?ys) :: usz) = length ?ys" using assms(2) by (intro unat_offset) simp
  have "0 \<notin> set ?ys" by (auto dest: set_takeWhileD)
  from strlen_at [OF b this] b u show ?thesis by (simp add: cstring_def load_bytes_at)
qed

lemma slash_after:
  assumes "holds m p xs" "Enc p = EC_UTF8"
  shows "CharInString default_dispatch m sp 0x2F p (RETURN_IDX_AFTER OR SEARCH_REVERSE)
    = Some (case last_idx ((=) slash) xs of None \<Rightarrow> INVALID_IDX | Some i \<Rightarrow> of_nat i + 1)"
proof -
  have "holds m (Buf p) xs" using assms(1) by (simp add: holds_def)
  from byte_reverse [OF this, of "RETURN_IDX_AFTER OR SEARCH_REVERSE" default_dispatch slash] show ?thesis
    using assms(2) by (simp add: CharInString_def GetMultibyteCharSize_def search_result_def flag_defs)
qed

text \<open>A zeroed array of which the first bytes have been written.\<close>

definition zbuf :: "mem \<Rightarrow> ptr \<Rightarrow> nat \<Rightarrow> u8 list \<Rightarrow> bool" where
  "zbuf m p n ts \<longleftrightarrow> length ts \<le> n \<and> bytes_at m p (ts @ replicate (n - length ts) 0)"

lemma zbuf_write:
  assumes "zbuf m p n ts" "length ts + length bs \<le> n" "n < 2 ^ 64"
  shows "zbuf (upd_bytes m (p + of_nat (length ts)) bs) p n (ts @ bs)"
proof -
  let ?q = "p + of_nat (length ts)" and ?k = "n - length ts - length bs"
  let ?m = "upd_bytes m ?q bs"
  have z: "replicate (n - length ts) (0 :: u8) = replicate (length bs) 0 @ replicate ?k 0"
    using assms(2) by (simp add: replicate_add [symmetric])
  have b: "bytes_at m p ts" "bytes_at m (?q + of_nat (length bs)) (replicate ?k 0)"
    using assms(1) unfolding zbuf_def z by simp_all
  have l: "length bs \<le> 2 ^ 64" using assms(2,3) by simp
  have "bytes_at ?m p ts"
    using b(1) region_split_disj [of "length ts" "length bs" p] l assms(2,3) by (simp add: bytes_at_upd_disj)
  moreover have "bytes_at ?m ?q bs" using l by (rule bytes_at_upd_same)
  moreover have "region (?q + of_nat (length bs)) ?k \<inter> region ?q (length bs) = {}"
    using region_split_disj [of "length bs" ?k ?q] assms(2,3) by (simp add: Int_commute)
  then have "bytes_at ?m (?q + of_nat (length bs)) (replicate ?k 0)" using b(2) l by (simp add: bytes_at_upd_disj)
  ultimately show ?thesis using assms(2) by (simp add: zbuf_def)
qed


definition new_name :: "ptr \<Rightarrow> u8 list \<Rightarrow> path" where
  "new_name buf ts = holding (String buf 0 MAX_PATH_SIZE EC_UTF8) ts"

lemma new_name_sel:
  "Base (new_name buf ts) = buf" "WriteCur (new_name buf ts) = of_nat (length ts)"
  "(new_name buf ts)\<lparr>WriteCur := WriteCur (new_name buf ts) + 1\<rparr> = new_name buf (ts @ [b])"
  "new_name buf [] = String buf 0 MAX_PATH_SIZE EC_UTF8"
  by (simp_all add: new_name_def holding_def String_def add.commute)

lemma max_path_bound [simp]:
  "unat MAX_PATH_SIZE \<le> 18446744073709551616" "unat MAX_PATH_SIZE < 18446744073709551616"
  by (simp_all add: MAX_PATH_SIZE_def)

lemma in_max_path: "a + b \<le> unat MAX_PATH_SIZE \<Longrightarrow> b < 2 ^ 64" "a + b \<le> unat MAX_PATH_SIZE \<Longrightarrow> b \<le> 2 ^ 64"
  by (simp_all add: MAX_PATH_SIZE_def)

lemma zbuf_append:
  assumes "zbuf m buf (unat MAX_PATH_SIZE) ts" "bytes_at m src bs" "region buf (unat MAX_PATH_SIZE) \<inter> region src (length bs) = {}"
    and "length ts + length bs \<le> unat MAX_PATH_SIZE" "n = of_nat (length bs)"
  shows "AppendDataToString m src n (new_name buf ts)
    = Some (True, upd_bytes m (buf + of_nat (length ts)) bs, new_name buf (ts @ bs))"
proof -
  let ?d = "String buf 0 MAX_PATH_SIZE EC_UTF8"
  have sz: "unat (Size ?d) = unat MAX_PATH_SIZE" by simp
  have z: "bytes_at m buf (ts @ replicate ((unat MAX_PATH_SIZE) - length ts) 0)" "length ts \<le> (unat MAX_PATH_SIZE)" using assms(1) by (simp_all add: zbuf_def)
  have "mapped m buf (unat MAX_PATH_SIZE)" using bytes_at_mapped [OF z(1)] z(2) by simp
  then have b: "building m ?d ts" using z by (simp add: building_def sz)
  have "length bs = unat n" using assms(4,5) unat_offset [OF in_max_path(1) [OF assms(4)]] by simp
  then have e: "AppendDataToBuffer m src n (holding ?d ts) = Some (append_result m (holding ?d ts) bs)"
    using assms(2,3) sz by (intro AppendDataToBuffer_eq [OF building_facts(3) [OF b]]) simp_all
  have "append_result m (holding ?d ts) bs = (True, upd_bytes m (buf + of_nat (length ts)) bs, holding ?d (ts @ bs))"
    using building_facts(4) [OF b] assms(4) sz by (simp add: append_result_def holding_def)
  with e show ?thesis by (simp add: AppendDataToString_def new_name_def)
qed

lemma zbuf_frame:
  "zbuf m buf (unat MAX_PATH_SIZE) ts \<Longrightarrow> length ts + length bs \<le> (unat MAX_PATH_SIZE) \<Longrightarrow> region buf (unat MAX_PATH_SIZE) \<inter> region p (length xs) = {} \<Longrightarrow> bytes_at m p xs \<Longrightarrow>
    bytes_at (upd_bytes m (buf + of_nat (length ts)) bs) p xs"
  using region_offset [of "length ts" "length bs" "unat MAX_PATH_SIZE" buf] in_max_path(2) [of "length ts" "length bs"] by (subst bytes_at_upd_disj) auto

lemma zbuf_start:
  assumes "length junk = unat MAX_PATH_SIZE"
  obtains m1 where "ClearMemory (push_local m buf junk) (String buf 0 MAX_PATH_SIZE EC_UTF8) = Some (m1, new_name buf [])"
    "zbuf m1 buf (unat MAX_PATH_SIZE) []"
    "\<forall>p xs. region buf (unat MAX_PATH_SIZE) \<inter> region p (length xs) = {} \<longrightarrow> bytes_at m p xs \<longrightarrow> bytes_at m1 p xs"
proof (rule that)
  let ?m0 = "push_local m buf junk" and ?z = "replicate (unat MAX_PATH_SIZE) (0 :: u8)"
  have "bytes_at ?m0 buf junk" unfolding push_local_def by (rule bytes_at_upd_same) (simp add: assms unat_le_2p)
  from bytes_at_mapped [OF this] have "mapped ?m0 buf (unat MAX_PATH_SIZE)" by (simp add: assms)
  from memset_upd [OF this, of 0] have "memset ?m0 buf 0 MAX_PATH_SIZE = Some (upd_bytes ?m0 buf ?z)"
    by simp
  then show "ClearMemory ?m0 (String buf 0 MAX_PATH_SIZE EC_UTF8) = Some (upd_bytes ?m0 buf ?z, new_name buf [])"
    by (simp add: ClearMemory_def new_name_sel(4) String_def)
  show "zbuf (upd_bytes ?m0 buf ?z) buf (unat MAX_PATH_SIZE) []" unfolding zbuf_def by (simp add: bytes_at_upd_same unat_le_2p)
  show "\<forall>p xs. region buf (unat MAX_PATH_SIZE) \<inter> region p (length xs) = {} \<longrightarrow> bytes_at m p xs \<longrightarrow> bytes_at (upd_bytes ?m0 buf ?z) p xs"
    unfolding push_local_def using assms by (auto simp: bytes_at_upd_disj Int_commute unat_le_2p)
qed


lemma upd_bytes_single: "upd_bytes m p [b] = m(p \<mapsto> b)"
proof
  fix q
  have "unat (q - p) = 0 \<longleftrightarrow> q = p" by (simp add: unat_eq_0)
  then show "upd_bytes m p [b] q = (m(p \<mapsto> b)) q" by (auto simp: upd_bytes_def)
qed

lemma zbuf_store:
  assumes "zbuf m buf (unat MAX_PATH_SIZE) ts" "length ts + length [b] \<le> unat MAX_PATH_SIZE"
  shows "store8 m (buf + of_nat (length ts)) b = Some (upd_bytes m (buf + of_nat (length ts)) [b])"
proof -
  have "replicate (unat MAX_PATH_SIZE - length ts) (0 :: u8) = 0 # replicate (unat MAX_PATH_SIZE - length ts - 1) 0"
    using assms(2) by (cases "unat MAX_PATH_SIZE - length ts") simp_all
  then have "m (buf + of_nat (length ts)) = Some 0" using assms(1) by (simp add: zbuf_def)
  then show ?thesis by (simp add: store8_def upd_bytes_single)
qed

lemma zbuf_cstring:
  assumes "zbuf m buf (unat MAX_PATH_SIZE) ts" "length ts < unat MAX_PATH_SIZE"
  shows "cstring m buf = Some (takeWhile (\<lambda>b. b \<noteq> 0) ts)"
proof -
  have "replicate (unat MAX_PATH_SIZE - length ts) (0 :: u8) = [0] @ replicate (unat MAX_PATH_SIZE - length ts - 1) 0"
    using assms(2) by (cases "unat MAX_PATH_SIZE - length ts") simp_all
  then have "bytes_at m buf (ts @ [0])" using assms(1) by (simp add: zbuf_def)
  then show ?thesis by (rule cstring_at) (use in_max_path(1) [of 0 "length ts"] assms(2) in simp)
qed

text \<open>The dot and the name, behind what has been copied of the directory.\<close>

definition put_name :: "mem \<Rightarrow> ptr \<Rightarrow> usz \<Rightarrow> path \<Rightarrow> mem option" where
  "put_name m src n new =
     do {
       c \<leftarrow> m src;
       (m, new) \<leftarrow>
         (if c \<noteq> dot
          then do { m \<leftarrow> store8 m (Base new + WriteCur new) dot; Some (m, new\<lparr>WriteCur := WriteCur new + 1\<rparr>) }
          else Some (m, new));
       (_, m, new) \<leftarrow> AppendDataToString m src n new;
       Some m
     }"

definition dotted :: "u8 \<Rightarrow> u8 list" where
  "dotted c = (if c = dot then [] else [dot])"

lemma put_name_eq:
  assumes "zbuf m buf (unat MAX_PATH_SIZE) ts" "m src = Some c" "bytes_at m src bs"
    and "region buf (unat MAX_PATH_SIZE) \<inter> region src (length bs) = {}"
    and "length ts + 1 + length bs < unat MAX_PATH_SIZE" "n = of_nat (length bs)"
  shows "\<exists>m'. put_name m src n (new_name buf ts) = Some m'
    \<and> cstring m' buf = Some (takeWhile (\<lambda>b. b \<noteq> 0) (ts @ dotted c @ bs))"
proof -
  let ?p = "buf + of_nat (length ts)" and ?q = "buf + of_nat (length (ts @ dotted c))"
  have len: "length ts + length [dot] \<le> unat MAX_PATH_SIZE" "length ts + length (dotted c) \<le> unat MAX_PATH_SIZE"
    "length (ts @ dotted c) + length bs \<le> unat MAX_PATH_SIZE" "length (ts @ dotted c @ bs) < unat MAX_PATH_SIZE"
    using assms(5) by (auto simp: dotted_def)
  let ?m1 = "upd_bytes m ?p (dotted c)"
  have z1: "zbuf ?m1 buf (unat MAX_PATH_SIZE) (ts @ dotted c)"
    by (rule zbuf_write [OF assms(1) len(2)]) (rule unat_lt_2p)
  have b1: "bytes_at ?m1 src bs" by (rule zbuf_frame [OF assms(1) len(2) assms(4,3)])
  have s1: "(if c \<noteq> dot
        then do { m \<leftarrow> store8 m (Base (new_name buf ts) + WriteCur (new_name buf ts)) dot;
                  Some (m, (new_name buf ts)\<lparr>WriteCur := WriteCur (new_name buf ts) + 1\<rparr>) }
        else Some (m, new_name buf ts)) = Some (?m1, new_name buf (ts @ dotted c))"
    using zbuf_store [OF assms(1) len(1)] new_name_sel(3) [of buf ts dot] by (simp add: new_name_sel(1,2) dotted_def)
  note a = zbuf_append [OF z1 b1 assms(4) len(3) assms(6)]
  have "zbuf (upd_bytes ?m1 ?q bs) buf (unat MAX_PATH_SIZE) ((ts @ dotted c) @ bs)"
    by (rule zbuf_write [OF z1 len(3)]) (rule unat_lt_2p)
  from zbuf_cstring [OF this] have "cstring (upd_bytes ?m1 ?q bs) buf = Some (takeWhile (\<lambda>b. b \<noteq> 0) (ts @ dotted c @ bs))"
    using len(4) by simp
  moreover have "put_name m src n (new_name buf ts) = Some (upd_bytes ?m1 ?q bs)"
    by (simp only: put_name_def assms(2) Option.bind.simps s1 prod.case a)
  ultimately show ?thesis by blast
qed

lemma hidden_name_unfold:
  assumes "ClearMemory (push_local m buf junk) (String buf 0 MAX_PATH_SIZE EC_UTF8) = Some (m1, new_name buf [])"
    and "bytes_at m1 filename (xs @ [0])" "0 \<notin> set xs" "length xs < 2 ^ 64 - 1"
  shows "hidden_name default_dispatch m sp buf junk filename =
    (case last_idx ((=) slash) xs of
       None \<Rightarrow> put_name m1 (filename - 1) (of_nat (length xs) + 1) (new_name buf [])
     | Some i \<Rightarrow> do {
         (_, m2, new) \<leftarrow> AppendDataToString m1 filename (of_nat i + 1) (new_name buf []);
         put_name m2 (filename + (of_nat i + 1)) (of_nat (length xs) - (of_nat i + 1)) new })"
proof -
  let ?old = "(String filename 0 MAX_PATH_SIZE EC_UTF8)\<lparr>WriteCur := of_nat (length xs)\<rparr>"
  have "length xs < 2 ^ 64" using assms(4) by simp
  from unat_offset [OF this] have "holds m1 ?old xs" using assms(2) by (simp add: holds_def)
  note after = slash_after [OF this, of sp]
  have st: "StringLen m1 (String filename 0 MAX_PATH_SIZE EC_UTF8) LEN_CSTRING = Some (of_nat (length xs))"
    using strlen_at [OF assms(2,3)] by (simp add: StringLen_def)
  show ?thesis
  proof (cases "last_idx ((=) slash) xs")
    case None
    then show ?thesis unfolding hidden_name_def assms(1) put_name_def
      using after st by (simp add: INVALID_IDX_eq)
  next
    case (Some i)
    have "i < length xs" using Some by (simp add: last_idx_Some)
    then have "Suc i < 2 ^ 64 - 1" using assms(4) by simp
    from of_nat_ne_INVALID [OF this] have "(of_nat i + 1 :: usz) \<noteq> INVALID_IDX" by (simp add: add.commute)
    then show ?thesis unfolding hidden_name_def assms(1) put_name_def
      using after st Some by (simp add: case_prod_beta)
  qed
qed


lemma NewFile_hidden_eq:
  assumes "has_flag flags HIDDEN_FILE" "hidden_name d m sp buf junk filename = Some m'" "cstring m' buf = Some name"
  shows "NewFile os d m sp buf junk w filename isCreate flags
    = (let (fd, w') = sys_open os name (open_opts isCreate flags) (if isCreate then 0x180 else 0) w in Some (file_of fd, w'))"
  using assms by (simp add: NewFile_def)

text \<open>
  With \<open>HIDDEN_FILE\<close>, a name with a directory is opened with a dot put before its last component,
  unless it has one.
\<close>

theorem NewFile_hidden:
  assumes "has_flag flags HIDDEN_FILE" "length junk = unat MAX_PATH_SIZE"
    and "bytes_at m filename (dir @ [slash] @ name @ [0])" "0 \<notin> set (dir @ name)" "slash \<notin> set name"
    and "length dir + length name + 2 < unat MAX_PATH_SIZE"
    and "region buf (unat MAX_PATH_SIZE) \<inter> region filename (length dir + length name + 2) = {}"
  shows "NewFile os default_dispatch m sp buf junk w filename isCreate flags
    = (let (fd, w') = sys_open os (dir @ [slash] @ (if name \<noteq> [] \<and> hd name = dot then name else dot # name))
           (open_opts isCreate flags) (if isCreate then 0x180 else 0) w
       in Some (file_of fd, w'))"
proof -
  let ?xs = "dir @ [slash] @ name" and ?d = "dir @ [slash]" and ?c = "hd (name @ [0])" and ?N = "unat MAX_PATH_SIZE"
  obtain m1 where m1: "ClearMemory (push_local m buf junk) (String buf 0 MAX_PATH_SIZE EC_UTF8) = Some (m1, new_name buf [])"
    "zbuf m1 buf ?N []" "\<forall>p xs. region buf ?N \<inter> region p (length xs) = {} \<longrightarrow> bytes_at m p xs \<longrightarrow> bytes_at m1 p xs"
    by (rule zbuf_start [OF assms(2)])
  have xs: "bytes_at m1 filename (?xs @ [0])"
    using m1(3) [rule_format, of filename "?xs @ [0]"] assms(3,7) by (simp add: add.commute)
  have no0: "0 \<notin> set ?xs" using assms(4) by simp
  have "length ?xs < 2 ^ 64 - 1" using assms(6) in_max_path(2) [of 0 "?N"] by (simp add: MAX_PATH_SIZE_def)
  note unf = hidden_name_unfold [OF m1(1) xs no0 this, of sp]
  have reg: "region buf ?N \<inter> region filename (length ?d) = {}" "region buf ?N \<inter> region (filename + of_nat (length ?d)) (length name) = {}"
    using assms(7) region_mono [of "length ?d" "length dir + length name + 2" filename]
      region_offset [of "length ?d" "length name" "length dir + length name + 2" filename] by auto
  have fit: "length [] + length ?d \<le> ?N" using assms(6) by simp
  have "bytes_at m1 filename (?d @ (name @ [0]))" using xs by (simp only: append_assoc)
  then have bd: "bytes_at m1 filename ?d" and bn: "bytes_at m1 (filename + of_nat (length ?d)) (name @ [0])"
    unfolding bytes_at_append [of m1 filename ?d] by blast+
  note a = zbuf_append [OF m1(2) bd reg(1) fit refl]
  let ?m2 = "upd_bytes m1 (buf + of_nat (length ([] :: u8 list))) ?d"
  have z2: "zbuf ?m2 buf ?N ([] @ ?d)" by (rule zbuf_write [OF m1(2) fit]) (rule unat_lt_2p)
  have "region buf ?N \<inter> region (filename + of_nat (length ?d)) (length (name @ [0])) = {}"
    using assms(7) region_offset [of "length ?d" "length (name @ [0])" "length dir + length name + 2" filename] by auto
  from zbuf_frame [OF m1(2) fit this bn] have b2: "bytes_at ?m2 (filename + of_nat (length ?d)) (name @ [0])" .
  then have c: "?m2 (filename + of_nat (length ?d)) = Some ?c" using bytes_at_0 [OF b2] by (cases name) auto
  have "bytes_at ?m2 (filename + of_nat (length ?d)) name" using b2 by simp
  from put_name_eq [OF z2 c this reg(2) _ refl] assms(6) obtain m' where
    m': "put_name ?m2 (filename + of_nat (length ?d)) (of_nat (length name)) (new_name buf ([] @ ?d)) = Some m'"
    "cstring m' buf = Some (takeWhile (\<lambda>b. b \<noteq> 0) (([] @ ?d) @ dotted ?c @ name))" by auto
  have "last_idx ((=) slash) ?xs = Some (length dir)" by (rule last_idx_append [OF assms(5)])
  then have h: "hidden_name default_dispatch m sp buf junk filename = Some m'"
    using unf a m'(1) by (simp add: add.commute add.left_commute)
  have "takeWhile (\<lambda>b. b \<noteq> 0) (([] @ ?d) @ dotted ?c @ name) = ([] @ ?d) @ dotted ?c @ name"
    using assms(4) by (subst takeWhile_eq_all_conv) (auto simp: dotted_def)
  then have "takeWhile (\<lambda>b. b \<noteq> 0) (([] @ ?d) @ dotted ?c @ name) = dir @ [slash] @ (if name \<noteq> [] \<and> hd name = dot then name else dot # name)"
    by (cases name) (simp_all add: dotted_def)
  with m'(2) have "cstring m' buf = Some (dir @ [slash] @ (if name \<noteq> [] \<and> hd name = dot then name else dot # name))" by (simp only:)
  from NewFile_hidden_eq [OF assms(1) h this] show ?thesis .
qed


text \<open>
  A name without a directory is opened, with \<open>HIDDEN_FILE\<close>, under another name: the index of the
  slash that was not found, the largest \<open>usz\<close>, is used as an offset, so the byte before the name, \<open>c\<close>, is
  taken for its first one and the dot is put before that. When \<open>c\<close> is zero, the name opened is a dot.
\<close>

theorem NewFile_hidden_takes_byte_before:
  assumes "has_flag flags HIDDEN_FILE" "length junk = unat MAX_PATH_SIZE"
    and "bytes_at m (filename - 1) (c # name @ [0])" "0 \<notin> set name" "slash \<notin> set name"
    and "length name + 2 < unat MAX_PATH_SIZE"
    and "region buf (unat MAX_PATH_SIZE) \<inter> region (filename - 1) (length name + 2) = {}"
  shows "NewFile os default_dispatch m sp buf junk w filename isCreate flags
    = (let (fd, w') = sys_open os (if c = 0 then [dot] else (if c = dot then [] else [dot]) @ c # name)
           (open_opts isCreate flags) (if isCreate then 0x180 else 0) w
       in Some (file_of fd, w'))"
proof -
  let ?N = "unat MAX_PATH_SIZE"
  obtain m1 where m1: "ClearMemory (push_local m buf junk) (String buf 0 MAX_PATH_SIZE EC_UTF8) = Some (m1, new_name buf [])"
    "zbuf m1 buf ?N []" "\<forall>p xs. region buf ?N \<inter> region p (length xs) = {} \<longrightarrow> bytes_at m p xs \<longrightarrow> bytes_at m1 p xs"
    by (rule zbuf_start [OF assms(2)])
  have b: "bytes_at m1 (filename - 1) (c # name @ [0])"
    using m1(3) [rule_format, of "filename - 1" "c # name @ [0]"] assms(3,7) by simp
  then have xs: "bytes_at m1 filename (name @ [0])" and c: "m1 (filename - 1) = Some c" by simp_all
  have "length name < 2 ^ 64 - 1" using assms(6) by (simp add: MAX_PATH_SIZE_def)
  note unf = hidden_name_unfold [OF m1(1) xs assms(4) this, of sp]
  have bs: "bytes_at m1 (filename - 1) (c # name)" using b by simp
  have reg: "region buf ?N \<inter> region (filename - 1) (length (c # name)) = {}"
    using assms(7) region_mono [of "length (c # name)" "length name + 2" "filename - 1"] by auto
  from put_name_eq [OF m1(2) c bs reg _ refl] assms(6) obtain m' where
    m': "put_name m1 (filename - 1) (of_nat (length (c # name))) (new_name buf []) = Some m'"
    "cstring m' buf = Some (takeWhile (\<lambda>b. b \<noteq> 0) ([] @ dotted c @ c # name))" by auto
  have "last_idx ((=) slash) name = None" using assms(5) by (simp add: last_idx_None)
  then have h: "hidden_name default_dispatch m sp buf junk filename = Some m'" using unf m'(1) by (simp add: add.commute)
  have "takeWhile (\<lambda>b. b \<noteq> 0) name = name" using assms(4) by (subst takeWhile_eq_all_conv) auto
  then have "takeWhile (\<lambda>b. b \<noteq> 0) ([] @ dotted c @ c # name) = (if c = 0 then [dot] else (if c = dot then [] else [dot]) @ c # name)"
    by (simp add: dotted_def)
  with m'(2) have "cstring m' buf = Some (if c = 0 then [dot] else (if c = dot then [] else [dot]) @ c # name)" by (simp only:)
  from NewFile_hidden_eq [OF assms(1) h this] show ?thesis .
qed


section \<open>Comparing files\<close>

definition page_ok :: "usz \<Rightarrow> bool" where
  "page_ok pageSize \<longleftrightarrow> pageSize = 0 \<or> pageSize = 4096"

lemma unat_le_num [simp]: "unat w \<le> 18446744073709551616" for w :: "64 word"
  using unat_le_2p [of w] by simp

lemma Align_4096:
  assumes "0 < n" "unat n < 2 ^ 63"
  shows "unat n \<le> unat (Align n 4096)" "Align (Align n 4096) 4096 = Align n 4096"
proof -
  obtain u where u: "unat n = Suc u" using assms(1) by (cases "unat n") (auto simp: unat_eq_0 word_gt_0)
  obtain k r where dm: "k = u div 4096" "u = k * 4096 + r" "r < 4096"
    by (rule that [of "u div 4096" "u mod 4096"]) simp_all
  have a: "unat (Align n 4096) = (k + 1) * 4096"
    using Align_pow2 [of 12 n] assms u dm(1) by simp
  show le: "unat n \<le> unat (Align n 4096)" unfolding a u using dm(2,3) by simp
  then have "0 < Align n 4096" using u by (simp add: word_less_nat_alt)
  moreover have "unat (Align n 4096) \<le> unat n + 4096" unfolding a u using dm(2,3) by simp
  ultimately have "unat (Align (Align n 4096) 4096) = ((unat (Align n 4096) - 1) div 4096 + 1) * 4096"
    using Align_pow2 [of 12 "Align n 4096"] assms(2) by simp
  also have "(unat (Align n 4096) - 1) div 4096 = k" unfolding a by simp
  finally show "Align (Align n 4096) 4096 = Align n 4096" using a by (simp only: word_unat_eq_iff)
qed

lemma GetMemory_cases:
  assumes "maps os content" "page_ok pageSize" "unat n < 2 ^ 63"
  obtains (failed) w' where "GetMemory os pageSize m w n addr flags = (empty_buffer, m, w')" "content w' = content w"
  | (mapped) p m' w' s where "GetMemory os pageSize m w n addr flags = (Buffer p 0 s, m', w')" "content w' = content w"
      "p \<noteq> 0" "n \<noteq> 0" "buf_ok m' (Buffer p 0 s)" "n \<le> s" "\<forall>q\<in>dom m. m' q = m q"
      "region p (unat (Align n 4096)) \<inter> dom m = {}" "unat (Align s 4096) = unat (Align n 4096)" "unat s \<le> unat (Align n 4096)"
proof -
  obtain r w' where r: "sys_mmap os m addr n (mem_prot flags) w = (r, w')" by (cases "sys_mmap os m addr n (mem_prot flags) w")
  have law: "content w' = content w" "n = 0 \<longrightarrow> r = None" "\<And>p. r = Some p \<Longrightarrow> p \<noteq> 0 \<and> region p (unat (Align n 4096)) \<inter> dom m = {}"
    using assms(1) r unfolding maps_def by blast+
  show ?thesis
  proof (cases r)
    case None
    then show ?thesis using failed [of w'] r law(1) by (simp add: GetMemory_def)
  next
    case (Some p)
    let ?k = "unat (Align n 4096)" and ?s = "if pageSize \<noteq> 0 then Align n pageSize else n"
    let ?m = "upd_bytes m p (replicate ?k 0)"
    have "n \<noteq> 0" using law(2) Some by auto
    then have "0 < n" by (simp add: word_gt_0)
    note al = Align_4096 [OF this assms(3)]
    have s: "n \<le> ?s" "unat ?s \<le> ?k" "unat (Align ?s 4096) = ?k"
      using assms(2) al by (auto simp: page_ok_def word_le_nat_alt)
    have "bytes_at ?m p (replicate ?k 0)" by (rule bytes_at_upd_same) (simp add: unat_le_2p)
    from bytes_at_mapped [OF this] have "mapped ?m p ?k" by simp
    from mapped_mono [OF this s(2)] have ok: "buf_ok ?m (Buffer p 0 ?s)" by (simp add: buf_ok_def)
    have "?m q = m q" if "q \<in> dom m" for q
      using law(3) [OF Some] that by (intro upd_bytes_out) (auto simp: unat_le_2p)
    then show ?thesis
      using mapped [of p ?s ?m w'] r Some law ok s by (auto simp: GetMemory_def)
  qed
qed


text \<open>A file read as a whole: a new block with the content, or nothing.\<close>

lemma ReadEntireFile_cases:
  assumes "posix os content offset" "maps os content" "page_ok pageSize" "content w (fd_of f) = Some bs"
  obtains b m' w' where "ReadEntireFile os pageSize m w f = Some (b, m', w')" "content w' = content w"
    "\<forall>q\<in>dom m. m' q = m q"
    "Base b \<noteq> 0 \<longrightarrow> holds m' b bs \<and> bs \<noteq> [] \<and> region (Base b) (unat (Align (Size b) 4096)) \<inter> dom m = {}"
proof -
  note sz = FileSizeOf_regular [OF assms(1,4)]
  let ?n = "of_nat (length bs) :: usz"
  have n: "unat ?n = length bs" using sz(2) by (intro unat_offset) simp
  then have n63: "unat ?n < 2 ^ 63" using sz(2) by simp
  show ?thesis
  proof (cases rule: GetMemory_cases [OF assms(2,3) n63, where m = m and w = w and addr = 0 and flags = MEM_WRITE])
    case (1 w1)
    have "ReadEntireFile os pageSize m w f = Some (empty_buffer, m, w1)"
      using 1(1) by (simp add: ReadEntireFile_def sz(1) empty_buffer_def)
    then show ?thesis using that 1(2) by (simp add: empty_buffer_def)
  next
    case (2 p m1 w1 s)
    let ?b = "Buffer p 0 s"
    have c1: "content w1 (fd_of f) = Some bs" using 2(2) assms(4) by simp
    have h: "holds m1 ?b []" by (simp add: holds_def)
    have fit: "unat ?n \<le> space ?b" using 2(6) by (simp add: space_def word_le_nat_alt)
    have ne: "?n \<noteq> USZ_MAX" using n63 by (auto simp: USZ_MAX_def)
    obtain m2 b2 w2 where r: "ReadFromFile os m1 w1 f ?b ?n 0 = Some (read_all os w1 f ?n 0, m2, b2, w2)"
      "content w2 = content w1" "\<forall>q. q \<notin> buf_region ?b \<longrightarrow> m2 q = m1 q"
      "\<not> read_all os w1 f ?n 0 \<longrightarrow> b2 = ?b \<and> holds m2 ?b []"
      "read_all os w1 f ?n 0 \<longrightarrow> b2 = ?b\<lparr>WriteCur := WriteCur ?b + ?n\<rparr> \<and> buf_ok m2 b2
        \<and> holds m2 b2 ([] @ take (unat ?n) (drop (if unat (0 :: usz) < 2 ^ 63 then unat (0 :: usz) else offset w1 (fd_of f)) bs))"
      by (rule ReadFromFile_at [OF assms(1) c1 2(5) h fit _ ne, of 0]) simp
    have apart: "q \<notin> region p (unat (Align ?n 4096))" "q \<notin> buf_region ?b" if "q \<in> dom m" for q
      using that 2(8) region_mono [OF 2(10), of p] by auto
    have old: "m2 q = m q" if "q \<in> dom m" for q using apart [OF that] r(3) 2(7) that by simp
    show ?thesis
    proof (cases "read_all os w1 f ?n 0")
      case True
      have "ReadEntireFile os pageSize m w f = Some (?b\<lparr>WriteCur := ?n\<rparr>, m2, w2)"
        using 2(1,3) r(1,5) True by (simp add: ReadEntireFile_def sz(1))
      moreover have "b2 = ?b\<lparr>WriteCur := ?n\<rparr>" "holds m2 b2 (take (unat ?n) (drop (unat (0 :: usz)) bs))"
        using r(5) True by auto
      then have "holds m2 (?b\<lparr>WriteCur := ?n\<rparr>) bs" using n by simp
      moreover have "bs \<noteq> []" using 2(4) by auto
      moreover have "region p (unat (Align s 4096)) \<inter> dom m = {}" using 2(8,9) by simp
      ultimately show ?thesis using that old r(2) 2(2) by auto
    next
      case False
      let ?m3 = "pop_local m2 p (unat (Align s 4096))" and ?w3 = "sys_munmap os p s w2"
      have "ReadEntireFile os pageSize m w f = Some (empty_buffer, ?m3, ?w3)"
        using 2(1,3) r(1,4) False by (simp add: ReadEntireFile_def FreeMemory_def sz(1))
      moreover have "content ?w3 = content w" using assms(2) r(2) 2(2) by (simp add: maps_def)
      moreover have "?m3 q = m q" if "q \<in> dom m" for q
        using apart(1) [OF that] old [OF that] in_region_iff [of "unat (Align ?n 4096)" q p] 2(9)
        by (simp add: pop_local_def unat_le_2p)
      ultimately show ?thesis using that by (simp add: empty_buffer_def)
    qed
  qed
qed

lemma bytes_at_dom: "bytes_at m p xs \<Longrightarrow> \<forall>q\<in>dom m. m' q = m q \<Longrightarrow> bytes_at m' p xs"
  by (induction xs arbitrary: p) (auto simp: domI)

lemma FreeMemory_apart:
  assumes "maps os content" "region (Base b) (unat (Align (Size b) 4096)) \<inter> D = {}"
  obtains m' w' where "FreeMemory os m w b = (empty_buffer, m', w')" "content w' = content w" "\<forall>q\<in>D. m' q = m q"
proof (rule that)
  let ?k = "unat (Align (Size b) 4096)"
  show "FreeMemory os m w b = (empty_buffer, pop_local m (Base b) ?k, sys_munmap os (Base b) (Size b) w)"
    by (simp add: FreeMemory_def)
  show "content (sys_munmap os (Base b) (Size b) w) = content w" using assms(1) by (simp add: maps_def)
  show "\<forall>q\<in>D. pop_local m (Base b) ?k q = m q"
    using assms(2) in_region_iff [of ?k _ "Base b"] by (auto simp: pop_local_def unat_le_2p)
qed

text \<open>Whether both contents could be mapped and read.\<close>

definition both_read :: "'w os \<Rightarrow> usz \<Rightarrow> mem \<Rightarrow> 'w \<Rightarrow> handle \<Rightarrow> handle \<Rightarrow> bool" where
  "both_read os pageSize m w A B =
     (case ReadEntireFile os pageSize m w A of
        None \<Rightarrow> False
      | Some (a, m1, w1) \<Rightarrow>
          (case ReadEntireFile os pageSize m1 w1 B of None \<Rightarrow> False | Some (b, _, _) \<Rightarrow> Base a \<noteq> 0 \<and> Base b \<noteq> 0))"

text \<open>
  C27: \<open>FilesAreEqual\<close> on two regular files is true just when the contents are equal and both could be
  read; it changes neither the files nor the memory in use before. Two empty files are never equal, since
  a mapping of no bytes is refused.
\<close>

theorem FilesAreEqual_correct:
  assumes "posix os content offset" "maps os content" "page_ok pageSize"
    and "content w (fd_of A) = Some as" "content w (fd_of B) = Some bs"
  shows "\<exists>r m' w'. FilesAreEqual os pageSize m w A B = Some (r, m', w')
    \<and> (r \<longleftrightarrow> as = bs \<and> both_read os pageSize m w A B) \<and> (r \<longrightarrow> as \<noteq> [])
    \<and> content w' = content w \<and> (\<forall>q\<in>dom m. m' q = m q)"
proof -
  note sz = FileSizeOf_regular [OF assms(1,4)] FileSizeOf_regular [OF assms(1,5)]
  obtain a m1 w1 where a: "ReadEntireFile os pageSize m w A = Some (a, m1, w1)" "content w1 = content w"
    "\<forall>q\<in>dom m. m1 q = m q"
    "Base a \<noteq> 0 \<longrightarrow> holds m1 a as \<and> as \<noteq> [] \<and> region (Base a) (unat (Align (Size a) 4096)) \<inter> dom m = {}"
    by (rule ReadEntireFile_cases [OF assms(1-4)])
  have "content w1 (fd_of B) = Some bs" using a(2) assms(5) by simp
  then obtain b m2 w2 where b: "ReadEntireFile os pageSize m1 w1 B = Some (b, m2, w2)" "content w2 = content w1"
    "\<forall>q\<in>dom m1. m2 q = m1 q"
    "Base b \<noteq> 0 \<longrightarrow> holds m2 b bs \<and> bs \<noteq> [] \<and> region (Base b) (unat (Align (Size b) 4096)) \<inter> dom m1 = {}"
    by (rule ReadEntireFile_cases [OF assms(1-3)])
  have old: "dom m \<subseteq> dom m1" "\<forall>q\<in>dom m. m2 q = m q" using a(3) b(3) by (auto simp: dom_def)
  have br: "both_read os pageSize m w A B \<longleftrightarrow> Base a \<noteq> 0 \<and> Base b \<noteq> 0" by (simp add: both_read_def a(1) b(1))
  show ?thesis
  proof (cases "FileSizeOf os w A = FileSizeOf os w B")
    case False
    then have "as \<noteq> bs" using sz by auto
    then show ?thesis using False by (auto simp: FilesAreEqual_def)
  next
    case same: True
    show ?thesis
    proof (cases "Base a \<noteq> 0 \<and> Base b \<noteq> 0")
      case False
      then show ?thesis using same a(1,2) b(1,2) br old(2) by (auto simp: FilesAreEqual_def)
    next
      case True
      have "holds m2 a as" using a(4) b(3) True bytes_at_dom [of m1 "Base a" as m2] by (simp add: holds_def)
      then have eq: "EqualBuffers m2 a b = Some (as = bs)" using b(4) True by (intro EqualBuffers_eq) auto
      obtain m3 w3 where f1: "FreeMemory os m2 w2 a = (empty_buffer, m3, w3)" "content w3 = content w2" "\<forall>q\<in>dom m. m3 q = m2 q"
        by (rule FreeMemory_apart [OF assms(2), where b = a and D = "dom m" and m = m2 and w = w2]) (use a(4) True in auto)
      obtain m4 w4 where f2: "FreeMemory os m3 w3 b = (empty_buffer, m4, w4)" "content w4 = content w3" "\<forall>q\<in>dom m. m4 q = m3 q"
        by (rule FreeMemory_apart [OF assms(2), where b = b and D = "dom m" and m = m3 and w = w3]) (use b(4) old(1) True in blast)
      have "FilesAreEqual os pageSize m w A B = Some (as = bs, m4, w4)"
        using same a(1) b(1) True eq f1(1) f2(1) by (simp add: FilesAreEqual_def)
      then show ?thesis using br True a(2,4) b(2) f1(2,3) f2(2,3) old(2) by auto
    qed
  qed
qed


section \<open>A system\<close>

text \<open>A system of descriptors with a content and an offset each, to apply the theorems to.\<close>

type_synonym disk = "32 word \<Rightarrow> (u8 list \<times> nat) option"

definition sim_read :: "32 word \<Rightarrow> usz \<Rightarrow> disk \<Rightarrow> u8 list option \<times> disk" where
  "sim_read fd n w =
     (case w fd of
        None \<Rightarrow> (None, w)
      | Some (bs, off) \<Rightarrow> (let ys = take (unat n) (drop off bs) in (Some ys, w(fd \<mapsto> (bs, off + length ys)))))"

definition sim_write :: "32 word \<Rightarrow> u8 list \<Rightarrow> disk \<Rightarrow> int \<times> disk" where
  "sim_write fd xs w =
     (case w fd of
        None \<Rightarrow> (- 1, w)
      | Some (bs, off) \<Rightarrow>
          if off + length xs < 2 ^ 63 then (int (length xs), w(fd \<mapsto> (overwrite bs off xs, off + length xs))) else (- 1, w))"

definition sim_lseek :: "32 word \<Rightarrow> int \<Rightarrow> disk \<Rightarrow> int \<times> disk" where
  "sim_lseek fd pos w =
     (case w fd of None \<Rightarrow> (- 1, w) | Some (bs, off) \<Rightarrow> if pos < 0 then (- 1, w) else (pos, w(fd \<mapsto> (bs, nat pos))))"

definition sim_open :: "u8 list \<Rightarrow> u32 \<Rightarrow> u32 \<Rightarrow> disk \<Rightarrow> 32 word \<times> disk" where
  "sim_open name opts mode w = (if name = [0x61, slash, dot, 0x62] \<or> name = [dot, 0x78, 0x62] then (3, w) else (- 1, w))"

definition sim_os :: "disk os" where
  "sim_os = \<lparr>sys_mmap = (\<lambda>m addr n prot w. if n \<noteq> 0 \<and> region 0x1000 (unat (Align n 4096)) \<inter> dom m = {} then (Some 0x1000, w) else (None, w)),
     sys_munmap = (\<lambda>p n w. w), sys_open = sim_open, sys_close = (\<lambda>fd w. w(fd := None)), sys_unlink = (\<lambda>name w. (- 1, w)),
     sys_access = (\<lambda>name w. 0), sys_fstat = (\<lambda>fd w. map_option (\<lambda>(bs, off). Regular (of_nat (length bs))) (w fd)),
     sys_blksize = (\<lambda>fd w. None), sys_mtime = (\<lambda>fd w. None), sys_lseek = sim_lseek, sys_read = sim_read, sys_write = sim_write,
     sys_copy_file_range = (\<lambda>a b n w. (- 1, w)), sys_aio_read = (\<lambda>c w. (- 1, w)), sys_aio_write = (\<lambda>c w. (- 1, w)),
     sys_aio_suspend = (\<lambda>c b w. (- 1, w)), sys_aio_return = (\<lambda>c w. (- 1, w))\<rparr>"

definition sim_content :: "disk \<Rightarrow> 32 word \<Rightarrow> u8 list option" where
  "sim_content w fd = (case w fd of Some (bs, off) \<Rightarrow> if length bs < 2 ^ 63 then Some bs else None | None \<Rightarrow> None)"

definition sim_offset :: "disk \<Rightarrow> 32 word \<Rightarrow> nat" where
  "sim_offset w fd = (case w fd of Some (bs, off) \<Rightarrow> off | None \<Rightarrow> 0)"

lemma sim_content_Some: "sim_content w fd = Some bs \<longleftrightarrow> (\<exists>off. w fd = Some (bs, off) \<and> length bs < 2 ^ 63)"
  by (auto simp: sim_content_def split: option.splits)

lemma sim_fields:
  "sys_read sim_os = sim_read" "sys_write sim_os = sim_write" "sys_lseek sim_os = sim_lseek" "sys_open sim_os = sim_open"
  "sys_fstat sim_os = (\<lambda>fd w. map_option (\<lambda>(bs, off). Regular (of_nat (length bs))) (w fd))"
  by (simp_all add: sim_os_def)

lemma sim_update:
  "w fd = Some (bs, off) \<Longrightarrow> length bs < 2 ^ 63 \<Longrightarrow> length ys < 2 ^ 63 \<Longrightarrow> sim_content (w(fd \<mapsto> (ys, k))) = (sim_content w)(fd \<mapsto> ys)"
  "w fd = Some (bs, off) \<Longrightarrow> length bs < 2 ^ 63 \<Longrightarrow> (sim_content w)(fd \<mapsto> bs) = sim_content w"
  "w fd = Some (bs, off) \<Longrightarrow> sim_offset (w(fd \<mapsto> (ys, k))) = (sim_offset w)(fd := k)"
  by (auto simp: sim_content_def sim_offset_def fun_eq_iff)

lemma sim_seek: "seek_law sim_os sim_content sim_offset"
  unfolding seek_law_def sim_fields sim_content_Some sim_lseek_def
  by (auto simp: sim_update split: if_splits)

lemma sim_reads: "read_law sim_os sim_content sim_offset"
  unfolding read_law_def sim_fields sim_content_Some sim_read_def
  by (auto simp: sim_update Let_def) (auto simp: sim_offset_def)

lemma sim_writes: "write_law sim_os sim_content sim_offset"
  unfolding write_law_def sim_fields sim_content_Some sim_write_def
  by (auto simp: sim_update length_overwrite sim_offset_def split: if_splits)

lemma sim_posix: "posix sim_os sim_content sim_offset"
  unfolding posix_def using sim_seek sim_reads sim_writes by blast

lemma sim_maps: "maps sim_os sim_content"
  by (auto simp: maps_def sim_os_def split: if_splits)

definition ex_disk :: disk where
  "ex_disk = [3 \<mapsto> ([1, 2, 3, 4], 1), 4 \<mapsto> ([1, 2, 3, 4], 0)]"

lemma ex_disk_content:
  "sim_content ex_disk 3 = Some [1, 2, 3, 4]" "sim_offset ex_disk 3 = 1" "sim_content ex_disk 4 = Some [1, 2, 3, 4]"
  by (simp_all add: ex_disk_def sim_content_def sim_offset_def)

lemmas sim_defs = sim_os_def sim_read_def sim_write_def sim_lseek_def read_all_def SeekFile_def fd_of_def ex_disk_def

lemma ex_dst_space: "space ex_dst = 3"
  by (simp add: space_def ex_dst_def)

theorem ReadFromFile_correct_witness:
  "\<exists>m' dst' w'. ReadFromFile sim_os ex_mem ex_disk 3 ex_dst 2 1 = Some (True, m', dst', w') \<and> holds m' dst' [7, 2, 3]"
proof -
  have c: "sim_content ex_disk (fd_of 3) = Some [1, 2, 3, 4]" by (simp add: fd_of_def ex_disk_content)
  have all: "read_all sim_os ex_disk 3 2 1" by (simp add: sim_defs)
  from ReadFromFile_correct [where content = sim_content and offset = sim_offset, OF sim_posix c ex_facts(1,3), of 1 2] all
  show ?thesis by (auto simp: ex_dst_space USZ_MAX_def)
qed

theorem ReadFromFile_wraps_witness:
  "\<exists>m' dst' w'. ReadFromFile sim_os ex_mem ex_disk 3 ex_dst 2 0xFFFFFFFFFFFFFFFF = Some (True, m', dst', w')
    \<and> holds m' dst' [7, 2, 3]"
proof -
  have c: "sim_content ex_disk (fd_of 3) = Some [1, 2, 3, 4]" by (simp add: fd_of_def ex_disk_content)
  have all: "read_all sim_os ex_disk 3 2 0xFFFFFFFFFFFFFFFF" by (simp add: sim_defs)
  from ReadFromFile_wraps [where content = sim_content and offset = sim_offset, OF sim_posix c ex_facts(1,3) _ _ _ _ all] show ?thesis
    by (simp add: ex_dst_space USZ_MAX_def fd_of_def ex_disk_content)
qed


theorem AppendToFile_overwrites_witness:
  "\<exists>ok w'. AppendToFile sim_os ex_mem ex_disk 3 ex_src = Some (ok, w')
    \<and> (ok \<longrightarrow> sim_content w' 3 = Some [1, 1, 2, 4])"
proof -
  have c: "sim_content ex_disk (fd_of 3) = Some [1, 2, 3, 4]" by (simp add: fd_of_def ex_disk_content)
  have "WriteCur ex_src \<noteq> USZ_MAX" "sim_offset ex_disk (fd_of 3) \<le> length [1, 2, 3, 4 :: u8]"
    by (simp_all add: ex_src_def USZ_MAX_def fd_of_def ex_disk_content)
  from AppendToFile_overwrites [where content = sim_content and offset = sim_offset, OF sim_posix c ex_facts(2) this] show ?thesis
    by (simp add: fd_of_def ex_disk_content)
qed

lemma in_max_path_region: "q \<in> region p (unat MAX_PATH_SIZE) \<longleftrightarrow> q - p < MAX_PATH_SIZE"
  by (simp add: in_region_iff word_less_nat_alt)

definition ex_name_mem :: mem where
  "ex_name_mem = [0x100 \<mapsto> 0x61, 0x101 \<mapsto> slash, 0x102 \<mapsto> 0x62, 0x103 \<mapsto> 0, 0x200 \<mapsto> 0x78, 0x201 \<mapsto> 0x62, 0x202 \<mapsto> 0]"

lemma ex_name_apart: "region 0x10000 (unat MAX_PATH_SIZE) \<inter> region 0x100 4 = {}" "region 0x10000 (unat MAX_PATH_SIZE) \<inter> region 0x200 3 = {}"
  by (auto simp: in_max_path_region) (simp_all add: MAX_PATH_SIZE_def)

theorem NewFile_hidden_witness:
  "NewFile sim_os default_dispatch ex_name_mem 0x300 0x10000 (replicate (unat MAX_PATH_SIZE) 1) ex_disk 0x100 True HIDDEN_FILE
    = Some (3, ex_disk)"
proof -
  have f: "has_flag HIDDEN_FILE HIDDEN_FILE" by (simp add: HIDDEN_FILE_def)
  have j: "length (replicate (unat MAX_PATH_SIZE) (1 :: u8)) = unat MAX_PATH_SIZE" by simp
  have b: "bytes_at ex_name_mem 0x100 ([0x61] @ [slash] @ [0x62] @ [0])" by (simp add: ex_name_mem_def)
  have r: "region 0x10000 (unat MAX_PATH_SIZE) \<inter> region 0x100 (length [0x61 :: u8] + length [0x62 :: u8] + 2) = {}"
    using ex_name_apart(1) by (simp add: region_Suc)
  have s: "0 \<notin> set ([0x61] @ [0x62 :: u8])" "slash \<notin> set [0x62]" "length [0x61 :: u8] + length [0x62 :: u8] + 2 < unat MAX_PATH_SIZE"
    by (simp_all add: MAX_PATH_SIZE_def)
  from NewFile_hidden [where os = sim_os and w = ex_disk, OF f j b s r] show ?thesis
    by (simp add: sim_fields sim_open_def file_of_def)
qed

theorem NewFile_hidden_takes_byte_before_witness:
  "NewFile sim_os default_dispatch ex_name_mem 0x300 0x10000 (replicate (unat MAX_PATH_SIZE) 1) ex_disk 0x201 True HIDDEN_FILE
    = Some (3, ex_disk)"
proof -
  have f: "has_flag HIDDEN_FILE HIDDEN_FILE" by (simp add: HIDDEN_FILE_def)
  have j: "length (replicate (unat MAX_PATH_SIZE) (1 :: u8)) = unat MAX_PATH_SIZE" by simp
  have b: "bytes_at ex_name_mem (0x201 - 1) (0x78 # [0x62] @ [0])" by (simp add: ex_name_mem_def)
  have r: "region 0x10000 (unat MAX_PATH_SIZE) \<inter> region (0x201 - 1) (length [0x62 :: u8] + 2) = {}"
    using ex_name_apart(2) by (simp add: region_Suc)
  have s: "0 \<notin> set [0x62 :: u8]" "slash \<notin> set [0x62]" "length [0x62 :: u8] + 2 < unat MAX_PATH_SIZE"
    by (simp_all add: MAX_PATH_SIZE_def)
  from NewFile_hidden_takes_byte_before [where os = sim_os and w = ex_disk, OF f j b s r] show ?thesis
    by (simp add: sim_fields sim_open_def file_of_def)
qed

theorem FilesAreEqual_correct_witness:
  "\<exists>r m' w'. FilesAreEqual sim_os 4096 Map.empty ex_disk 3 4 = Some (r, m', w')
    \<and> (r \<longleftrightarrow> both_read sim_os 4096 Map.empty ex_disk 3 4) \<and> sim_content w' = sim_content ex_disk"
proof -
  have c: "sim_content ex_disk (fd_of 3) = Some [1, 2, 3, 4]" "sim_content ex_disk (fd_of 4) = Some [1, 2, 3, 4]"
    by (simp_all add: fd_of_def ex_disk_content)
  have p: "page_ok 4096" by (simp add: page_ok_def)
  from FilesAreEqual_correct [where content = sim_content and offset = sim_offset, OF sim_posix sim_maps p c] show ?thesis by blast
qed

end
