(* ===== verification/Dirs.thy ===== *)
theory Dirs
  imports Files
begin

text \<open>
  Directories on Linux (\<open>src/tinybase-platform-linux.c\<close>, lines 420 to 438 and 600 to 724). The system
  calls are the parameter \<open>dos\<close>, which holds those for files. A call that fails gives its \<open>errno\<close>.
\<close>

unbundle bit_operations_syntax

section \<open>The system\<close>

datatype errno = ENOENT | EEXIST | EXDEV | EOTHER

record dirent =
  d_name :: "u8 list"
  d_type :: u8

record 'w dos =
  files :: "'w os"
  sys_isdir :: "u8 list \<Rightarrow> 'w \<Rightarrow> bool option"
  sys_mkdir :: "u8 list \<Rightarrow> u32 \<Rightarrow> 'w \<Rightarrow> errno option \<times> 'w"
  sys_opendir :: "u8 list \<Rightarrow> 'w \<Rightarrow> usz \<times> 'w"
  sys_readdir :: "usz \<Rightarrow> 'w \<Rightarrow> dirent option \<times> 'w"
  sys_closedir :: "usz \<Rightarrow> 'w \<Rightarrow> 'w"
  sys_rmdir :: "u8 list \<Rightarrow> 'w \<Rightarrow> int \<times> 'w"
  sys_rename :: "u8 list \<Rightarrow> u8 list \<Rightarrow> 'w \<Rightarrow> errno option \<times> 'w"

section \<open>Making directories\<close>

text \<open>\<open>junk\<close> is what the structure says that \<open>stat\<close> has not filled when it fails.\<close>

definition IsExistingDir :: "'w dos \<Rightarrow> bool \<Rightarrow> mem \<Rightarrow> 'w \<Rightarrow> ptr \<Rightarrow> bool option" where
  "IsExistingDir dos junk m w filepath =
     do { name \<leftarrow> cstring m filepath; Some (case sys_isdir dos name w of None \<Rightarrow> junk | Some r \<Rightarrow> r) }"

definition DIR_MODE :: u32 where "DIR_MODE = 0x1FD"

text \<open>The loop of \<open>MakeDir\<close>; None in the result is the early return of false.\<close>

partial_function (option) MakeDir_loop ::
  "'w dos \<Rightarrow> dispatch \<Rightarrow> ptr \<Rightarrow> ptr \<Rightarrow> mem \<Rightarrow> 'w \<Rightarrow> path \<Rightarrow> (mem \<times> 'w \<times> path option) option" where
  "MakeDir_loop dos d sp buf m w workPath =
     do {
       slashIdx \<leftarrow> CharInString d m sp 0x2F workPath RETURN_IDX_FIND;
       if slashIdx = INVALID_IDX then Some (m, w, Some workPath)
       else do {
         m \<leftarrow> store8 m (Base workPath + slashIdx) 0;
         name \<leftarrow> cstring m buf;
         let (r, w) = sys_mkdir dos name DIR_MODE w;
         if r \<noteq> None \<and> r \<noteq> Some EEXIST then Some (m, w, None)
         else do {
           m \<leftarrow> store8 m (Base workPath + slashIdx) slash;
           MakeDir_loop dos d sp buf m w (AdvanceBuffer workPath (slashIdx + 1))
         }
       }
     }"

text \<open>\<open>buf\<close> is the address of the local array \<open>WorkPathBuf\<close>.\<close>

definition MakeDir :: "'w dos \<Rightarrow> dispatch \<Rightarrow> mem \<Rightarrow> ptr \<Rightarrow> ptr \<Rightarrow> 'w \<Rightarrow> ptr \<Rightarrow> (bool \<times> 'w) option" where
  "MakeDir dos d m sp buf w dirPath =
     do {
       name \<leftarrow> cstring m dirPath;
       case sys_mkdir dos name DIR_MODE w of
         (None, w) \<Rightarrow> Some (True, w)
       | (Some e, w) \<Rightarrow>
           if e \<noteq> ENOENT then Some (False, w)
           else do {
             let m = push_local m buf (replicate (unat MAX_PATH_SIZE) 0);
             (_, m, workPath) \<leftarrow> AppendArrayToPath d m sp dirPath (Path buf);
             (m, w, r) \<leftarrow> MakeDir_loop dos d sp buf m w workPath;
             case r of
               None \<Rightarrow> Some (False, w)
             | Some workPath \<Rightarrow>
                 if WriteCur workPath > 0
                 then do {
                   name \<leftarrow> cstring m dirPath;
                   let (r, w) = sys_mkdir dos name DIR_MODE w;
                   Some (r = None, w)
                 }
                 else Some (False, w)
           }
     }"

section \<open>Listing and removing directories\<close>

text \<open>
  \<open>OSDir\<close> and the address \<open>EntryName\<close> of the name of the entry are in the array \<open>OSData\<close> of the code.
\<close>

record iter_dir =
  AllFilesBuf :: ptr
  AllFiles :: path
  Filename :: ptr
  OSDir :: usz
  EntryName :: ptr
  IsDir :: bool

definition InitIterDir :: "mem \<Rightarrow> iter_dir \<Rightarrow> path \<Rightarrow> (mem \<times> iter_dir) option" where
  "InitIterDir m iter dirPath =
     do {
       (m, _) \<leftarrow> ClearBuffer m (AllFiles iter);
       (_, m, p) \<leftarrow> AppendStringToString m dirPath (Path (AllFilesBuf iter));
       Some (m, iter\<lparr>AllFiles := p\<rparr>)
     }"

definition DT_DIR :: u8 where "DT_DIR = 4"

text \<open>The test for the entries \<open>.\<close> and \<open>..\<close>, on a name with its terminating zero.\<close>

definition dots :: "u8 list \<Rightarrow> bool" where
  "dots name \<longleftrightarrow> name ! 0 = dot \<and> (name ! 1 = 0 \<or> (name ! 1 = dot \<and> name ! 2 = 0))"

partial_function (option) ListFiles_loop ::
  "'w dos \<Rightarrow> mem \<Rightarrow> 'w \<Rightarrow> iter_dir \<Rightarrow> (bool \<times> mem \<times> iter_dir \<times> 'w) option" where
  "ListFiles_loop dos m w iter =
     (case sys_readdir dos (OSDir iter) w of
        (None, w) \<Rightarrow> Some (False, m, iter\<lparr>OSDir := 0\<rparr>, sys_closedir dos (OSDir iter) w)
      | (Some e, w) \<Rightarrow>
          do {
            m \<leftarrow> store_bytes m (EntryName iter) (d_name e @ [0]);
            if dots (d_name e @ [0]) then ListFiles_loop dos m w iter
            else Some (True, m, iter\<lparr>Filename := EntryName iter, IsDir := d_type e AND DT_DIR \<noteq> 0\<rparr>, w)
          })"

text \<open>A directory that cannot be opened is read all the same, through a null pointer.\<close>

definition ListFiles :: "'w dos \<Rightarrow> mem \<Rightarrow> 'w \<Rightarrow> iter_dir \<Rightarrow> (bool \<times> mem \<times> iter_dir \<times> 'w) option" where
  "ListFiles dos m w iter =
     do {
       (dir, w) \<leftarrow>
         (if OSDir iter = 0 then do { name \<leftarrow> cstring m (AllFilesBuf iter); Some (sys_opendir dos name w) }
          else Some (OSDir iter, w));
       if dir = 0 then None else ListFiles_loop dos m w (iter\<lparr>OSDir := dir\<rparr>)
     }"

text \<open>
  The variable \<open>Iter\<close> of \<open>RemoveDir\<close> lies at \<open>stack\<close>: its array, and the name of the entry at the offset
  it has in the structure. What \<open>CharInString\<close> and the like use is behind it, and the next call uses the
  memory below.
\<close>

definition frame_size :: usz where "frame_size = 0x2000"

definition new_iter :: "ptr \<Rightarrow> mem \<Rightarrow> mem \<times> iter_dir" where
  "new_iter stack m =
     (push_local (push_local m stack (replicate (unat MAX_PATH_SIZE) 0)) (stack + 4171) (replicate 256 0),
      \<lparr>AllFilesBuf = stack, AllFiles = String 0 0 0 EC_UTF8, Filename = 0, OSDir = 0, EntryName = stack + 4171, IsDir = False\<rparr>)"

definition end_iter :: "ptr \<Rightarrow> mem \<Rightarrow> mem" where
  "end_iter stack m = pop_local (pop_local m (stack + 4171) 256) stack (unat MAX_PATH_SIZE)"

definition RemoveDir_start :: "mem \<Rightarrow> ptr \<Rightarrow> ptr \<Rightarrow> (mem \<times> iter_dir) option" where
  "RemoveDir_start m stack dirPath =
     do { removePath \<leftarrow> PathCString m dirPath; let (m, iter) = new_iter stack m; InitIterDir m iter removePath }"

definition rmdir_at :: "'w dos \<Rightarrow> mem \<Rightarrow> 'w \<Rightarrow> ptr \<Rightarrow> (bool \<times> mem \<times> 'w) option" where
  "rmdir_at dos m w dirPath = do { name \<leftarrow> cstring m dirPath; let (r, w) = sys_rmdir dos name w; Some (r = 0, m, w) }"

text \<open>The loop of \<open>RemoveDir\<close> and what follows it; the recursive call is unfolded to its loop.\<close>

partial_function (option) RemoveDir_loop ::
  "'w dos \<Rightarrow> dispatch \<Rightarrow> ptr \<Rightarrow> ptr \<Rightarrow> mem \<Rightarrow> 'w \<Rightarrow> iter_dir \<Rightarrow> (bool \<times> mem \<times> 'w) option" where
  "RemoveDir_loop dos d stack dirPath m w iter =
     do {
       (more, m, iter, w) \<leftarrow> ListFiles dos m w iter;
       if \<not> more then rmdir_at dos m w dirPath
       else do {
         let scratchPath = AllFiles iter;
         filename \<leftarrow> PathCString m (Filename iter);
         (_, m, scratchPath) \<leftarrow> AppendPathToPath d m (stack + 0x1800) filename scratchPath;
         (result, m, w) \<leftarrow>
           (if IsDir iter
            then do {
              (m, iter') \<leftarrow> RemoveDir_start m (stack - frame_size) (Base scratchPath);
              (result, m, w) \<leftarrow> RemoveDir_loop dos d (stack - frame_size) (Base scratchPath) m w iter';
              Some (result, end_iter (stack - frame_size) m, w)
            }
            else do { (r, w) \<leftarrow> RemoveFile (files dos) m w (Base scratchPath); Some (r, m, w) });
         _ \<leftarrow> MoveUpPath d m (stack + 0x1800) scratchPath 1;
         if \<not> result then Some (False, m, w) else RemoveDir_loop dos d stack dirPath m w iter
       }
     }"

definition RemoveDir :: "'w dos \<Rightarrow> dispatch \<Rightarrow> ptr \<Rightarrow> mem \<Rightarrow> 'w \<Rightarrow> ptr \<Rightarrow> bool \<Rightarrow> (bool \<times> mem \<times> 'w) option" where
  "RemoveDir dos d stack m w dirPath removeAllFiles =
     (if removeAllFiles
      then do {
        (m, iter) \<leftarrow> RemoveDir_start m stack dirPath;
        (result, m, w) \<leftarrow> RemoveDir_loop dos d stack dirPath m w iter;
        Some (result, end_iter stack m, w)
      }
      else rmdir_at dos m w dirPath)"

section \<open>Changing locations\<close>

definition ChangeFileLocation ::
  "'w dos \<Rightarrow> dispatch \<Rightarrow> mem \<Rightarrow> ptr \<Rightarrow> ptr \<Rightarrow> u8 list \<Rightarrow> 'w \<Rightarrow> ptr \<Rightarrow> ptr \<Rightarrow> (bool \<times> 'w) option" where
  "ChangeFileLocation dos d m sp buf junk w srcPath dstPath =
     do {
       src \<leftarrow> cstring m srcPath;
       dst \<leftarrow> cstring m dstPath;
       let (r, w) = sys_rename dos src dst w;
       if r = Some EXDEV
       then do {
         (ok, w) \<leftarrow> DuplicateFile (files dos) d m sp buf junk w srcPath dstPath False;
         if ok then RemoveFile (files dos) m w srcPath else Some (False, w)
       }
       else Some (r = None, w)
     }"

definition ChangeDirLocation :: "'w dos \<Rightarrow> mem \<Rightarrow> 'w \<Rightarrow> ptr \<Rightarrow> ptr \<Rightarrow> (bool \<times> 'w) option" where
  "ChangeDirLocation dos m w srcPath dstPath =
     do {
       src \<leftarrow> cstring m srcPath;
       dst \<leftarrow> cstring m dstPath;
       let (r, w) = sys_rename dos src dst w;
       Some (r = None, w)
     }"

section \<open>Names of directories\<close>

text \<open>A name is a list of components; \<open>slashed\<close> puts a slash behind each.\<close>

definition comp :: "u8 list \<Rightarrow> bool" where
  "comp c \<longleftrightarrow> c \<noteq> [] \<and> c \<noteq> [dot] \<and> c \<noteq> [dot, dot] \<and> slash \<notin> set c \<and> 0 \<notin> set c"

definition slashed :: "u8 list list \<Rightarrow> u8 list" where
  "slashed cs = concat (map (\<lambda>c. c @ [slash]) cs)"

lemma slashed_simps [simp]: "slashed [] = []" "slashed (c # cs) = c @ slash # slashed cs" "slashed (cs @ ds) = slashed cs @ slashed ds"
  by (simp_all add: slashed_def)

text \<open>\<open>down ds es\<close>: the directories on the way from \<open>ds\<close> down \<open>es\<close>.\<close>

fun down :: "u8 list list \<Rightarrow> u8 list list \<Rightarrow> u8 list list set" where
  "down ds [] = {}"
| "down ds (e # es) = insert (ds @ [e]) (down (ds @ [e]) es)"

text \<open>
  What \<open>mkdir\<close> promises for relative names; \<open>dirs\<close> are the directories there are. A call that succeeds makes a
  new directory in one that exists, one that fails makes none, whatever the reason. \<open>mkdir_unhindered\<close>: no call
  fails for another reason than that the directory exists or its parent does not (no missing permission, no file of
  that name, no name too long, no full disk).
\<close>

definition mkdir_law :: "'w dos \<Rightarrow> ('w \<Rightarrow> u8 list list set) \<Rightarrow> bool" where
  "mkdir_law dos dirs \<longleftrightarrow>
     (\<forall>w es e r w'. list_all comp (es @ [e]) \<longrightarrow>
        (sys_mkdir dos (slashed es @ e) DIR_MODE w = (r, w') \<or> sys_mkdir dos (slashed (es @ [e])) DIR_MODE w = (r, w')) \<longrightarrow>
        (if r = None then es @ [e] \<notin> dirs w \<and> es \<in> dirs w \<and> dirs w' = insert (es @ [e]) (dirs w) else dirs w' = dirs w))"

definition mkdir_unhindered :: "'w dos \<Rightarrow> ('w \<Rightarrow> u8 list list set) \<Rightarrow> bool" where
  "mkdir_unhindered dos dirs \<longleftrightarrow>
     (\<forall>w es e r w'. list_all comp (es @ [e]) \<longrightarrow>
        (sys_mkdir dos (slashed es @ e) DIR_MODE w = (r, w') \<or> sys_mkdir dos (slashed (es @ [e])) DIR_MODE w = (r, w')) \<longrightarrow>
        r = (if es @ [e] \<in> dirs w then Some EEXIST else if es \<in> dirs w then None else Some ENOENT))"

abbreviation mkdir_exact :: "'w dos \<Rightarrow> ('w \<Rightarrow> u8 list list set) \<Rightarrow> bool" where
  "mkdir_exact dos dirs \<equiv> mkdir_law dos dirs \<and> mkdir_unhindered dos dirs"

lemma mkdir_outcome:
  assumes "mkdir_law dos dirs" "list_all comp (es @ [e])"
    and "name = slashed es @ e \<or> name = slashed (es @ [e])"
  obtains (made) w' where "sys_mkdir dos name DIR_MODE w = (None, w')" "es @ [e] \<notin> dirs w" "es \<in> dirs w" "dirs w' = insert (es @ [e]) (dirs w)"
  | (failed) er w' where "sys_mkdir dos name DIR_MODE w = (Some er, w')" "dirs w' = dirs w"
proof -
  obtain r w' where rw: "sys_mkdir dos name DIR_MODE w = (r, w')" by (cases "sys_mkdir dos name DIR_MODE w")
  with assms have "if r = None then es @ [e] \<notin> dirs w \<and> es \<in> dirs w \<and> dirs w' = insert (es @ [e]) (dirs w) else dirs w' = dirs w"
    unfolding mkdir_law_def by blast
  with rw that show ?thesis by (cases r) auto
qed

lemma mkdir_cases:
  assumes "mkdir_exact dos dirs" "list_all comp (es @ [e])"
    and "name = slashed es @ e \<or> name = slashed (es @ [e])"
  obtains (exists) w' where "sys_mkdir dos name DIR_MODE w = (Some EEXIST, w')" "es @ [e] \<in> dirs w" "dirs w' = dirs w"
  | (made) w' where "sys_mkdir dos name DIR_MODE w = (None, w')" "es @ [e] \<notin> dirs w" "es \<in> dirs w" "dirs w' = insert (es @ [e]) (dirs w)"
  | (missing) w' where "sys_mkdir dos name DIR_MODE w = (Some ENOENT, w')" "es @ [e] \<notin> dirs w" "es \<notin> dirs w" "dirs w' = dirs w"
proof -
  obtain r w' where rw: "sys_mkdir dos name DIR_MODE w = (r, w')" by (cases "sys_mkdir dos name DIR_MODE w")
  have r: "r = (if es @ [e] \<in> dirs w then Some EEXIST else if es \<in> dirs w then None else Some ENOENT)"
    using rw assms unfolding mkdir_unhindered_def by blast
  show ?thesis
    by (rule mkdir_outcome [OF conjunct1 [OF assms(1)] assms(2,3), of w]) (use rw r that in \<open>auto split: if_splits\<close>)
qed

lemma find_first_slash:
  assumes "holds m p xs" "Enc p = EC_UTF8"
  shows "CharInString default_dispatch m sp 0x2F p RETURN_IDX_FIND = Some (idx_word (first_idx ((=) slash) xs))"
proof -
  have "holds m (Buf p) xs" using assms(1) by (simp add: holds_def)
  from simple.forward [OF TrueI this, of RETURN_IDX_FIND slash] show ?thesis
    using assms(2) by (simp add: CharInString_def GetMultibyteCharSize_def search_result_def flag_defs)
qed

lemma first_slash: "slash \<notin> set c \<Longrightarrow> first_idx ((=) slash) (c @ slash # xs) = Some (length c)"
  by (simp add: first_idx_Some nth_append)

lemma no_slash: "slash \<notin> set e \<Longrightarrow> first_idx ((=) slash) e = None"
  by (simp add: first_idx_None)

lemma bytes_at_store_behind:
  assumes "bytes_at m p xs" "length xs < 2 ^ 64"
  shows "bytes_at (m(p + of_nat (length xs) \<mapsto> v)) p (xs @ [v])"
proof -
  have "(of_nat i :: ptr) \<noteq> of_nat (length xs)" if "i < length xs" for i
    using that assms(2) of_nat_usz_eq [of i "length xs"] by simp
  then have "bytes_at (m(p + of_nat (length xs) \<mapsto> v)) p xs" using assms(1) by (simp add: bytes_at_def)
  then show ?thesis by simp
qed

text \<open>One round of the loop.\<close>

lemma MakeDir_loop_step:
  assumes "bytes_at m buf (pre @ c @ slash # rest @ [0])" "0 \<notin> set (pre @ c)" "slash \<notin> set c"
    and "length pre + length c + length rest < 2 ^ 63"
    and "Base p = buf + of_nat (length pre)" "WriteCur p = of_nat (length (c @ slash # rest))" "Enc p = EC_UTF8"
    and "sys_mkdir dos (pre @ c) DIR_MODE w = (r, w')"
  shows "MakeDir_loop dos default_dispatch sp buf m w p =
    (if r \<noteq> None \<and> r \<noteq> Some EEXIST then Some (m(buf + of_nat (length (pre @ c)) \<mapsto> 0), w', None)
     else MakeDir_loop dos default_dispatch sp buf m w' (AdvanceBuffer p (of_nat (length c) + 1)))"
proof -
  let ?q = "buf + of_nat (length (pre @ c))"
  have n: "unat (of_nat (length (c @ slash # rest)) :: usz) = length (c @ slash # rest)"
    using assms(4) by (intro unat_offset) simp
  then have "holds m p (c @ slash # rest)" using assms(1,5,6) by (simp add: holds_def)
  from find_first_slash [OF this assms(7)] first_slash [OF assms(3)]
  have idx: "CharInString default_dispatch m sp 0x2F p RETURN_IDX_FIND = Some (of_nat (length c))" by simp
  have ne: "(of_nat (length c) :: usz) \<noteq> INVALID_IDX" using assms(4) by (intro of_nat_ne_INVALID) simp
  have q: "Base p + of_nat (length c) = ?q" using assms(5) by simp
  have mq: "m ?q = Some slash" using assms(1) by (simp add: add.assoc)
  have "bytes_at m buf (pre @ c)" using assms(1) by simp
  from bytes_at_store_behind [OF this, of 0] have "bytes_at (m(?q \<mapsto> 0)) buf ((pre @ c) @ [0])" using assms(4) by simp
  from cstring_at [OF this] have "cstring (m(?q \<mapsto> 0)) buf = Some (takeWhile (\<lambda>b. b \<noteq> 0) (pre @ c))" using assms(4) by simp
  also have "takeWhile (\<lambda>b. b \<noteq> 0) (pre @ c) = pre @ c" using assms(2) by (subst takeWhile_eq_all_conv) auto
  finally have name: "cstring (m(?q \<mapsto> 0)) buf = Some (pre @ c)" .
  have same: "m(?q \<mapsto> slash) = m" using mq by (simp add: fun_upd_idem)
  show ?thesis
    by (subst MakeDir_loop.simps) (use idx ne mq name assms(8) same in \<open>simp add: q store8_def\<close>)
qed

lemma slashed_chars: "list_all comp cs \<Longrightarrow> 0 \<notin> set (slashed cs)"
  by (induction cs) (auto simp: comp_def)

definition tree :: "u8 list list set \<Rightarrow> bool" where
  "tree D \<longleftrightarrow> [] \<in> D \<and> (\<forall>ds d. ds @ [d] \<in> D \<longrightarrow> ds \<in> D)"

lemma down_snoc: "down ds (es @ [e]) = insert (ds @ es @ [e]) (down ds es)"
  by (induction es arbitrary: ds) auto

lemma down_length: "cs \<in> down ds es \<Longrightarrow> length cs \<le> length ds + length es"
  by (induction es arbitrary: ds) fastforce+

lemma tree_down:
  assumes "tree D"
  shows "es \<in> D \<Longrightarrow> down [] es \<subseteq> D"
proof (induction es rule: rev_induct)
  case (snoc e es)
  then show ?case using assms by (auto simp: down_snoc tree_def)
qed simp

text \<open>Whatever \<open>mkdir\<close> fails for, the loop makes directories on the way only, each in one that exists.\<close>

lemma MakeDir_loop_any:
  assumes "mkdir_law dos dirs"
  shows "bytes_at m buf (slashed ds @ slashed es @ e @ [0]) \<Longrightarrow> list_all comp (ds @ es) \<Longrightarrow> slash \<notin> set e
    \<Longrightarrow> length (slashed ds) + length (slashed es) + length e < 2 ^ 63 \<Longrightarrow> tree (dirs w)
    \<Longrightarrow> Base p = buf + of_nat (length (slashed ds)) \<Longrightarrow> WriteCur p = of_nat (length (slashed es @ e)) \<Longrightarrow> Enc p = EC_UTF8
    \<Longrightarrow> \<exists>m' w' q. MakeDir_loop dos default_dispatch sp buf m w p = Some (m', w', q)
      \<and> dirs w \<subseteq> dirs w' \<and> dirs w' \<subseteq> dirs w \<union> down ds es \<and> tree (dirs w')
      \<and> (\<forall>p'. q = Some p' \<longrightarrow> m' = m \<and> WriteCur p' = of_nat (length e))"
proof (induction es arbitrary: ds w p)
  case Nil
  have "length e < 2 ^ 64" using Nil(4) by simp
  from unat_offset [OF this] have "holds m p e" using Nil(1,6,7) by (simp add: holds_def)
  from find_first_slash [OF this Nil(8)] no_slash [OF Nil(3)]
  have "MakeDir_loop dos default_dispatch sp buf m w p = Some (m, w, Some p)" by (subst MakeDir_loop.simps) simp
  then show ?case using Nil by simp
next
  case (Cons c es)
  have c: "list_all comp (ds @ [c])" "list_all comp ((ds @ [c]) @ es)" using Cons.prems(2) by simp_all
  have s: "slash \<notin> set c" "0 \<notin> set (slashed ds @ c)" using c slashed_chars [of ds] by (auto simp: comp_def)
  have b: "bytes_at m buf (slashed ds @ c @ slash # (slashed es @ e) @ [0])"
    "bytes_at m buf (slashed (ds @ [c]) @ slashed es @ e @ [0])" using Cons.prems(1) by simp_all
  have l: "length (slashed ds) + length c + length (slashed es @ e) < 2 ^ 63"
    "length (slashed (ds @ [c])) + length (slashed es) + length e < 2 ^ 63" using Cons.prems(4) by simp_all
  have cur: "WriteCur p = of_nat (length (c @ slash # slashed es @ e))" using Cons.prems(7) by simp
  let ?p = "AdvanceBuffer p (of_nat (length c) + 1)"
  have p: "Base ?p = buf + of_nat (length (slashed (ds @ [c])))" "WriteCur ?p = of_nat (length (slashed es @ e))" "Enc ?p = EC_UTF8"
    using Cons.prems(6,8) cur by (simp_all add: AdvanceBuffer_def add.assoc)
  note step = MakeDir_loop_step [OF b(1) s(2,1) l(1) Cons.prems(6) cur Cons.prems(8)]
  note rest = Cons.IH [OF b(2) c(2) Cons.prems(3) l(2) _ p]
  show ?case
  proof (cases rule: mkdir_outcome [OF assms c(1), of "slashed ds @ c" w])
    case (2 w1)
    then have "tree (dirs w1)" using Cons.prems(5) by (auto simp: tree_def)
    from rest [OF this] 2(4) show ?thesis using step [OF 2(1)] by (auto simp: subset_iff)
  next
    case (3 er w1)
    then have "tree (dirs w1)" using Cons.prems(5) by simp
    from rest [OF this] 3(2) show ?thesis using step [OF 3(1)] Cons.prems(5) by (cases "er = EEXIST") auto
  qed simp
qed

lemma MakeDir_loop_eq:
  assumes "mkdir_exact dos dirs"
  shows "bytes_at m buf (slashed ds @ slashed es @ e @ [0]) \<Longrightarrow> list_all comp (ds @ es) \<Longrightarrow> slash \<notin> set e
    \<Longrightarrow> length (slashed ds) + length (slashed es) + length e < 2 ^ 63 \<Longrightarrow> ds \<in> dirs w
    \<Longrightarrow> Base p = buf + of_nat (length (slashed ds)) \<Longrightarrow> WriteCur p = of_nat (length (slashed es @ e)) \<Longrightarrow> Enc p = EC_UTF8
    \<Longrightarrow> \<exists>w' p'. MakeDir_loop dos default_dispatch sp buf m w p = Some (m, w', Some p')
      \<and> WriteCur p' = of_nat (length e) \<and> dirs w' = dirs w \<union> down ds es \<and> ds @ es \<in> dirs w'"
proof (induction es arbitrary: ds w p)
  case Nil
  have "length e < 2 ^ 64" using Nil(4) by simp
  from unat_offset [OF this] have "holds m p e" using Nil(1,6,7) by (simp add: holds_def)
  from find_first_slash [OF this Nil(8)] no_slash [OF Nil(3)]
  have "MakeDir_loop dos default_dispatch sp buf m w p = Some (m, w, Some p)" by (subst MakeDir_loop.simps) simp
  then show ?case using Nil by simp
next
  case (Cons c es)
  have c: "comp c" "list_all comp (ds @ [c])" "list_all comp ((ds @ [c]) @ es)" using Cons.prems(2) by simp_all
  have s: "slash \<notin> set c" "0 \<notin> set (slashed ds @ c)" using c slashed_chars [of ds] by (auto simp: comp_def)
  have b: "bytes_at m buf (slashed ds @ c @ slash # (slashed es @ e) @ [0])"
    "bytes_at m buf (slashed (ds @ [c]) @ slashed es @ e @ [0])" using Cons.prems(1) by simp_all
  have l: "length (slashed ds) + length c + length (slashed es @ e) < 2 ^ 63"
    "length (slashed (ds @ [c])) + length (slashed es) + length e < 2 ^ 63" using Cons.prems(4) by simp_all
  have cur: "WriteCur p = of_nat (length (c @ slash # slashed es @ e))" using Cons.prems(7) by simp
  let ?p = "AdvanceBuffer p (of_nat (length c) + 1)"
  have p: "Base ?p = buf + of_nat (length (slashed (ds @ [c])))" "WriteCur ?p = of_nat (length (slashed es @ e))" "Enc ?p = EC_UTF8"
    using Cons.prems(6,8) cur by (simp_all add: AdvanceBuffer_def add.assoc)
  note step = MakeDir_loop_step [OF b(1) s(2,1) l(1) Cons.prems(6) cur Cons.prems(8)]
  have rest: "\<exists>w' p'. MakeDir_loop dos default_dispatch sp buf m w1 ?p = Some (m, w', Some p')
      \<and> WriteCur p' = of_nat (length e) \<and> dirs w' = dirs w1 \<union> down (ds @ [c]) es \<and> (ds @ [c]) @ es \<in> dirs w'"
    if "ds @ [c] \<in> dirs w1" for w1
    by (rule Cons.IH [OF b(2) c(3) Cons.prems(3) l(2) that p])
  show ?case
  proof (cases rule: mkdir_cases [OF assms c(2), of "slashed ds @ c" w])
    case (2 w1)
    from rest [of w1] 2 show ?thesis using step [OF 2(1)] by auto
  next
    case (3 w1)
    from rest [of w1] 3 show ?thesis using step [OF 3(1)] by auto
  next
    case (4 w1)
    then show ?thesis using Cons.prems(5) by simp
  qed simp
qed

lemma resolve_upto: "slash \<notin> set c \<Longrightarrow> resolve cap tmp cur (c @ xs) = resolve cap tmp (cur @ c) xs"
  by (induction c arbitrary: cur) auto

lemma resolve_slashed:
  "list_all comp es \<Longrightarrow> slash \<notin> set e \<Longrightarrow> length tmp + length (slashed es) + length e \<le> cap
    \<Longrightarrow> resolve cap tmp [] (slashed es @ e) = Joined (tmp @ slashed es @ e)"
proof (induction es arbitrary: tmp)
  case Nil
  then show ?case using resolve_name [of e cap tmp "[]"] by simp
next
  case (Cons c es)
  then show ?case using Cons.IH [of "tmp @ c @ [slash]"] by (simp add: resolve_upto comp_def)
qed

text \<open>The copy that \<open>MakeDir\<close> works on.\<close>

lemma copy_path:
  assumes "bytes_at m dirPath (ss @ [0])" "0 \<notin> set ss" "ss \<noteq> []" "length ss < unat MAX_PATH_SIZE" "join (unat MAX_PATH_SIZE - 1) [] ss = Joined ss"
    and "region buf (unat MAX_PATH_SIZE) \<inter> region dirPath (length (ss @ [0])) = {}"
    and "region sp 4 \<inter> dom m = {}" "region sp 4 \<inter> region buf (unat MAX_PATH_SIZE) = {}"
  shows "\<exists>m1. AppendArrayToPath default_dispatch (push_local m buf (replicate (unat MAX_PATH_SIZE) 0)) sp dirPath (Path buf)
      = Some (True, m1, holding (Path buf) ss)
    \<and> bytes_at m1 buf (ss @ [0]) \<and> bytes_at m1 dirPath (ss @ [0])"
proof -
  let ?N = "unat MAX_PATH_SIZE" and ?p = "Path buf" and ?src = "(String dirPath 0 0 EC_UTF8)\<lparr>WriteCur := of_nat (length ss)\<rparr>"
  let ?m = "push_local m buf (replicate ?N 0)"
  have sz: "unat (Size ?p) = ?N - 1" "Suc (?N - 1) = ?N" "unat (Size ?p) < 2 ^ 64 - 1" by (simp_all add: Path_def MAX_PATH_SIZE_def)
  have "region dirPath (length (ss @ [0])) \<inter> region buf (length (replicate ?N (0 :: u8))) = {}"
    using assms(6) by (simp only: length_replicate Int_commute)
  from bytes_at_upd_disj [OF this] have b: "bytes_at ?m dirPath (ss @ [0])" using assms(1) by (simp add: push_local_def)
  have u: "unat (of_nat (length ss) :: usz) = length ss" using in_max_path(1) [of 0 "length ss"] assms(4) by (intro unat_offset) simp
  have src: "PathCString ?m dirPath = Some ?src" using strlen_at [OF b assms(2)] assms(4) u
    by (simp add: PathCString_def Min_def word_le_nat_alt)
  have "bytes_at ?m buf (replicate ?N 0)" by (simp add: push_local_def bytes_at_upd_same)
  from bytes_at_mapped [OF this] have mp: "mapped ?m buf ?N" by simp
  then have ok: "buf_ok ?m ?p" using mapped_mono [OF mp, of "?N - 1"] sz by (simp add: buf_ok_def Path_def)
  have h: "holds ?m ?p []" "holds ?m ?src ss" using b u by (simp_all add: holds_def Path_def)
  have apart: "buf_region ?p \<inter> region (Base ?src) (length ss) = {}"
    using assms(6) region_mono [of "?N - 1" ?N buf] region_mono [of "length ss" "length (ss @ [0])" dirPath] sz(1) by (auto simp: Path_def)
  have "dom ?m \<subseteq> dom m \<union> region buf ?N" by (auto simp: push_local_def upd_bytes_def in_region_iff split: if_splits)
  then have free: "region sp 4 \<inter> dom ?m = {}" using assms(7,8) by blast
  have "joined ?m ?p (Joined ss) (AppendPath default_dispatch ?m sp ?src ?p)"
    using AppendPath_joins [OF h(1) ok h(2) _ _ _ sz(3) apart free] assms(3,5) mp sz by (simp add: Path_def)
  then obtain m1 where m1: "AppendPath default_dispatch ?m sp ?src ?p = Some (True, m1, holding ?p ss)" "holds m1 (holding ?p ss) ss"
    "m1 (Base ?p + of_nat (length ss)) = Some 0" "\<forall>q. q \<notin> region (Base ?p) (Suc (unat (Size ?p))) \<longrightarrow> m1 q = ?m q"
    by (auto simp: joined_def)
  have "bytes_at m1 buf (ss @ [0])" using m1(2,3) by (simp add: holds_def Path_def)
  moreover have "bytes_at m1 dirPath (ss @ [0])"
    unfolding bytes_at_def
  proof (intro allI impI)
    fix i assume i: "i < length (ss @ [0])"
    then have "dirPath + of_nat i \<in> region dirPath (length (ss @ [0]))" by (rule region_memI)
    then have "dirPath + of_nat i \<notin> region (Base ?p) (Suc (unat (Size ?p)))" using assms(6) sz by (auto simp: Path_def)
    then show "m1 (dirPath + of_nat i) = Some ((ss @ [0]) ! i)" using m1(4) bytes_at_nth [OF b i] by simp
  qed
  ultimately show ?thesis using src m1(1) by (simp add: AppendArrayToPath_def)
qed

section \<open>Making a path of directories\<close>

text \<open>A name with or without a slash at its end, and how the loop splits it.\<close>

definition dir_text :: "u8 list list \<Rightarrow> u8 list \<Rightarrow> bool \<Rightarrow> u8 list" where
  "dir_text es e trailing = slashed es @ e @ (if trailing then [slash] else [])"

lemma dir_text_facts:
  assumes "list_all comp (es @ [e])" "length (dir_text es e trailing) < unat MAX_PATH_SIZE"
  shows "0 \<notin> set (dir_text es e trailing)" "dir_text es e trailing \<noteq> []"
    "join (unat MAX_PATH_SIZE - 1) [] (dir_text es e trailing) = Joined (dir_text es e trailing)"
    "dir_text es e trailing = slashed es @ e \<or> dir_text es e trailing = slashed (es @ [e])"
proof -
  have e: "e \<noteq> []" "slash \<notin> set e" "0 \<notin> set e" "list_all comp es" using assms(1) by (simp_all add: comp_def)
  show "0 \<notin> set (dir_text es e trailing)" using e slashed_chars [OF e(4)] by (simp add: dir_text_def)
  show "dir_text es e trailing \<noteq> []" using e(1) by (simp add: dir_text_def)
  show "dir_text es e trailing = slashed es @ e \<or> dir_text es e trailing = slashed (es @ [e])" by (simp add: dir_text_def)
  then show "join (unat MAX_PATH_SIZE - 1) [] (dir_text es e trailing) = Joined (dir_text es e trailing)"
    using resolve_slashed [OF e(4,2), of "[]" "unat MAX_PATH_SIZE - 1"] resolve_slashed [OF assms(1), of "[]" "[]" "unat MAX_PATH_SIZE - 1"] assms(2)
    by (auto simp: join_def)
qed

text \<open>
  What \<open>MakeDir\<close> does after its first \<open>mkdir\<close> has found a directory missing: the loop runs on the copy of the path,
  over the components that a slash ends, and the last \<open>mkdir\<close> follows unless the path ended in a slash.
\<close>

abbreviation loop_comps :: "u8 list list \<Rightarrow> u8 list \<Rightarrow> bool \<Rightarrow> u8 list list" where
  "loop_comps es e trailing \<equiv> (if trailing then es @ [e] else es)"

abbreviation loop_rest :: "u8 list \<Rightarrow> bool \<Rightarrow> u8 list" where
  "loop_rest e trailing \<equiv> (if trailing then [] else e)"

definition loop_start :: "mem \<Rightarrow> ptr \<Rightarrow> path \<Rightarrow> u8 list list \<Rightarrow> u8 list \<Rightarrow> bool" where
  "loop_start m buf p es e \<longleftrightarrow> bytes_at m buf (slashed [] @ slashed es @ e @ [0]) \<and> list_all comp ([] @ es) \<and> slash \<notin> set e
     \<and> length (slashed []) + length (slashed es) + length e < 2 ^ 63
     \<and> Base p = buf + of_nat (length (slashed [])) \<and> WriteCur p = of_nat (length (slashed es @ e)) \<and> Enc p = EC_UTF8"

lemma dir_name:
  assumes "list_all comp (es @ [e])" "ss = dir_text es e trailing" "length ss < unat MAX_PATH_SIZE" "bytes_at m dirPath (ss @ [0])"
  shows "cstring m dirPath = Some ss"
proof -
  have "takeWhile (\<lambda>b. b \<noteq> 0) ss = ss"
    using dir_text_facts(1) [OF assms(1) assms(3) [unfolded assms(2)]] assms(2) by (subst takeWhile_eq_all_conv) auto
  then show ?thesis using cstring_at [OF assms(4)] in_max_path(1) [of 0 "length ss"] assms(3) by simp
qed

lemma MakeDir_retry:
  assumes "list_all comp (es @ [e])" "ss = dir_text es e trailing"
    and "bytes_at m dirPath (ss @ [0])" "length ss < unat MAX_PATH_SIZE"
    and "region buf (unat MAX_PATH_SIZE) \<inter> region dirPath (length (ss @ [0])) = {}"
    and "region sp 4 \<inter> dom m = {}" "region sp 4 \<inter> region buf (unat MAX_PATH_SIZE) = {}"
    and "sys_mkdir dos ss DIR_MODE w = (Some ENOENT, w1)"
  obtains m1 p where "loop_start m1 buf p (loop_comps es e trailing) (loop_rest e trailing)"
    "\<And>m2 w2 q. MakeDir_loop dos default_dispatch sp buf m1 w1 p = Some (m2, w2, q)
      \<Longrightarrow> \<forall>p'. q = Some p' \<longrightarrow> m2 = m1 \<and> WriteCur p' = of_nat (length (loop_rest e trailing))
      \<Longrightarrow> MakeDir dos default_dispatch m sp buf w dirPath = Some
        (if q = None \<or> trailing then (False, w2) else (case sys_mkdir dos ss DIR_MODE w2 of (r, w3) \<Rightarrow> (r = None, w3)))"
proof -
  note f = dir_text_facts [OF assms(1) assms(4) [unfolded assms(2)], folded assms(2)]
  note name = dir_name [OF assms(1,2,4)]
  obtain m1 where m1: "AppendArrayToPath default_dispatch (push_local m buf (replicate (unat MAX_PATH_SIZE) 0)) sp dirPath (Path buf)
      = Some (True, m1, holding (Path buf) ss)" "bytes_at m1 buf (ss @ [0])" "bytes_at m1 dirPath (ss @ [0])"
    using copy_path [OF assms(3) f(1,2) assms(4) f(3) assms(5-7)] by blast
  let ?es = "loop_comps es e trailing" and ?e = "loop_rest e trailing" and ?p = "holding (Path buf) ss"
  have ss: "ss = slashed ?es @ ?e" using assms(2) by (simp add: dir_text_def)
  have "length ss < 2 ^ 63" using assms(4) by (simp add: MAX_PATH_SIZE_def)
  then have start: "loop_start m1 buf ?p ?es ?e"
    using m1(2) assms(1) ss by (auto simp: loop_start_def Path_def comp_def)
  have "length e < 2 ^ 64" if "\<not> trailing" using \<open>length ss < 2 ^ 63\<close> ss that by simp
  then have pos: "0 < (of_nat (length ?e) :: usz) \<longleftrightarrow> \<not> trailing" using assms(1) of_nat_pos [of "length e"] by (simp add: comp_def)
  have run: "MakeDir dos default_dispatch m sp buf w dirPath = Some
        (if q = None \<or> trailing then (False, w2) else (case sys_mkdir dos ss DIR_MODE w2 of (r, w3) \<Rightarrow> (r = None, w3)))"
    if "MakeDir_loop dos default_dispatch sp buf m1 w1 ?p = Some (m2, w2, q)"
      "\<forall>p'. q = Some p' \<longrightarrow> m2 = m1 \<and> WriteCur p' = of_nat (length ?e)" for m2 w2 q
    using that pos by (cases q) (auto simp: MakeDir_def name [OF assms(3)] name [OF m1(3)] assms(8) m1(1) split: prod.splits)
  show ?thesis by (rule that [OF start]) (rule run)
qed

lemma MakeDir_missing:
  assumes "mkdir_exact dos dirs" "tree (dirs w)" "list_all comp (es @ [e])" "ss = dir_text es e trailing"
    and "bytes_at m dirPath (ss @ [0])" "length ss < unat MAX_PATH_SIZE"
    and "region buf (unat MAX_PATH_SIZE) \<inter> region dirPath (length (ss @ [0])) = {}"
    and "region sp 4 \<inter> dom m = {}" "region sp 4 \<inter> region buf (unat MAX_PATH_SIZE) = {}"
    and "sys_mkdir dos ss DIR_MODE w = (Some ENOENT, w1)" "dirs w1 = dirs w" "es @ [e] \<notin> dirs w"
  shows "\<exists>w'. MakeDir dos default_dispatch m sp buf w dirPath = Some (\<not> trailing, w') \<and> dirs w' = dirs w \<union> down [] (es @ [e])"
proof -
  obtain m1 p where p: "loop_start m1 buf p (loop_comps es e trailing) (loop_rest e trailing)"
    and run: "\<And>m2 w2 q. MakeDir_loop dos default_dispatch sp buf m1 w1 p = Some (m2, w2, q)
      \<Longrightarrow> \<forall>p'. q = Some p' \<longrightarrow> m2 = m1 \<and> WriteCur p' = of_nat (length (loop_rest e trailing))
      \<Longrightarrow> MakeDir dos default_dispatch m sp buf w dirPath = Some
        (if q = None \<or> trailing then (False, w2) else (case sys_mkdir dos ss DIR_MODE w2 of (r, w3) \<Rightarrow> (r = None, w3)))"
    using MakeDir_retry [OF assms(3-10)] by blast
  have d: "[] \<in> dirs w1" using assms(2,11) by (simp add: tree_def)
  obtain w2 p' where loop: "MakeDir_loop dos default_dispatch sp buf m1 w1 p = Some (m1, w2, Some p')"
    "WriteCur p' = of_nat (length (loop_rest e trailing))" "dirs w2 = dirs w1 \<union> down [] (loop_comps es e trailing)"
    "[] @ loop_comps es e trailing \<in> dirs w2"
    using MakeDir_loop_eq [OF assms(1) _ _ _ _ d] p unfolding loop_start_def by blast
  note res = run [OF loop(1)]
  show ?thesis
  proof (cases trailing)
    case True
    then show ?thesis using res loop(2,3) assms(11) by simp
  next
    case False
    have new: "es @ [e] \<notin> dirs w2" using loop(3) assms(11,12) down_length [of "es @ [e]" "[]" es] False by auto
    show ?thesis
    proof (cases rule: mkdir_cases [OF assms(1,3) dir_text_facts(4) [OF assms(3) assms(6) [unfolded assms(4)], folded assms(4)], of w2])
      case (2 w3)
      have "dirs w3 = dirs w \<union> down [] (es @ [e])" using 2(4) loop(3) assms(11) False by (auto simp: down_snoc)
      then show ?thesis using False res loop(2) 2(1) by simp
    qed (use new loop(4) False in simp_all)
  qed
qed

lemma MakeDir_exact:
  assumes "mkdir_exact dos dirs" "tree (dirs w)" "list_all comp (es @ [e])" "ss = dir_text es e trailing"
    and "bytes_at m dirPath (ss @ [0])" "length ss < unat MAX_PATH_SIZE"
    and "region buf (unat MAX_PATH_SIZE) \<inter> region dirPath (length (ss @ [0])) = {}"
    and "region sp 4 \<inter> dom m = {}" "region sp 4 \<inter> region buf (unat MAX_PATH_SIZE) = {}"
  shows "\<exists>w'. MakeDir dos default_dispatch m sp buf w dirPath = Some (es @ [e] \<notin> dirs w \<and> (\<not> trailing \<or> es \<in> dirs w), w')
    \<and> dirs w' = (if es @ [e] \<in> dirs w then dirs w else dirs w \<union> down [] (es @ [e]))"
proof -
  note f = dir_text_facts [OF assms(3) assms(6) [unfolded assms(4)], folded assms(4)]
  have "takeWhile (\<lambda>b. b \<noteq> 0) ss = ss" using f(1) by (subst takeWhile_eq_all_conv) auto
  then have name: "cstring m dirPath = Some ss"
    using cstring_at [OF assms(5)] in_max_path(1) [of 0 "length ss"] assms(6) by simp
  show ?thesis
  proof (cases rule: mkdir_cases [OF assms(1,3) f(4), of w])
    case (1 w1)
    then show ?thesis by (simp add: MakeDir_def name)
  next
    case (2 w1)
    then have "dirs w1 = dirs w \<union> down [] (es @ [e])" using tree_down [OF assms(2), of es] by (auto simp: down_snoc)
    with 2 show ?thesis by (simp add: MakeDir_def name)
  next
    case (3 w1)
    from MakeDir_missing [OF assms 3(1,4,2)] show ?thesis using 3(2,3) by simp
  qed
qed

text \<open>Whatever \<open>mkdir\<close> fails for.\<close>

lemma MakeDir_any:
  assumes "mkdir_law dos dirs" "tree (dirs w)" "list_all comp (es @ [e])" "ss = dir_text es e trailing"
    and "bytes_at m dirPath (ss @ [0])" "length ss < unat MAX_PATH_SIZE"
    and "region buf (unat MAX_PATH_SIZE) \<inter> region dirPath (length (ss @ [0])) = {}"
    and "region sp 4 \<inter> dom m = {}" "region sp 4 \<inter> region buf (unat MAX_PATH_SIZE) = {}"
  shows "\<exists>r w'. MakeDir dos default_dispatch m sp buf w dirPath = Some (r, w')
    \<and> dirs w \<subseteq> dirs w' \<and> dirs w' \<subseteq> dirs w \<union> down [] (es @ [e])
    \<and> (r \<longrightarrow> es @ [e] \<notin> dirs w \<and> dirs w' = dirs w \<union> down [] (es @ [e]))"
proof -
  note name = dir_name [OF assms(3,4,6,5)]
  note mkdir = mkdir_outcome [OF assms(1,3) dir_text_facts(4) [OF assms(3) assms(6) [unfolded assms(4)], folded assms(4)]]
  have made: "dirs w2 \<union> {es @ [e]} = dirs w \<union> down [] (es @ [e]) \<and> es @ [e] \<notin> dirs w"
    if "tree (dirs w2)" "es \<in> dirs w2" "es @ [e] \<notin> dirs w2" "dirs w \<subseteq> dirs w2" "dirs w2 \<subseteq> dirs w \<union> down [] (es @ [e])" for w2
    using that tree_down [OF that(1,2)] by (auto simp: down_snoc)
  show ?thesis
  proof (cases rule: mkdir [of w])
    case (1 w1)
    then show ?thesis using made [of w] assms(2) by (auto simp: MakeDir_def name)
  next
    case (2 er w1)
    show ?thesis
    proof (cases "er = ENOENT")
      case True
      obtain m1 p where p: "loop_start m1 buf p (loop_comps es e trailing) (loop_rest e trailing)"
        and run: "\<And>m2 w2 q. MakeDir_loop dos default_dispatch sp buf m1 w1 p = Some (m2, w2, q)
          \<Longrightarrow> \<forall>p'. q = Some p' \<longrightarrow> m2 = m1 \<and> WriteCur p' = of_nat (length (loop_rest e trailing))
          \<Longrightarrow> MakeDir dos default_dispatch m sp buf w dirPath = Some
            (if q = None \<or> trailing then (False, w2) else (case sys_mkdir dos ss DIR_MODE w2 of (r, w3) \<Rightarrow> (r = None, w3)))"
        using MakeDir_retry [OF assms(3-9) 2(1) [unfolded True]] by blast
      have "tree (dirs w1)" using assms(2) 2(2) by simp
      then obtain m2 w2 q where loop: "MakeDir_loop dos default_dispatch sp buf m1 w1 p = Some (m2, w2, q)" "dirs w1 \<subseteq> dirs w2"
          "dirs w2 \<subseteq> dirs w1 \<union> down [] (loop_comps es e trailing)" "tree (dirs w2)"
          "\<forall>p'. q = Some p' \<longrightarrow> m2 = m1 \<and> WriteCur p' = of_nat (length (loop_rest e trailing))"
        using MakeDir_loop_any [OF assms(1), of m1 buf "[]"] p unfolding loop_start_def by blast
      have sub: "dirs w \<subseteq> dirs w2" "dirs w2 \<subseteq> dirs w \<union> down [] (es @ [e])"
        using loop(2,3) 2(2) by (auto simp: down_snoc split: if_splits)
      show ?thesis
        by (rule mkdir [of w2]) (use run [OF loop(1,5)] sub made [OF loop(4) _ _ sub] in \<open>auto split: if_splits\<close>)
    qed (use 2 in \<open>auto simp: MakeDir_def name\<close>)
  qed
qed

text \<open>
  C13: \<open>MakeDir\<close> for a relative path shorter than \<open>MAX_PATH_SIZE\<close>, of components that are no dots, only makes directories on the way,
  and when it returns true it has made the one asked for with all that were missing above it; this holds whatever
  \<open>mkdir\<close> fails for. When \<open>mkdir\<close> fails for no other reason than that a directory exists or its parent does not, the
  directory and all on the way exist afterwards. True is returned then if the directory is new, unless the path ends
  in a slash and the parent was missing too: the directories are made, and false returned.
\<close>

theorem MakeDir_makes_parents:
  assumes "mkdir_law dos dirs" "tree (dirs w)" "list_all comp (es @ [e])" "ss = dir_text es e trailing"
    and "bytes_at m dirPath (ss @ [0])" "length ss < unat MAX_PATH_SIZE"
    and "region buf (unat MAX_PATH_SIZE) \<inter> region dirPath (length (ss @ [0])) = {}"
    and "region sp 4 \<inter> dom m = {}" "region sp 4 \<inter> region buf (unat MAX_PATH_SIZE) = {}"
  shows "\<exists>r w'. MakeDir dos default_dispatch m sp buf w dirPath = Some (r, w')
    \<and> dirs w \<subseteq> dirs w' \<and> dirs w' \<subseteq> dirs w \<union> down [] (es @ [e])
    \<and> (r \<longrightarrow> es @ [e] \<notin> dirs w \<and> dirs w' = dirs w \<union> down [] (es @ [e]))
    \<and> (mkdir_unhindered dos dirs \<longrightarrow> r = (es @ [e] \<notin> dirs w \<and> (\<not> trailing \<or> es \<in> dirs w))
        \<and> dirs w' = (if es @ [e] \<in> dirs w then dirs w else dirs w \<union> down [] (es @ [e])))"
proof -
  from MakeDir_any [OF assms] obtain r w' where
    a: "MakeDir dos default_dispatch m sp buf w dirPath = Some (r, w')" "dirs w \<subseteq> dirs w'" "dirs w' \<subseteq> dirs w \<union> down [] (es @ [e])"
      "r \<longrightarrow> es @ [e] \<notin> dirs w \<and> dirs w' = dirs w \<union> down [] (es @ [e])" by blast
  moreover have "r = (es @ [e] \<notin> dirs w \<and> (\<not> trailing \<or> es \<in> dirs w))
      \<and> dirs w' = (if es @ [e] \<in> dirs w then dirs w else dirs w \<union> down [] (es @ [e]))" if "mkdir_unhindered dos dirs"
    using MakeDir_exact [OF conjI [OF assms(1) that] assms(2-9)] a(1) by auto
  ultimately show ?thesis by blast
qed

text \<open>
  C38: for an absolute path of which a directory is missing \<open>MakeDir\<close> always fails, whatever exists: the
  first thing the loop cuts off is the empty name in front of the first slash.
\<close>

theorem MakeDir_absolute_fails:
  assumes "list_all comp (es @ [e])" "ss = slash # dir_text es e trailing"
    and "bytes_at m dirPath (ss @ [0])" "length ss < unat MAX_PATH_SIZE"
    and "region buf (unat MAX_PATH_SIZE) \<inter> region dirPath (length (ss @ [0])) = {}"
    and "region sp 4 \<inter> dom m = {}" "region sp 4 \<inter> region buf (unat MAX_PATH_SIZE) = {}"
    and "sys_mkdir dos ss DIR_MODE w = (Some ENOENT, w1)" "sys_mkdir dos [] DIR_MODE w1 = (Some ENOENT, w2)"
  shows "MakeDir dos default_dispatch m sp buf w dirPath = Some (False, w2)"
proof -
  let ?t = "dir_text es e trailing" and ?N = "unat MAX_PATH_SIZE"
  have len: "length ?t < ?N" using assms(2,4) by simp
  note f = dir_text_facts [OF assms(1) len]
  have e: "slash \<notin> set e" "list_all comp es" using assms(1) by (simp_all add: comp_def)
  have no0: "0 \<notin> set ss" using f(1) assms(2) by simp
  then have "takeWhile (\<lambda>b. b \<noteq> 0) ss = ss" by (subst takeWhile_eq_all_conv) auto
  then have name: "cstring m dirPath = Some ss"
    using cstring_at [OF assms(3)] in_max_path(1) [of 0 "length ss"] assms(4) by simp
  have "1 \<le> ?N - 1" by (simp add: MAX_PATH_SIZE_def)
  then have "join (?N - 1) [] ss = resolve (?N - 1) [slash] [] ?t" using assms(2) by (simp add: join_def)
  also have "\<dots> = Joined ss"
    using f(4) resolve_slashed [OF e(2,1), of "[slash]" "?N - 1"] resolve_slashed [OF assms(1), of "[]" "[slash]" "?N - 1"] assms(2,4)
    by auto
  finally have "join (?N - 1) [] ss = Joined ss" .
  then obtain m1 where m1: "AppendArrayToPath default_dispatch (push_local m buf (replicate ?N 0)) sp dirPath (Path buf)
      = Some (True, m1, holding (Path buf) ss)" "bytes_at m1 buf (ss @ [0])"
    using copy_path [OF assms(3) no0 _ assms(4) _ assms(5-7)] assms(2) by blast
  let ?p = "holding (Path buf) ss"
  have b: "bytes_at m1 buf ([] @ [] @ slash # ?t @ [0])" using m1(2) assms(2) by simp
  have l: "length [] + length [] + length ?t < 2 ^ 63" using len by (simp add: MAX_PATH_SIZE_def)
  have p: "Base ?p = buf + of_nat (length [])" "WriteCur ?p = of_nat (length ([] @ slash # ?t))" "Enc ?p = EC_UTF8"
    using assms(2) by (simp_all add: Path_def)
  have mk: "sys_mkdir dos ([] @ []) DIR_MODE w1 = (Some ENOENT, w2)" using assms(9) by simp
  have "MakeDir_loop dos default_dispatch sp buf m1 w1 ?p = Some (m1(buf + of_nat (length ([] @ [] :: u8 list)) \<mapsto> 0), w2, None)"
    using MakeDir_loop_step [OF b _ _ l p mk, of sp] by simp
  then show ?thesis by (simp add: MakeDir_def name assms(8) m1(1))
qed

section \<open>Listing a directory\<close>

text \<open>
  What the system promises of an open directory: \<open>entries\<close> are those still to be read. A name has at most 255
  bytes, fewer than the array of the entry.
\<close>

definition name_size :: nat where "name_size = 256"

definition readdir_law :: "'w dos \<Rightarrow> ('w \<Rightarrow> usz \<Rightarrow> dirent list option) \<Rightarrow> bool" where
  "readdir_law dos entries \<longleftrightarrow>
     (\<forall>w dir es r w'. entries w dir = Some es \<longrightarrow> sys_readdir dos dir w = (r, w') \<longrightarrow>
        (case es of [] \<Rightarrow> r = None \<and> entries w' = entries w | e # es' \<Rightarrow> r = Some e \<and> entries w' = (entries w)(dir \<mapsto> es')))
     \<and> (\<forall>w dir. entries (sys_closedir dos dir w) = (entries w)(dir := None))"

definition entry_ok :: "dirent \<Rightarrow> bool" where
  "entry_ok e \<longleftrightarrow> length (d_name e) < name_size \<and> 0 \<notin> set (d_name e)"

abbreviation is_dots :: "dirent \<Rightarrow> bool" where
  "is_dots e \<equiv> dots (d_name e @ [0])"

text \<open>Only the array of the entry has changed.\<close>

definition entry_frame :: "iter_dir \<Rightarrow> mem \<Rightarrow> mem \<Rightarrow> bool" where
  "entry_frame iter m m' \<longleftrightarrow> (\<forall>q. q \<notin> region (EntryName iter) name_size \<longrightarrow> m' q = m q) \<and> dom m' = dom m"

definition listed :: "('w \<Rightarrow> usz \<Rightarrow> dirent list option) \<Rightarrow> mem \<Rightarrow> 'w \<Rightarrow> iter_dir \<Rightarrow> dirent list \<Rightarrow> (bool \<times> mem \<times> iter_dir \<times> 'w) option \<Rightarrow> bool" where
  "listed entries m w iter es r \<longleftrightarrow>
     (case dropWhile is_dots es of
        [] \<Rightarrow> (\<exists>m' w'. r = Some (False, m', iter\<lparr>OSDir := 0\<rparr>, w') \<and> entries w' = (entries w)(OSDir iter := None)
          \<and> entry_frame iter m m')
      | e # es' \<Rightarrow> (\<exists>m' w'. r = Some (True, m', iter\<lparr>Filename := EntryName iter, IsDir := d_type e AND DT_DIR \<noteq> 0\<rparr>, w')
          \<and> entries w' = (entries w)(OSDir iter \<mapsto> es') \<and> entry_frame iter m m' \<and> bytes_at m' (EntryName iter) (d_name e @ [0])))"

lemma store_entry:
  assumes "entry_ok e" "mapped m (EntryName iter) name_size"
  obtains m1 where "store_bytes m (EntryName iter) (d_name e @ [0]) = Some m1" "entry_frame iter m m1"
    "bytes_at m1 (EntryName iter) (d_name e @ [0])" "mapped m1 (EntryName iter) name_size"
proof -
  let ?bs = "d_name e @ [0]" and ?p = "EntryName iter"
  have l: "length ?bs \<le> name_size" "length ?bs \<le> 2 ^ 64" using assms(1) by (simp_all add: entry_ok_def name_size_def)
  have mp: "mapped m ?p (length ?bs)" by (rule mapped_mono [OF assms(2) l(1)])
  from store_bytes_upd [OF this] have "store_bytes m ?p ?bs = Some (upd_bytes m ?p ?bs)" using l(2) by simp
  moreover have "entry_frame iter m (upd_bytes m ?p ?bs)"
  proof -
    have "upd_bytes m ?p ?bs q = m q" if "q \<notin> region ?p name_size" for q
      using that region_mono [OF l(1), of ?p] upd_bytes_out [of q ?p ?bs m] l(2) by blast
    moreover have "dom (upd_bytes m ?p ?bs) = dom m"
      using mp in_region_iff [OF l(2), of _ ?p] unfolding mapped_dom by (auto simp: upd_bytes_def split: if_splits)
    ultimately show ?thesis by (simp add: entry_frame_def)
  qed
  ultimately show ?thesis using that bytes_at_upd_same [OF l(2)] mapped_upd [OF assms(2)] by blast
qed

lemma entry_frame_trans: "entry_frame iter m m' \<Longrightarrow> entry_frame iter m' m'' \<Longrightarrow> entry_frame iter m m''"
  by (simp add: entry_frame_def)

lemma ListFiles_loop_eq:
  assumes "readdir_law dos entries"
  shows "list_all entry_ok es \<Longrightarrow> mapped m (EntryName iter) name_size \<Longrightarrow> entries w (OSDir iter) = Some es
    \<Longrightarrow> listed entries m w iter es (ListFiles_loop dos m w iter)"
proof (induction es arbitrary: m w)
  case Nil
  obtain r w' where rd: "sys_readdir dos (OSDir iter) w = (r, w')" by (cases "sys_readdir dos (OSDir iter) w")
  then have "r = None" "entries w' = entries w" using assms Nil(3) by (fastforce simp: readdir_law_def)+
  then show ?case using assms rd
    by (subst ListFiles_loop.simps) (auto simp: listed_def entry_frame_def readdir_law_def)
next
  case (Cons e es)
  obtain r w' where rd: "sys_readdir dos (OSDir iter) w = (r, w')" by (cases "sys_readdir dos (OSDir iter) w")
  then have r: "r = Some e" "entries w' = (entries w)(OSDir iter \<mapsto> es)" using assms Cons.prems(3) by (fastforce simp: readdir_law_def)+
  obtain m1 where m1: "store_bytes m (EntryName iter) (d_name e @ [0]) = Some m1" "entry_frame iter m m1"
    "bytes_at m1 (EntryName iter) (d_name e @ [0])" "mapped m1 (EntryName iter) name_size"
    using store_entry [OF _ Cons.prems(2), of e] Cons.prems(1) by auto
  show ?case
  proof (cases "is_dots e")
    case True
    have "ListFiles_loop dos m w iter = ListFiles_loop dos m1 w' iter"
      using rd r(1) m1(1) True by (subst ListFiles_loop.simps) simp
    moreover have "listed entries m1 w' iter es (ListFiles_loop dos m1 w' iter)"
      using Cons.IH [OF _ m1(4), of w'] Cons.prems(1) r(2) by simp
    ultimately show ?thesis using True r(2) entry_frame_trans [OF m1(2)]
      by (cases "dropWhile is_dots es") (auto simp: listed_def simp del: dropWhile_eq_Nil_conv)
  next
    case False
    then have "ListFiles_loop dos m w iter
        = Some (True, m1, iter\<lparr>Filename := EntryName iter, IsDir := d_type e AND DT_DIR \<noteq> 0\<rparr>, w')"
      using rd r(1) m1(1) by (subst ListFiles_loop.simps) simp
    then show ?thesis using False r(2) m1(2,3) by (auto simp: listed_def)
  qed
qed

text \<open>A client that lists all of a directory, with \<open>n\<close> as the bound of its loop.\<close>

fun list_files :: "nat \<Rightarrow> 'w dos \<Rightarrow> mem \<Rightarrow> 'w \<Rightarrow> iter_dir \<Rightarrow> ((u8 list \<times> bool) list \<times> mem \<times> iter_dir \<times> 'w) option" where
  "list_files 0 dos m w iter = None"
| "list_files (Suc n) dos m w iter =
     do {
       (more, m, iter, w) \<leftarrow> ListFiles dos m w iter;
       if \<not> more then Some ([], m, iter, w)
       else do {
         name \<leftarrow> cstring m (Filename iter);
         (names, r) \<leftarrow> list_files n dos m w iter;
         Some ((name, IsDir iter) # names, r)
       }
     }"

lemma cstring_whole:
  assumes "bytes_at m p (xs @ [0])" "0 \<notin> set xs" "length xs < 2 ^ 64"
  shows "cstring m p = Some xs"
proof -
  have "takeWhile (\<lambda>b. b \<noteq> 0) xs = xs" using assms(2) by (subst takeWhile_eq_all_conv) auto
  then show ?thesis using cstring_at [OF assms(1,3)] by simp
qed

lemma ListFiles_open: "OSDir iter \<noteq> 0 \<Longrightarrow> ListFiles dos m w iter = ListFiles_loop dos m w iter"
  by (simp add: ListFiles_def)

lemma list_files_open:
  assumes "readdir_law dos entries"
  shows "list_all entry_ok es \<Longrightarrow> mapped m (EntryName iter) name_size \<Longrightarrow> OSDir iter \<noteq> 0 \<Longrightarrow> entries w (OSDir iter) = Some es
    \<Longrightarrow> length es < n \<Longrightarrow> \<exists>m' iter' w'. list_files n dos m w iter
      = Some (map (\<lambda>e. (d_name e, d_type e AND DT_DIR \<noteq> 0)) (filter (\<lambda>e. \<not> is_dots e) es), m', iter', w')
      \<and> OSDir iter' = 0 \<and> entries w' = (entries w)(OSDir iter := None)"
proof (induction n arbitrary: es m w iter)
  case (Suc n)
  note l = ListFiles_loop_eq [OF assms Suc.prems(1,2,4)]
  have filt: "filter (\<lambda>e. \<not> is_dots e) es = filter (\<lambda>e. \<not> is_dots e) (dropWhile is_dots es)"
    by (induction es) auto
  show ?case
  proof (cases "dropWhile is_dots es")
    case Nil
    then show ?thesis using l filt by (auto simp: listed_def ListFiles_open [OF Suc.prems(3)] fun_upd_def simp del: dropWhile_eq_Nil_conv)
  next
    case (Cons e es')
    let ?it = "iter\<lparr>Filename := EntryName iter, IsDir := d_type e AND DT_DIR \<noteq> 0\<rparr>"
    obtain m1 w1 where 1: "ListFiles dos m w iter = Some (True, m1, ?it, w1)" "entries w1 = (entries w)(OSDir iter \<mapsto> es')"
      "entry_frame iter m m1" "bytes_at m1 (EntryName iter) (d_name e @ [0])"
      using l Cons by (auto simp: listed_def ListFiles_open [OF Suc.prems(3)])
    obtain ds where "es = ds @ e # es'" using takeWhile_dropWhile_id [of is_dots es] Cons by metis
    then have ok: "entry_ok e" "list_all entry_ok es'" "length es' < n" using Suc.prems(1,5) by simp_all
    have it: "mapped m1 (EntryName ?it) name_size" "OSDir ?it \<noteq> 0" "entries w1 (OSDir ?it) = Some es'"
      using 1(2,3) Suc.prems(2,3) by (simp_all add: entry_frame_def mapped_dom)
    from Suc.IH [OF ok(2) it ok(3)] obtain m2 it2 w2 where 2: "list_files n dos m1 w1 ?it
        = Some (map (\<lambda>e. (d_name e, d_type e AND DT_DIR \<noteq> 0)) (filter (\<lambda>e. \<not> is_dots e) es'), m2, it2, w2)"
      "OSDir it2 = 0" "entries w2 = (entries w1)(OSDir ?it := None)"
      by blast
    have "cstring m1 (EntryName iter) = Some (d_name e)" using ok(1) by (intro cstring_whole [OF 1(4)]) (auto simp: entry_ok_def name_size_def)
    moreover have "\<not> is_dots e" using Cons by (simp add: dropWhile_eq_Cons_conv)
    ultimately have "list_files (Suc n) dos m w iter
        = Some (map (\<lambda>e. (d_name e, d_type e AND DT_DIR \<noteq> 0)) (filter (\<lambda>e. \<not> is_dots e) es), m2, it2, w2)"
      using 1(1) 2(1) filt Cons by simp
    moreover have "entries w2 = (entries w)(OSDir iter := None)" using 1(2) 2(3) by simp
    ultimately show ?thesis using 2(2) by blast
  qed
qed simp

text \<open>
  C14: repeated calls of \<open>ListFiles\<close> on a directory that can be opened give each entry but the two dots once,
  in the order of the system, and then false, with the directory closed. What they say to be a directory
  is every entry with the bit of \<open>DT_DIR\<close> in its type, which sockets and block devices have, too.
\<close>

theorem ListFiles_lists:
  assumes "readdir_law dos entries" "OSDir iter = 0" "cstring m (AllFilesBuf iter) = Some name"
    and "sys_opendir dos name w = (dir, w1)" "dir \<noteq> 0" "entries w1 dir = Some es" "list_all entry_ok es"
    and "mapped m (EntryName iter) name_size" "length es < n"
  shows "\<exists>m' iter' w'. list_files n dos m w iter
      = Some (map (\<lambda>e. (d_name e, d_type e AND DT_DIR \<noteq> 0)) (filter (\<lambda>e. \<not> is_dots e) es), m', iter', w')
      \<and> OSDir iter' = 0 \<and> entries w' = (entries w1)(dir := None)"
proof -
  have "ListFiles dos m w iter = ListFiles dos m w1 (iter\<lparr>OSDir := dir\<rparr>)" using assms(2-5) by (simp add: ListFiles_def)
  then have "list_files n dos m w iter = list_files n dos m w1 (iter\<lparr>OSDir := dir\<rparr>)" by (cases n) simp_all
  then show ?thesis
    using list_files_open [OF assms(1,7), where iter = "iter\<lparr>OSDir := dir\<rparr>" and w = w1 and m = m and n = n] assms(5,6,8,9) by simp
qed

section \<open>A system\<close>

text \<open>A system with a set of directories and streams of entries, to apply the theorems to.\<close>

type_synonym dir_state = "u8 list list set \<times> (usz \<Rightarrow> dirent list option)"

fun split_name :: "u8 list \<Rightarrow> u8 list \<Rightarrow> u8 list list" where
  "split_name cur [] = (if cur = [] then [] else [cur])"
| "split_name cur (b # bs) = (if b = slash then cur # split_name [] bs else split_name (cur @ [b]) bs)"

lemma split_upto: "slash \<notin> set c \<Longrightarrow> split_name cur (c @ xs) = split_name (cur @ c) xs"
  by (induction c arbitrary: cur) auto

lemma split_slashed: "list_all comp es \<Longrightarrow> slash \<notin> set e \<Longrightarrow> split_name [] (slashed es @ e) = es @ (if e = [] then [] else [e])"
  using split_upto [of e "[]" "[]"] by (induction es) (auto simp: split_upto comp_def)

definition sim_mkdir :: "u8 list \<Rightarrow> u32 \<Rightarrow> dir_state \<Rightarrow> errno option \<times> dir_state" where
  "sim_mkdir name mode w =
     (let cs = split_name [] name in
      if cs = [] then (Some ENOENT, w)
      else if cs \<in> fst w then (Some EEXIST, w)
      else if butlast cs \<in> fst w then (None, (insert cs (fst w), snd w))
      else (Some ENOENT, w))"

definition sim_readdir :: "usz \<Rightarrow> dir_state \<Rightarrow> dirent option \<times> dir_state" where
  "sim_readdir dir w =
     (case snd w dir of Some (e # es) \<Rightarrow> (Some e, (fst w, (snd w)(dir \<mapsto> es))) | _ \<Rightarrow> (None, w))"

definition sim_files :: "dir_state os" where
  "sim_files = \<lparr>sys_mmap = (\<lambda>m addr n prot w. (None, w)), sys_munmap = (\<lambda>p n w. w), sys_open = (\<lambda>name opts mode w. (- 1, w)),
     sys_close = (\<lambda>fd w. w), sys_unlink = (\<lambda>name w. (0, w)), sys_access = (\<lambda>name w. 0), sys_fstat = (\<lambda>fd w. None),
     sys_blksize = (\<lambda>fd w. None), sys_mtime = (\<lambda>fd w. None), sys_lseek = (\<lambda>fd pos w. (- 1, w)), sys_read = (\<lambda>fd n w. (None, w)),
     sys_write = (\<lambda>fd xs w. (- 1, w)), sys_copy_file_range = (\<lambda>a b n w. (- 1, w)), sys_aio_read = (\<lambda>c w. (- 1, w)),
     sys_aio_write = (\<lambda>c w. (- 1, w)), sys_aio_suspend = (\<lambda>c b w. (- 1, w)), sys_aio_return = (\<lambda>c w. (- 1, w))\<rparr>"

definition sim_dos :: "dirent list \<Rightarrow> dir_state dos" where
  "sim_dos es = \<lparr>files = sim_files, sys_isdir = (\<lambda>name w. Some (split_name [] name \<in> fst w)), sys_mkdir = sim_mkdir,
     sys_opendir = (\<lambda>name w. (1, (fst w, (snd w)(1 \<mapsto> es)))), sys_readdir = sim_readdir,
     sys_closedir = (\<lambda>dir w. (fst w, (snd w)(dir := None))), sys_rmdir = (\<lambda>name w. (0, w)), sys_rename = (\<lambda>a b w. (None, w))\<rparr>"

lemma sim_mkdir_result:
  assumes "list_all comp (xs @ [x])"
    and "sys_mkdir (sim_dos es) (slashed xs @ x) DIR_MODE w = (r, w') \<or> sys_mkdir (sim_dos es) (slashed (xs @ [x])) DIR_MODE w = (r, w')"
  shows "if xs @ [x] \<in> fst w then r = Some EEXIST \<and> fst w' = fst w
    else if xs \<in> fst w then r = None \<and> fst w' = insert (xs @ [x]) (fst w) else r = Some ENOENT \<and> fst w' = fst w"
proof -
  have "split_name [] (slashed xs @ x) = xs @ [x]" "split_name [] (slashed (xs @ [x])) = xs @ [x]"
    using split_slashed [of xs x] split_slashed [OF assms(1), of "[]"] assms(1) by (auto simp: comp_def)
  then have "sim_mkdir (slashed xs @ x) DIR_MODE w = sim_mkdir (slashed (xs @ [x])) DIR_MODE w"
    "(r, w') = sim_mkdir (slashed (xs @ [x])) DIR_MODE w" using assms(2) by (auto simp: sim_dos_def sim_mkdir_def)
  moreover have "split_name [] (slashed (xs @ [x])) = xs @ [x]" using split_slashed [OF assms(1), of "[]"] by simp
  ultimately show "if xs @ [x] \<in> fst w then r = Some EEXIST \<and> fst w' = fst w
      else if xs \<in> fst w then r = None \<and> fst w' = insert (xs @ [x]) (fst w) else r = Some ENOENT \<and> fst w' = fst w"
    by (auto simp: sim_mkdir_def split: if_splits)
qed

lemma sim_mkdir_laws: "mkdir_law (sim_dos es) fst" "mkdir_unhindered (sim_dos es) fst"
proof -
  show "mkdir_law (sim_dos es) fst"
    unfolding mkdir_law_def
  proof (intro allI impI, goal_cases)
    case (1 w xs x r w')
    from sim_mkdir_result [OF 1] show ?case by (auto split: if_splits)
  qed
  show "mkdir_unhindered (sim_dos es) fst"
    unfolding mkdir_unhindered_def
  proof (intro allI impI, goal_cases)
    case (1 w xs x r w')
    from sim_mkdir_result [OF 1] show ?case by (auto split: if_splits)
  qed
qed

lemma sim_readdir_law: "readdir_law (sim_dos es) snd"
  by (auto simp: readdir_law_def sim_dos_def sim_readdir_def split: list.splits)

definition ex_dir_mem :: mem where
  "ex_dir_mem = [0x100 \<mapsto> 0x61, 0x101 \<mapsto> slash, 0x102 \<mapsto> 0x62, 0x103 \<mapsto> 0, 0x200 \<mapsto> slash, 0x201 \<mapsto> 0x61, 0x202 \<mapsto> slash, 0x203 \<mapsto> 0x62, 0x204 \<mapsto> 0]"

lemma ex_dir_apart:
  "region 0x10000 (unat MAX_PATH_SIZE) \<inter> region 0x100 (Suc (Suc (Suc (Suc 0)))) = {}"
  "region 0x10000 (unat MAX_PATH_SIZE) \<inter> region 0x200 (Suc (Suc (Suc (Suc (Suc 0))))) = {}"
  "region 0x300 4 \<inter> dom ex_dir_mem = {}" "region 0x300 4 \<inter> region 0x10000 (unat MAX_PATH_SIZE) = {}"
  by (auto simp: in_max_path_region ex_dir_mem_def region_Suc) (simp_all add: MAX_PATH_SIZE_def)

theorem MakeDir_makes_parents_witness:
  "\<exists>w'. MakeDir (sim_dos []) default_dispatch ex_dir_mem 0x300 0x10000 ({[]}, Map.empty) 0x100 = Some (True, w')
    \<and> fst w' = {[], [[0x61]], [[0x61], [0x62]]}"
proof -
  have c: "list_all comp ([[0x61]] @ [[0x62]])" by (simp add: comp_def)
  have t: "[0x61, slash, 0x62] = dir_text [[0x61]] [0x62] False" by (simp add: dir_text_def)
  have b: "bytes_at ex_dir_mem 0x100 ([0x61, slash, 0x62] @ [0])" by (simp add: ex_dir_mem_def)
  have l: "length [0x61, slash, 0x62] < unat MAX_PATH_SIZE" by (simp add: MAX_PATH_SIZE_def)
  have r: "region 0x10000 (unat MAX_PATH_SIZE) \<inter> region 0x100 (length ([0x61, slash, 0x62] @ [0])) = {}" using ex_dir_apart(1) by simp
  have tr: "tree (fst ({[]}, Map.empty :: usz \<Rightarrow> dirent list option))" by (simp add: tree_def)
  from MakeDir_makes_parents [OF sim_mkdir_laws(1) tr c t b l r ex_dir_apart(3,4), of "[]"] sim_mkdir_laws(2) [of "[]"]
  show ?thesis by (auto simp: insert_commute)
qed

theorem MakeDir_absolute_fails_witness:
  "MakeDir (sim_dos []) default_dispatch ex_dir_mem 0x300 0x10000 ({[]}, Map.empty) 0x200 = Some (False, ({[]}, Map.empty))"
proof -
  let ?w = "({[]}, Map.empty) :: dir_state"
  have c: "list_all comp ([[0x61]] @ [[0x62]])" by (simp add: comp_def)
  have t: "[slash, 0x61, slash, 0x62] = slash # dir_text [[0x61]] [0x62] False" by (simp add: dir_text_def)
  have b: "bytes_at ex_dir_mem 0x200 ([slash, 0x61, slash, 0x62] @ [0])" by (simp add: ex_dir_mem_def)
  have l: "length [slash, 0x61, slash, 0x62] < unat MAX_PATH_SIZE" by (simp add: MAX_PATH_SIZE_def)
  have r: "region 0x10000 (unat MAX_PATH_SIZE) \<inter> region 0x200 (length ([slash, 0x61, slash, 0x62] @ [0])) = {}" using ex_dir_apart(2) by simp
  have m: "sys_mkdir (sim_dos []) [slash, 0x61, slash, 0x62] DIR_MODE ?w = (Some ENOENT, ?w)" "sys_mkdir (sim_dos []) [] DIR_MODE ?w = (Some ENOENT, ?w)"
    by (simp_all add: sim_dos_def sim_mkdir_def)
  show ?thesis by (rule MakeDir_absolute_fails [OF c t b l r ex_dir_apart(3,4) m])
qed

definition ex_entries :: "dirent list" where
  "ex_entries = [\<lparr>d_name = [dot], d_type = 4\<rparr>, \<lparr>d_name = [0x61], d_type = 8\<rparr>, \<lparr>d_name = [dot, dot], d_type = 4\<rparr>, \<lparr>d_name = [0x73], d_type = 12\<rparr>]"

theorem ListFiles_lists_witness:
  "\<exists>m' iter' w'. list_files 5 (sim_dos ex_entries) (upd_bytes ex_dir_mem 0x1000 (replicate 256 0)) ({}, Map.empty)
      \<lparr>AllFilesBuf = 0x100, AllFiles = Path 0x100, Filename = 0, OSDir = 0, EntryName = 0x1000, IsDir = False\<rparr>
    = Some ([([0x61], False), ([0x73], True)], m', iter', w') \<and> OSDir iter' = 0 \<and> snd w' = Map.empty"
proof -
  let ?it = "\<lparr>AllFilesBuf = 0x100, AllFiles = Path 0x100, Filename = 0, OSDir = 0, EntryName = 0x1000, IsDir = False\<rparr>"
  let ?m = "upd_bytes ex_dir_mem 0x1000 (replicate 256 0)"
  let ?w1 = "({}, [1 \<mapsto> ex_entries]) :: dir_state"
  have o: "OSDir ?it = 0" by simp
  have "region 0x100 (length ([0x61, slash, 0x62] @ [0])) \<inter> region 0x1000 (length (replicate 256 (0 :: u8))) = {}"
    by (simp add: region_Suc in_region_iff del: region_numeral)
  then have "bytes_at ?m 0x100 ([0x61, slash, 0x62] @ [0])" by (subst bytes_at_upd_disj) (simp_all add: ex_dir_mem_def)
  then have n: "cstring ?m (AllFilesBuf ?it) = Some [0x61, slash, 0x62]" using cstring_whole [of ?m "0x100" "[0x61, slash, 0x62]"] by simp
  have d: "sys_opendir (sim_dos ex_entries) [0x61, slash, 0x62] ({}, Map.empty) = (1, ?w1)" "(1 :: usz) \<noteq> 0"
    "snd ?w1 1 = Some ex_entries" by (simp_all add: sim_dos_def)
  have e: "list_all entry_ok ex_entries" "length ex_entries < 5" by (simp_all add: ex_entries_def entry_ok_def name_size_def)
  have "bytes_at ?m 0x1000 (replicate 256 0)" by (rule bytes_at_upd_same) simp
  from bytes_at_mapped [OF this] have mp: "mapped ?m (EntryName ?it) name_size" unfolding name_size_def by (simp del: mapped_numeral)
  have f: "map (\<lambda>e. (d_name e, d_type e AND DT_DIR \<noteq> 0)) (filter (\<lambda>e. \<not> is_dots e) ex_entries) = [([0x61], False), ([0x73], True)]"
    by (simp add: ex_entries_def DT_DIR_def dots_def)
  show ?thesis using ListFiles_lists [where entries = snd, OF sim_readdir_law o n d(1,2,3) e(1) mp e(2)] unfolding f by auto
qed

end
