(* ===== verification/Removal.thy ===== *)
theory Removal
  imports Dirs
begin

text \<open>
  What \<open>RemoveDir\<close> with \<open>RemoveAllFiles\<close> does to the file system (\<open>src/tinybase-platform-linux.c\<close>, lines 677 to
  702). \<open>remove_tree\<close> states it on names, without paths in memory; the loop with its buffers on the stack refines it,
  as long as the names fit into a path.
\<close>

unbundle bit_operations_syntax

section \<open>Specification\<close>

text \<open>\<open>n\<close> bounds the entries read and the depth. None: out of fuel, a name too long, or a directory that cannot be opened.\<close>

fun remove_entries :: "nat \<Rightarrow> 'w dos \<Rightarrow> usz \<Rightarrow> u8 list \<Rightarrow> 'w \<Rightarrow> (bool \<times> 'w) option" where
  "remove_entries 0 dos dir ds w = None"
| "remove_entries (Suc n) dos dir ds w =
     (case sys_readdir dos dir w of
        (None, w) \<Rightarrow> (let (r, w) = sys_rmdir dos ds (sys_closedir dos dir w) in Some (r = 0, w))
      | (Some e, w) \<Rightarrow>
          if is_dots e then remove_entries n dos dir ds w
          else let p = with_slash ds @ d_name e in
            if unat MAX_PATH_SIZE \<le> length p then None
            else do {
              (ok, w) \<leftarrow>
                (if d_type e AND DT_DIR \<noteq> 0
                 then let (sub, w) = sys_opendir dos p w in if sub = 0 then None else remove_entries n dos sub p w
                 else let (r, w) = sys_unlink (files dos) p w in Some (r = 0, w));
              if ok then remove_entries n dos dir ds w else Some (False, w)
            })"

definition remove_tree :: "nat \<Rightarrow> 'w dos \<Rightarrow> u8 list \<Rightarrow> 'w \<Rightarrow> (bool \<times> 'w) option" where
  "remove_tree n dos ds w = (let (dir, w) = sys_opendir dos ds w in if dir = 0 then None else remove_entries n dos dir ds w)"

definition names_law :: "'w dos \<Rightarrow> bool" where
  "names_law dos \<longleftrightarrow>
     (\<forall>dir w e w'. sys_readdir dos dir w = (Some e, w') \<longrightarrow> entry_ok e \<and> d_name e \<noteq> [] \<and> slash \<notin> set (d_name e))"

section \<open>The stack\<close>

abbreviation path_size :: nat where "path_size \<equiv> unat MAX_PATH_SIZE"
abbreviation frame_bytes :: nat where "frame_bytes \<equiv> unat frame_size"

definition entry_at :: "ptr \<Rightarrow> ptr" where "entry_at stack = stack + 4171"
definition locals_at :: "ptr \<Rightarrow> ptr" where "locals_at stack = stack + 0x1800"

definition below :: "nat \<Rightarrow> ptr \<Rightarrow> ptr set" where
  "below n stack = region (stack - of_nat n * frame_size) (n * frame_bytes)"

lemma layout_numbers:
  "path_size \<le> 4171" "4171 + name_size \<le> 6144" "6144 + 4 \<le> frame_bytes" "frame_bytes = 8192"
  by (simp_all add: MAX_PATH_SIZE_def frame_size_def name_size_def)

lemma frame_layout:
  "region stack path_size \<subseteq> region stack frame_bytes" "region (entry_at stack) name_size \<subseteq> region stack frame_bytes"
  "region (locals_at stack) 4 \<subseteq> region stack frame_bytes" "region stack path_size \<inter> region (entry_at stack) name_size = {}"
  "region (locals_at stack) 4 \<inter> region stack path_size = {}" "region (locals_at stack) 4 \<inter> region (entry_at stack) name_size = {}"
proof -
  note n = layout_numbers
  have at: "entry_at stack = stack + of_nat 4171" "locals_at stack = stack + of_nat 6144" by (simp_all add: entry_at_def locals_at_def)
  show "region stack path_size \<subseteq> region stack frame_bytes" using n by (intro region_mono) linarith
  show e: "region (entry_at stack) name_size \<subseteq> region stack frame_bytes" unfolding at by (rule region_offset) (use n in linarith)
  show "region (locals_at stack) 4 \<subseteq> region stack frame_bytes" unfolding at by (rule region_offset) (use n in linarith)
  have "region stack 4171 \<inter> region (entry_at stack) name_size = {}" unfolding at by (rule region_split_disj) (simp add: name_size_def)
  moreover have "region stack path_size \<subseteq> region stack 4171" using n by (intro region_mono) linarith
  ultimately show "region stack path_size \<inter> region (entry_at stack) name_size = {}" by blast
  have "region stack 6144 \<inter> region (locals_at stack) 4 = {}" unfolding at by (rule region_split_disj) (simp only: power_numeral, simp)
  moreover have "region stack path_size \<subseteq> region stack 6144" using n by (intro region_mono) linarith
  moreover have "region (entry_at stack) name_size \<subseteq> region stack 6144" unfolding at by (rule region_offset) (use n in linarith)
  ultimately show "region (locals_at stack) 4 \<inter> region stack path_size = {}" "region (locals_at stack) 4 \<inter> region (entry_at stack) name_size = {}"
    by blast+
qed

lemma below_Suc: "below (Suc n) stack = below n (stack - frame_size) \<union> region (stack - frame_size) frame_bytes"
proof -
  let ?p = "stack - frame_size - of_nat n * frame_size"
  have p: "stack - of_nat (Suc n) * frame_size = ?p" by (simp add: algebra_simps)
  have q: "?p + of_nat (n * frame_bytes) = stack - frame_size" by simp
  have s: "Suc n * frame_bytes = n * frame_bytes + frame_bytes" by simp
  show ?thesis unfolding below_def p s region_append q by (rule refl)
qed

lemma below_apart:
  assumes "Suc n * frame_bytes \<le> 2 ^ 64"
  shows "below n stack \<inter> region stack frame_bytes = {}"
proof -
  have "n * frame_bytes + frame_bytes \<le> 2 ^ 64" using assms by (simp add: add.commute)
  from region_split_disj [OF this, of "stack - of_nat n * frame_size"] show ?thesis by (simp add: below_def)
qed

section \<open>One directory\<close>

text \<open>The memory and the iterator in the loop for the directory \<open>ds\<close>.\<close>

definition removing :: "ptr \<Rightarrow> ptr \<Rightarrow> u8 list \<Rightarrow> mem \<Rightarrow> iter_dir \<Rightarrow> bool" where
  "removing stack dirPath ds m iter \<longleftrightarrow>
     AllFilesBuf iter = stack \<and> AllFiles iter = holding (Path stack) ds \<and> EntryName iter = entry_at stack
     \<and> bytes_at m stack ds \<and> mapped m stack path_size \<and> mapped m (entry_at stack) name_size
     \<and> region (locals_at stack) 4 \<inter> dom m = {}
     \<and> bytes_at m dirPath (ds @ [0]) \<and> region dirPath (length (ds @ [0])) \<inter> region stack frame_bytes = {}
     \<and> ds \<noteq> [] \<and> 0 \<notin> set ds \<and> length ds < path_size"

lemma removingD:
  assumes "removing stack dirPath ds m iter"
  shows "AllFilesBuf iter = stack" "AllFiles iter = holding (Path stack) ds" "EntryName iter = entry_at stack"
    "bytes_at m stack ds" "mapped m stack path_size" "mapped m (entry_at stack) name_size"
    "region (locals_at stack) 4 \<inter> dom m = {}" "bytes_at m dirPath (ds @ [0])"
    "region dirPath (length (ds @ [0])) \<inter> region stack frame_bytes = {}" "ds \<noteq> []" "0 \<notin> set ds" "length ds < path_size"
  using assms unfolding removing_def by blast+

lemma bytes_at_agree: "bytes_at m p xs \<Longrightarrow> \<forall>q\<in>region p (length xs). m' q = m q \<Longrightarrow> bytes_at m' p xs"
  unfolding bytes_at_def using region_memI by metis

lemma removing_next:
  assumes "removing stack dirPath ds m iter" "dom m' = dom m" "bytes_at m' stack ds"
    and "\<forall>q. q \<notin> region stack frame_bytes \<longrightarrow> m' q = m q"
    and "AllFilesBuf iter' = AllFilesBuf iter" "AllFiles iter' = AllFiles iter" "EntryName iter' = EntryName iter"
  shows "removing stack dirPath ds m' iter'"
proof -
  note d = removingD [OF assms(1)]
  have "bytes_at m' dirPath (ds @ [0])" using d(9) assms(4) by (intro bytes_at_agree [OF d(8)]) blast
  then show ?thesis using d assms(2,3,5-7) unfolding removing_def mapped_dom by simp
qed

lemma Path_size: "unat (Size (Path p)) = path_size - 1" "Suc (path_size - 1) = path_size" "path_size - 1 < 2 ^ 64 - 1"
  by (simp_all add: Path_def MAX_PATH_SIZE_def)

lemma path_holds:
  assumes "bytes_at m stack xs" "length xs < path_size"
  shows "holds m (holding (Path stack) xs) xs"
  using assms in_max_path(1) [of 0 "length xs"] unat_offset [of "length xs"] by (simp add: holds_def Path_def)

text \<open>Putting the name of an entry behind the directory.\<close>

lemma append_entry:
  assumes "removing stack dirPath ds m iter" "bytes_at m (entry_at stack) (name @ [0])" "0 \<notin> set name" "name \<noteq> []" "slash \<notin> set name"
    and "length name < name_size" "length (with_slash ds @ name) < path_size"
  obtains fn m' where "PathCString m (entry_at stack) = Some fn"
    "AppendPathToPath default_dispatch m (locals_at stack) fn (holding (Path stack) ds) = Some (True, m', holding (Path stack) (with_slash ds @ name))"
    "bytes_at m' stack ((with_slash ds @ name) @ [0])" "dom m' = dom m" "\<forall>q. q \<notin> region stack path_size \<longrightarrow> m' q = m q"
proof -
  note d = removingD [OF assms(1)]
  let ?fn = "(String (entry_at stack) 0 0 EC_UTF8)\<lparr>WriteCur := of_nat (length name)\<rparr>" and ?dst = "holding (Path stack) ds"
  let ?p = "with_slash ds @ name"
  have ls: "length ds \<le> length (with_slash ds)" by (simp add: with_slash_def)
  have un: "unat (of_nat (length name) :: usz) = length name" "unat (of_nat (length ds) :: usz) = length ds"
    using assms(6) d(12) in_max_path(1) [of 0 "length ds"] by (simp_all add: unat_offset name_size_def)
  have nN: "length name < path_size" using assms(6) layout_numbers by (simp add: name_size_def MAX_PATH_SIZE_def)
  have fn: "PathCString m (entry_at stack) = Some ?fn"
    using strlen_at [OF assms(2,3)] un nN by (simp add: PathCString_def Min_def word_le_nat_alt)
  have src: "holds m ?fn name" using assms(2) un by (simp add: holds_def)
  have dst: "holds m ?dst ds" by (rule path_holds [OF d(4,12)])
  have ok: "buf_ok m ?dst" using mapped_mono [OF d(5), of "path_size - 1"] Path_size un(2) d(12)
    by (simp add: buf_ok_def word_le_nat_alt Path_def)
  have apart: "buf_region ?dst \<inter> region (Base ?fn) (length name) = {}"
    using frame_layout(4) [of stack] region_mono [of "path_size - 1" path_size stack] region_mono [of "length name" name_size "entry_at stack"]
      assms(6) Path_size(1) [of stack] by (auto simp: Path_def)
  have "join (unat (Size ?dst)) ds name = Joined ?p"
    using assms(7) Path_size by (intro join_name [OF d(10) assms(4,5)]) simp
  then have "joined m ?dst (Joined ?p) (AppendPath default_dispatch m (locals_at stack) ?fn ?dst)"
    using AppendPath_joins [OF dst ok src _ _ _ _ apart d(7)] assms(4) d(5) Path_size by (simp add: Path_def)
  then obtain m' where m': "AppendPath default_dispatch m (locals_at stack) ?fn ?dst = Some (True, m', holding (Path stack) ?p)"
    "holds m' (holding (Path stack) ?p) ?p" "m' (stack + of_nat (length ?p)) = Some 0" "dom m' = dom m"
    "\<forall>q. q \<notin> region stack path_size \<longrightarrow> m' q = m q"
    using Path_size by (auto simp: joined_def Path_def)
  have "length name \<le> path_size - 1 - length ds" using assms(7) ls by simp
  then have "of_nat (length name) \<le> Size ?dst - WriteCur ?dst"
    using unat_space [OF ok] un Path_size(1) [of stack] by (simp add: word_le_nat_alt space_def)
  then have "AppendPathToPath default_dispatch m (locals_at stack) ?fn ?dst = Some (True, m', holding (Path stack) ?p)"
    using m'(1) by (simp add: AppendPathToPath_def Path_def)
  moreover have "bytes_at m' stack (?p @ [0])" using m'(2,3) by (simp add: holds_def Path_def add.assoc)
  ultimately show ?thesis using that fn m'(4,5) by blast
qed

section \<open>Frames on the stack\<close>

lemma dom_upd: "length bs \<le> 2 ^ 64 \<Longrightarrow> dom (upd_bytes m p bs) = dom m \<union> region p (length bs)"
  by (auto simp: upd_bytes_def in_region_iff split: if_splits)

text \<open>The memory with the locals of a call.\<close>

definition pushed :: "ptr \<Rightarrow> mem \<Rightarrow> mem" where
  "pushed stack m = upd_bytes (upd_bytes m stack (replicate path_size 0)) (entry_at stack) (replicate name_size 0)"

lemma new_iter_pushed:
  "new_iter stack m = (pushed stack m, \<lparr>AllFilesBuf = stack, AllFiles = String 0 0 0 EC_UTF8, Filename = 0, OSDir = 0,
     EntryName = entry_at stack, IsDir = False\<rparr>)"
  by (simp add: new_iter_def pushed_def push_local_def entry_at_def name_size_def)

lemma name_size_bound [simp]: "name_size \<le> 18446744073709551616"
  by (simp add: name_size_def)

lemma pushed_facts:
  "zbuf (pushed stack m) stack path_size []" "mapped (pushed stack m) (entry_at stack) name_size"
  "dom (pushed stack m) = dom m \<union> region stack path_size \<union> region (entry_at stack) name_size"
  "q \<notin> region stack frame_bytes \<Longrightarrow> pushed stack m q = m q"
proof -
  let ?m = "upd_bytes m stack (replicate path_size 0)"
  have "bytes_at ?m stack (replicate path_size 0)" by (rule bytes_at_upd_same) simp
  then have "bytes_at (pushed stack m) stack (replicate path_size 0)"
    unfolding pushed_def using frame_layout(4) by (subst bytes_at_upd_disj) simp_all
  then show "zbuf (pushed stack m) stack path_size []" by (simp add: zbuf_def)
  have "bytes_at (pushed stack m) (entry_at stack) (replicate name_size 0)" unfolding pushed_def by (rule bytes_at_upd_same) simp
  from bytes_at_mapped [OF this] show "mapped (pushed stack m) (entry_at stack) name_size" by simp
  show "dom (pushed stack m) = dom m \<union> region stack path_size \<union> region (entry_at stack) name_size"
    by (simp add: pushed_def dom_upd)
  show "pushed stack m q = m q" if "q \<notin> region stack frame_bytes"
    using that frame_layout(1,2) [of stack] unfolding pushed_def by (subst upd_bytes_out, auto)+
qed

text \<open>What \<open>RemoveDir\<close> starts its loop with.\<close>

lemma RemoveDir_start_removing:
  assumes "bytes_at m dirPath (ds @ [0])" "ds \<noteq> []" "0 \<notin> set ds" "length ds < path_size" "region stack frame_bytes \<inter> dom m = {}"
  obtains m' iter where "RemoveDir_start m stack dirPath = Some (m', iter)" "removing stack dirPath ds m' iter" "OSDir iter = 0"
    "cstring m' stack = Some ds" "dom m' = dom m \<union> region stack path_size \<union> region (entry_at stack) name_size"
    "\<forall>q. q \<notin> region stack frame_bytes \<longrightarrow> m' q = m q"
proof -
  let ?src = "(String dirPath 0 0 EC_UTF8)\<lparr>WriteCur := of_nat (length ds)\<rparr>" and ?m0 = "pushed stack m" and ?d = "Path stack"
  let ?m1 = "upd_bytes ?m0 (stack + of_nat (length ([] :: u8 list))) ds"
  note z = pushed_facts(1) [of stack m]
  have un: "unat (of_nat (length ds) :: usz) = length ds" using assms(4) in_max_path(1) [of 0 "length ds"] by (simp add: unat_offset)
  have src: "PathCString m dirPath = Some ?src"
    using strlen_at [OF assms(1,3)] un assms(4) by (simp add: PathCString_def Min_def word_le_nat_alt)
  have "region dirPath (length (ds @ [0])) \<subseteq> dom m" using bytes_at_mapped [OF assms(1)] by (simp add: mapped_dom)
  then have dp: "region dirPath (length (ds @ [0])) \<inter> region stack frame_bytes = {}" using assms(5) by blast
  have b0: "bytes_at ?m0 dirPath (ds @ [0])" using dp pushed_facts(4) [of _ stack m] by (intro bytes_at_agree [OF assms(1)]) blast
  have mp: "mapped ?m0 stack path_size" using bytes_at_mapped [of ?m0 stack "replicate path_size 0"] z by (simp add: zbuf_def)
  then have bd: "building ?m0 ?d []" using mapped_mono [OF mp, of "path_size - 1"] Path_size by (simp add: building_def Path_def)
  have h0: "holding ?d [] = ?d" by (simp add: holding_def Path_def String_def)
  have br: "buf_region ?d = region stack (path_size - 1)" unfolding Path_size(1) by (simp add: Path_def)
  have "region stack (path_size - 1) \<inter> region dirPath (length ds) = {}"
    using dp region_mono [of "path_size - 1" path_size stack] frame_layout(1) [of stack] region_mono [of "length ds" "length (ds @ [0])" dirPath]
    by fastforce
  then have apart: "buf_region ?d \<inter> region (Base ?src) (length ds) = {}" unfolding br by simp
  have "AppendStringToString ?m0 ?src (holding ?d []) = Some (append_result ?m0 (holding ?d []) ds)"
    using b0 un by (intro append_dir_eq [OF bd _ _ apart]) (simp_all add: holds_def Path_def)
  moreover have "append_result ?m0 (holding ?d []) ds = (True, ?m1, holding ?d ([] @ ds))"
    using building_facts(4) [OF bd] assms(4) Path_size(1) [of stack] by (simp add: append_result_def holding_def Path_def)
  ultimately have app: "AppendStringToString ?m0 ?src ?d = Some (True, ?m1, holding ?d ds)" by (simp add: h0)
  let ?it = "\<lparr>AllFilesBuf = stack, AllFiles = holding ?d ds, Filename = 0, OSDir = 0, EntryName = entry_at stack, IsDir = False\<rparr>"
  have start: "RemoveDir_start m stack dirPath = Some (?m1, ?it)"
    by (simp add: RemoveDir_start_def src new_iter_pushed InitIterDir_def ClearBuffer_def app)
  have fit: "length ([] :: u8 list) + length ds \<le> path_size" using assms(4) by simp
  have z1: "zbuf ?m1 stack path_size ([] @ ds)" by (rule zbuf_write [OF z fit]) (rule unat_lt_2p)
  have ld: "length ds \<le> 2 ^ 64" using in_max_path(2) [of 0 "length ds"] assms(4) by simp
  have rd: "region stack (length ds) \<subseteq> region stack path_size" using assms(4) by (intro region_mono) simp
  have dom1: "dom ?m1 = dom m \<union> region stack path_size \<union> region (entry_at stack) name_size"
    using dom_upd [OF ld] pushed_facts(3) [of stack m] rd by auto
  have out: "?m1 q = m q" if "q \<notin> region stack frame_bytes" for q
    using that rd frame_layout(1) [of stack] upd_bytes_out [OF _ ld, of q stack ?m0] pushed_facts(4) [OF that] by auto
  have "removing stack dirPath ds ?m1 ?it"
    unfolding removing_def
  proof (intro conjI)
    show "bytes_at ?m1 stack ds" using z1 by (simp add: zbuf_def)
    show "mapped ?m1 stack path_size" "mapped ?m1 (entry_at stack) name_size" using dom1 by (auto simp: mapped_dom)
    show "region (locals_at stack) 4 \<inter> dom ?m1 = {}" using dom1 assms(5) frame_layout(3,5,6) [of stack] by blast
    show "bytes_at ?m1 dirPath (ds @ [0])" using out dp by (intro bytes_at_agree [OF assms(1)]) blast
  qed (use assms dp in simp_all)
  moreover have "cstring ?m1 stack = Some ds"
  proof -
    have "takeWhile (\<lambda>b. b \<noteq> 0) ds = ds" using assms(3) by (subst takeWhile_eq_all_conv) auto
    then show ?thesis using zbuf_cstring [OF z1] assms(4) by simp
  qed
  ultimately show ?thesis using that [OF start] dom1 out by simp
qed

text \<open>Leaving a call restores the memory.\<close>

lemma pop_region: "n \<le> 2 ^ 64 \<Longrightarrow> pop_local m p n q = (if q \<in> region p n then None else m q)"
  by (simp add: pop_local_def in_region_iff)

lemma end_iter_names: "end_iter stack m = pop_local (pop_local m (entry_at stack) name_size) stack path_size"
  by (simp only: end_iter_def entry_at_def name_size_def)

lemma end_iter_restores:
  assumes "region stack frame_bytes \<inter> dom m = {}" "dom m2 = dom m \<union> region stack path_size \<union> region (entry_at stack) name_size"
    and "\<forall>q. q \<notin> region stack frame_bytes \<longrightarrow> m2 q = m q"
  shows "end_iter stack m2 = m"
proof
  fix q
  have pop: "end_iter stack m2 q = (if q \<in> region stack path_size \<or> q \<in> region (entry_at stack) name_size then None else m2 q)"
    by (simp add: end_iter_names pop_region)
  show "end_iter stack m2 q = m q"
  proof (cases "q \<in> region stack frame_bytes")
    case True
    then have "m q = None" using assms(1) by blast
    moreover have "m2 q = None" if "q \<notin> region stack path_size" "q \<notin> region (entry_at stack) name_size"
      using that True assms(1,2) by blast
    ultimately show ?thesis using pop by auto
  next
    case False
    then show ?thesis using pop assms(3) frame_layout(1,2) [of stack] by auto
  qed
qed

section \<open>Refinement\<close>

lemma RemoveDir_loop_cong:
  "ListFiles dos m w iter = ListFiles dos m' w' iter' \<Longrightarrow>
    RemoveDir_loop dos d stack dirPath m w iter = RemoveDir_loop dos d stack dirPath m' w' iter'"
  by (subst (1 2) RemoveDir_loop.simps) simp

lemma whole_cstring: "bytes_at m p (xs @ [0]) \<Longrightarrow> 0 \<notin> set xs \<Longrightarrow> length xs < path_size \<Longrightarrow> cstring m p = Some xs"
  using in_max_path(1) [of 0 "length xs"] by (intro cstring_whole) simp_all

lemma with_slash_chars: "ds \<noteq> [] \<Longrightarrow> 0 \<notin> set ds \<Longrightarrow> 0 \<notin> set (with_slash ds)"
  "ds \<noteq> [] \<Longrightarrow> \<exists>ts. with_slash ds = ds @ ts"
  by (auto simp: with_slash_def)

text \<open>What \<open>MoveUpPath\<close> returns is ignored; it is defined.\<close>

lemma MoveUpPath_defined:
  assumes "bytes_at m stack p" "p \<noteq> []" "length p < path_size"
  obtains r where "MoveUpPath default_dispatch m (locals_at stack) (holding (Path stack) p) 1 = Some r"
  using MoveUpPath_eq [OF path_holds [OF assms(1,3)] assms(2), of 1] by (simp add: Path_def)

lemma RemoveDir_loop_step:
  assumes "ListFiles dos m w iter = Some (True, m1, iter1, w1)" "Filename iter1 = entry_at stack" "AllFiles iter1 = holding (Path stack) ds"
    and "PathCString m1 (entry_at stack) = Some fn"
    and "AppendPathToPath default_dispatch m1 (locals_at stack) fn (holding (Path stack) ds) = Some (True, m2, holding (Path stack) p)"
    and "(if IsDir iter1
          then do {
            (m, iter') \<leftarrow> RemoveDir_start m2 (stack - frame_size) stack;
            (result, m, w) \<leftarrow> RemoveDir_loop dos default_dispatch (stack - frame_size) stack m w1 iter';
            Some (result, end_iter (stack - frame_size) m, w)
          }
          else do { (r, w) \<leftarrow> RemoveFile (files dos) m2 w1 stack; Some (r, m2, w) }) = Some (ok, m2, w2)"
    and "bytes_at m2 stack p" "p \<noteq> []" "length p < path_size"
  shows "RemoveDir_loop dos default_dispatch stack dirPath m w iter =
    (if ok then RemoveDir_loop dos default_dispatch stack dirPath m2 w2 iter1 else Some (False, m2, w2))"
proof -
  obtain r where r: "MoveUpPath default_dispatch m2 (locals_at stack) (holding (Path stack) p) 1 = Some r"
    by (rule MoveUpPath_defined [OF assms(7-9)])
  have b: "Base (holding (Path stack) p) = stack" by (simp add: Path_def)
  show ?thesis
    by (subst RemoveDir_loop.simps, simp only: assms(1-6) r b locals_at_def [symmetric] Option.bind.simps prod.case
        Let_def not_True_eq_False if_False, cases ok) simp_all
qed

lemma below_mono: "below n stack \<subseteq> below (Suc n) stack"
proof -
  have "stack - of_nat (Suc n) * frame_size + of_nat frame_bytes = stack - of_nat n * frame_size" by (simp add: algebra_simps)
  then have "below n stack = region (stack - of_nat (Suc n) * frame_size + of_nat frame_bytes) (n * frame_bytes)"
    unfolding below_def by (simp only:)
  then show ?thesis using region_append [of "stack - of_nat (Suc n) * frame_size" frame_bytes "n * frame_bytes"]
    by (simp add: below_def)
qed

text \<open>A call for a directory in it, in its own frame: the memory is as before when it returns.\<close>

lemma remove_sub:
  assumes IH: "\<And>w r w' stack dirPath m iter. remove_entries n dos sub p w = Some (r, w') \<Longrightarrow> removing stack dirPath p m iter
      \<Longrightarrow> OSDir iter = sub \<Longrightarrow> sub \<noteq> 0 \<Longrightarrow> below n stack \<inter> dom m = {}
      \<Longrightarrow> \<exists>m'. RemoveDir_loop dos default_dispatch stack dirPath m w iter = Some (r, m', w') \<and> dom m' = dom m
        \<and> (\<forall>q. q \<notin> region stack frame_bytes \<longrightarrow> m' q = m q)"
    and "sys_opendir dos p w1 = (sub, w3)" "sub \<noteq> 0" "remove_entries n dos sub p w3 = Some (ok, w2)"
    and "bytes_at m dirPath (p @ [0])" "p \<noteq> []" "0 \<notin> set p" "length p < path_size"
    and "region stack frame_bytes \<inter> dom m = {}" "below n stack \<inter> dom m = {}" "Suc n * frame_bytes \<le> 2 ^ 64"
  shows "do {
      (m, iter') \<leftarrow> RemoveDir_start m stack dirPath;
      (result, m, w) \<leftarrow> RemoveDir_loop dos default_dispatch stack dirPath m w1 iter';
      Some (result, end_iter stack m, w)
    } = Some (ok, m, w2)"
proof -
  obtain m3 it where s: "RemoveDir_start m stack dirPath = Some (m3, it)" "removing stack dirPath p m3 it" "OSDir it = 0"
    "cstring m3 stack = Some p" "dom m3 = dom m \<union> region stack path_size \<union> region (entry_at stack) name_size"
    "\<forall>q. q \<notin> region stack frame_bytes \<longrightarrow> m3 q = m q"
    by (rule RemoveDir_start_removing [OF assms(5-9)])
  have "AllFilesBuf it = stack" using removingD(1) [OF s(2)] .
  then have "ListFiles dos m3 w1 it = ListFiles dos m3 w3 (it\<lparr>OSDir := sub\<rparr>)"
    using s(3,4) assms(2,3) by (simp add: ListFiles_def)
  note run = RemoveDir_loop_cong [OF this]
  have rem: "removing stack dirPath p m3 (it\<lparr>OSDir := sub\<rparr>)" using s(2) by (simp add: removing_def)
  have "below n stack \<inter> dom m3 = {}"
    using assms(10) s(5) below_apart [OF assms(11), of stack] frame_layout(1,2) [of stack] by blast
  from IH [OF assms(4) rem _ assms(3) this] obtain m4 where
    m4: "RemoveDir_loop dos default_dispatch stack dirPath m3 w3 (it\<lparr>OSDir := sub\<rparr>) = Some (ok, m4, w2)" "dom m4 = dom m3"
    "\<forall>q. q \<notin> region stack frame_bytes \<longrightarrow> m4 q = m3 q" by auto
  have "end_iter stack m4 = m" by (rule end_iter_restores [OF assms(9)]) (use m4(2,3) s(5,6) in simp_all)
  then show ?thesis using s(1) run m4(1) by simp
qed

lemma ListFiles_cases:
  assumes "OSDir iter \<noteq> 0"
  shows "sys_readdir dos (OSDir iter) w = (None, w1) \<Longrightarrow>
      ListFiles dos m w iter = Some (False, m, iter\<lparr>OSDir := 0\<rparr>, sys_closedir dos (OSDir iter) w1)"
    "sys_readdir dos (OSDir iter) w = (Some e, w1) \<Longrightarrow> store_bytes m (EntryName iter) (d_name e @ [0]) = Some m1 \<Longrightarrow> is_dots e
      \<Longrightarrow> ListFiles dos m w iter = ListFiles dos m1 w1 iter"
    "sys_readdir dos (OSDir iter) w = (Some e, w1) \<Longrightarrow> store_bytes m (EntryName iter) (d_name e @ [0]) = Some m1 \<Longrightarrow> \<not> is_dots e
      \<Longrightarrow> ListFiles dos m w iter = Some (True, m1, iter\<lparr>Filename := EntryName iter, IsDir := d_type e AND DT_DIR \<noteq> 0\<rparr>, w1)"
  by (simp_all add: ListFiles_open [OF assms] ListFiles_loop.simps [of dos m w])

text \<open>Reading an entry, and what is done with one that is not a dot.\<close>

lemma read_entry:
  assumes "removing stack dirPath ds m iter" "entry_ok e"
  obtains m1 where "store_bytes m (EntryName iter) (d_name e @ [0]) = Some m1" "dom m1 = dom m"
    "bytes_at m1 (entry_at stack) (d_name e @ [0])" "\<forall>q. q \<notin> region stack frame_bytes \<longrightarrow> m1 q = m q"
    "removing stack dirPath ds m1 iter"
proof -
  note d = removingD [OF assms(1)]
  obtain m1 where m1: "store_bytes m (EntryName iter) (d_name e @ [0]) = Some m1" "entry_frame iter m m1"
    "bytes_at m1 (EntryName iter) (d_name e @ [0])"
    using store_entry [OF assms(2), of m iter] d(3,6) by auto
  have f: "dom m1 = dom m" "\<forall>q. q \<notin> region (entry_at stack) name_size \<longrightarrow> m1 q = m q"
    using m1(2) d(3) by (simp_all add: entry_frame_def)
  then have o: "\<forall>q. q \<notin> region stack frame_bytes \<longrightarrow> m1 q = m q" using frame_layout(2) [of stack] by blast
  have "region stack (length ds) \<subseteq> region stack path_size" using d(12) by (intro region_mono) simp
  then have "bytes_at m1 stack ds" using f(2) frame_layout(4) [of stack] by (intro bytes_at_agree [OF d(4)]) blast
  from removing_next [OF assms(1) f(1) this o refl refl refl] show ?thesis using that [OF m1(1) f(1)] m1(3) d(3) o by simp
qed

lemma entry_removed:
  assumes "removing stack dirPath ds m1 it" "bytes_at m1 (entry_at stack) (name @ [0])" "0 \<notin> set name" "name \<noteq> []" "slash \<notin> set name"
    and "length name < name_size" "length (with_slash ds @ name) < path_size"
    and "ListFiles dos m w iter = Some (True, m1, it, w1)" "Filename it = entry_at stack"
    and act: "\<And>m2. bytes_at m2 stack ((with_slash ds @ name) @ [0]) \<Longrightarrow> dom m2 = dom m1 \<Longrightarrow>
      (if IsDir it
       then do {
         (m, iter') \<leftarrow> RemoveDir_start m2 (stack - frame_size) stack;
         (result, m, w) \<leftarrow> RemoveDir_loop dos default_dispatch (stack - frame_size) stack m w1 iter';
         Some (result, end_iter (stack - frame_size) m, w)
       }
       else do { (r, w) \<leftarrow> RemoveFile (files dos) m2 w1 stack; Some (r, m2, w) }) = Some (ok, m2, w2)"
  obtains m2 where "RemoveDir_loop dos default_dispatch stack dirPath m w iter
      = (if ok then RemoveDir_loop dos default_dispatch stack dirPath m2 w2 it else Some (False, m2, w2))"
    "removing stack dirPath ds m2 it" "dom m2 = dom m1" "\<forall>q. q \<notin> region stack frame_bytes \<longrightarrow> m2 q = m1 q"
proof -
  note d = removingD [OF assms(1)]
  let ?p = "with_slash ds @ name"
  obtain fn m2 where a: "PathCString m1 (entry_at stack) = Some fn"
    "AppendPathToPath default_dispatch m1 (locals_at stack) fn (holding (Path stack) ds) = Some (True, m2, holding (Path stack) ?p)"
    "bytes_at m2 stack (?p @ [0])" "dom m2 = dom m1" "\<forall>q. q \<notin> region stack path_size \<longrightarrow> m2 q = m1 q"
    by (rule append_entry [OF assms(1-7)])
  have o: "\<forall>q. q \<notin> region stack frame_bytes \<longrightarrow> m2 q = m1 q" using a(5) frame_layout(1) [of stack] by blast
  have bp: "bytes_at m2 stack ?p" "?p \<noteq> []" using a(3) assms(4) by simp_all
  have "bytes_at m2 stack ds" using bp(1) with_slash_chars(2) [OF d(10)] by auto
  from removing_next [OF assms(1) a(4) this o refl refl refl] have rem: "removing stack dirPath ds m2 it" .
  show ?thesis
    by (rule that [OF RemoveDir_loop_step [OF assms(8,9) d(2) a(1,2) act [OF a(3,4)] bp assms(7)] rem a(4) o])
qed

lemma RemoveDir_loop_refines:
  assumes "names_law dos"
  shows "remove_entries n dos dir ds w = Some (r, w') \<Longrightarrow> removing stack dirPath ds m iter \<Longrightarrow> OSDir iter = dir \<Longrightarrow> dir \<noteq> 0
    \<Longrightarrow> below n stack \<inter> dom m = {} \<Longrightarrow> Suc n * frame_bytes \<le> 2 ^ 64
    \<Longrightarrow> \<exists>m'. RemoveDir_loop dos default_dispatch stack dirPath m w iter = Some (r, m', w') \<and> dom m' = dom m
      \<and> (\<forall>q. q \<notin> region stack frame_bytes \<longrightarrow> m' q = m q)"
proof (induction n arbitrary: dir ds w r w' stack dirPath m iter)
  case (Suc n)
  note d = removingD [OF Suc.prems(2)]
  have h: "OSDir iter \<noteq> 0" using Suc.prems(3,4) by simp
  obtain x w1 where rd: "sys_readdir dos dir w = (x, w1)" by (cases "sys_readdir dos dir w")
  have low: "below n stack \<inter> dom m = {}" "below n (stack - frame_size) \<inter> dom m = {}" "region (stack - frame_size) frame_bytes \<inter> dom m = {}"
    using Suc.prems(5) below_mono [of n stack] below_Suc [of n stack] by blast+
  have sz: "Suc n * frame_bytes \<le> 2 ^ 64" using Suc.prems(6) by (simp only: mult_Suc)
  show ?case
  proof (cases x)
    case None
    obtain rc w2 where rm: "sys_rmdir dos ds (sys_closedir dos dir w1) = (rc, w2)" by (cases "sys_rmdir dos ds (sys_closedir dos dir w1)")
    have "ListFiles dos m w iter = Some (False, m, iter\<lparr>OSDir := 0\<rparr>, sys_closedir dos dir w1)"
      using ListFiles_cases(1) [OF h] rd None Suc.prems(3) by simp
    then have "RemoveDir_loop dos default_dispatch stack dirPath m w iter = Some (rc = 0, m, w2)"
      using whole_cstring [OF d(8,11,12)] rm by (subst RemoveDir_loop.simps) (simp add: rmdir_at_def)
    then show ?thesis using Suc.prems(1) rd None rm by simp
  next
    case (Some e)
    have e: "entry_ok e" "d_name e \<noteq> []" "slash \<notin> set (d_name e)" using assms rd Some unfolding names_law_def by blast+
    then have e': "0 \<notin> set (d_name e)" "length (d_name e) < name_size" by (simp_all add: entry_ok_def)
    obtain m1 where m1: "store_bytes m (EntryName iter) (d_name e @ [0]) = Some m1" "dom m1 = dom m"
      "bytes_at m1 (entry_at stack) (d_name e @ [0])" "\<forall>q. q \<notin> region stack frame_bytes \<longrightarrow> m1 q = m q"
      "removing stack dirPath ds m1 iter"
      by (rule read_entry [OF Suc.prems(2) e(1)])
    show ?thesis
    proof (cases "is_dots e")
      case True
      have "ListFiles dos m w iter = ListFiles dos m1 w1 iter"
        using ListFiles_cases(2) [OF h _ m1(1) True] rd Some Suc.prems(3) by simp
      note run = RemoveDir_loop_cong [OF this]
      have "remove_entries n dos dir ds w1 = Some (r, w')" using Suc.prems(1) rd Some True by simp
      from Suc.IH [OF this m1(5) Suc.prems(3,4) _ sz] low(1) m1(2,4) show ?thesis unfolding run by auto
    next
      case False
      let ?p = "with_slash ds @ d_name e" and ?it = "iter\<lparr>Filename := entry_at stack, IsDir := d_type e AND DT_DIR \<noteq> 0\<rparr>"
      have lp: "length ?p < path_size" using Suc.prems(1) rd Some False by (auto simp: Let_def split: if_splits)
      obtain ok w2 where sub: "(if d_type e AND DT_DIR \<noteq> 0
          then let (sub, w) = sys_opendir dos ?p w1 in if sub = 0 then None else remove_entries n dos sub ?p w
          else let (r, w) = sys_unlink (files dos) ?p w1 in Some (r = 0, w)) = Some (ok, w2)"
        and rest: "(if ok then remove_entries n dos dir ds w2 else Some (False, w2)) = Some (r, w')"
        using Suc.prems(1) rd Some False lp by (auto simp: Let_def bind_eq_Some_conv simp del: length_append)
      have list: "ListFiles dos m w iter = Some (True, m1, ?it, w1)" "Filename ?it = entry_at stack"
        using ListFiles_cases(3) [OF h _ m1(1) False] rd Some Suc.prems(3) d(3) by simp_all
      have rem1: "removing stack dirPath ds m1 ?it" using m1(5) by (simp add: removing_def)
      have p: "?p \<noteq> []" "0 \<notin> set ?p" using e(2) e'(1) with_slash_chars(1) [OF d(10,11)] by simp_all
      have act: "(if IsDir ?it
          then do {
            (m, iter') \<leftarrow> RemoveDir_start m2 (stack - frame_size) stack;
            (result, m, w) \<leftarrow> RemoveDir_loop dos default_dispatch (stack - frame_size) stack m w1 iter';
            Some (result, end_iter (stack - frame_size) m, w)
          }
          else do { (r, w) \<leftarrow> RemoveFile (files dos) m2 w1 stack; Some (r, m2, w) }) = Some (ok, m2, w2)"
        if "bytes_at m2 stack (?p @ [0])" "dom m2 = dom m1" for m2
      proof (cases "d_type e AND DT_DIR \<noteq> 0")
        case True
        obtain h w3 where op: "sys_opendir dos ?p w1 = (h, w3)" "h \<noteq> 0" "remove_entries n dos h ?p w3 = Some (ok, w2)"
          using sub True by (auto split: if_splits prod.splits)
        have "do {
            (m, iter') \<leftarrow> RemoveDir_start m2 (stack - frame_size) stack;
            (result, m, w) \<leftarrow> RemoveDir_loop dos default_dispatch (stack - frame_size) stack m w1 iter';
            Some (result, end_iter (stack - frame_size) m, w)
          } = Some (ok, m2, w2)"
          by (rule remove_sub [OF Suc.IH [OF _ _ _ _ _ sz] op that(1) p lp]) (use low(2,3) m1(2) that(2) sz in simp_all)
        then show ?thesis using True by simp
      next
        case False
        then show ?thesis using sub whole_cstring [OF that(1) p(2) lp] by (auto simp: RemoveFile_def)
      qed
      obtain m2 where m2: "RemoveDir_loop dos default_dispatch stack dirPath m w iter
          = (if ok then RemoveDir_loop dos default_dispatch stack dirPath m2 w2 ?it else Some (False, m2, w2))"
        "removing stack dirPath ds m2 ?it" "dom m2 = dom m1" "\<forall>q. q \<notin> region stack frame_bytes \<longrightarrow> m2 q = m1 q"
        by (rule entry_removed [OF rem1 m1(3) e'(1) e(2,3) e'(2) lp list act])
      show ?thesis
      proof (cases ok)
        case True
        then have "remove_entries n dos dir ds w2 = Some (r, w')" using rest by simp
        from Suc.IH [OF this m2(2) _ Suc.prems(4) _ sz] low(1) m1(2,4) m2(3,4) Suc.prems(3) True show ?thesis
          unfolding m2(1) by auto
      next
        case False
        then show ?thesis using rest m1(2,4) m2(3,4) unfolding m2(1) by auto
      qed
    qed
  qed
qed simp

lemma RemoveDir_tree:
  assumes "names_law dos" "bytes_at m dirPath (ds @ [0])" "ds \<noteq> []" "0 \<notin> set ds" "length ds < path_size"
    and "(below n stack \<union> region stack frame_bytes) \<inter> dom m = {}" "Suc n * frame_bytes \<le> 2 ^ 64"
    and "remove_tree n dos ds w = Some (r, w')"
  shows "RemoveDir dos default_dispatch stack m w dirPath True = Some (r, m, w')"
proof -
  obtain dir w1 where op: "sys_opendir dos ds w = (dir, w1)" "dir \<noteq> 0" "remove_entries n dos dir ds w1 = Some (r, w')"
    using assms(8) by (auto simp: remove_tree_def Let_def split: prod.splits if_splits)
  have free: "region stack frame_bytes \<inter> dom m = {}" "below n stack \<inter> dom m = {}" using assms(6) by blast+
  have "do {
      (m, iter') \<leftarrow> RemoveDir_start m stack dirPath;
      (result, m, w) \<leftarrow> RemoveDir_loop dos default_dispatch stack dirPath m w iter';
      Some (result, end_iter stack m, w)
    } = Some (r, m, w')"
    by (rule remove_sub [OF RemoveDir_loop_refines [OF assms(1) _ _ _ _ _ assms(7)] op assms(2-5) free assms(7)])
  then show ?thesis by (simp add: RemoveDir_def)
qed

text \<open>
  C2: \<open>RemoveDir\<close> with \<open>RemoveAllFiles\<close> does to the file system what \<open>remove_tree\<close> says: it removes every entry,
  subdirectories with all that is in them first, stops with false at the first that cannot be removed, and removes
  the directory at the end. All its buffers are on the stack, and the memory is as before when it returns.
\<close>

theorem RemoveDir_refines:
  assumes "names_law dos" "bytes_at m dirPath (ds @ [0])" "ds \<noteq> []" "0 \<notin> set ds" "length ds < path_size"
    and "(below n stack \<union> region stack frame_bytes) \<inter> dom m = {}" "Suc n * frame_bytes \<le> 2 ^ 64"
    and "remove_tree n dos ds w = Some (r, w')"
  shows "RemoveDir dos default_dispatch stack m w dirPath True = Some (r, m, w')"
  using assms by (rule RemoveDir_tree)

text \<open>
  When the first entry is a file that cannot be removed, \<open>RemoveDir\<close> returns false and leaves the directory
  open, with the other entries still to be read.
\<close>

theorem RemoveDir_leaves_open:
  assumes "names_law dos" "bytes_at m dirPath (ds @ [0])" "ds \<noteq> []" "0 \<notin> set ds" "length ds < path_size"
    and "(below 1 stack \<union> region stack frame_bytes) \<inter> dom m = {}"
    and "readdir_law dos entries" "sys_opendir dos ds w = (dir, w1)" "dir \<noteq> 0" "entries w1 dir = Some (e # es)"
    and "\<not> is_dots e" "d_type e AND DT_DIR = 0" "length (with_slash ds @ d_name e) < path_size"
    and "\<And>w. \<exists>w'. sys_unlink (files dos) (with_slash ds @ d_name e) w = (- 1, w') \<and> entries w' = entries w"
  shows "\<exists>w'. RemoveDir dos default_dispatch stack m w dirPath True = Some (False, m, w') \<and> entries w' dir = Some es"
proof -
  obtain x w2 where rd: "sys_readdir dos dir w1 = (x, w2)" by (cases "sys_readdir dos dir w1")
  then have x: "x = Some e" "entries w2 = (entries w1)(dir \<mapsto> es)" using assms(7,10) by (fastforce simp: readdir_law_def)+
  obtain w3 where un: "sys_unlink (files dos) (with_slash ds @ d_name e) w2 = (- 1, w3)" "entries w3 = entries w2"
    using assms(14) by blast
  have "remove_tree 1 dos ds w = Some (False, w3)"
    using assms(8,9,11-13) rd x(1) un(1) by (simp add: remove_tree_def)
  moreover have "Suc 1 * frame_bytes \<le> 2 ^ 64" by (simp add: frame_size_def)
  ultimately have "RemoveDir dos default_dispatch stack m w dirPath True = Some (False, m, w3)"
    by (intro RemoveDir_tree [OF assms(1-6)])
  then show ?thesis using x(2) un(2) by simp
qed

section \<open>A concrete directory\<close>

definition ex_tree_mem :: mem where
  "ex_tree_mem = [0x100 \<mapsto> 0x64, 0x101 \<mapsto> 0]"

text \<open>A system with a file in the directory that is opened; \<open>r\<close> is what \<open>unlink\<close> returns.\<close>

definition good_entry :: "dirent \<Rightarrow> bool" where
  "good_entry e \<longleftrightarrow> entry_ok e \<and> d_name e \<noteq> [] \<and> slash \<notin> set (d_name e)"

definition tree_dos :: "int \<Rightarrow> dir_state dos" where
  "tree_dos r = (sim_dos [\<lparr>d_name = [0x61], d_type = 8\<rparr>])\<lparr>files := sim_files\<lparr>sys_unlink := (\<lambda>name w. (r, w))\<rparr>,
     sys_readdir := (\<lambda>dir w. case sim_readdir dir w of (Some e, w') \<Rightarrow> if good_entry e then (Some e, w') else (None, w) | x \<Rightarrow> x)\<rparr>"

definition tree_entries :: "dir_state \<Rightarrow> usz \<Rightarrow> dirent list option" where
  "tree_entries w dir = (case snd w dir of Some es \<Rightarrow> if list_all good_entry es then Some es else None | None \<Rightarrow> None)"

lemma tree_names: "names_law (tree_dos r)"
  by (auto simp: names_law_def tree_dos_def good_entry_def split: prod.splits option.splits if_splits)

lemma tree_readdir: "readdir_law (tree_dos r) tree_entries"
  by (auto simp: readdir_law_def tree_dos_def tree_entries_def sim_readdir_def sim_dos_def fun_eq_iff split: option.splits list.splits if_splits)

lemma ex_tree_free: "(below 2 0x100000 \<union> region 0x100000 frame_bytes) \<inter> dom ex_tree_mem = {}"
  "(below 1 0x100000 \<union> region 0x100000 frame_bytes) \<inter> dom ex_tree_mem = {}"
proof -
  have r: "q \<in> region p n \<longleftrightarrow> unat (q - p) < n" if "n \<le> 3 * 8192" for q p n by (rule in_region_iff) (use that in simp)
  have f: "frame_bytes = 8192" by (simp add: frame_size_def)
  show "(below 2 0x100000 \<union> region 0x100000 frame_bytes) \<inter> dom ex_tree_mem = {}"
    "(below 1 0x100000 \<union> region 0x100000 frame_bytes) \<inter> dom ex_tree_mem = {}"
    unfolding below_def f ex_tree_mem_def by (auto simp: r frame_size_def simp del: region_numeral)
qed

lemma ex_tree_path: "bytes_at ex_tree_mem 0x100 ([0x64] @ [0])" "length [0x64 :: u8] < path_size"
  by (simp_all add: ex_tree_mem_def MAX_PATH_SIZE_def)

theorem RemoveDir_refines_witness:
  "\<exists>w'. RemoveDir (tree_dos 0) default_dispatch 0x100000 ex_tree_mem ({}, Map.empty) 0x100 True = Some (True, ex_tree_mem, w')"
proof -
  let ?e = "\<lparr>d_name = [0x61], d_type = 8\<rparr>" and ?n = "Suc (Suc 0)"
  have o: "sys_opendir (tree_dos 0) [0x64] ({}, Map.empty) = (1, ({}, [1 \<mapsto> [?e]]))" by (simp add: tree_dos_def sim_dos_def)
  have r1: "sys_readdir (tree_dos 0) 1 ({}, [1 \<mapsto> [?e]]) = (Some ?e, ({}, [1 \<mapsto> []]))"
    by (simp add: tree_dos_def sim_readdir_def sim_dos_def good_entry_def entry_ok_def name_size_def)
  have r2: "sys_readdir (tree_dos 0) 1 ({}, [1 \<mapsto> []]) = (None, ({}, [1 \<mapsto> []]))"
    by (simp add: tree_dos_def sim_readdir_def sim_dos_def)
  have u: "sys_unlink (files (tree_dos 0)) x w = (0, w)" for x w by (simp add: tree_dos_def)
  have e: "\<not> is_dots ?e" "d_type ?e AND DT_DIR = 0" "length (with_slash [0x64] @ d_name ?e) < path_size"
    by (simp_all add: dots_def DT_DIR_def with_slash_def MAX_PATH_SIZE_def)
  have "\<exists>w'. remove_tree ?n (tree_dos 0) [0x64] ({}, Map.empty) = Some (True, w')"
    using e by (simp add: remove_tree_def o r1 r2 u split: prod.split) (simp add: tree_dos_def sim_dos_def)
  then obtain w' where w': "remove_tree ?n (tree_dos 0) [0x64] ({}, Map.empty) = Some (True, w')" by blast
  have f: "Suc ?n * frame_bytes \<le> 2 ^ 64" by (simp add: frame_size_def)
  have p: "[0x64 :: u8] \<noteq> []" "0 \<notin> set [0x64 :: u8]" by simp_all
  show ?thesis
    using RemoveDir_refines [OF tree_names ex_tree_path(1) p ex_tree_path(2) ex_tree_free(1) [unfolded numeral_2_eq_2] f w'] by blast
qed

theorem RemoveDir_leaves_open_witness:
  "\<exists>w'. RemoveDir (tree_dos (- 1)) default_dispatch 0x100000 ex_tree_mem ({}, Map.empty) 0x100 True = Some (False, ex_tree_mem, w')
    \<and> tree_entries w' 1 = Some []"
proof -
  let ?e = "\<lparr>d_name = [0x61], d_type = 8\<rparr>" and ?w = "({}, [1 \<mapsto> [\<lparr>d_name = [0x61], d_type = 8\<rparr>]]) :: dir_state"
  have n: "[0x64 :: u8] \<noteq> []" "0 \<notin> set [0x64 :: u8]" "(1 :: usz) \<noteq> 0" by simp_all
  have o: "sys_opendir (tree_dos (- 1)) [0x64] ({}, Map.empty) = (1, ?w)" by (simp add: tree_dos_def sim_dos_def)
  have e: "tree_entries ?w 1 = Some [?e]" "\<not> is_dots ?e" "d_type ?e AND DT_DIR = 0" "length (with_slash [0x64] @ d_name ?e) < path_size"
    by (simp_all add: tree_entries_def good_entry_def entry_ok_def name_size_def dots_def DT_DIR_def with_slash_def MAX_PATH_SIZE_def)
  have u: "\<exists>w'. sys_unlink (files (tree_dos (- 1))) (with_slash [0x64] @ d_name ?e) w = (- 1, w') \<and> tree_entries w' = tree_entries w" for w
    by (simp add: tree_dos_def)
  show ?thesis
    by (rule RemoveDir_leaves_open [OF tree_names ex_tree_path(1) n(1,2) ex_tree_path(2) ex_tree_free(2) tree_readdir o n(3) e u])
qed

end
