(* ===== verification/Doubles.thy ===== *)
theory Doubles
  imports Complex_Main Types
begin

text \<open>
  The type \<open>f64\<close> and the wrappers \<open>Pow\<close>, \<open>Sin\<close>, \<open>Cos\<close>, \<open>ACos\<close> and \<open>Sqrt\<close> of
  \<open>src/tinybase-types.h\<close>. A finite double is the rational number it stands for, so the two zeros are one
  value: no code here tells them apart, since it divides by no negative zero. The operations round to nearest, ties
  to even, to 53 bits, with gradual underflow; this is IEEE 754 binary64. A conversion to an integer that
  does not fit is undefined.
\<close>

section \<open>Values and rounding\<close>

datatype f64 = Fin rat | Inf bool | NaN

function floor_log2 :: "rat \<Rightarrow> int" where
  "floor_log2 x =
     (if 2 \<le> x then floor_log2 (x / 2) + 1
      else if 0 < x \<and> x < 1 then floor_log2 (2 * x) - 1
      else 0)"
  by pat_completeness auto
termination
proof (relation "measure (\<lambda>x. if x < 1 then nat \<lfloor>1 / x\<rfloor> + 1 else nat \<lfloor>x\<rfloor>)", goal_cases)
  case (2 x)
  have "\<lfloor>x / 2\<rfloor> < \<lfloor>x\<rfloor>" "0 < \<lfloor>x\<rfloor>" using 2 by linarith+
  then show ?case using 2 by simp
next
  case (3 x)
  have one: "1 \<le> \<lfloor>1 / x\<rfloor>" using 3 by (simp add: le_floor_iff)
  show ?case
  proof (cases "2 * x < 1")
    case True
    have "1 / (2 * x) = (1 / x) / 2" by simp
    then have "\<lfloor>1 / (2 * x)\<rfloor> < \<lfloor>1 / x\<rfloor>" using one by linarith
    then show ?thesis using 3 True one by simp
  next
    case False
    have "\<lfloor>2 * x\<rfloor> = 1" using 3 False by linarith
    then show ?thesis using 3 False one by simp
  qed
qed simp

declare floor_log2.simps [simp del]

definition round_even :: "rat \<Rightarrow> int" where
  "round_even y = (let r = \<lfloor>y\<rfloor>; d = y - of_int r in if d < 1 / 2 \<or> (d = 1 / 2 \<and> even r) then r else r + 1)"

definition f64_limit :: rat where
  "f64_limit = 2 ^ 1024"

definition round_f64 :: "rat \<Rightarrow> f64" where
  "round_f64 x =
     (let u = 2 powi max (floor_log2 \<bar>x\<bar> - 52) (- 1074); y = of_int (round_even (x / u)) * u
      in if \<bar>y\<bar> < f64_limit then Fin y else Inf (x < 0))"

section \<open>Operations\<close>

definition negative :: "f64 \<Rightarrow> bool" where
  "negative a = (case a of Fin x \<Rightarrow> x < 0 | Inf s \<Rightarrow> s | NaN \<Rightarrow> False)"

fun f64_add :: "f64 \<Rightarrow> f64 \<Rightarrow> f64" where
  "f64_add (Fin x) (Fin y) = round_f64 (x + y)"
| "f64_add (Fin x) (Inf t) = Inf t"
| "f64_add (Inf s) (Fin y) = Inf s"
| "f64_add (Inf s) (Inf t) = (if s = t then Inf s else NaN)"
| "f64_add _ _ = NaN"

fun f64_neg :: "f64 \<Rightarrow> f64" where
  "f64_neg (Fin x) = Fin (- x)"
| "f64_neg (Inf s) = Inf (\<not> s)"
| "f64_neg NaN = NaN"

definition f64_sub :: "f64 \<Rightarrow> f64 \<Rightarrow> f64" where
  "f64_sub a b = f64_add a (f64_neg b)"

fun f64_mul :: "f64 \<Rightarrow> f64 \<Rightarrow> f64" where
  "f64_mul (Fin x) (Fin y) = round_f64 (x * y)"
| "f64_mul (Fin x) (Inf t) = (if x = 0 then NaN else Inf ((x < 0) \<noteq> t))"
| "f64_mul (Inf s) (Fin y) = (if y = 0 then NaN else Inf (s \<noteq> (y < 0)))"
| "f64_mul (Inf s) (Inf t) = Inf (s \<noteq> t)"
| "f64_mul _ _ = NaN"

fun f64_div :: "f64 \<Rightarrow> f64 \<Rightarrow> f64" where
  "f64_div (Fin x) (Fin y) = (if y \<noteq> 0 then round_f64 (x / y) else if x = 0 then NaN else Inf (x < 0))"
| "f64_div (Fin x) (Inf t) = Fin 0"
| "f64_div (Inf s) (Fin y) = Inf (s \<noteq> (y < 0))"
| "f64_div _ _ = NaN"

definition f64_less :: "f64 \<Rightarrow> f64 \<Rightarrow> bool" where
  "f64_less a b =
     (case (a, b) of
        (Fin x, Fin y) \<Rightarrow> x < y
      | (Fin x, Inf t) \<Rightarrow> \<not> t
      | (Inf s, Fin y) \<Rightarrow> s
      | (Inf s, Inf t) \<Rightarrow> s \<and> \<not> t
      | _ \<Rightarrow> False)"

definition f64_abs :: "f64 \<Rightarrow> f64" where
  "f64_abs a = (if f64_less a (Fin 0) then f64_neg a else a)"

definition f64_of :: "int \<Rightarrow> f64" where
  "f64_of i = round_f64 (of_int i)"

text \<open>A cast to an integer type cuts off the fraction.\<close>

definition int_part :: "rat \<Rightarrow> int" where
  "int_part x = (if x < 0 then \<lceil>x\<rceil> else \<lfloor>x\<rfloor>)"

definition cast_int :: "int \<Rightarrow> int \<Rightarrow> f64 \<Rightarrow> int option" where
  "cast_int lo hi a = (case a of Fin x \<Rightarrow> (let i = int_part x in if lo \<le> i \<and> i \<le> hi then Some i else None) | _ \<Rightarrow> None)"

definition isz_of :: "f64 \<Rightarrow> int option" where
  "isz_of = cast_int (- (2 ^ 63)) (2 ^ 63 - 1)"

definition usz_of :: "f64 \<Rightarrow> usz option" where
  "usz_of a = map_option word_of_int (cast_int 0 (2 ^ 64 - 1) a)"

definition char_of_f64 :: "f64 \<Rightarrow> int option" where
  "char_of_f64 = cast_int (- 128) 127"

definition DBL_MAX :: f64 where
  "DBL_MAX = Fin ((2 ^ 53 - 1) * 2 ^ 971)"

section \<open>The wrappers\<close>

text \<open>None: built with \<open>TT_NO_CMATH\<close>, without the C library.\<close>

record cmath =
  c_pow :: "f64 \<Rightarrow> f64 \<Rightarrow> f64"
  c_sin :: "f64 \<Rightarrow> f64"
  c_cos :: "f64 \<Rightarrow> f64"
  c_acos :: "f64 \<Rightarrow> f64"
  c_sqrt :: "f64 \<Rightarrow> f64"

definition Pow :: "cmath option \<Rightarrow> f64 \<Rightarrow> f64 \<Rightarrow> f64" where
  "Pow lib b e = (case lib of None \<Rightarrow> Fin 0 | Some c \<Rightarrow> c_pow c b e)"

definition Sin :: "cmath option \<Rightarrow> f64 \<Rightarrow> f64" where
  "Sin lib a = (case lib of None \<Rightarrow> Fin 0 | Some c \<Rightarrow> c_sin c a)"

definition Cos :: "cmath option \<Rightarrow> f64 \<Rightarrow> f64" where
  "Cos lib a = (case lib of None \<Rightarrow> Fin 0 | Some c \<Rightarrow> c_cos c a)"

definition ACos :: "cmath option \<Rightarrow> f64 \<Rightarrow> f64" where
  "ACos lib a = (case lib of None \<Rightarrow> Fin 0 | Some c \<Rightarrow> c_acos c a)"

definition Sqrt :: "cmath option \<Rightarrow> f64 \<Rightarrow> f64" where
  "Sqrt lib a = (case lib of None \<Rightarrow> Fin 0 | Some c \<Rightarrow> c_sqrt c a)"

section \<open>What rounding keeps\<close>

text \<open>The values of a double.\<close>

definition is_f64 :: "rat \<Rightarrow> bool" where
  "is_f64 x \<longleftrightarrow> (\<exists>k e. \<bar>k\<bar> < 2 ^ 53 \<and> - 1074 \<le> e \<and> x = of_int k * 2 powi e) \<and> \<bar>x\<bar> < f64_limit"

lemma floor_log2_bounds:
  assumes "0 < x"
  shows "2 powi floor_log2 x \<le> x" "x < 2 powi (floor_log2 x + 1)"
proof -
  have "2 powi floor_log2 x \<le> x \<and> x < 2 powi (floor_log2 x + 1)"
    using assms
  proof (induction x rule: floor_log2.induct)
    case (1 x)
    consider "2 \<le> x" | "x < 1" | "1 \<le> x" "x < 2" by linarith
    then show ?case
    proof cases
      case 1
      then have f: "floor_log2 x = floor_log2 (x / 2) + 1" by (subst floor_log2.simps) simp
      have "2 powi floor_log2 (x / 2) \<le> x / 2 \<and> x / 2 < 2 powi (floor_log2 (x / 2) + 1)"
        using 1 "1.IH"(1) by simp
      then show ?thesis unfolding f by (simp add: power_int_add)
    next
      case 2
      then have f: "floor_log2 x = floor_log2 (2 * x) - 1" using "1.prems" by (subst floor_log2.simps) simp
      have "2 powi floor_log2 (2 * x) \<le> 2 * x \<and> 2 * x < 2 powi (floor_log2 (2 * x) + 1)"
        using 2 "1.prems" "1.IH"(2) by simp
      then show ?thesis unfolding f by (simp add: power_int_add power_int_diff)
    next
      case 3
      then have "floor_log2 x = 0" by (subst floor_log2.simps) simp
      with 3 show ?thesis by simp
    qed
  qed
  then show "2 powi floor_log2 x \<le> x" "x < 2 powi (floor_log2 x + 1)" by simp_all
qed

lemma round_even_of_int [simp]: "round_even (of_int k) = k"
  by (simp add: round_even_def)

text \<open>A double is not rounded.\<close>

lemma round_exact:
  assumes "is_f64 x"
  shows "round_f64 x = Fin x"
proof -
  obtain k e where k: "\<bar>k\<bar> < 2 ^ 53" "- 1074 \<le> e" "x = of_int k * 2 powi e" and x: "\<bar>x\<bar> < f64_limit"
    using assms by (auto simp: is_f64_def)
  let ?u = "max (floor_log2 \<bar>x\<bar> - 52) (- 1074)"
  have "\<exists>j. x / 2 powi ?u = of_int j"
  proof (cases "x = 0")
    case False
    have "?u \<le> e"
    proof (rule ccontr)
      assume "\<not> ?u \<le> e"
      then have "e + 53 \<le> floor_log2 \<bar>x\<bar>" using k(2) by linarith
      then have "2 powi (e + 53) \<le> (2 :: rat) powi floor_log2 \<bar>x\<bar>" by (intro power_int_increasing) simp_all
      also have "\<dots> \<le> \<bar>x\<bar>" using False by (intro floor_log2_bounds) simp
      also have "\<bar>x\<bar> = of_int \<bar>k\<bar> * 2 powi e" by (simp add: k(3) abs_mult)
      also have "\<dots> < 2 ^ 53 * 2 powi e"
        using k(1) by (intro mult_strict_right_mono) (simp_all flip: of_int_abs)
      finally show False by (simp add: power_int_add)
    qed
    then have e: "2 powi (e - ?u) = (2 :: rat) ^ nat (e - ?u)" by (simp add: power_int_def)
    have "x / 2 powi ?u = of_int k * 2 powi (e - ?u)" unfolding k(3) by (subst power_int_diff) simp_all
    then have "x / 2 powi ?u = of_int (k * 2 ^ nat (e - ?u))" unfolding e by simp
    then show ?thesis by blast
  qed simp
  then obtain j where j: "x / 2 powi ?u = of_int j" by blast
  then have "of_int j * 2 powi ?u = x" by (simp add: field_simps)
  then show ?thesis using j x by (simp add: round_f64_def Let_def)
qed

lemma is_f64_fraction:
  assumes "\<bar>k\<bar> < 2 ^ 53" "d \<le> 1074"
  shows "is_f64 (of_int k / 2 ^ d)"
proof -
  have "\<bar>of_int k / 2 ^ d :: rat\<bar> \<le> \<bar>of_int k\<bar>" by (simp add: divide_le_eq mult_le_cancel_left1)
  also have "\<dots> < 2 ^ 53" using assms(1) by (simp flip: of_int_abs)
  also have "2 ^ 53 < f64_limit" unfolding f64_limit_def by (rule power_strict_increasing) simp_all
  finally have l: "\<bar>of_int k / 2 ^ d :: rat\<bar> < f64_limit" .
  have "of_int k / 2 ^ d = of_int k * (2 :: rat) powi (- int d)" by (simp add: power_int_minus divide_inverse)
  moreover have "- 1074 \<le> - int d" using assms(2) by simp
  ultimately show ?thesis unfolding is_f64_def using assms(1) l by blast
qed

lemma is_f64_int: "\<bar>k\<bar> < 2 ^ 53 \<Longrightarrow> is_f64 (of_int k)"
  using is_f64_fraction [of k 0] by simp

lemma f64_of_small [simp]: "\<bar>i\<bar> < 2 ^ 53 \<Longrightarrow> f64_of i = Fin (of_int i)"
  by (simp add: f64_of_def round_exact is_f64_int)

lemma f64_of_nat: "n < 2 ^ 53 \<Longrightarrow> f64_of (int n) = Fin (of_nat n)"
  by simp

lemma uint_small: "n < 2 ^ 64 \<Longrightarrow> uint (of_nat n :: usz) = int n"
  by (simp add: uint_nat unat_offset)

lemma f64_of_usz: "n < 2 ^ 53 \<Longrightarrow> f64_of (uint (of_nat n :: usz)) = Fin (of_nat n)"
  by (subst uint_small) simp_all

lemma is_f64_nat: "n < 2 ^ 53 \<Longrightarrow> is_f64 (of_int (int n))"
  by (rule is_f64_int) simp

lemma usz_of_nat: "n < 2 ^ 53 \<Longrightarrow> usz_of (Fin (of_int (int n))) = Some (of_nat n)"
  by (simp add: usz_of_def cast_int_def int_part_def)

text \<open>What rounding gives is a double.\<close>

lemma round_even_bound: "\<bar>y\<bar> \<le> of_int k \<Longrightarrow> \<bar>round_even y\<bar> \<le> k"
  by (auto simp: round_even_def Let_def abs_le_iff) linarith+

lemma round_f64_is_f64:
  assumes "round_f64 x = Fin y"
  shows "is_f64 y"
proof -
  let ?e = "max (floor_log2 \<bar>x\<bar> - 52) (- 1074)"
  let ?k = "round_even (x / 2 powi ?e)"
  have y: "y = of_int ?k * 2 powi ?e" "\<bar>y\<bar> < f64_limit"
    using assms by (auto simp: round_f64_def Let_def split: if_splits)
  have "\<bar>x\<bar> \<le> 2 ^ 53 * 2 powi ?e"
  proof (cases "x = 0")
    case False
    then have "\<bar>x\<bar> \<le> 2 powi (floor_log2 \<bar>x\<bar> + 1)" using floor_log2_bounds(2) [of "\<bar>x\<bar>"] by simp
    also have "\<dots> \<le> 2 powi (53 + ?e)" by (rule power_int_increasing) simp_all
    finally show ?thesis by (simp add: power_int_add)
  qed simp
  then have "\<bar>x / 2 powi ?e\<bar> \<le> of_int (2 ^ 53)" by (simp add: abs_divide divide_le_eq)
  then have k: "\<bar>?k\<bar> \<le> 2 ^ 53" by (rule round_even_bound)
  show ?thesis
  proof (cases "\<bar>?k\<bar> = 2 ^ 53")
    case False
    with k y show ?thesis unfolding is_f64_def by (metis less_le max.cobounded2)
  next
    case True
    have "even \<bar>?k\<bar>" unfolding True by simp
    then have "even ?k" by (simp only: dvd_abs_iff)
    then obtain j where j: "?k = 2 * j" by blast
    then have "\<bar>j\<bar> < 2 ^ 53" using True by (simp add: abs_mult)
    moreover have "y = of_int j * 2 powi (?e + 1)" unfolding y(1) j by (simp add: power_int_add)
    moreover have "- 1074 \<le> ?e + 1" by linarith
    ultimately show ?thesis unfolding is_f64_def using y(2) by blast
  qed
qed

end
