(* ===== verification/FloatText.thy ===== *)
theory FloatText
  imports NumText Doubles
begin

text \<open>
  Doubles to text and back: \<open>AppendFloatToString\<close> in its two forms and \<open>StringToFloat\<close> of
  \<open>src/tinybase-strings.c\<close>, in every encoding. The array \<open>Digits\<close> of 128 bytes is a list, as in
  \<open>NumText\<close>. \<open>pow\<close> is a parameter (\<open>cmath\<close>).
\<close>

unbundle bit_operations_syntax

section \<open>Parsing\<close>

text \<open>The variables of the loop; a stage is 0 in the integer, 1 in the fraction, 2 in the exponent.\<close>

record parse =
  ParsingStage :: usz
  Integer :: usz
  Fraction :: usz
  Exponent :: usz
  FractionCount :: usz
  ExponentSign :: int

text \<open>One character; None is the early return of \<open>DBL_MAX\<close>.\<close>

definition StringToFloat_char :: "uchar \<Rightarrow> parse \<Rightarrow> parse option" where
  "StringToFloat_char ch p =
     (if ParsingStage p = 0
      then if ch = 0x2E then Some (p\<lparr>ParsingStage := 1\<rparr>)
        else if ch = 0x65 then Some (p\<lparr>ParsingStage := 2\<rparr>)
        else if CharIsDigit ch then Some (p\<lparr>Integer := Integer p * 10 + ucast ch - 0x30\<rparr>)
        else None
      else if ParsingStage p = 1
      then if ch = 0x65 then Some (p\<lparr>ParsingStage := 2\<rparr>)
        else if CharIsDigit ch
        then Some (p\<lparr>Fraction := Fraction p * 10 + ucast ch - 0x30, FractionCount := FractionCount p + 1\<rparr>)
        else None
      else if ch = 0x2D then Some (p\<lparr>ExponentSign := - 1\<rparr>)
        else if CharIsDigit ch then Some (p\<lparr>Exponent := Exponent p * 10 + ucast ch - 0x30\<rparr>)
        else None)"

partial_function (option) StringToFloat_loop :: "mem \<Rightarrow> tb_string \<Rightarrow> usz \<Rightarrow> parse \<Rightarrow> parse option option" where
  "StringToFloat_loop m src idx p =
     (if idx < WriteCur src
      then do {
        ch \<leftarrow> GetNextChar m (Base src + idx) (Enc src);
        case StringToFloat_char ch p of
          None \<Rightarrow> Some None
        | Some p \<Rightarrow> StringToFloat_loop m src (idx + fixed_size (Enc src)) p
      }
      else Some (Some p))"

definition parse_start :: parse where
  "parse_start = \<lparr>ParsingStage = 0, Integer = 0, Fraction = 0, Exponent = 0, FractionCount = 0, ExponentSign = 1\<rparr>"

definition parse_value :: "cmath option \<Rightarrow> int \<Rightarrow> parse \<Rightarrow> f64" where
  "parse_value lib numberSign p =
     (let result = f64_mul (f64_of numberSign)
            (f64_add (f64_of (uint (Integer p)))
              (f64_div (f64_of (uint (Fraction p))) (Pow lib (Fin 10) (f64_of (uint (FractionCount p))))))
      in f64_mul result (Pow lib (Fin 10) (f64_mul (f64_of (uint (Exponent p))) (f64_of (ExponentSign p)))))"

definition StringToFloat :: "cmath option \<Rightarrow> mem \<Rightarrow> tb_string \<Rightarrow> f64 option" where
  "StringToFloat lib m src =
     do {
       ch \<leftarrow> GetNextChar m (Base src) (Enc src);
       let numberSign = (if ch = 0x2D then - 1 else 1);
       let idx = (if ch = 0x2D then fixed_size (Enc src) else 0);
       p \<leftarrow> StringToFloat_loop m src idx parse_start;
       Some (case p of None \<Rightarrow> DBL_MAX | Some p \<Rightarrow> parse_value lib numberSign p)
     }"

section \<open>Printing\<close>

definition USZ_MAX_DIGITS :: usz where
  "USZ_MAX_DIGITS = 20"

text \<open>The decimals: the product is cut to an integer, whose low digits are written.\<close>

definition put_decimals :: "cmath option \<Rightarrow> f64 \<Rightarrow> usz \<Rightarrow> usz \<Rightarrow> usz \<Rightarrow> usz \<Rightarrow> u8 list \<Rightarrow> u8 list option" where
  "put_decimals lib lo decimalPlaces charSize offset ptr arr =
     do {
       decimal \<leftarrow> usz_of (f64_mul (f64_abs lo) (Pow lib (Fin 10) (f64_of (uint decimalPlaces))));
       Digits_loop 0 decimalPlaces charSize offset ptr (uint decimal) arr
     }"

definition AppendFloatToStringRegular ::
  "cmath option \<Rightarrow> mem \<Rightarrow> ptr \<Rightarrow> f64 \<Rightarrow> usz \<Rightarrow> tb_string \<Rightarrow> (bool \<times> mem \<times> tb_string) option" where
  "AppendFloatToStringRegular lib m sp float decimalPlaces dst =
     do {
       i \<leftarrow> isz_of float;
       hi \<leftarrow> Abs i;
       let lo = f64_sub float (f64_of hi);
       let numDigits = NumberOfDigits hi;
       let totalChars = numDigits + of_bool (negative float);
       let (decimalPlaces, totalChars) =
         (if decimalPlaces > 0
          then let places = Min (USZ_MAX_DIGITS - numDigits - of_bool (negative float) - 1) decimalPlaces
               in (places, totalChars + (places + 1))
          else (decimalPlaces, totalChars));
       let charSize = fixed_size (Enc dst);
       if Size dst - WriteCur dst \<ge> totalChars * charSize
       then do {
         let offset = char_offset (Enc dst);
         (arr, ptr) \<leftarrow>
           (if negative float
            then do { arr \<leftarrow> set_char (replicate 128 0) offset 0x2D; Some (arr, charSize) }
            else Some (replicate 128 0, 0));
         arr \<leftarrow> Digits_loop 0 numDigits charSize offset ptr hi arr;
         arr \<leftarrow>
           (if decimalPlaces > 0
            then do {
              let ptr = ptr + numDigits * charSize;
              arr \<leftarrow> set_char arr (ptr + offset) 0x2E;
              put_decimals lib lo decimalPlaces charSize offset (ptr + charSize) arr
            }
            else Some arr);
         (r, m', dst') \<leftarrow> AppendDataToBuffer (push_local m sp arr) sp (totalChars * charSize) dst;
         Some (r, pop_local m' sp 128, dst')
       }
       else Some (False, m, dst)
     }"

partial_function (option) SN_up :: "f64 \<Rightarrow> usz \<Rightarrow> (f64 \<times> usz) option" where
  "SN_up float e = (if f64_less float (Fin 1) then SN_up (f64_mul float (Fin 10)) (e + 1) else Some (float, e))"

partial_function (option) SN_down :: "f64 \<Rightarrow> usz \<Rightarrow> (f64 \<times> usz) option" where
  "SN_down float e = (if f64_less (Fin 10) float then SN_down (f64_div float (Fin 10)) (e + 1) else Some (float, e))"

definition AppendFloatToStringInSN ::
  "cmath option \<Rightarrow> mem \<Rightarrow> ptr \<Rightarrow> f64 \<Rightarrow> usz \<Rightarrow> tb_string \<Rightarrow> (bool \<times> mem \<times> tb_string) option" where
  "AppendFloatToStringInSN lib m sp float decimalPlaces dst =
     (let totalChars = of_bool (negative float) + 2 + decimalPlaces + 5; charSize = fixed_size (Enc dst) in
      if Size dst - WriteCur dst \<ge> totalChars * charSize
      then do {
        let offset = char_offset (Enc dst);
        (float, arr, ptr) \<leftarrow>
          (if negative float
           then do { arr \<leftarrow> set_char (replicate 128 0) offset 0x2D; Some (f64_mul float (f64_of (- 1)), arr, charSize) }
           else Some (float, replicate 128 0, 0));
        (float, ex, expSign) \<leftarrow>
          (if f64_less float (Fin 1)
           then do { (float, e) \<leftarrow> SN_up float 0; Some (float, e, - 1 :: int) }
           else do { (float, e) \<leftarrow> SN_down float 0; Some (float, e, 1) });
        c \<leftarrow> char_of_f64 float;
        arr \<leftarrow> set_char arr (ptr + offset) (word_of_int (c + 0x30));
        arr \<leftarrow> set_char arr (ptr + (charSize + offset)) 0x2E;
        let ptr = ptr + charSize * 2;
        (arr, ptr) \<leftarrow>
          (if decimalPlaces > 0
           then do {
             i \<leftarrow> usz_of float;
             arr \<leftarrow> put_decimals lib (f64_sub float (f64_of (uint i))) decimalPlaces charSize offset ptr arr;
             Some (arr, ptr + decimalPlaces * charSize)
           }
           else do { arr \<leftarrow> set_char arr (ptr + offset) 0x30; Some (arr, ptr + charSize) });
        arr \<leftarrow> set_char arr (ptr + offset) 0x65;
        arr \<leftarrow> set_char arr (ptr + (charSize + offset)) (if expSign > 0 then 0x2B else 0x2D);
        let ptr = ptr + charSize * 2;
        arr \<leftarrow> Digits_loop 0 3 charSize offset ptr (uint ex) arr;
        (r, m', dst') \<leftarrow> AppendDataToBuffer (push_local m sp arr) sp (totalChars * charSize) dst;
        Some (r, pop_local m' sp 128, dst')
      }
      else Some (False, m, dst))"

definition AppendFloatToString ::
  "cmath option \<Rightarrow> mem \<Rightarrow> ptr \<Rightarrow> f64 \<Rightarrow> usz \<Rightarrow> bool \<Rightarrow> tb_string \<Rightarrow> (bool \<times> mem \<times> tb_string) option" where
  "AppendFloatToString lib m sp float decimalPlaces inScientificNotation dst =
     (if inScientificNotation then AppendFloatToStringInSN lib m sp float decimalPlaces dst
      else AppendFloatToStringRegular lib m sp float decimalPlaces dst)"

section \<open>What is written into the array\<close>

text \<open>The array when the text \<open>cs\<close> has been written to it.\<close>

abbreviation ascii :: "uchar list \<Rightarrow> bool" where
  "ascii cs \<equiv> \<forall>c\<in>set cs. c < 0x80"

definition array :: "encoding \<Rightarrow> uchar list \<Rightarrow> u8 list" where
  "array enc cs = enc_text enc cs @ replicate (128 - length (enc_text enc cs)) 0"

definition cell_at :: "encoding \<Rightarrow> nat \<Rightarrow> usz" where
  "cell_at enc n = of_nat n * fixed_size enc"

lemma length_ascii_text: "ascii cs \<Longrightarrow> length (enc_text enc cs) = length cs * unat (fixed_size enc)"
  by (induction cs) (simp_all add: char_bytes_cell)

lemma ascii_digits [simp]: "ascii (map digit_char (rev (low_digits k n)))"
  using digit_char_props(1) low_digits_less by auto

lemma ascii_append: "ascii cs \<Longrightarrow> ascii ds \<Longrightarrow> ascii (cs @ ds)" and ascii_Cons: "c < 0x80 \<Longrightarrow> ascii cs \<Longrightarrow> ascii (c # cs)"
  by auto

lemma ascii_decimal: "ascii (decimal n)"
  using ascii_digits [of "length (dec_rev n)" n] unfolding decimal_def low_digits_dec_rev .

lemma array_room:
  assumes "ascii cs" "length cs + k \<le> 32"
  shows "cell_at enc (length cs) = of_nat (length (enc_text enc cs))"
    and "replicate (128 - length (enc_text enc cs)) (0 :: u8) = replicate (k * unat (fixed_size enc)) 0
      @ replicate (128 - (length cs + k) * unat (fixed_size enc)) 0"
proof -
  show "cell_at enc (length cs) = of_nat (length (enc_text enc cs))"
    using length_ascii_text [OF assms(1), of enc] by (simp add: cell_at_def)
  have "(length cs + k) * unat (fixed_size enc) \<le> 32 * 4"
    by (rule mult_le_mono [OF assms(2) cell_facts(1)])
  then have "128 - length (enc_text enc cs) = k * unat (fixed_size enc) + (128 - (length cs + k) * unat (fixed_size enc))"
    using length_ascii_text [OF assms(1), of enc] by (simp add: add_mult_distrib)
  then show "replicate (128 - length (enc_text enc cs)) (0 :: u8) = replicate (k * unat (fixed_size enc)) 0
      @ replicate (128 - (length cs + k) * unat (fixed_size enc)) 0"
    by (simp only: replicate_add)
qed

lemma array_empty: "replicate 128 0 = array enc []"
  by (simp add: array_def)

lemma put_digits:
  assumes "ascii cs" "length cs + k \<le> 32"
  shows "Digits_loop 0 (of_nat k) (fixed_size enc) (char_offset enc) (cell_at enc (length cs)) (int n) (array enc cs)
    = Some (array enc (cs @ map digit_char (rev (low_digits k n))))"
proof -
  let ?c = "unat (fixed_size enc)" and ?ds = "map digit_char (rev (low_digits k n))"
  let ?rest = "replicate (128 - (length cs + k) * ?c) (0 :: u8)"
  have "(length cs + k) * ?c \<le> 32 * 4" by (rule mult_le_mono [OF assms(2) cell_facts(1)])
  then have len: "length (enc_text enc cs) + k * ?c + length ?rest < 2 ^ 64"
    using length_ascii_text [OF assms(1), of enc] by (simp add: add_mult_distrib)
  have k: "unat (of_nat k :: usz) = k" using assms(2) by (intro unat_offset) simp
  from Digits_loop_eq [OF _ array_room(1) [OF assms] len, of 0 "of_nat k" n] k
  have "Digits_loop 0 (of_nat k) (fixed_size enc) (char_offset enc) (cell_at enc (length cs)) (int n) (array enc cs)
    = Some (enc_text enc cs @ enc_text enc ?ds @ ?rest)"
    by (simp add: array_def array_room(2) [OF assms])
  moreover have "ascii (cs @ ?ds)" using assms(1) ascii_digits by (simp only: set_append Un_iff) blast
  then have "length (enc_text enc (cs @ ?ds)) = (length cs + k) * ?c"
    using length_ascii_text [of "cs @ ?ds" enc] by (simp only: length_append length_map length_rev length_low_digits)
  ultimately show ?thesis by (simp add: array_def)
qed

lemma put_char:
  assumes "ascii cs" "length cs < 32" "c < 0x80" "b = ucast c"
  shows "set_char (array enc cs) (cell_at enc (length cs) + char_offset enc) b = Some (array enc (cs @ [c]))"
proof -
  let ?c = "unat (fixed_size enc)" and ?o = "unat (char_offset enc)"
  let ?rest = "replicate (128 - (length cs + 1) * ?c) (0 :: u8)"
  note room = array_room [OF assms(1), of 1 enc]
  have l: "length (enc_text enc cs) = length cs * ?c" by (rule length_ascii_text [OF assms(1)])
  have "(length cs + 1) * ?c \<le> 32 * 4" using assms(2) by (intro mult_le_mono cell_facts(1)) simp
  then have fit: "length (enc_text enc cs) + ?o < 128" "length (enc_text enc cs) + ?o < 2 ^ 64"
    using l cell_facts(3) [of enc] by simp_all
  have a: "array enc cs = enc_text enc cs @ replicate (Suc 0 * ?c) 0 @ ?rest"
    using room(2) assms(2) by (simp add: array_def)
  have "cell_at enc (length cs) + char_offset enc = of_nat (length (enc_text enc cs) + ?o)"
    using room(1) assms(2) by simp
  then have u: "unat (cell_at enc (length cs) + char_offset enc) = length (enc_text enc cs) + ?o"
    using fit(2) by (simp only: unat_offset)
  have "length (array enc cs) = 128" using l fit cell_facts(3) [of enc] by (simp add: array_def)
  moreover have "(array enc cs) [length (enc_text enc cs) + ?o := b]
      = enc_text enc cs @ (replicate ?c 0) [?o := b] @ ?rest"
    unfolding a using update_cell [OF cell_facts(3), of "enc_text enc cs" 0 enc ?rest b] by simp
  moreover have "length (char_bytes enc c) = ?c" by (simp add: char_bytes_cell [OF assms(3)])
  ultimately show ?thesis
    using fit(1) l by (simp add: set_char_def u assms(4) char_bytes_cell [OF assms(3), symmetric]) (simp add: array_def add.commute)
qed

section \<open>Exact arithmetic\<close>

text \<open>
  What is used of the C library: \<open>pow (10, D)\<close> and \<open>pow (10, 0)\<close> are rounded correctly, as IEEE 754 (clause 9.2) asks of
  the operation. The C standard leaves the accuracy of \<open>pow\<close> to the implementation, so this is a condition on it. The
  powers up to \<open>10 ^ 22\<close> are doubles, and so exact then.
\<close>

definition pow_rounded :: "cmath \<Rightarrow> nat \<Rightarrow> bool" where
  "pow_rounded c D \<longleftrightarrow> (\<forall>n\<in>{0, D}. c_pow c (Fin 10) (Fin (of_nat n)) = round_f64 (10 ^ n))"

lemma is_f64_ten:
  assumes "n \<le> 22"
  shows "is_f64 (10 ^ n)"
proof -
  have "(5 :: int) ^ n \<le> 5 ^ 22" using assms by (intro power_increasing) simp_all
  then have s: "\<bar>(5 :: int) ^ n\<bar> < 2 ^ 53" by simp
  have "(10 :: rat) ^ n = of_int (5 ^ n) * 2 powi int n" by (simp flip: power_mult_distrib)
  moreover have "\<bar>10 ^ n :: rat\<bar> < f64_limit"
  proof -
    have "(10 :: rat) ^ n \<le> 10 ^ 22" using assms by (intro power_increasing) simp_all
    also have "\<dots> < 2 ^ 80" by simp
    also have "\<dots> < f64_limit" unfolding f64_limit_def by (rule power_strict_increasing) simp_all
    finally show ?thesis by simp
  qed
  ultimately show ?thesis unfolding is_f64_def using s by (intro conjI exI [of _ "5 ^ n"] exI [of _ "int n"]) simp_all
qed

lemma Pow_exact:
  assumes "pow_rounded c D" "D \<le> 22" "n \<in> {0, D}"
  shows "Pow (Some c) (Fin 10) (f64_of (uint (of_nat n :: usz))) = Fin (10 ^ n)"
proof -
  have n: "n \<le> 22" using assms(2,3) by auto
  then have "n < 2 ^ 53" "n < 2 ^ 64" by simp_all
  then have "f64_of (uint (of_nat n :: usz)) = Fin (of_nat n)" by (simp only: uint_small f64_of_nat)
  then show ?thesis using assms(1,3) round_exact [OF is_f64_ten [OF n]] by (auto simp: Pow_def pow_rounded_def)
qed

lemma int_part_fraction:
  "int_part (of_int k / 2 ^ D) = (if k < 0 then - (\<bar>k\<bar> div 2 ^ D) else \<bar>k\<bar> div 2 ^ D)"
proof -
  have f: "\<lfloor>of_int i / 2 ^ D :: rat\<rfloor> = i div 2 ^ D" for i
    using floor_divide_of_int_eq [of i "2 ^ D", where 'a = rat] by simp
  have neg: "of_int k / 2 ^ D < (0 :: rat) \<longleftrightarrow> k < 0" by (simp add: divide_less_0_iff)
  show ?thesis
  proof (cases "k < 0")
    case True
    have "- (of_int k / 2 ^ D) = (of_int \<bar>k\<bar> / 2 ^ D :: rat)" using True by simp
    then have "\<lceil>of_int k / 2 ^ D :: rat\<rceil> = - (\<bar>k\<bar> div 2 ^ D)" unfolding ceiling_def using f [of "\<bar>k\<bar>"] by (simp only:)
    then show ?thesis using True neg by (simp add: int_part_def)
  next
    case False
    then show ?thesis using f [of k] neg by (simp add: int_part_def)
  qed
qed

text \<open>The number \<open>k / 2 ^ D\<close>, whose first \<open>D\<close> decimals are all it has: the digits of \<open>units k D\<close>.\<close>

definition units :: "int \<Rightarrow> nat \<Rightarrow> nat" where
  "units k D = nat \<bar>k\<bar> * 5 ^ D"

definition whole :: "int \<Rightarrow> nat \<Rightarrow> nat" where
  "whole k D = nat \<bar>k\<bar> div 2 ^ D"

lemma whole_units: "whole k D = units k D div 10 ^ D"
proof -
  have "(10 :: nat) ^ D = 2 ^ D * 5 ^ D" by (simp flip: power_mult_distrib)
  then show ?thesis by (simp add: whole_def units_def div_mult_mult2)
qed

lemma units_small:
  assumes "units k D < 2 ^ 52"
  shows "\<bar>k\<bar> < 2 ^ 52" "int (whole k D) * 2 ^ D \<le> \<bar>k\<bar>" "0 \<le> int (whole k D) * 2 ^ D" "whole k D < 2 ^ 52"
proof -
  have "nat \<bar>k\<bar> * 1 \<le> units k D" unfolding units_def by (rule mult_left_mono) simp_all
  then have k: "nat \<bar>k\<bar> < 2 ^ 52" using assms by linarith
  then show "\<bar>k\<bar> < 2 ^ 52" by simp
  have "whole k D * 2 ^ D \<le> nat \<bar>k\<bar>" by (simp add: whole_def)
  then have "int (whole k D * 2 ^ D) \<le> int (nat \<bar>k\<bar>)" by (simp only: of_nat_le_iff)
  then show "int (whole k D) * 2 ^ D \<le> \<bar>k\<bar>" by simp
  show "0 \<le> int (whole k D) * 2 ^ D" by simp
  have "whole k D \<le> nat \<bar>k\<bar>" by (simp add: whole_def)
  then show "whole k D < 2 ^ 52" using k by linarith
qed

lemma isz_of_number:
  assumes "units k D < 2 ^ 52"
  shows "isz_of (Fin (of_int k / 2 ^ D)) = Some (if k < 0 then - int (whole k D) else int (whole k D))"
proof -
  have "\<bar>k\<bar> div 2 ^ D = int (whole k D)" by (simp add: whole_def zdiv_int)
  then show ?thesis
    using units_small(4) [OF assms] by (simp only: isz_of_def cast_int_def f64.case int_part_fraction Let_def) simp
qed

lemma low_part:
  assumes "units k D < 2 ^ 52" "D \<le> 22"
  shows "f64_sub (Fin (of_int k / 2 ^ D)) (f64_of (int (whole k D))) = Fin (of_int (k - int (whole k D) * 2 ^ D) / 2 ^ D)"
proof -
  note u = units_small [OF assms(1)]
  have "\<bar>k - int (whole k D) * 2 ^ D\<bar> \<le> 2 * \<bar>k\<bar>" using u(2,3) by linarith
  then have q: "\<bar>k - int (whole k D) * 2 ^ D\<bar> < 2 ^ 53" using u(1) by simp
  have "of_int k / 2 ^ D - of_nat (whole k D) = (of_int (k - int (whole k D) * 2 ^ D) / 2 ^ D :: rat)" by (simp add: field_simps)
  moreover have "is_f64 (of_int (k - int (whole k D) * 2 ^ D) / 2 ^ D)" using assms(2) by (intro is_f64_fraction q) simp
  moreover have "f64_of (int (whole k D)) = Fin (of_nat (whole k D))" using u(4) by (intro f64_of_nat) simp
  ultimately show ?thesis by (simp add: f64_sub_def round_exact)
qed

lemma low_digits_mod: "low_digits k (n mod 10 ^ k) = low_digits k n"
proof (induction k arbitrary: n)
  case (Suc k)
  have "n mod 10 ^ Suc k div 10 = n div 10 mod 10 ^ k" by (simp add: mod_mult2_eq)
  moreover have "n mod 10 ^ Suc k mod 10 = n mod 10" by (simp add: mod_mult2_eq)
  ultimately show ?case using Suc [of "n div 10"] by simp
qed simp

text \<open>The product with the power of ten is the integer whose low digits are the decimals.\<close>

lemma decimals_exact:
  assumes "units k D < 2 ^ 52" "D \<le> 22" "pow_rounded c D"
  obtains n where
    "usz_of (f64_mul (f64_abs (f64_sub (Fin (of_int k / 2 ^ D)) (f64_of (int (whole k D))))) (Pow (Some c) (Fin 10) (f64_of (uint (of_nat D :: usz)))))
      = Some (of_nat n)"
    "n < 2 ^ 53" "low_digits D n = low_digits D (units k D)"
proof -
  let ?q = "k - int (whole k D) * 2 ^ D" and ?n = "nat \<bar>k - int (whole k D) * 2 ^ D\<bar> * 5 ^ D"
  note u = units_small [OF assms(1)]
  have "\<bar>?q\<bar> \<le> 2 * \<bar>k\<bar>" using u(2,3) by linarith
  then have "nat \<bar>?q\<bar> \<le> 2 * nat \<bar>k\<bar>" by linarith
  then have "?n \<le> 2 * units k D" unfolding units_def by (simp only: mult.assoc [symmetric] mult_le_mono1)
  then have n: "?n < 2 ^ 53" by (rule le_less_trans) (use assms(1) in simp)
  have abs: "f64_abs (Fin (of_int ?q / 2 ^ D)) = Fin (of_int \<bar>?q\<bar> / 2 ^ D)"
    by (simp add: f64_abs_def f64_less_def divide_less_0_iff del: of_int_diff of_int_mult)
  have ten: "(10 :: rat) ^ D = 2 ^ D * 5 ^ D" by (simp flip: power_mult_distrib)
  have "of_int \<bar>?q\<bar> / 2 ^ D * 10 ^ D = (of_int (int ?n) :: rat)" unfolding ten by simp
  moreover have "is_f64 (of_int (int ?n))" by (rule is_f64_nat [OF n])
  ultimately have "f64_mul (Fin (of_int \<bar>?q\<bar> / 2 ^ D)) (Fin (10 ^ D)) = Fin (of_int (int ?n))" by (simp only: f64_mul.simps round_exact)
  moreover have "usz_of (Fin (of_int (int ?n))) = Some (of_nat ?n)"
    by (rule usz_of_nat [OF n])
  ultimately have r: "usz_of (f64_mul (f64_abs (f64_sub (Fin (of_int k / 2 ^ D)) (f64_of (int (whole k D))))) (Pow (Some c) (Fin 10) (f64_of (uint (of_nat D :: usz)))))
      = Some (of_nat ?n)"
    by (simp only: low_part [OF assms(1,2)] abs Pow_exact [OF assms(3,2), of D, simplified])
  have "?n mod 10 ^ D = units k D mod 10 ^ D"
  proof (cases "k < 0")
    case True
    have "nat \<bar>k - p\<bar> = nat \<bar>k\<bar> + nat p" if "0 \<le> p" for p using that True by simp
    from this [OF u(3)] have "nat \<bar>?q\<bar> = nat \<bar>k\<bar> + whole k D * 2 ^ D" by (simp add: nat_mult_distrib nat_power_eq)
    then have "?n = units k D + whole k D * 10 ^ D" by (simp add: units_def algebra_simps flip: power_mult_distrib)
    then show ?thesis by simp
  next
    case False
    have "nat \<bar>k\<bar> = nat \<bar>k - p\<bar> + nat p" if "0 \<le> p" "p \<le> \<bar>k\<bar>" for p using that False by simp
    from this [OF u(3,2)] have "nat \<bar>k\<bar> = nat \<bar>?q\<bar> + whole k D * 2 ^ D" by (simp add: nat_mult_distrib nat_power_eq)
    then have "units k D = ?n + whole k D * 10 ^ D" by (simp add: units_def algebra_simps flip: power_mult_distrib)
    then show ?thesis by simp
  qed
  then have "low_digits D ?n = low_digits D (units k D)" by (metis low_digits_mod)
  from that [OF r n this] show ?thesis .
qed

section \<open>What is parsed\<close>

primrec run_chars :: "uchar list \<Rightarrow> parse \<Rightarrow> parse option" where
  "run_chars [] p = Some p"
| "run_chars (c # cs) p = (case StringToFloat_char c p of None \<Rightarrow> None | Some p \<Rightarrow> run_chars cs p)"

lemma StringToFloat_loop_run:
  assumes "bytes_at m (Base A + of_nat i) (enc_text (Enc A) cs)" "ascii cs" "i + length (enc_text (Enc A) cs) = unat (WriteCur A)"
  shows "StringToFloat_loop m A (of_nat i) p = Some (run_chars cs p)"
  using assms
proof (induction cs arbitrary: i p)
  case Nil
  then have "of_nat i = WriteCur A" by simp
  then show ?case by (subst StringToFloat_loop.simps) simp
next
  case (Cons c cs)
  have "c < 0x80" using Cons.prems(2) by simp
  note st = ascii_step [OF Cons.prems(1) this eq_imp_le [OF Cons.prems(3)]]
  have "StringToFloat_loop m A (of_nat (i + length (char_bytes (Enc A) c))) q = Some (run_chars cs q)" for q
    using Cons.prems by (intro Cons.IH) (simp_all add: add.assoc)
  then show ?case
    by (subst StringToFloat_loop.simps) (simp add: st(1,2) st(3) [unfolded of_nat_add] split: option.split)
qed

lemma StringToFloat_text:
  assumes "has_text m A (c # cs)" "ascii (c # cs)"
  shows "StringToFloat lib m A = Some (case run_chars (if c = 0x2D then cs else c # cs) parse_start of
      None \<Rightarrow> DBL_MAX | Some p \<Rightarrow> parse_value lib (if c = 0x2D then - 1 else 1) p)"
proof -
  have c: "c < 0x80" using assms(2) by simp
  have b: "bytes_at m (Base A + of_nat 0) (enc_text (Enc A) (c # cs))" "0 + length (enc_text (Enc A) (c # cs)) = unat (WriteCur A)"
    using assms(1) by (simp_all add: has_text_def holds_def)
  note st = ascii_step [OF b(1) c eq_imp_le [OF b(2)]]
  have ch: "GetNextChar m (Base A) (Enc A) = Some c" using st(2) by simp
  show ?thesis
  proof (cases "c = 0x2D")
    case True
    have "fixed_size (Enc A) = of_nat (length (char_bytes (Enc A) c))" using st(3) by simp
    moreover have "StringToFloat_loop m A (of_nat (length (char_bytes (Enc A) c))) parse_start = Some (run_chars cs parse_start)"
      using b assms(2) by (intro StringToFloat_loop_run) simp_all
    ultimately show ?thesis using ch True by (simp add: StringToFloat_def)
  next
    case False
    then show ?thesis using ch StringToFloat_loop_run [OF b(1) assms(2) b(2)] by (simp add: StringToFloat_def)
  qed
qed

lemma digit_char_ne:
  assumes "d < 10"
  shows "digit_char d \<noteq> 0x2E" "digit_char d \<noteq> 0x65" "digit_char d \<noteq> 0x2D" "ucast (digit_char d) = (of_nat d + 0x30 :: usz)"
proof -
  note u = digit_char_props(3) [OF assms]
  show "digit_char d \<noteq> 0x2E" "digit_char d \<noteq> 0x65" "digit_char d \<noteq> 0x2D" using u assms by auto
  have "ucast (digit_char d) = (of_nat (unat (digit_char d)) :: usz)" by simp
  then show "ucast (digit_char d) = (of_nat d + 0x30 :: usz)" unfolding u by (simp only: of_nat_add of_nat_numeral add.commute)
qed

abbreviation horner :: "nat \<Rightarrow> nat list \<Rightarrow> nat" where
  "horner v ds \<equiv> foldl (\<lambda>v d. v * 10 + d) v ds"

lemma run_integer:
  "\<forall>d\<in>set ds. d < 10 \<Longrightarrow> ParsingStage p = 0
    \<Longrightarrow> run_chars (map digit_char ds @ cs) (p\<lparr>Integer := of_nat v\<rparr>) = run_chars cs (p\<lparr>Integer := of_nat (horner v ds)\<rparr>)"
proof (induction ds arbitrary: v)
  case (Cons d ds)
  have d: "d < 10" using Cons.prems(1) by simp
  have "StringToFloat_char (digit_char d) (p\<lparr>Integer := of_nat v\<rparr>) = Some (p\<lparr>Integer := of_nat (v * 10 + d)\<rparr>)"
    using digit_char_ne [OF d] digit_char_props(2) [OF d] Cons.prems(2) by (simp add: StringToFloat_char_def)
  then show ?case using Cons.IH [of "v * 10 + d"] Cons.prems by simp
qed simp

lemma run_fraction:
  "\<forall>d\<in>set ds. d < 10 \<Longrightarrow> ParsingStage p = 1
    \<Longrightarrow> run_chars (map digit_char ds @ cs) (p\<lparr>Fraction := of_nat v, FractionCount := of_nat n\<rparr>)
      = run_chars cs (p\<lparr>Fraction := of_nat (horner v ds), FractionCount := of_nat (n + length ds)\<rparr>)"
proof (induction ds arbitrary: v n)
  case (Cons d ds)
  have d: "d < 10" using Cons.prems(1) by simp
  have "StringToFloat_char (digit_char d) (p\<lparr>Fraction := of_nat v, FractionCount := of_nat n\<rparr>)
      = Some (p\<lparr>Fraction := of_nat (v * 10 + d), FractionCount := of_nat (n + 1)\<rparr>)"
    using digit_char_ne [OF d] digit_char_props(2) [OF d] Cons.prems(2) by (simp add: StringToFloat_char_def add.commute)
  then show ?case using Cons.IH [where v = "v * 10 + d" and n = "n + 1"] Cons.prems by simp
qed simp

text \<open>The text of the number \<open>k / 2 ^ D\<close> with \<open>D\<close> decimals.\<close>

definition float_text :: "int \<Rightarrow> nat \<Rightarrow> uchar list" where
  "float_text k D = (if k < 0 then [0x2D] else []) @ decimal (units k D div 10 ^ D)
     @ 0x2E # map digit_char (rev (low_digits D (units k D)))"

lemma parse_value_exact:
  assumes "units k D < 2 ^ 52" "D \<le> 22" "pow_rounded c D"
  shows "parse_value (Some c) (if k < 0 then - 1 else 1)
      \<lparr>ParsingStage = st, Integer = of_nat (whole k D), Fraction = of_nat (units k D mod 10 ^ D), Exponent = 0,
       FractionCount = of_nat D, ExponentSign = 1\<rparr>
    = Fin (of_int k / 2 ^ D)"
proof -
  let ?a = "nat \<bar>k\<bar>" and ?f = "units k D mod 10 ^ D"
  note u = units_small [OF assms(1)]
  have k: "\<bar>k\<bar> < 2 ^ 53" using u(1) by simp
  have w: "f64_of (uint (of_nat (whole k D) :: usz)) = Fin (of_nat (whole k D))"
    using u(4) by (intro f64_of_usz) simp
  have f: "?f \<le> units k D" by simp
  then have fs: "f64_of (uint (of_nat ?f :: usz)) = Fin (of_nat ?f)"
    using le_less_trans [OF f, of "2 ^ 53"] assms(1) by (intro f64_of_usz) simp
  have ten: "(10 :: nat) ^ D = 2 ^ D * 5 ^ D" by (simp flip: power_mult_distrib)
  have fe: "?f = ?a mod 2 ^ D * 5 ^ D" by (simp add: units_def ten mult_mod_left)
  have tenr: "(10 :: rat) ^ D = 2 ^ D * 5 ^ D" by (simp flip: power_mult_distrib)
  have frac: "of_nat ?f / 10 ^ D = (of_int (int (?a mod 2 ^ D)) / 2 ^ D :: rat)" unfolding fe tenr by simp
  have "?a mod 2 ^ D \<le> ?a" by simp
  then have "\<bar>int (?a mod 2 ^ D)\<bar> \<le> \<bar>k\<bar>" by linarith
  then have "\<bar>int (?a mod 2 ^ D)\<bar> < 2 ^ 53" using k by (rule le_less_trans)
  then have div: "f64_div (Fin (of_nat ?f)) (Fin (10 ^ D)) = Fin (of_int (int (?a mod 2 ^ D)) / 2 ^ D)"
    using assms(2) frac by (simp add: round_exact is_f64_fraction del: of_int_of_nat_eq)
  have "?a = ?a div 2 ^ D * 2 ^ D + ?a mod 2 ^ D" by (rule div_mult_mod_eq [symmetric])
  then have "(of_nat ?a :: rat) = of_nat (whole k D) * 2 ^ D + of_nat (?a mod 2 ^ D)"
    unfolding whole_def by (metis of_nat_add of_nat_mult of_nat_numeral of_nat_power)
  then have "of_nat (whole k D) + of_int (int (?a mod 2 ^ D)) / 2 ^ D = (of_int \<bar>k\<bar> / 2 ^ D :: rat)" by (simp add: field_simps)
  then have add: "f64_add (Fin (of_nat (whole k D))) (Fin (of_int (int (?a mod 2 ^ D)) / 2 ^ D)) = Fin (of_int \<bar>k\<bar> / 2 ^ D)"
    using assms(2) k by (simp only: f64_add.simps) (simp add: round_exact is_f64_fraction del: of_int_abs)
  have x: "is_f64 (of_int k / 2 ^ D)" using assms(2) k by (intro is_f64_fraction) simp_all
  have sign: "f64_mul (f64_of (if k < 0 then - 1 else 1)) (Fin (of_int \<bar>k\<bar> / 2 ^ D)) = Fin (of_int k / 2 ^ D)"
    using x by (simp add: round_exact)
  have "f64_mul (f64_of (uint (0 :: usz))) (f64_of 1) = Fin 0" using round_exact [OF is_f64_int, of 0] by simp
  then have one: "Pow (Some c) (Fin 10) (f64_mul (f64_of (uint (0 :: usz))) (f64_of 1)) = Fin 1"
    using Pow_exact [OF assms(3,2), of 0] by simp
  show ?thesis
    by (simp only: parse_value_def parse.simps Let_def w fs Pow_exact [OF assms(3,2), of D, simplified] div add sign one f64_mul.simps mult_1_right round_exact [OF x])
qed

lemma StringToFloat_float_text:
  assumes "has_text m A (float_text k D)" "units k D < 2 ^ 52" "D \<le> 22" "pow_rounded c D"
  shows "StringToFloat (Some c) m A = Some (Fin (of_int k / 2 ^ D))"
proof -
  let ?w = "rev (dec_rev (whole k D))" and ?f = "rev (low_digits D (units k D))"
  let ?ds = "map digit_char ?w @ 0x2E # map digit_char ?f"
  have w10: "\<forall>d\<in>set ?w. d < 10" "\<forall>d\<in>set ?f. d < 10" using dec_rev_digits low_digits_less by auto
  obtain d ds' where ne: "?w = d # ds'" by (cases ?w) (simp_all add: dec_rev_nonempty)
  have "run_chars ?ds parse_start
    = run_chars (0x2E # map digit_char ?f) (parse_start\<lparr>Integer := of_nat (horner 0 ?w)\<rparr>)"
    using run_integer [OF w10(1), of parse_start "0x2E # map digit_char ?f" 0] by (simp add: parse_start_def)
  also have "\<dots> = run_chars (map digit_char ?f @ []) ((parse_start\<lparr>Integer := of_nat (horner 0 ?w), ParsingStage := 1\<rparr>)\<lparr>Fraction := of_nat 0, FractionCount := of_nat 0\<rparr>)"
    by (simp add: StringToFloat_char_def parse_start_def)
  also have "\<dots> = Some (parse_start\<lparr>Integer := of_nat (horner 0 ?w), ParsingStage := 1, Fraction := of_nat (horner 0 ?f), FractionCount := of_nat D\<rparr>)"
    by (subst run_fraction [OF w10(2)]) simp_all
  also have "horner 0 ?w = whole k D" using value10_dec [of "whole k D"] by (simp add: value10_def)
  also have "horner 0 ?f = units k D mod 10 ^ D" using value10_rev_low_digits [of D "units k D"] by (simp add: value10_def)
  finally have run: "run_chars ?ds parse_start = Some \<lparr>ParsingStage = 1, Integer = of_nat (whole k D), Fraction = of_nat (units k D mod 10 ^ D),
      Exponent = 0, FractionCount = of_nat D, ExponentSign = 1\<rparr>"
    by (simp add: parse_start_def)
  have tx: "float_text k D = (if k < 0 then [0x2D] else []) @ ?ds"
    by (simp add: float_text_def decimal_def whole_units)
  have asc: "ascii ?ds" using w10 digit_char_props(1) by auto
  show ?thesis
  proof (cases "k < 0")
    case True
    then show ?thesis
      using StringToFloat_text [of m A "0x2D" ?ds "Some c"] assms(1) asc run parse_value_exact [OF assms(2-4), of 1]
      unfolding tx by simp
  next
    case False
    have "d < 10" using w10(1) ne by simp
    then show ?thesis
      using False StringToFloat_text [of m A "digit_char d" "map digit_char ds' @ 0x2E # map digit_char ?f" "Some c"] assms(1) asc run
        parse_value_exact [OF assms(2-4), of 1] digit_char_ne(3) [of d]
      unfolding tx by (simp add: ne)
  qed
qed

section \<open>What is printed\<close>

lemma cell_at_add: "cell_at enc a + of_nat b * fixed_size enc = cell_at enc (a + b)" "cell_at enc a + fixed_size enc = cell_at enc (Suc a)"
  by (simp_all add: cell_at_def algebra_simps)

text \<open>Appending the array as far as it is written.\<close>

lemma append_array:
  assumes "buf_ok m d" "region sp 128 \<inter> dom m = {}" "ascii cs" "length cs \<le> 32" "w = of_nat (length cs) * fixed_size (Enc d)"
  shows "do { (r, m', d') \<leftarrow> AppendDataToBuffer (push_local m sp (array (Enc d) cs)) sp w d; Some (r, pop_local m' sp 128, d') }
    = Some (append_result m d (enc_text (Enc d) cs))"
    and "w \<le> Size d - WriteCur d \<longleftrightarrow> length (enc_text (Enc d) cs) \<le> space d"
proof -
  let ?c = "unat (fixed_size (Enc d))"
  have l: "length (enc_text (Enc d) cs) = length cs * ?c" by (rule length_ascii_text [OF assms(3)])
  have "length cs * ?c \<le> 32 * 4" by (rule mult_le_mono [OF assms(4) cell_facts(1)])
  then have n: "length (enc_text (Enc d) cs) \<le> 128" "length cs * ?c < 2 ^ 64" using l by simp_all
  have "w = of_nat (length cs * ?c)" unfolding assms(5) by simp
  then have u: "unat w = length (enc_text (Enc d) cs)" unfolding l using n(2) by (simp only: unat_offset)
  show "do { (r, m', d') \<leftarrow> AppendDataToBuffer (push_local m sp (array (Enc d) cs)) sp w d; Some (r, pop_local m' sp 128, d') }
    = Some (append_result m d (enc_text (Enc d) cs))"
    unfolding array_def by (rule local_array [OF assms(1,2)]) (use n u in simp_all)
  show "w \<le> Size d - WriteCur d \<longleftrightarrow> length (enc_text (Enc d) cs) \<le> space d"
    by (simp add: word_le_nat_alt u unat_space [OF assms(1)])
qed

lemma put_decimals_exact:
  assumes "units k D < 2 ^ 52" "D \<le> 22" "pow_rounded c D" "ascii cs" "length cs + D \<le> 32"
  shows "put_decimals (Some c) (f64_sub (Fin (of_int k / 2 ^ D)) (f64_of (int (whole k D)))) (of_nat D) (fixed_size enc) (char_offset enc)
      (cell_at enc (length cs)) (array enc cs)
    = Some (array enc (cs @ map digit_char (rev (low_digits D (units k D)))))"
proof -
  from decimals_exact [OF assms(1-3)] obtain n where n:
    "usz_of (f64_mul (f64_abs (f64_sub (Fin (of_int k / 2 ^ D)) (f64_of (int (whole k D))))) (Pow (Some c) (Fin 10) (f64_of (uint (of_nat D :: usz)))))
      = Some (of_nat n)" "n < 2 ^ 53" "low_digits D n = low_digits D (units k D)" by blast
  have "uint (of_nat n :: usz) = int n" using n(2) by (intro uint_small) simp
  then show ?thesis using put_digits [OF assms(4,5), of enc n] n(1,3) by (simp add: put_decimals_def)
qed

lemma whole_digits:
  assumes "units k D < 2 ^ 52" "D \<le> 17"
  shows "length (dec_rev (whole k D)) + D \<le> 18"
proof -
  have "units k D < (10 :: nat) ^ 16" using assms(1) by (rule less_trans) simp
  also have "\<dots> \<le> 10 ^ (16 - D + D)" by (rule power_increasing) simp_all
  finally have "whole k D < 10 ^ (16 - D)" unfolding whole_units by (simp add: div_less_iff_less_mult power_add)
  from digit_count_bound [OF this] show ?thesis using assms(2) by linarith
qed

lemma AppendFloatToStringRegular_eq:
  assumes "buf_ok m d" "region sp 128 \<inter> dom m = {}" "units k D < 2 ^ 52" "0 < D" "D \<le> 17" "pow_rounded c D"
  shows "AppendFloatToStringRegular (Some c) m sp (Fin (of_int k / 2 ^ D)) (of_nat D) d
    = Some (append_result m d (enc_text (Enc d) (float_text k D)))"
proof -
  let ?e = "Enc d" and ?w = "whole k D" and ?x = "Fin (of_int k / 2 ^ D)"
  let ?nd = "length (dec_rev ?w)" and ?s = "of_bool (k < 0) :: nat"
  let ?sign = "if k < 0 then [0x2D] else [] :: uchar list"
  let ?T = "?nd + ?s + (D + 1)"
  have D22: "D \<le> 22" using assms(5) by simp
  have T: "?T \<le> 20" using whole_digits [OF assms(3,5)] by (simp add: of_bool_def)
  have ls: "length ?sign = ?s" by simp
  have neg: "negative ?x \<longleftrightarrow> k < 0" by (simp add: negative_def divide_less_0_iff)
  have abs: "Abs (if k < 0 then - int ?w else int ?w) = Some (int ?w)"
    using units_small(4) [OF assms(3)] by (simp add: Abs_def chk64_def)
  have num: "NumberOfDigits (int ?w) = of_nat ?nd" using NumberOfDigits_eq [of "int ?w"] by simp
  have D0: "(0 :: usz) < of_nat D" using assms(4,5) by (simp add: word_less_nat_alt unat_offset)
  have s: "of_bool (k < 0) = (of_nat ?s :: usz)" by simp
  have sub: "USZ_MAX_DIGITS - of_nat ?nd - of_nat ?s - 1 = of_nat (20 - ?nd - ?s - 1)"
    using T by (simp add: USZ_MAX_DIGITS_def of_nat_diff)
  have m: "Min (of_nat a) (of_nat D) = of_nat D" if "D \<le> a" "a \<le> 20" for a
    using that by (auto simp: Min_def word_le_nat_alt unat_offset)
  have min: "Min (USZ_MAX_DIGITS - of_nat ?nd - of_bool (negative ?x) - 1) (of_nat D) = of_nat D"
    unfolding neg s sub by (rule m) (use T in linarith)+
  have tot: "of_nat ?nd + of_bool (negative ?x) + (of_nat D + 1) = (of_nat ?T :: usz)" unfolding neg by simp
  have dec: "map digit_char (rev (low_digits ?nd ?w)) = decimal ?w" by (simp add: decimal_def low_digits_dec_rev)
  have asc: "ascii ?sign" "ascii (?sign @ decimal ?w)" "ascii ((?sign @ decimal ?w) @ [0x2E])"
    using ascii_digits [of ?nd ?w] unfolding dec by auto
  have len: "length (?sign @ decimal ?w) = ?s + ?nd" by (simp add: decimal_def)
  have start: "(if negative ?x then do { arr \<leftarrow> set_char (replicate 128 0) (char_offset ?e) 0x2D; Some (arr, fixed_size ?e) }
      else Some (replicate 128 0, 0)) = Some (array ?e ?sign, cell_at ?e ?s)"
    unfolding neg array_empty [of ?e] using put_char [of "[]" "0x2D" "0x2D" ?e] by (simp add: cell_at_def)
  have digits: "Digits_loop 0 (of_nat ?nd) (fixed_size ?e) (char_offset ?e) (cell_at ?e ?s) (int ?w) (array ?e ?sign)
      = Some (array ?e (?sign @ decimal ?w))"
    using put_digits [OF asc(1), of ?nd ?e ?w] T unfolding ls dec by simp
  have point: "set_char (array ?e (?sign @ decimal ?w)) (cell_at ?e (?s + ?nd) + char_offset ?e) 0x2E
      = Some (array ?e ((?sign @ decimal ?w) @ [0x2E]))"
    using put_char [OF asc(2), of "0x2E" "0x2E" ?e] T unfolding len by simp
  have fl: "((?sign @ decimal ?w) @ [0x2E]) @ map digit_char (rev (low_digits D (units k D))) = float_text k D"
    by (simp add: float_text_def whole_units)
  have decs: "put_decimals (Some c) (f64_sub ?x (f64_of (int ?w))) (of_nat D) (fixed_size ?e) (char_offset ?e)
      (cell_at ?e (Suc (?s + ?nd))) (array ?e ((?sign @ decimal ?w) @ [0x2E])) = Some (array ?e (float_text k D))"
    using put_decimals_exact [OF assms(3) D22 assms(6) asc(3), of ?e] T len unfolding fl by simp
  have lf: "length (float_text k D) = ?T" by (simp add: fl [symmetric] decimal_def)
  have af: "ascii (float_text k D)" unfolding fl [symmetric] by (intro ascii_append asc(3) ascii_digits)
  have T32: "length (float_text k D) \<le> 32" unfolding lf using T by simp
  note app = append_array [OF assms(1,2) af T32 refl, unfolded lf]
  show ?thesis
  proof (cases "of_nat ?T * fixed_size ?e \<le> Size d - WriteCur d")
    case True
    then show ?thesis
      unfolding AppendFloatToStringRegular_def isz_of_number [OF assms(3)]
      by (simp only: bind.simps abs Let_def num D0 if_True min tot prod.case start digits cell_at_add point decs app(1))
  next
    case False
    then have "\<not> length (enc_text ?e (float_text k D)) \<le> space d" using app(2) by blast
    then show ?thesis
      unfolding AppendFloatToStringRegular_def isz_of_number [OF assms(3)]
      by (simp only: bind.simps abs Let_def num D0 if_True min tot prod.case False if_False append_result_def)
  qed
qed

section \<open>Scientific notation\<close>

text \<open>Zero is multiplied for ever.\<close>

lemma SN_up_zero: "SN_up (Fin 0) e = None"
proof (cases "SN_up (Fin 0) e")
  case (Some r)
  let ?P = "\<lambda>a (e :: usz) (r :: f64 \<times> usz). a \<noteq> Fin 0"
  have "?P (Fin 0) e r"
  proof (rule SN_up.raw_induct [where P = ?P, OF _ Some])
    fix f and a and e :: usz and r
    assume IH: "\<And>a e r. f a e = Some r \<Longrightarrow> a \<noteq> Fin 0"
      and run: "(if f64_less a (Fin 1) then f (f64_mul a (Fin 10)) (e + 1) else Some (a, e)) = Some r"
    show "a \<noteq> Fin 0"
    proof
      assume a: "a = Fin 0"
      have "f64_mul (Fin 0) (Fin 10) = Fin 0" using round_exact [OF is_f64_int, of 0] by simp
      with IH run a show False by (simp add: f64_less_def)
    qed
  qed
  then show ?thesis by simp
qed simp

definition sn_text :: "int \<Rightarrow> nat \<Rightarrow> uchar list" where
  "sn_text k D = (if k < 0 then [0x2D] else []) @ [of_nat (0x30 + units k D div 10 ^ D), 0x2E]
     @ map digit_char (rev (low_digits D (units k D))) @ [0x65, 0x2B, 0x30, 0x30, 0x30]"

lemma run_sn_text:
  assumes "whole k D \<le> 10" "\<forall>d\<in>set ds. d < 10"
  shows "run_chars (digit_char (whole k D) # 0x2E # map digit_char ds @ 0x65 # 0x2B # cs) parse_start = None"
proof (cases "whole k D = 10")
  case True
  then show ?thesis by (simp add: StringToFloat_char_def parse_start_def digit_char_def CharIsDigit_def)
next
  case False
  then have w: "\<forall>d\<in>set [whole k D]. d < 10" using assms(1) by simp
  have "run_chars (digit_char (whole k D) # 0x2E # map digit_char ds @ 0x65 # 0x2B # cs) parse_start
    = run_chars (0x2E # map digit_char ds @ 0x65 # 0x2B # cs) (parse_start\<lparr>Integer := of_nat (horner 0 [whole k D])\<rparr>)"
    using run_integer [OF w, of parse_start "0x2E # map digit_char ds @ 0x65 # 0x2B # cs" 0] by (simp add: parse_start_def)
  also have "\<dots> = run_chars (map digit_char ds @ 0x65 # 0x2B # cs)
      ((parse_start\<lparr>Integer := of_nat (horner 0 [whole k D]), ParsingStage := 1\<rparr>)\<lparr>Fraction := of_nat 0, FractionCount := of_nat 0\<rparr>)"
    by (simp add: StringToFloat_char_def parse_start_def)
  also have "\<dots> = None"
    by (subst run_fraction [OF assms(2)]) (simp_all add: StringToFloat_char_def CharIsDigit_def)
  finally show ?thesis .
qed

lemma cell_at_more:
  "cell_at enc a + (fixed_size enc + off) = cell_at enc (Suc a) + off" "cell_at enc a + fixed_size enc * 2 = cell_at enc (Suc (Suc a))"
  by (simp_all add: cell_at_def algebra_simps)

lemma whole_le_10:
  assumes "\<bar>k\<bar> \<le> 10 * 2 ^ D"
  shows "whole k D \<le> 10"
proof -
  have "nat \<bar>k\<bar> \<le> nat (10 * 2 ^ D)" using assms by (rule nat_mono)
  then have "nat \<bar>k\<bar> \<le> 10 * 2 ^ D" by (simp add: nat_mult_distrib nat_power_eq)
  from div_le_mono [OF this, of "2 ^ D"] show ?thesis unfolding whole_def by simp
qed

lemma AppendFloatToStringInSN_eq:
  assumes "buf_ok m d" "region sp 128 \<inter> dom m = {}" "units k D < 2 ^ 52" "0 < D" "D \<le> 17" "pow_rounded c D"
    and "2 ^ D \<le> \<bar>k\<bar>" "\<bar>k\<bar> \<le> 10 * 2 ^ D"
  shows "AppendFloatToStringInSN (Some c) m sp (Fin (of_int k / 2 ^ D)) (of_nat D) d
    = Some (append_result m d (enc_text (Enc d) (sn_text k D)))"
proof -
  let ?e = "Enc d" and ?w = "whole k D" and ?x = "Fin (of_int k / 2 ^ D)" and ?y = "Fin (of_int \<bar>k\<bar> / 2 ^ D)"
  let ?s = "of_bool (k < 0) :: nat" and ?sign = "if k < 0 then [0x2D] else [] :: uchar list"
  let ?ds = "map digit_char (rev (low_digits D (units k D)))"
  have D22: "D \<le> 22" using assms(5) by simp
  have ls: "length ?sign = ?s" by simp
  have neg: "negative ?x \<longleftrightarrow> k < 0" by (simp add: negative_def divide_less_0_iff)
  have same: "whole \<bar>k\<bar> D = ?w" "units \<bar>k\<bar> D = units k D" by (simp_all add: whole_def units_def)
  have ks: "\<bar>\<bar>k\<bar>\<bar> < 2 ^ 53" using units_small(1) [OF assms(3)] by simp
  have fy: "is_f64 (of_int \<bar>k\<bar> / 2 ^ D)" using D22 by (intro is_f64_fraction ks) simp
  have mul: "f64_mul ?x (f64_of (- 1)) = ?y" if "k < 0" using that round_exact [OF fy] by simp
  note w10 = whole_le_10 [OF assms(8)]
  have "of_int (2 ^ D) \<le> (of_int \<bar>k\<bar> :: rat)" "of_int \<bar>k\<bar> \<le> (of_int (10 * 2 ^ D) :: rat)"
    using assms(7,8) by (simp_all only: of_int_le_iff)
  then have "1 \<le> (of_int \<bar>k\<bar> / 2 ^ D :: rat)" "of_int \<bar>k\<bar> / 2 ^ D \<le> (10 :: rat)"
    by (simp_all add: le_divide_eq divide_le_eq del: of_int_abs)
  then have cmp: "\<not> f64_less ?y (Fin 1)" "\<not> f64_less (Fin 10) ?y"
    by (simp_all add: f64_less_def not_less del: of_int_abs)
  have down: "SN_down ?y 0 = Some (?y, 0)" using cmp(2) by (subst SN_down.simps) simp
  have ip: "int_part (of_int \<bar>k\<bar> / 2 ^ D) = int ?w" by (subst int_part_fraction) (simp add: whole_def zdiv_int)
  have ch: "char_of_f64 ?y = Some (int ?w)" using w10 by (simp add: char_of_f64_def cast_int_def ip Let_def del: of_int_abs)
  have us: "usz_of ?y = Some (of_nat ?w)" using w10 by (simp add: usz_of_def cast_int_def ip Let_def del: of_int_abs)
  have uw: "uint (of_nat ?w :: usz) = int ?w" using w10 by (intro uint_small) simp
  have dw: "digit_char ?w < 0x80" "word_of_int (int ?w + 0x30) = (ucast (digit_char ?w) :: u8)"
  proof -
    have u: "unat (digit_char ?w) = 0x30 + ?w" unfolding digit_char_def unat_of_nat using w10 by simp
    then show "digit_char ?w < 0x80" using w10 by (simp add: word_less_nat_alt)
    have "(ucast (digit_char ?w) :: u8) = of_nat (unat (digit_char ?w))" by simp
    then show "word_of_int (int ?w + 0x30) = (ucast (digit_char ?w) :: u8)" unfolding u by (simp add: add.commute)
  qed
  have D0: "(0 :: usz) < of_nat D" using assms(4,5) by (simp add: word_less_nat_alt unat_offset)
  have start: "(if negative ?x then do { arr \<leftarrow> set_char (replicate 128 0) (char_offset ?e) 0x2D; Some (f64_mul ?x (f64_of (- 1)), arr, fixed_size ?e) }
      else Some (?x, replicate 128 0, 0)) = Some (?y, array ?e ?sign, cell_at ?e ?s)"
    unfolding neg array_empty [of ?e] using put_char [of "[]" "0x2D" "0x2D" ?e] mul by (simp add: cell_at_def)
  let ?c1 = "?sign @ [digit_char ?w]" and ?c2 = "(?sign @ [digit_char ?w]) @ [0x2E]"
  let ?c3 = "?c2 @ ?ds" and ?c4 = "(?c2 @ ?ds) @ [0x65]" and ?c5 = "((?c2 @ ?ds) @ [0x65]) @ [0x2B]"
  have one: "ascii [digit_char ?w]" "ascii [0x2E]" "ascii [0x65]" "ascii [0x2B]" using dw(1) by simp_all
  have asc: "ascii ?sign" by simp
  note asc = asc ascii_append [OF asc one(1)]
  note asc = asc ascii_append [OF asc(2) one(2)]
  note asc = asc ascii_append [OF asc(3) ascii_digits [of D "units k D"]]
  note asc = asc ascii_append [OF asc(4) one(3)]
  note asc = asc ascii_append [OF asc(5) one(4)]
  have len: "length ?c1 = Suc ?s" "length ?c2 = Suc (Suc ?s)" "length ?c3 = Suc (Suc ?s) + D"
    "length ?c4 = Suc (Suc (Suc ?s) + D)" "length ?c5 = Suc (Suc (Suc (Suc ?s) + D))" by simp_all
  have s1: "?s \<le> 1" by simp
  have p1: "set_char (array ?e ?sign) (cell_at ?e ?s + char_offset ?e) (word_of_int (int ?w + 0x30)) = Some (array ?e ?c1)"
    using put_char [OF asc(1) _ dw(1,2), of ?e] unfolding ls by simp
  have p2: "set_char (array ?e ?c1) (cell_at ?e (Suc ?s) + char_offset ?e) 0x2E = Some (array ?e ?c2)"
    using put_char [OF asc(2), of "0x2E" "0x2E" ?e] s1 unfolding len by simp
  have p3: "put_decimals (Some c) (f64_sub ?y (f64_of (int ?w))) (of_nat D) (fixed_size ?e) (char_offset ?e)
      (cell_at ?e (Suc (Suc ?s))) (array ?e ?c2) = Some (array ?e ?c3)"
    using put_decimals_exact [of "\<bar>k\<bar>" D c ?c2 ?e, unfolded same, OF assms(3) D22 assms(6) asc(3)] assms(5) s1 unfolding len by simp
  have p4: "set_char (array ?e ?c3) (cell_at ?e (Suc (Suc ?s) + D) + char_offset ?e) 0x65 = Some (array ?e ?c4)"
    using put_char [OF asc(4), of "0x65" "0x65" ?e] assms(5) s1 unfolding len by simp
  have p5: "set_char (array ?e ?c4) (cell_at ?e (Suc (Suc (Suc ?s) + D)) + char_offset ?e) 0x2B = Some (array ?e ?c5)"
    using put_char [OF asc(5), of "0x2B" "0x2B" ?e] assms(5) s1 unfolding len by simp
  have sn: "?c5 @ map digit_char (rev (low_digits 3 0)) = sn_text k D"
    by (simp add: sn_text_def whole_units [symmetric] digit_char_def numeral_3_eq_3)
  have p6: "Digits_loop 0 3 (fixed_size ?e) (char_offset ?e) (cell_at ?e (Suc (Suc (Suc (Suc ?s) + D)))) (uint (0 :: usz)) (array ?e ?c5)
      = Some (array ?e (sn_text k D))"
    using put_digits [OF asc(6), of 3 ?e 0] assms(5) s1 unfolding len sn by simp
  have lf: "length (sn_text k D) = ?s + 2 + D + 5" by (simp add: sn_text_def)
  have af: "ascii (sn_text k D)" unfolding sn [symmetric] by (intro ascii_append asc(6) ascii_digits)
  have T32: "length (sn_text k D) \<le> 32" unfolding lf using assms(5) s1 by linarith
  have tot: "of_bool (negative ?x) + 2 + of_nat D + 5 = (of_nat (?s + 2 + D + 5) :: usz)" unfolding neg by simp
  note app = append_array [OF assms(1,2) af T32 refl, unfolded lf]
  show ?thesis
  proof (cases "of_nat (?s + 2 + D + 5) * fixed_size ?e \<le> Size d - WriteCur d")
    case True
    then show ?thesis
      unfolding AppendFloatToStringInSN_def
      by (simp only: tot bind.simps Let_def if_True prod.case start cmp if_False down ch p1 cell_at_more p2 D0 us uw p3 cell_at_add p4
          zero_less_one p5 p6 app(1))
  next
    case False
    then have "\<not> length (enc_text ?e (sn_text k D)) \<le> space d" using app(2) by blast
    then show ?thesis
      unfolding AppendFloatToStringInSN_def by (simp only: tot Let_def False if_False append_result_def)
  qed
qed

section \<open>Properties\<close>

lemma text_ok: "ascii cs \<Longrightarrow> \<forall>c\<in>set cs. enc_ok enc c"
  using enc_ok_ascii by auto

lemma float_text_ascii: "ascii (float_text k D)"
  unfolding float_text_def by (intro ascii_append ascii_Cons ascii_decimal ascii_digits) simp_all

lemma sn_text_digits:
  assumes "whole k D \<le> 10"
  shows "sn_text k D = (if k < 0 then [0x2D] else []) @ digit_char (whole k D) # 0x2E
     # map digit_char (rev (low_digits D (units k D))) @ [0x65, 0x2B, 0x30, 0x30, 0x30]"
    and "digit_char (whole k D) < 0x80" "digit_char (whole k D) \<noteq> 0x2D"
proof -
  show "sn_text k D = (if k < 0 then [0x2D] else []) @ digit_char (whole k D) # 0x2E
     # map digit_char (rev (low_digits D (units k D))) @ [0x65, 0x2B, 0x30, 0x30, 0x30]"
    by (simp add: sn_text_def digit_char_def whole_units [symmetric])
  have u: "unat (digit_char (whole k D)) = 0x30 + whole k D" unfolding digit_char_def unat_of_nat using assms by simp
  then show "digit_char (whole k D) < 0x80" "digit_char (whole k D) \<noteq> 0x2D" using assms by (auto simp: word_less_nat_alt)
qed

lemma sn_text_ascii:
  assumes "whole k D \<le> 10"
  shows "ascii (sn_text k D)"
  unfolding sn_text_digits(1) [OF assms]
  by (intro ascii_append ascii_Cons ascii_digits sn_text_digits(2) [OF assms]) simp_all

text \<open>
  C6: in the regular format and with 1 to 17 decimals \<open>D\<close>, a number \<open>k / 2 ^ D\<close>, which has at most \<open>D\<close> decimals, is
  printed exactly, in any encoding, when the text fits, and nothing is appended otherwise; when the string was empty
  before, \<open>StringToFloat\<close> reads the number back. This holds below \<open>2 ^ 52\<close> units of the last decimal and with a \<open>pow\<close>
  that rounds \<open>10 ^ D\<close> correctly.
\<close>

theorem AppendFloatToString_round_trip:
  assumes "has_text m dst cs" "buf_ok m dst" "region sp 128 \<inter> dom m = {}" "pow_rounded c D"
    and "units k D < 2 ^ 52" "0 < D" "D \<le> 17"
  shows "if length (enc_text (Enc dst) (float_text k D)) \<le> space dst
    then \<exists>m' dst'. AppendFloatToString (Some c) m sp (Fin (of_int k / 2 ^ D)) (of_nat D) False dst = Some (True, m', dst')
      \<and> has_text m' dst' (cs @ float_text k D) \<and> buf_ok m' dst'
      \<and> (\<forall>q. q \<notin> buf_region dst \<longrightarrow> m' q = m q)
      \<and> (cs = [] \<longrightarrow> StringToFloat (Some c) m' dst' = Some (Fin (of_int k / 2 ^ D)))
    else AppendFloatToString (Some c) m sp (Fin (of_int k / 2 ^ D)) (of_nat D) False dst = Some (False, m, dst)"
proof -
  note run = AppendFloatToStringRegular_eq [OF assms(2,3,5-7,4)]
  show ?thesis
  proof (cases "length (enc_text (Enc dst) (float_text k D)) \<le> space dst")
    case True
    from append_text [OF assms(1,2) this text_ok [OF float_text_ascii]] obtain m' d' where
      r: "append_result m dst (enc_text (Enc dst) (float_text k D)) = (True, m', d')" and t: "has_text m' d' (cs @ float_text k D)"
      "buf_ok m' d'" "\<forall>q. q \<notin> buf_region dst \<longrightarrow> m' q = m q" by blast
    have "cs = [] \<longrightarrow> StringToFloat (Some c) m' d' = Some (Fin (of_int k / 2 ^ D))"
      using t(1) StringToFloat_float_text [OF _ assms(5) _ assms(4), of m' d'] assms(7) by auto
    with r t True show ?thesis by (simp add: AppendFloatToString_def run)
  next
    case False
    then show ?thesis by (simp add: AppendFloatToString_def run append_result_def)
  qed
qed

text \<open>
  In scientific notation a number from 1 to 10 is printed with its integer part as one character, a colon
  for 10, and the exponent with a plus sign; \<open>StringToFloat\<close> takes no plus sign and returns \<open>DBL_MAX\<close> for it.
\<close>

theorem AppendFloatToString_SN_not_read:
  assumes "has_text m dst []" "buf_ok m dst" "region sp 128 \<inter> dom m = {}" "pow_rounded c D"
    and "units k D < 2 ^ 52" "0 < D" "D \<le> 17" "2 ^ D \<le> \<bar>k\<bar>" "\<bar>k\<bar> \<le> 10 * 2 ^ D"
    and "length (enc_text (Enc dst) (sn_text k D)) \<le> space dst"
  shows "\<exists>m' dst'. AppendFloatToString (Some c) m sp (Fin (of_int k / 2 ^ D)) (of_nat D) True dst = Some (True, m', dst')
      \<and> has_text m' dst' (sn_text k D) \<and> StringToFloat (Some c) m' dst' = Some DBL_MAX"
proof -
  note w = whole_le_10 [OF assms(9)]
  note run = AppendFloatToStringInSN_eq [OF assms(2,3,5-7,4,8,9)]
  from append_text [OF assms(1,2,10) text_ok [OF sn_text_ascii [OF w]]] obtain m' d' where
    r: "append_result m dst (enc_text (Enc dst) (sn_text k D)) = (True, m', d')" and t: "has_text m' d' (sn_text k D)" by auto
  let ?cs = "digit_char (whole k D) # 0x2E # map digit_char (rev (low_digits D (units k D))) @ [0x65, 0x2B, 0x30, 0x30, 0x30]"
  have ne: "run_chars ?cs parse_start = None"
    using run_sn_text [OF w, of "rev (low_digits D (units k D))" "[0x30, 0x30, 0x30]"] low_digits_less by auto
  have asc: "ascii (sn_text k D)" by (rule sn_text_ascii [OF w])
  have "StringToFloat (Some c) m' d' = Some DBL_MAX"
  proof (cases "k < 0")
    case True
    then have s: "sn_text k D = 0x2D # ?cs" by (simp add: sn_text_digits(1) [OF w])
    show ?thesis using StringToFloat_text [of m' d' "0x2D" ?cs "Some c"] t asc ne unfolding s by simp
  next
    case False
    then have s: "sn_text k D = ?cs" by (simp add: sn_text_digits(1) [OF w])
    show ?thesis
      using StringToFloat_text [of m' d' "digit_char (whole k D)" "tl ?cs" "Some c"] t asc ne sn_text_digits(3) [OF w] unfolding s by simp
  qed
  with r t show ?thesis by (simp add: AppendFloatToString_def run)
qed

text \<open>C37: in scientific notation zero is never printed: the loop that scales the number up does not end.\<close>

theorem AppendFloatToString_SN_zero_diverges:
  assumes "(2 + decimalPlaces + 5) * fixed_size (Enc dst) \<le> Size dst - WriteCur dst"
  shows "AppendFloatToString lib m sp (Fin 0) decimalPlaces True dst = None"
  using assms SN_up_zero by (simp add: AppendFloatToString_def AppendFloatToStringInSN_def negative_def f64_less_def)

section \<open>Concrete numbers\<close>

text \<open>A C library whose powers with integer exponents are rounded once.\<close>

definition ex_cmath :: cmath where
  "ex_cmath = \<lparr>c_pow = (\<lambda>b e. case (b, e) of (Fin x, Fin y) \<Rightarrow> if y = of_int \<lfloor>y\<rfloor> then round_f64 (x powi \<lfloor>y\<rfloor>) else NaN | _ \<Rightarrow> NaN),
     c_sin = (\<lambda>a. NaN), c_cos = (\<lambda>a. NaN), c_acos = (\<lambda>a. NaN), c_sqrt = (\<lambda>a. NaN)\<rparr>"

lemma ex_pow_rounded: "pow_rounded ex_cmath D"
  by (auto simp: pow_rounded_def ex_cmath_def)

lemma ex_stack_128: "region (0x80 :: ptr) 128 \<inter> dom ex_euro = {}"
  by (simp add: ex_euro_def)

theorem AppendFloatToString_round_trip_witness:
  "\<exists>m' dst'. AppendFloatToString (Some ex_cmath) ex_euro 0x80 (Fin (- 3 / 2)) 1 False (ex_out 0) = Some (True, m', dst')
    \<and> has_text m' dst' [0x2D, 0x31, 0x2E, 0x35] \<and> StringToFloat (Some ex_cmath) m' dst' = Some (Fin (- 3 / 2))"
proof -
  have u: "units (- 3) 1 = 15" by (simp add: units_def)
  then have t: "float_text (- 3) 1 = [0x2D, 0x31, 0x2E, 0x35]"
    by (simp add: float_text_def decimal_small digit_char_def)
  show ?thesis
    using AppendFloatToString_round_trip [OF ex_out_text ex_out_ok ex_stack_128 ex_pow_rounded, where k = "- 3" and D = 1]
      ex_text_length [of "float_text (- 3) 1"] u
    unfolding t by auto
qed

definition ex_sn_mem :: mem where
  "ex_sn_mem = [0x10 \<mapsto> 0, 0x11 \<mapsto> 0, 0x12 \<mapsto> 0, 0x13 \<mapsto> 0, 0x14 \<mapsto> 0, 0x15 \<mapsto> 0, 0x16 \<mapsto> 0, 0x17 \<mapsto> 0]"

definition ex_sn :: tb_string where
  "ex_sn = String 0x10 0 8 EC_ASCII"

lemma ex_sn_facts: "has_text ex_sn_mem ex_sn []" "buf_ok ex_sn_mem ex_sn" "region 0x80 128 \<inter> dom ex_sn_mem = {}"
  by (simp_all add: has_text_def holds_def ex_sn_def ex_sn_mem_def buf_ok_def)

theorem AppendFloatToString_SN_not_read_witness:
  "\<exists>m' dst'. AppendFloatToString (Some ex_cmath) ex_sn_mem 0x80 (Fin 10) 1 True ex_sn = Some (True, m', dst')
    \<and> has_text m' dst' [0x3A, 0x2E, 0x30, 0x65, 0x2B, 0x30, 0x30, 0x30] \<and> StringToFloat (Some ex_cmath) m' dst' = Some DBL_MAX"
proof -
  have u: "units 20 1 = 100" by (simp add: units_def)
  then have t: "sn_text 20 1 = [0x3A, 0x2E, 0x30, 0x65, 0x2B, 0x30, 0x30, 0x30]" by (simp add: sn_text_def digit_char_def)
  have "length (enc_text (Enc ex_sn) (sn_text 20 1)) \<le> space ex_sn"
    unfolding t by (simp add: ex_sn_def space_def char_bytes_def code_bytes_def)
  then show ?thesis
    using AppendFloatToString_SN_not_read [OF ex_sn_facts ex_pow_rounded, where k = 20 and D = 1] u unfolding t by simp
qed

theorem AppendFloatToString_SN_zero_diverges_witness:
  "AppendFloatToString (Some ex_cmath) ex_sn_mem 0x80 (Fin 0) 1 True ex_sn = None"
  by (rule AppendFloatToString_SN_zero_diverges) (simp add: ex_sn_def fixed_size_def encoding_order)

end
