(* ===== verification/Services.thy ===== *)
theory Services
  imports Doubles Atomic Dirs
begin

text \<open>
  The other services on Linux (\<open>src/tinybase-platform-linux.c\<close>, lines 33 to 55 and 731 to 947): information about
  the system, timing, external libraries, threads, mutexes and semaphores. The calls of the C library are the
  parameter \<open>srv\<close>. A mutex and a semaphore are the bytes of their handles, as in the code, which returns them by
  value; \<open>int\<close> arithmetic outside 32 bits is undefined.
\<close>

unbundle bit_operations_syntax

section \<open>Structures\<close>

text \<open>\<open>OSVersion\<close> is the address of the array of 8 bytes in \<open>gSysInfo\<close>.\<close>

record sys_info =
  PageSize :: usz
  MemBlockSize :: usz
  NumThreads :: usz
  AddressRange :: "usz \<times> usz"
  TimingFreq :: f64
  OSVersion :: ptr

datatype weekday = Sunday | Monday | Tuesday | Wednesday | Thursday | Friday | Saturday

definition weekday_of :: "int \<Rightarrow> weekday option" where
  "weekday_of n = (if n = 0 then Some Sunday else if n = 1 then Some Monday else if n = 2 then Some Tuesday
     else if n = 3 then Some Wednesday else if n = 4 then Some Thursday else if n = 5 then Some Friday
     else if n = 6 then Some Saturday else None)"

record datetime =
  Year :: int
  Month :: int
  Day :: int
  Hour :: int
  Minute :: int
  Second :: int
  WeekDay :: weekday

record timing =
  Start :: int
  End :: int
  Diff :: f64

record thread =
  Handle :: handle

record tm =
  tm_year :: int
  tm_mon :: int
  tm_mday :: int
  tm_hour :: int
  tm_min :: int
  tm_sec :: int
  tm_wday :: int

text \<open>\<open>'a\<close> is the type of the attributes of a thread.\<close>

record ('w, 'a) services =
  sys_sysinfo :: "'w \<Rightarrow> usz"
  sys_getpagesize :: "'w \<Rightarrow> u32"
  sys_get_nprocs :: "'w \<Rightarrow> u32"
  sys_uname :: "'w \<Rightarrow> u8 list"
  sys_clock_gettime :: "int \<Rightarrow> 'w \<Rightarrow> (int \<times> int) option \<times> 'w"
  sys_time :: "'w \<Rightarrow> int \<times> 'w"
  sys_gmtime :: "int \<Rightarrow> tm option"
  sys_localtime :: "int \<Rightarrow> 'w \<Rightarrow> tm option"
  sys_dlopen :: "u8 list \<Rightarrow> u32 \<Rightarrow> 'w \<Rightarrow> ptr \<times> 'w"
  sys_dlsym :: "ptr \<Rightarrow> u8 list \<Rightarrow> 'w \<Rightarrow> ptr"
  sys_dlclose :: "ptr \<Rightarrow> 'w \<Rightarrow> int \<times> 'w"
  sys_attr_init :: "'w \<Rightarrow> int \<times> 'a \<times> 'w"
  sys_attr_setdetachstate :: "'a \<Rightarrow> u32 \<Rightarrow> int \<times> 'a"
  sys_attr_setguardsize :: "'a \<Rightarrow> usz \<Rightarrow> int \<times> 'a"
  sys_attr_setstacksize :: "'a \<Rightarrow> usz \<Rightarrow> int \<times> 'a"
  sys_thread_create :: "'a \<Rightarrow> ptr \<Rightarrow> ptr \<Rightarrow> 'w \<Rightarrow> int \<times> ptr \<times> 'w"
  sys_thread_join :: "ptr \<Rightarrow> 'w \<Rightarrow> int \<times> 'w"
  sys_thread_kill :: "ptr \<Rightarrow> u32 \<Rightarrow> 'w \<Rightarrow> int \<times> 'w"
  sys_setpriority :: "32 word \<Rightarrow> int \<Rightarrow> 'w \<Rightarrow> int \<times> 'w"
  sys_getpriority :: "32 word \<Rightarrow> 'w \<Rightarrow> int"
  sys_mutex_init :: "u8 list \<Rightarrow> 'w \<Rightarrow> int \<times> u8 list \<times> 'w"
  sys_mutex_destroy :: "u8 list \<Rightarrow> 'w \<Rightarrow> int \<times> u8 list \<times> 'w"
  sys_mutex_lock :: "u8 list \<Rightarrow> 'w \<Rightarrow> int \<times> u8 list \<times> 'w"
  sys_mutex_unlock :: "u8 list \<Rightarrow> 'w \<Rightarrow> int \<times> u8 list \<times> 'w"
  sys_sem_init :: "u8 list \<Rightarrow> u32 \<Rightarrow> 'w \<Rightarrow> int \<times> u8 list \<times> 'w"
  sys_sem_destroy :: "u8 list \<Rightarrow> 'w \<Rightarrow> int \<times> u8 list \<times> 'w"
  sys_sem_post :: "u8 list \<Rightarrow> 'w \<Rightarrow> int \<times> u8 list \<times> 'w"
  sys_sem_wait :: "u8 list \<Rightarrow> 'w \<Rightarrow> int \<times> u8 list \<times> 'w"

definition chk32 :: "int \<Rightarrow> int option" where
  "chk32 x = (if - (2 ^ 31) \<le> x \<and> x < 2 ^ 31 then Some x else None)"

section \<open>Information about the system\<close>

text \<open>\<open>boottime\<close>: whether \<open>CLOCK_BOOTTIME\<close> is defined. The release string of \<open>uname\<close> lies at \<open>sp\<close>.\<close>

definition LoadSystemInfo :: "('w, 'a) services \<Rightarrow> bool \<Rightarrow> mem \<Rightarrow> ptr \<Rightarrow> 'w \<Rightarrow> sys_info \<Rightarrow> (mem \<times> sys_info) option" where
  "LoadSystemInfo srv boottime m sp w g =
     do {
       let g = g\<lparr>PageSize := scast (sys_getpagesize srv w), AddressRange := (0, sys_sysinfo srv w)\<rparr>;
       let g = g\<lparr>MemBlockSize := PageSize g, NumThreads := scast (sys_get_nprocs srv w)\<rparr>;
       let g = g\<lparr>TimingFreq := f64_of (if boottime then 7 else 1)\<rparr>;
       let release = sys_uname srv w;
       m \<leftarrow> store8 m (OSVersion g) 0x4C;
       (_, m) \<leftarrow> CopyData (push_local m sp release) (OSVersion g + 1) (8 - 1) sp 4;
       Some (pop_local m sp (length release), g)
     }"

section \<open>Timing\<close>

definition clock_ns :: "('w, 'a) services \<Rightarrow> sys_info \<Rightarrow> int \<times> int \<Rightarrow> 'w \<Rightarrow> (int \<times> 'w) option" where
  "clock_ns srv g junk w =
     do {
       clk \<leftarrow> cast_int (- (2 ^ 31)) (2 ^ 31 - 1) (TimingFreq g);
       let (now, w) = sys_clock_gettime srv clk w;
       let (sec, nsec) = (case now of None \<Rightarrow> junk | Some n \<Rightarrow> n);
       s \<leftarrow> chk64 (sec * 1000000000);
       ns \<leftarrow> chk64 (s + nsec);
       Some (ns, w)
     }"

text \<open>\<open>junk\<close> is the content of \<open>Now\<close> when the clock cannot be read, which the code does not test.\<close>

definition StartTiming :: "('w, 'a) services \<Rightarrow> sys_info \<Rightarrow> int \<times> int \<Rightarrow> 'w \<Rightarrow> timing \<Rightarrow> (timing \<times> 'w) option" where
  "StartTiming srv g junk w info = do { (ns, w) \<leftarrow> clock_ns srv g junk w; Some (info\<lparr>Start := ns\<rparr>, w) }"

definition StopTiming :: "('w, 'a) services \<Rightarrow> sys_info \<Rightarrow> int \<times> int \<Rightarrow> 'w \<Rightarrow> timing \<Rightarrow> (timing \<times> 'w) option" where
  "StopTiming srv g junk w info =
     do {
       (ns, w) \<leftarrow> clock_ns srv g junk w;
       d \<leftarrow> chk64 (ns - Start info);
       Some (info\<lparr>End := ns, Diff := f64_div (f64_of d) (f64_of 1000000000)\<rparr>, w)
     }"

text \<open>A \<open>tm\<close> that could not be filled is zero.\<close>

definition zero_tm :: tm where
  "zero_tm = \<lparr>tm_year = 0, tm_mon = 0, tm_mday = 0, tm_hour = 0, tm_min = 0, tm_sec = 0, tm_wday = 0\<rparr>"

definition datetime_of :: "tm option \<Rightarrow> datetime option" where
  "datetime_of r =
     do {
       let dt = (case r of None \<Rightarrow> zero_tm | Some t \<Rightarrow> t);
       year \<leftarrow> chk32 (tm_year dt + 1900);
       month \<leftarrow> chk32 (tm_mon dt + 1);
       wday \<leftarrow> weekday_of (tm_wday dt);
       Some \<lparr>Year = year, Month = month, Day = tm_mday dt, Hour = tm_hour dt, Minute = tm_min dt, Second = tm_sec dt, WeekDay = wday\<rparr>
     }"

definition CurrentSystemTime :: "('w, 'a) services \<Rightarrow> 'w \<Rightarrow> (datetime \<times> 'w) option" where
  "CurrentSystemTime srv w =
     do { let (now, w) = sys_time srv w; dt \<leftarrow> datetime_of (sys_gmtime srv now); Some (dt, w) }"

definition CurrentLocalTime :: "('w, 'a) services \<Rightarrow> 'w \<Rightarrow> (datetime \<times> 'w) option" where
  "CurrentLocalTime srv w =
     do { let (now, w) = sys_time srv w; dt \<leftarrow> datetime_of (sys_localtime srv now w); Some (dt, w) }"

section \<open>External libraries\<close>

definition RTLD_NOW :: u32 where "RTLD_NOW = 2"

definition LoadExternalLibrary :: "('w, 'a) services \<Rightarrow> mem \<Rightarrow> 'w \<Rightarrow> ptr \<Rightarrow> (handle \<times> 'w) option" where
  "LoadExternalLibrary srv m w libPath = do { name \<leftarrow> cstring m libPath; Some (sys_dlopen srv name RTLD_NOW w) }"

definition LoadExternalSymbol :: "('w, 'a) services \<Rightarrow> mem \<Rightarrow> 'w \<Rightarrow> handle \<Rightarrow> ptr \<Rightarrow> ptr option" where
  "LoadExternalSymbol srv m w library symbolName = do { name \<leftarrow> cstring m symbolName; Some (sys_dlsym srv library name w) }"

definition UnloadExternalLibrary :: "('w, 'a) services \<Rightarrow> 'w \<Rightarrow> handle \<Rightarrow> bool \<times> 'w" where
  "UnloadExternalLibrary srv w library = (let (r, w) = sys_dlclose srv library w in (r = 0, w))"

section \<open>Threads\<close>

definition SCHEDULE_NORMAL :: int where "SCHEDULE_NORMAL = 1"
definition SCHEDULE_LOW :: int where "SCHEDULE_LOW = 2"
definition SCHEDULE_HIGH :: int where "SCHEDULE_HIGH = 4"

lemmas schedule_defs = SCHEDULE_NORMAL_def SCHEDULE_LOW_def SCHEDULE_HIGH_def

text \<open>The thread identifier is read out of the structure behind a \<open>pthread_t\<close>.\<close>

definition GetThreadID :: "mem \<Rightarrow> handle \<Rightarrow> 32 word option" where
  "GetThreadID m threadHandle = load_word m (threadHandle + 720)"

definition InitThread :: "('w, 'a) services \<Rightarrow> sys_info \<Rightarrow> 'w \<Rightarrow> ptr \<Rightarrow> ptr \<Rightarrow> bool \<Rightarrow> thread \<times> 'w" where
  "InitThread srv g w threadProc threadArg waitable =
     (let detach = (if waitable then 0 else 1); (r, attr, w) = sys_attr_init srv w in
      if r \<noteq> 0 then (\<lparr>Handle = 0\<rparr>, w)
      else let (r, attr) = sys_attr_setdetachstate srv attr detach in
      if r \<noteq> 0 then (\<lparr>Handle = 0\<rparr>, w)
      else let (r, attr) = sys_attr_setguardsize srv attr (PageSize g) in
      if r \<noteq> 0 then (\<lparr>Handle = 0\<rparr>, w)
      else let (r, attr) = sys_attr_setstacksize srv attr 0x200000 in
      if r \<noteq> 0 then (\<lparr>Handle = 0\<rparr>, w)
      else let (r, thread, w) = sys_thread_create srv attr threadProc threadArg w in
      if r \<noteq> 0 then (\<lparr>Handle = 0\<rparr>, w) else (\<lparr>Handle = thread\<rparr>, w))"

definition priority_of :: "int \<Rightarrow> int" where
  "priority_of newScheduling =
     (if newScheduling = SCHEDULE_HIGH then - 20 else if newScheduling = SCHEDULE_LOW then 19 else 0)"

definition ChangeThreadScheduling :: "('w, 'a) services \<Rightarrow> mem \<Rightarrow> 'w \<Rightarrow> thread \<Rightarrow> int \<Rightarrow> (bool \<times> 'w) option" where
  "ChangeThreadScheduling srv m w thread newScheduling =
     do {
       tid \<leftarrow> GetThreadID m (Handle thread);
       let (e, w) = sys_setpriority srv tid (priority_of newScheduling) w;
       Some (e = 0, w)
     }"

definition GetThreadScheduling :: "('w, 'a) services \<Rightarrow> mem \<Rightarrow> 'w \<Rightarrow> thread \<Rightarrow> int option" where
  "GetThreadScheduling srv m w thread =
     do {
       tid \<leftarrow> GetThreadID m (Handle thread);
       let priority = sys_getpriority srv tid w;
       Some (if priority \<ge> 7 then SCHEDULE_LOW else if priority < - 7 then SCHEDULE_HIGH else SCHEDULE_NORMAL)
     }"

definition CloseThread :: "thread \<Rightarrow> bool \<times> thread" where
  "CloseThread thread = (True, thread\<lparr>Handle := 0\<rparr>)"

definition WaitOnThread :: "('w, 'a) services \<Rightarrow> 'w \<Rightarrow> thread \<Rightarrow> bool \<times> thread \<times> 'w" where
  "WaitOnThread srv w thread =
     (let (r, w) = sys_thread_join srv (Handle thread) w in
      if r = 0 then let (ok, thread) = CloseThread thread in (ok, thread, w) else (False, thread, w))"

definition SIGKILL :: u32 where "SIGKILL = 9"

definition KillThread :: "('w, 'a) services \<Rightarrow> 'w \<Rightarrow> thread \<Rightarrow> bool \<times> thread \<times> 'w" where
  "KillThread srv w thread =
     (let (r, w) = sys_thread_kill srv (Handle thread) SIGKILL w in
      if r = 0 then let (ok, thread) = CloseThread thread in (ok, thread, w) else (False, thread, w))"

section \<open>Mutexes and semaphores\<close>

definition MUTEX_SIZE :: nat where "MUTEX_SIZE = 40"
definition SEMAPHORE_SIZE :: nat where "SEMAPHORE_SIZE = 32"

type_synonym mutex = "u8 list"
type_synonym semaphore = "u8 list"

definition InitMutex :: "('w, 'a) services \<Rightarrow> 'w \<Rightarrow> mutex \<times> 'w" where
  "InitMutex srv w = (let (r, mutex, w) = sys_mutex_init srv (replicate MUTEX_SIZE 0) w in (mutex, w))"

definition CloseMutex :: "('w, 'a) services \<Rightarrow> 'w \<Rightarrow> mutex \<Rightarrow> bool \<times> mutex \<times> 'w" where
  "CloseMutex srv w mutex = (let (r, mutex, w) = sys_mutex_destroy srv mutex w in (r = 0, mutex, w))"

definition LockOnMutex :: "('w, 'a) services \<Rightarrow> 'w \<Rightarrow> mutex \<Rightarrow> bool \<times> mutex \<times> 'w" where
  "LockOnMutex srv w mutex = (let (r, mutex, w) = sys_mutex_lock srv mutex w in (r = 0, mutex, w))"

definition UnlockMutex :: "('w, 'a) services \<Rightarrow> 'w \<Rightarrow> mutex \<Rightarrow> bool \<times> mutex \<times> 'w" where
  "UnlockMutex srv w mutex = (let (r, mutex, w) = sys_mutex_unlock srv mutex w in (r = 0, mutex, w))"

definition InitSemaphore :: "('w, 'a) services \<Rightarrow> 'w \<Rightarrow> 32 word \<Rightarrow> semaphore \<times> 'w" where
  "InitSemaphore srv w initCount = (let (r, sem, w) = sys_sem_init srv (replicate SEMAPHORE_SIZE 0) initCount w in (sem, w))"

definition CloseSemaphore :: "('w, 'a) services \<Rightarrow> 'w \<Rightarrow> semaphore \<Rightarrow> bool \<times> semaphore \<times> 'w" where
  "CloseSemaphore srv w sem = (let (r, sem, w) = sys_sem_destroy srv sem w in (r = 0, sem, w))"

definition IncreaseSemaphore :: "('w, 'a) services \<Rightarrow> 'w \<Rightarrow> semaphore \<Rightarrow> bool \<times> semaphore \<times> 'w" where
  "IncreaseSemaphore srv w sem = (let (r, sem, w) = sys_sem_post srv sem w in (r = 0, sem, w))"

text \<open>The result of \<open>sem_wait\<close> is returned as it is.\<close>

definition WaitOnSemaphore :: "('w, 'a) services \<Rightarrow> 'w \<Rightarrow> semaphore \<Rightarrow> bool \<times> semaphore \<times> 'w" where
  "WaitOnSemaphore srv w sem = (let (r, sem, w) = sys_sem_wait srv sem w in (r \<noteq> 0, sem, w))"

section \<open>Properties\<close>

text \<open>
  Between \<open>StartTiming\<close> and \<open>StopTiming\<close>, the difference is the time that has passed in seconds, rounded once,
  as long as the nanoseconds of the clock fit an \<open>isz\<close> and their difference is below \<open>2 ^ 53\<close>, 104 days.
\<close>

theorem Timing_measures:
  assumes "TimingFreq g = f64_of clk" "\<bar>clk\<bar> < 2 ^ 31"
    and "sys_clock_gettime srv clk w = (Some (s, n), w1)" "sys_clock_gettime srv clk w2 = (Some (s', n'), w3)"
    and "0 \<le> s" "s < 2 ^ 33" "0 \<le> n" "n < 1000000000" "0 \<le> s'" "s' < 2 ^ 33" "0 \<le> n'" "n' < 1000000000"
    and "\<bar>(s' * 1000000000 + n') - (s * 1000000000 + n)\<bar> < 2 ^ 53"
  shows "\<exists>info'. StartTiming srv g junk w info = Some (info', w1)
    \<and> StopTiming srv g junk w2 info' = Some (info'\<lparr>End := s' * 1000000000 + n',
       Diff := round_f64 (of_int ((s' * 1000000000 + n') - (s * 1000000000 + n)) / 1000000000)\<rparr>, w3)"
proof -
  let ?a = "s * 1000000000 + n" and ?b = "s' * 1000000000 + n'"
  have "\<bar>clk\<bar> < 2 ^ 53" using assms(2) by simp
  then have c: "cast_int (- (2 ^ 31)) (2 ^ 31 - 1) (TimingFreq g) = Some clk"
    using assms(2) by (auto simp: assms(1) cast_int_def int_part_def abs_less_iff)
  have clock: "clock_ns srv g junk w = Some (?a, w1)" "clock_ns srv g junk w2 = Some (?b, w3)"
    using assms(3-12) by (simp_all only: clock_ns_def c bind.simps) simp_all
  have "chk64 (?b - ?a) = Some (?b - ?a)" using assms(5-12) by simp
  moreover have "f64_div (f64_of (?b - ?a)) (f64_of 1000000000) = round_f64 (of_int (?b - ?a) / 1000000000)"
    using assms(13) by simp
  ultimately show ?thesis
    using clock by (simp add: StartTiming_def StopTiming_def)
qed

text \<open>What \<open>setpriority\<close> and \<open>getpriority\<close> do with the priorities there are.\<close>

definition priority_law :: "('w, 'a) services \<Rightarrow> bool" where
  "priority_law srv \<longleftrightarrow>
     (\<forall>tid p w r w'. - 20 \<le> p \<longrightarrow> p \<le> 19 \<longrightarrow> sys_setpriority srv tid p w = (r, w') \<longrightarrow> r = 0 \<longrightarrow> sys_getpriority srv tid w' = p)"

text \<open>
  The scheduling that was set is the one that is got: after \<open>ChangeThreadScheduling\<close> has succeeded,
  \<open>GetThreadScheduling\<close> returns it, and \<open>SCHEDULE_NORMAL\<close> for a number that is none.
\<close>

theorem ThreadScheduling_round_trip:
  assumes "priority_law srv" "ChangeThreadScheduling srv m w thread new = Some (True, w')"
  shows "GetThreadScheduling srv m w' thread
    = Some (if new \<in> {SCHEDULE_LOW, SCHEDULE_HIGH} then new else SCHEDULE_NORMAL)"
proof -
  obtain tid where tid: "GetThreadID m (Handle thread) = Some tid" "sys_setpriority srv tid (priority_of new) w = (0, w')"
    using assms(2) by (auto simp: ChangeThreadScheduling_def split: bind_splits prod.splits)
  have "- 20 \<le> priority_of new" "priority_of new \<le> 19" by (simp_all add: priority_of_def)
  with assms(1) tid(2) have "sys_getpriority srv tid w' = priority_of new" unfolding priority_law_def by blast
  then show ?thesis using tid(1) by (simp add: GetThreadScheduling_def priority_of_def schedule_defs)
qed

text \<open>What the calls do to the value of a semaphore.\<close>

definition sem_law :: "('w, 'a) services \<Rightarrow> (semaphore \<Rightarrow> 'w \<Rightarrow> nat) \<Rightarrow> bool" where
  "sem_law srv val \<longleftrightarrow>
     (\<forall>h w r h' w'. sys_sem_post srv h w = (r, h', w') \<longrightarrow> val h' w' = (if r = 0 then Suc (val h w) else val h w))
     \<and> (\<forall>h w r h' w'. sys_sem_wait srv h w = (r, h', w') \<longrightarrow> val h w = (if r = 0 then Suc (val h' w') else val h' w'))"

datatype sem_op = Inc | Wait

text \<open>A sequence of operations on one semaphore, with their results.\<close>

fun sem_run :: "('w, 'a) services \<Rightarrow> sem_op list \<Rightarrow> semaphore \<Rightarrow> 'w \<Rightarrow> (sem_op \<times> bool) list \<times> semaphore \<times> 'w" where
  "sem_run srv [] h w = ([], h, w)"
| "sem_run srv (a # as) h w =
     (let (r, h, w) = (case a of Inc \<Rightarrow> IncreaseSemaphore srv w h | Wait \<Rightarrow> WaitOnSemaphore srv w h);
          (rs, h, w) = sem_run srv as h w
      in ((a, r) # rs, h, w))"

text \<open>
  C30: over any sequence of operations, the value of a semaphore has grown by the number of calls of
  \<open>IncreaseSemaphore\<close> that returned true, less the number of calls of \<open>WaitOnSemaphore\<close> that returned false: the
  result of \<open>WaitOnSemaphore\<close> is true when it failed.
\<close>

theorem Semaphore_counts:
  assumes "sem_law srv val" "sem_run srv ops h w = (rs, h', w')"
  shows "val h' w' + length (filter ((=) (Wait, False)) rs) = val h w + length (filter ((=) (Inc, True)) rs)"
  using assms(2)
proof (induction ops arbitrary: h w rs)
  case (Cons a as)
  obtain r h1 w1 where step: "(case a of Inc \<Rightarrow> IncreaseSemaphore srv w h | Wait \<Rightarrow> WaitOnSemaphore srv w h) = (r, h1, w1)"
    by (rule prod_cases3)
  obtain rs1 h2 w2 where run: "sem_run srv as h1 w1 = (rs1, h2, w2)" by (rule prod_cases3)
  have rs: "rs = (a, r) # rs1" "h2 = h'" "w2 = w'" using Cons.prems step run by simp_all
  have "val h1 w1 + (if (a, r) = (Wait, False) then 1 else 0) = val h w + (if (a, r) = (Inc, True) then 1 else 0)"
  proof (cases a)
    case Inc
    then obtain e where e: "sys_sem_post srv h w = (e, h1, w1)" "r = (e = 0)"
      using step by (auto simp: IncreaseSemaphore_def split: prod.splits)
    then have "val h1 w1 = (if e = 0 then Suc (val h w) else val h w)" using assms(1) unfolding sem_law_def by blast
    then show ?thesis using Inc e(2) by simp
  next
    case Wait
    then obtain e where e: "sys_sem_wait srv h w = (e, h1, w1)" "r = (e \<noteq> 0)"
      using step by (auto simp: WaitOnSemaphore_def split: prod.splits)
    then have "val h w = (if e = 0 then Suc (val h1 w1) else val h1 w1)" using assms(1) unfolding sem_law_def by blast
    then show ?thesis using Wait e(2) by simp
  qed
  then show ?case using Cons.IH [OF run [unfolded rs(2,3)]] by (auto simp: rs(1) split: if_splits)
qed simp

section \<open>A concrete system\<close>

text \<open>A state is the time in nanoseconds and the priorities; the first byte of a semaphore is its value.\<close>

type_synonym srv_state = "int \<times> (32 word \<Rightarrow> int)"

definition sim_post :: "semaphore \<Rightarrow> srv_state \<Rightarrow> int \<times> semaphore \<times> srv_state" where
  "sim_post h w = (if h \<noteq> [] \<and> hd h \<noteq> - 1 then (0, (hd h + 1) # tl h, w) else (- 1, h, w))"

definition sim_wait :: "semaphore \<Rightarrow> srv_state \<Rightarrow> int \<times> semaphore \<times> srv_state" where
  "sim_wait h w = (if h \<noteq> [] \<and> hd h \<noteq> 0 then (0, (hd h - 1) # tl h, w) else (- 1, h, w))"

definition sim_val :: "semaphore \<Rightarrow> srv_state \<Rightarrow> nat" where
  "sim_val h w = (if h = [] then 0 else unat (hd h))"

definition sim_services :: "(srv_state, nat) services" where
  "sim_services = \<lparr>sys_sysinfo = (\<lambda>w. 0x40000000), sys_getpagesize = (\<lambda>w. 4096), sys_get_nprocs = (\<lambda>w. 4), sys_uname = (\<lambda>w. [0x36, 0x2E, 0x31, 0x30]),
     sys_clock_gettime = (\<lambda>clk w. (Some (fst w div 1000000000, fst w mod 1000000000), w)), sys_time = (\<lambda>w. (fst w div 1000000000, w)),
     sys_gmtime = (\<lambda>t. None), sys_localtime = (\<lambda>t w. None), sys_dlopen = (\<lambda>name flags w. (0, w)), sys_dlsym = (\<lambda>l s w. 0), sys_dlclose = (\<lambda>l w. (- 1, w)),
     sys_attr_init = (\<lambda>w. (0, 0, w)), sys_attr_setdetachstate = (\<lambda>a d. (0, a)), sys_attr_setguardsize = (\<lambda>a n. (0, a)), sys_attr_setstacksize = (\<lambda>a n. (0, a)),
     sys_thread_create = (\<lambda>a f x w. (0, 0x1000, w)), sys_thread_join = (\<lambda>t w. (0, w)), sys_thread_kill = (\<lambda>t s w. (0, w)),
     sys_setpriority = (\<lambda>t p w. (0, (fst w, (snd w)(t := p)))), sys_getpriority = (\<lambda>t w. snd w t),
     sys_mutex_init = (\<lambda>h w. (0, h, w)), sys_mutex_destroy = (\<lambda>h w. (0, h, w)), sys_mutex_lock = (\<lambda>h w. (0, h, w)), sys_mutex_unlock = (\<lambda>h w. (0, h, w)),
     sys_sem_init = (\<lambda>h n w. (0, ucast n # tl h, w)), sys_sem_destroy = (\<lambda>h w. (0, h, w)), sys_sem_post = sim_post, sys_sem_wait = sim_wait\<rparr>"

theorem Timing_measures_witness:
  "\<exists>info'. StartTiming sim_services \<lparr>PageSize = 4096, MemBlockSize = 4096, NumThreads = 4, AddressRange = (0, 0), TimingFreq = f64_of 7, OSVersion = 0\<rparr>
      (0, 0) (1000000001, \<lambda>t. 0) \<lparr>Start = 0, End = 0, Diff = NaN\<rparr> = Some (info', (1000000001, \<lambda>t. 0))
    \<and> StopTiming sim_services \<lparr>PageSize = 4096, MemBlockSize = 4096, NumThreads = 4, AddressRange = (0, 0), TimingFreq = f64_of 7, OSVersion = 0\<rparr>
      (0, 0) (3500000001, \<lambda>t. 0) info' = Some (info'\<lparr>End := 3500000001, Diff := Fin (5 / 2)\<rparr>, (3500000001, \<lambda>t. 0))"
proof -
  let ?g = "\<lparr>PageSize = 4096, MemBlockSize = 4096, NumThreads = 4, AddressRange = (0, 0), TimingFreq = f64_of 7, OSVersion = 0\<rparr>"
  have "round_f64 (5 / 2) = Fin (5 / 2)" using round_exact [OF is_f64_fraction, of 5 1] by simp
  then show ?thesis
    using Timing_measures [of ?g 7 sim_services "(1000000001, \<lambda>t. 0)" 1 1 "(1000000001, \<lambda>t. 0)" "(3500000001, \<lambda>t. 0)" 3 500000001
        "(3500000001, \<lambda>t. 0)" "(0, 0)" "\<lparr>Start = 0, End = 0, Diff = NaN\<rparr>"]
    by (simp add: sim_services_def)
qed

theorem ThreadScheduling_round_trip_witness:
  "GetThreadScheduling sim_services (\<lambda>q. Some 7) (0, (\<lambda>t. 0)(0x07070707 := 19)) \<lparr>Handle = 0x1000\<rparr> = Some SCHEDULE_LOW"
proof -
  have "load_bytes (\<lambda>q. Some 7) (0x1000 + 720) 4 = Some [7, 7, 7, 7]" by (simp add: eval_nat_numeral)
  then have tid: "GetThreadID (\<lambda>q. Some 7) 0x1000 = Some 0x07070707"
    by (simp add: GetThreadID_def load_word_def bytes_word_def)
  have "priority_law sim_services" by (auto simp: priority_law_def sim_services_def)
  moreover have "ChangeThreadScheduling sim_services (\<lambda>q. Some 7) (0, \<lambda>t. 0) \<lparr>Handle = 0x1000\<rparr> SCHEDULE_LOW
      = Some (True, (0, (\<lambda>t. 0)(0x07070707 := 19)))"
    by (simp add: ChangeThreadScheduling_def tid sim_services_def priority_of_def schedule_defs)
  ultimately show ?thesis using ThreadScheduling_round_trip by (fastforce simp: schedule_defs)
qed

theorem Semaphore_counts_witness:
  "\<exists>rs h' w'. sem_run sim_services [Inc, Wait, Wait] (replicate 32 0) (0, \<lambda>t. 0) = (rs, h', w')
    \<and> rs = [(Inc, True), (Wait, False), (Wait, True)] \<and> sim_val h' w' = 0"
proof -
  have "unat (x + 1) = Suc (unat x)" if "x \<noteq> - 1" for x :: u8
    using unatSuc [of x] that by (simp add: add.commute eq_neg_iff_add_eq_0)
  moreover have "unat x = Suc (unat (x - 1))" if "x \<noteq> 0" for x :: u8 using that by (simp add: unat_minus_one unat_gt_0)
  ultimately have law: "sem_law sim_services sim_val"
    by (auto simp: sem_law_def sim_services_def sim_post_def sim_wait_def sim_val_def split: if_splits)
  obtain rs h' w' where run: "sem_run sim_services [Inc, Wait, Wait] (replicate 32 0) (0, \<lambda>t. 0) = (rs, h', w')" by (rule prod_cases3)
  moreover have "rs = [(Inc, True), (Wait, False), (Wait, True)]"
    using run by (simp add: sim_services_def IncreaseSemaphore_def WaitOnSemaphore_def sim_post_def sim_wait_def)
  moreover have "sim_val h' w' = 0" using Semaphore_counts [OF law run] calculation(2) by (simp add: sim_val_def)
  ultimately show ?thesis by blast
qed

end
