(* ===== verification/WinPaths.thy ===== *)
theory WinPaths
  imports Paths Atomic
begin

text \<open>
  Paths on Windows (\<open>src/tinybase-platform-win32.c\<close>, lines 434 to 601): strings in UTF-16LE with room for
  \<open>MAX_PATH_SIZE_W\<close> bytes, components separated by backslashes; slashes are taken for backslashes in what is
  appended. \<open>lit\<close> is the address of the literal \<open>L"\\"\<close>. A \<open>wchar_t\<close> is a \<open>16 word\<close>.
\<close>

unbundle bit_operations_syntax

definition MAX_PATH_SIZE_W :: usz where "MAX_PATH_SIZE_W = 520"

abbreviation bslash :: u16 where "bslash \<equiv> 0x5C"
abbreviation wslash :: u16 where "wslash \<equiv> 0x2F"
abbreviation wdot :: u16 where "wdot \<equiv> 0x2E"

section \<open>Wide strings\<close>

definition wcslen :: "mem \<Rightarrow> ptr \<Rightarrow> usz option" where
  "wcslen m s = do { p \<leftarrow> scan_zero 2 m s; Some ((p - s) div 2) }"

fun load_units :: "mem \<Rightarrow> ptr \<Rightarrow> nat \<Rightarrow> u16 list option" where
  "load_units m p 0 = Some []"
| "load_units m p (Suc n) = do { u \<leftarrow> load_word m p; us \<leftarrow> load_units m (p + 2) n; Some (u # us) }"

definition wstring :: "mem \<Rightarrow> ptr \<Rightarrow> u16 list option" where
  "wstring m p = do { n \<leftarrow> wcslen m p; load_units m p (unat n) }"

section \<open>Operations\<close>

definition Path_W :: "ptr \<Rightarrow> path" where
  "Path_W mem = String mem 0 (MAX_PATH_SIZE_W - 2) EC_UTF16LE"

definition PathCString_W :: "mem \<Rightarrow> ptr \<Rightarrow> path option" where
  "PathCString_W m cString =
     do {
       n \<leftarrow> wcslen m cString;
       let cStringSize = 2 * n;
       Some ((String cString 0 0 EC_UTF16LE)\<lparr>WriteCur := Min cStringSize MAX_PATH_SIZE_W\<rparr>)
     }"

definition Backslash :: "ptr \<Rightarrow> tb_string" where
  "Backslash lit = String lit 2 0 EC_UTF16LE"

function MoveUp_loop_W :: "dispatch \<Rightarrow> mem \<Rightarrow> ptr \<Rightarrow> path \<Rightarrow> usz \<Rightarrow> usz \<Rightarrow> path option" where
  "MoveUp_loop_W d m lit p count moveUpCount =
     (if count < moveUpCount
      then do {
        backslashIdx \<leftarrow> StringInString d m (Backslash lit) p (RETURN_IDX_FIND OR SEARCH_REVERSE);
        if backslashIdx = INVALID_IDX then Some (p\<lparr>WriteCur := 0\<rparr>)
        else MoveUp_loop_W d m lit (p\<lparr>WriteCur := backslashIdx\<rparr>) (count + 1) moveUpCount
      }
      else Some p)"
  by pat_completeness auto
termination
  by (relation "measure (\<lambda>(d, m, lit, p, i, n). unat n - unat i)") (auto simp: unat_Suc_less word_less_nat_alt)

declare MoveUp_loop_W.simps [simp del]

definition MoveUpPath_W :: "dispatch \<Rightarrow> mem \<Rightarrow> ptr \<Rightarrow> path \<Rightarrow> usz \<Rightarrow> (bool \<times> path) option" where
  "MoveUpPath_W d m lit p moveUpCount =
     do {
       lastChar \<leftarrow> load_word m (Base p + WriteCur p - 2);
       let p = (if lastChar = bslash then p\<lparr>WriteCur := WriteCur p - 2\<rparr> else p);
       let currentWriteCur = WriteCur p;
       p \<leftarrow> MoveUp_loop_W d m lit p 0 moveUpCount;
       let p = (if WriteCur p > 0 then p\<lparr>WriteCur := WriteCur p + 2\<rparr> else p);
       Some (WriteCur p \<noteq> currentWriteCur, p)
     }"

text \<open>
  One character of the loop of \<open>_AppendPathToPath\<close>, which compares whole characters. The state is as in
  \<open>Path_char\<close> of Linux.
\<close>

definition Path_char_W ::
  "dispatch \<Rightarrow> ptr \<Rightarrow> path \<Rightarrow> usz \<Rightarrow> mem \<Rightarrow> path \<Rightarrow> usz \<Rightarrow> usz \<Rightarrow> u16 \<Rightarrow> u16 \<Rightarrow> u16
    \<Rightarrow> (mem \<times> (path \<times> usz \<times> usz) option) option" where
  "Path_char_W d lit src readIdx m tmp dirCharCount readStart c0 c1 c2 =
     (if c2 = bslash \<or> c2 = wslash
      then
        if dirCharCount = 1 \<and> c1 = wdot then Some (m, Some (tmp, 0, readIdx + 2))
        else if dirCharCount = 2 \<and> c0 = wdot \<and> c1 = wdot
        then do { (_, tmp) \<leftarrow> MoveUpPath_W d m lit tmp 1; Some (m, Some (tmp, 0, readIdx + 2)) }
        else do {
          let dir = String (Base src + readStart) (readIdx - readStart) 0 (Enc src);
          (ok, m, tmp) \<leftarrow> AppendStringToString m dir tmp;
          if \<not> ok then Some (m, None)
          else do {
            (ok, m, tmp) \<leftarrow> AppendStringToString m (Backslash lit) tmp;
            if \<not> ok then Some (m, None) else Some (m, Some (tmp, 0, readIdx + 2))
          }
        }
      else Some (m, Some (tmp, dirCharCount + 1, readStart)))"

text \<open>A source whose length is odd and ends at the end of the address space would be read for ever.\<close>

partial_function (option) AppendPath_loop_W ::
  "dispatch \<Rightarrow> ptr \<Rightarrow> path \<Rightarrow> usz \<Rightarrow> mem \<Rightarrow> path \<Rightarrow> usz \<Rightarrow> usz \<Rightarrow> u16 \<Rightarrow> u16
    \<Rightarrow> (mem \<times> (path \<times> usz \<times> usz \<times> usz) option) option" where
  "AppendPath_loop_W d lit src readIdx m tmp dirCharCount readStart c1 c2 =
     (if readIdx < WriteCur src
      then
        do {
          c \<leftarrow> load_word m (Base src + readIdx);
          (m, r) \<leftarrow> Path_char_W d lit src readIdx m tmp dirCharCount readStart c1 c2 c;
          case r of
            None \<Rightarrow> Some (m, None)
          | Some (tmp, dirCharCount, readStart) \<Rightarrow>
              AppendPath_loop_W d lit src (readIdx + 2) m tmp dirCharCount readStart c2 c
        }
      else Some (m, Some (tmp, dirCharCount, readStart, readIdx)))"

text \<open>\<open>_AppendPathToPath\<close>; the first character of the source and the last of the destination are compared by their low byte.\<close>

definition AppendPath_W :: "dispatch \<Rightarrow> mem \<Rightarrow> ptr \<Rightarrow> path \<Rightarrow> path \<Rightarrow> (bool \<times> mem \<times> path) option" where
  "AppendPath_W d m lit src dst =
     do {
       let tmp = dst;
       c \<leftarrow> (if WriteCur tmp > 0 then m (Base tmp + (WriteCur tmp - 2)) else Some 0x5C);
       (ok, m, tmp) \<leftarrow>
         (if WriteCur tmp > 0 \<and> c \<noteq> 0x5C then AppendStringToString m (Backslash lit) tmp else Some (True, m, tmp));
       if \<not> ok then Some (False, m, dst)
       else do {
         c \<leftarrow> m (Base src);
         let src = (if c = 0x5C \<or> c = 0x2F then AdvanceBuffer src 2 else src);
         (m, r) \<leftarrow> AppendPath_loop_W d lit src 0 m tmp 0 0 0 0;
         case r of
           None \<Rightarrow> Some (False, m, dst)
         | Some (tmp, dirCharCount, readStart, readIdx) \<Rightarrow>
             do {
               let dir = String (Base src + readStart) (readIdx - readStart) 0 (Enc src);
               (ok, m, tmp) \<leftarrow>
                 (if dirCharCount > 0 then AppendStringToString m dir tmp else Some (True, m, tmp));
               if \<not> ok then Some (False, m, dst)
               else do { m \<leftarrow> store_word m (Base tmp + WriteCur tmp) (0 :: u16); Some (True, m, tmp) }
             }
       }
     }"

definition AppendPathToPath_W :: "dispatch \<Rightarrow> mem \<Rightarrow> ptr \<Rightarrow> path \<Rightarrow> path \<Rightarrow> (bool \<times> mem \<times> path) option" where
  "AppendPathToPath_W d m lit newPart dst =
     (if Enc newPart = Enc dst \<and> WriteCur newPart \<le> Size dst - WriteCur dst
      then AppendPath_W d m lit newPart dst
      else Some (False, m, dst))"

text \<open>\<open>buf\<close> is the address of the local array \<open>NewPartUTF16\<close>, and of \<open>CWD\<close> below.\<close>

definition AppendStringToPath_W ::
  "dispatch \<Rightarrow> mem \<Rightarrow> ptr \<Rightarrow> ptr \<Rightarrow> tb_string \<Rightarrow> path \<Rightarrow> (bool \<times> mem \<times> path) option" where
  "AppendStringToPath_W d m lit buf newPart dst =
     (if Enc newPart \<noteq> Enc dst
      then do {
        (ok, m, src) \<leftarrow> Transcode (push_local m buf (replicate (unat MAX_PATH_SIZE_W) 0)) newPart (Path_W buf);
        (r, m, dst) \<leftarrow> (if ok then AppendPath_W d m lit src dst else Some (False, m, dst));
        Some (r, pop_local m buf (unat MAX_PATH_SIZE_W), dst)
      }
      else AppendPath_W d m lit newPart dst)"

definition AppendDataToPath_W ::
  "dispatch \<Rightarrow> mem \<Rightarrow> ptr \<Rightarrow> ptr \<Rightarrow> usz \<Rightarrow> path \<Rightarrow> (bool \<times> mem \<times> path) option" where
  "AppendDataToPath_W d m lit newPart newPartSize dst =
     AppendPath_W d m lit ((Path_W newPart)\<lparr>WriteCur := newPartSize\<rparr>) dst"

definition AppendArrayToPath_W ::
  "dispatch \<Rightarrow> mem \<Rightarrow> ptr \<Rightarrow> ptr \<Rightarrow> path \<Rightarrow> (bool \<times> mem \<times> path) option" where
  "AppendArrayToPath_W d m lit newPart dst =
     do { newPartPath \<leftarrow> PathCString_W m newPart; AppendPath_W d m lit newPartPath dst }"

text \<open>\<open>GetCurrentDirectoryW\<close> takes a number of characters, and gives one with the bytes that it writes.\<close>

definition AppendCWDToPath_W ::
  "(u32 \<Rightarrow> u32 \<times> u8 list) \<Rightarrow> dispatch \<Rightarrow> mem \<Rightarrow> ptr \<Rightarrow> ptr \<Rightarrow> path \<Rightarrow> (bool \<times> mem \<times> path) option" where
  "AppendCWDToPath_W getCurrentDirectory d m lit cwd dst =
     do {
       let m = push_local m cwd (replicate (unat MAX_PATH_SIZE_W) 0);
       let (n, name) = getCurrentDirectory (ucast (MAX_PATH_SIZE_W div 2));
       m \<leftarrow> store_bytes m cwd name;
       let len = 2 * n;
       (r, m, dst) \<leftarrow>
         (if len > 0 \<and> ucast len < MAX_PATH_SIZE_W
          then AppendPath_W d m lit ((Path_W cwd)\<lparr>WriteCur := ucast len\<rparr>) dst
          else Some (False, m, dst));
       Some (r, pop_local m cwd (unat MAX_PATH_SIZE_W), dst)
     }"

section \<open>Specification\<close>

text \<open>The bytes of a text in UTF-16LE.\<close>

definition wbytes :: "u16 list \<Rightarrow> u8 list" where
  "wbytes us = concat (map word_bytes us)"

definition low_byte :: "u16 \<Rightarrow> u8" where "low_byte u = ucast u"
definition high_byte :: "u16 \<Rightarrow> u8" where "high_byte u = ucast (drop_bit 8 u)"

text \<open>
  The characters that the code handles as it means to: the search for a backslash goes by bytes, and so finds one
  across two characters, the first of which has the high byte of the range from U+5C00 to U+5CFF.
\<close>

definition plain :: "u16 \<Rightarrow> bool" where
  "plain u \<longleftrightarrow> high_byte u \<noteq> 0x5C \<and> ((low_byte u = 0x5C \<or> low_byte u = 0x2F) \<longrightarrow> high_byte u = 0)"

text \<open>\<open>wcut\<close>: what is before the last backslash, nothing if there is none. \<open>wparent\<close> moves up by one directory.\<close>

definition wcut :: "u16 list \<Rightarrow> u16 list" where
  "wcut us = (if bslash \<in> set us then rev (tl (dropWhile (\<lambda>u. u \<noteq> bslash) (rev us))) else [])"

definition wstrip :: "u16 list \<Rightarrow> u16 list" where
  "wstrip us = (if us \<noteq> [] \<and> last us = bslash then butlast us else us)"

definition wparent :: "u16 list \<Rightarrow> u16 list" where
  "wparent us = (let c = wcut (wstrip us) in if c = [] then [] else c @ [bslash])"

text \<open>
  \<open>wresolve\<close> joins a path to \<open>tmp\<close> with room for \<open>cap\<close> bytes, as \<open>resolve\<close> does on Linux: both slashes separate,
  a backslash is written.
\<close>

datatype woutcome = WJoined "u16 list" | WFull | WOutside

fun wresolve :: "nat \<Rightarrow> u16 list \<Rightarrow> u16 list \<Rightarrow> u16 list \<Rightarrow> woutcome" where
  "wresolve cap tmp cur [] = (if 2 * (length tmp + length cur) \<le> cap then WJoined (tmp @ cur) else WFull)"
| "wresolve cap tmp cur (u # us) =
     (if u \<noteq> bslash \<and> u \<noteq> wslash then wresolve cap tmp (cur @ [u]) us
      else if cur = [wdot] then wresolve cap tmp [] us
      else if cur = [wdot, wdot] then (if tmp = [] then WOutside else wresolve cap (wparent tmp) [] us)
      else if 2 * (length tmp + length cur + 1) \<le> cap then wresolve cap (tmp @ cur @ [bslash]) [] us
      else WFull)"

definition wopen :: "u16 list \<Rightarrow> u16 list" where
  "wopen ds = (if ds = [] \<or> last ds = bslash then ds else ds @ [bslash])"

definition wjoin :: "nat \<Rightarrow> u16 list \<Rightarrow> u16 list \<Rightarrow> woutcome" where
  "wjoin cap ds ss =
     (if 2 * length (wopen ds) \<le> cap then wresolve cap (wopen ds) [] (if ss \<noteq> [] \<and> (hd ss = bslash \<or> hd ss = wslash) then tl ss else ss)
      else WFull)"

section \<open>Bytes and characters\<close>

lemma word_bytes_16: "word_bytes (u :: u16) = [low_byte u, high_byte u]"
  by (simp add: word_bytes_def low_byte_def high_byte_def upt_rec)

lemma bytes_eq_iff: "low_byte u = low_byte v \<and> high_byte u = high_byte v \<longleftrightarrow> u = v"
proof -
  have "u = v" if "word_bytes u = word_bytes v"
  proof -
    from that have "(bytes_word (word_bytes u) :: u16) = bytes_word (word_bytes v)" by (rule arg_cong)
    then show ?thesis by simp
  qed
  then show ?thesis by (auto simp: word_bytes_16)
qed

lemma bslash_bytes: "low_byte u = 0x5C \<and> high_byte u = 0 \<longleftrightarrow> u = bslash"
  using bytes_eq_iff [of u bslash] by (simp add: low_byte_def high_byte_def)

lemma wbytes_simps [simp]: "wbytes [] = []" "wbytes (u # us) = low_byte u # high_byte u # wbytes us" "wbytes (us @ vs) = wbytes us @ wbytes vs"
  by (simp_all add: wbytes_def word_bytes_16)

lemma length_wbytes [simp]: "length (wbytes us) = 2 * length us"
  by (induction us) simp_all

lemma wbytes_take: "take (2 * k) (wbytes us) = wbytes (take k us)"
proof (induction us arbitrary: k)
  case (Cons u us)
  then show ?case by (cases k) simp_all
qed simp

lemma load_unit:
  assumes "bytes_at m p [low_byte u, high_byte u]"
  shows "load_word m p = Some u"
  using load_word_at [of m p "word_bytes u", where 'a = 16] assms by (simp add: word_bytes_16 [symmetric])

text \<open>Where a backslash is found.\<close>

lemma match_backslash:
  assumes "list_all plain us"
  shows "match_at [0x5C, 0] (wbytes us) j \<longleftrightarrow> (\<exists>i. j = 2 * i \<and> i < length us \<and> us ! i = bslash)"
  using assms
proof (induction us arbitrary: j)
  case Nil
  then show ?case by (simp add: match_at_def)
next
  case (Cons u us)
  consider "j = 0" | "j = 1" | k where "j = Suc (Suc k)" by (metis One_nat_def not0_implies_Suc)
  then show ?case
  proof cases
    case 1
    then show ?thesis using bslash_bytes [of u] by (auto simp: match_at_def)
  next
    case 2
    then have "\<not> match_at [0x5C, 0] (wbytes (u # us)) j" using Cons.prems by (auto simp: match_at_def plain_def)
    moreover have "\<not> (\<exists>i. j = 2 * i \<and> i < length (u # us) \<and> (u # us) ! i = bslash)" using 2 by auto
    ultimately show ?thesis by blast
  next
    case 3
    have "match_at [0x5C, 0] (wbytes (u # us)) j \<longleftrightarrow> match_at [0x5C, 0] (wbytes us) k" using 3 by (simp add: match_at_def)
    also have "\<dots> \<longleftrightarrow> (\<exists>i. k = 2 * i \<and> i < length us \<and> us ! i = bslash)" using Cons by simp
    also have "\<dots> \<longleftrightarrow> (\<exists>i. j = 2 * i \<and> i < length (u # us) \<and> (u # us) ! i = bslash)"
    proof
      assume "\<exists>i. k = 2 * i \<and> i < length us \<and> us ! i = bslash"
      then obtain i where "k = 2 * i" "i < length us" "us ! i = bslash" by blast
      then show "\<exists>i. j = 2 * i \<and> i < length (u # us) \<and> (u # us) ! i = bslash" using 3 by (intro exI [of _ "Suc i"]) simp
    next
      assume "\<exists>i. j = 2 * i \<and> i < length (u # us) \<and> (u # us) ! i = bslash"
      then obtain i where i: "j = 2 * i" "i < length (u # us)" "(u # us) ! i = bslash" by blast
      then obtain i' where "i = Suc i'" using 3 by (cases i) auto
      then show "\<exists>i. k = 2 * i \<and> i < length us \<and> us ! i = bslash" using i 3 by (intro exI [of _ i']) simp
    qed
    finally show ?thesis .
  qed
qed

lemma wcut_split:
  assumes "bslash \<in> set us"
  obtains r where "us = wcut us @ bslash # r" "bslash \<notin> set r"
proof -
  obtain a b where ab: "us = a @ bslash # b" "bslash \<notin> set b" using split_list_last [OF assms] by blast
  have "dropWhile (\<lambda>u. u \<noteq> bslash) (rev us) = bslash # rev a" using ab by (simp add: dropWhile_append)
  then have "wcut us = a" using assms by (simp add: wcut_def)
  then show ?thesis using that ab by blast
qed

lemma last_backslash:
  assumes "list_all plain us"
  shows "last_match [0x5C, 0] (wbytes us) = (if bslash \<in> set us then Some (2 * length (wcut us)) else None)"
proof (cases "bslash \<in> set us")
  case True
  then obtain r where r: "us = wcut us @ bslash # r" "bslash \<notin> set r" by (rule wcut_split)
  have "us ! length (wcut us) = bslash" "length (wcut us) < length us" by (subst r(1), simp, subst r(1), simp)
  then have m: "match_at [0x5C, 0] (wbytes us) (2 * length (wcut us))" using match_backslash [OF assms] by blast
  have "\<not> match_at [0x5C, 0] (wbytes us) j" if j: "2 * length (wcut us) < j" for j
  proof
    assume "match_at [0x5C, 0] (wbytes us) j"
    then obtain i where i: "j = 2 * i" "i < length us" "us ! i = bslash" using match_backslash [OF assms] by blast
    then have "(wcut us @ bslash # r) ! i = bslash" "i < length (wcut us @ bslash # r)" "length (wcut us) < i" using r(1) j by simp_all
    then have "r ! (i - Suc (length (wcut us))) = bslash" "i - Suc (length (wcut us)) < length r" by (auto simp: nth_append nth_Cons')
    then show False using r(2) nth_mem by metis
  qed
  moreover have "2 * length (wcut us) < Suc (length (wbytes us))" by (subst (2) r(1)) simp
  ultimately have "last_match [0x5C, 0] (wbytes us) = Some (2 * length (wcut us))"
    unfolding last_match_def find_rev_upt_Some using m by blast
  then show ?thesis using True by simp
next
  case False
  have "\<not> match_at [0x5C, 0] (wbytes us) j" for j using match_backslash [OF assms] False by (metis nth_mem)
  then show ?thesis using False by (simp add: last_match_def find_rev_upt_None)
qed

section \<open>Moving up\<close>

abbreviation has_literal :: "mem \<Rightarrow> ptr \<Rightarrow> bool" where
  "has_literal m lit \<equiv> bytes_at m lit [0x5C, 0]"

text \<open>A string that holds the characters \<open>us\<close>.\<close>

definition holds_text :: "mem \<Rightarrow> path \<Rightarrow> u16 list \<Rightarrow> bool" where
  "holds_text m p us \<longleftrightarrow> holds m p (wbytes us) \<and> list_all plain us \<and> Enc p = EC_UTF16LE"

lemma holds_text_length: "holds_text m p us \<Longrightarrow> 2 * length us < 2 ^ 64 \<and> WriteCur p = of_nat (2 * length us)"
  using unat_lt_2p [of "WriteCur p"] by (auto simp: holds_text_def holds_def word_unat_eq_iff unat_of_nat)

lemma find_backslash:
  assumes "holds_text m p us" "has_literal m lit"
  shows "StringInString default_dispatch m (Backslash lit) p (RETURN_IDX_FIND OR SEARCH_REVERSE)
    = Some (if bslash \<in> set us then of_nat (2 * length (wcut us)) else INVALID_IDX)"
proof -
  have "holds m (Buf (Backslash lit)) [0x5C, 0]" using assms(2) by (simp add: holds_def Backslash_def)
  moreover have "holds m (Buf p) (wbytes us)" using assms(1) by (simp add: holds_text_def holds_def)
  ultimately have "BufferInBuffer default_dispatch m (Buf (Backslash lit)) (Buf p) (RETURN_IDX_FIND OR SEARCH_REVERSE)
    = Some (search_result (RETURN_IDX_FIND OR SEARCH_REVERSE) (Base p) (WriteCur (Backslash lit)) (last_match [0x5C, 0] (wbytes us)))"
    using match_reverse [of m "Buf (Backslash lit)" "[0x5C, 0]" "Buf p"] by (simp add: flag_defs)
  then show ?thesis
    using assms(1) last_backslash [of us] by (simp add: StringInString_def holds_text_def search_result_def flag_defs Backslash_def)
qed

lemma wcut_Nil [simp]: "wcut [] = []" "(wcut ^^ n) [] = []"
proof -
  show "wcut [] = []" by (simp add: wcut_def)
  then show "(wcut ^^ n) [] = []" by (induction n) simp_all
qed

lemma wcut_prefix: "\<exists>r. us = wcut us @ r"
  by (cases "bslash \<in> set us") (metis wcut_split, simp add: wcut_def)

lemma wcut_less: "us \<noteq> [] \<Longrightarrow> length (wcut us) < length us"
proof (cases "bslash \<in> set us")
  case True
  then obtain r where "us = wcut us @ bslash # r" by (rule wcut_split)
  then show ?thesis by (metis length_append length_Cons less_add_Suc1 add_Suc_right)
qed (simp add: wcut_def)

lemma wcuts_split:
  assumes "0 < n" "(wcut ^^ n) us \<noteq> []"
  shows "\<exists>r. us = (wcut ^^ n) us @ bslash # r"
proof -
  have pre: "\<exists>r. us = (wcut ^^ k) us @ r" for k
  proof (induction k)
    case (Suc k)
    then show ?case using wcut_prefix [of "(wcut ^^ k) us"] by (metis append_assoc comp_apply funpow.simps(2))
  qed simp
  obtain k where n: "n = Suc k" using assms(1) by (cases n) auto
  let ?t = "(wcut ^^ k) us"
  have "bslash \<in> set ?t" using assms(2) by (simp add: n wcut_def split: if_splits)
  then obtain r where "?t = wcut ?t @ bslash # r" by (rule wcut_split)
  with pre [of k] show ?thesis by (metis n append.assoc append_Cons comp_apply funpow.simps(2))
qed

lemma holds_text_prefix:
  assumes "holds_text m p (us @ vs)"
  shows "holds_text m (p\<lparr>WriteCur := of_nat (2 * length us)\<rparr>) us"
  using assms holds_take [of m p "wbytes (us @ vs)" "2 * length us"] wbytes_take [of "length us" "us @ vs"]
  by (simp add: holds_text_def)

lemma MoveUp_loop_W_eq:
  assumes "holds_text m p us" "has_literal m lit"
  shows "MoveUp_loop_W default_dispatch m lit p i n
    = Some (p\<lparr>WriteCur := of_nat (2 * length ((wcut ^^ (unat n - unat i)) us))\<rparr>)"
  using assms
proof (induction "unat n - unat i" arbitrary: i p us)
  case 0
  then have "\<not> i < n" by (simp add: word_less_nat_alt)
  then show ?case using 0 holds_text_length [OF 0(2)] by (subst MoveUp_loop_W.simps) simp
next
  case (Suc k)
  then have lt: "i < n" by (simp add: word_less_nat_alt)
  then have n: "unat n - unat i = Suc (unat n - unat (i + 1))" using Suc(2) by (simp add: unat_Suc_less)
  show ?case
  proof (cases "bslash \<in> set us")
    case False
    then have "wcut us = []" by (simp add: wcut_def)
    then show ?thesis using False lt find_backslash [OF Suc(3,4)] n by (subst MoveUp_loop_W.simps) (simp add: funpow_Suc_right del: funpow.simps)
  next
    case True
    obtain r where r: "us = wcut us @ r" using wcut_prefix by blast
    then have h: "holds_text m (p\<lparr>WriteCur := of_nat (2 * length (wcut us))\<rparr>) (wcut us)"
      using holds_text_prefix Suc(3) by metis
    have "length (wcut us) < length us" using True by (intro wcut_less) auto
    then have "2 * length (wcut us) < 2 ^ 64 - 1" using holds_text_length [OF Suc(3)] by linarith
    from of_nat_ne_INVALID [OF this] show ?thesis
      using True lt find_backslash [OF Suc(3,4)] n Suc(1) [OF _ h Suc(4), of "i + 1"] Suc(2)
      by (subst MoveUp_loop_W.simps) (simp add: funpow_Suc_right del: funpow.simps of_nat_mult)
  qed
qed

lemma wstrip_prefix: "\<exists>r. us = wstrip us @ r"
proof (cases "us \<noteq> [] \<and> last us = bslash")
  case True
  then have "wstrip us @ [last us] = us" using append_butlast_last_id [of us] by (simp add: wstrip_def)
  then have "us = wstrip us @ [last us]" by (rule sym)
  then show ?thesis by blast
next
  case False
  then have "us = wstrip us @ []" unfolding wstrip_def by (subst if_not_P) simp_all
  then show ?thesis by blast
qed

lemma wstrip_parent: "wstrip (wparent us) = wcut (wstrip us)"
  by (simp add: wparent_def Let_def) (simp add: wstrip_def)

lemma wparents:
  assumes "0 < n"
  shows "(wparent ^^ n) us = (let c = (wcut ^^ n) (wstrip us) in if c = [] then [] else c @ [bslash])"
  using assms
proof (induction n arbitrary: us)
  case (Suc n)
  show ?case
  proof (cases "n = 0")
    case True
    then show ?thesis by (simp add: wparent_def)
  next
    case False
    then show ?thesis using Suc.IH [of "wparent us"] by (simp add: funpow_Suc_right wstrip_parent del: funpow.simps)
  qed
qed simp

lemma last_unit:
  assumes "holds_text m p us" "us \<noteq> []"
  shows "WriteCur p - 2 = of_nat (2 * length (butlast us))" "load_word m (Base p + WriteCur p - 2) = Some (last us)"
    "m (Base p + (WriteCur p - 2)) = Some (low_byte (last us))"
proof -
  have s: "us = butlast us @ [last us]" using assms(2) by simp
  have l: "length us = Suc (length (butlast us))" using assms(2) by (cases us) simp_all
  have w: "WriteCur p = of_nat (2 * length us)" using holds_text_length [OF assms(1)] by simp
  show w2: "WriteCur p - 2 = of_nat (2 * length (butlast us))" unfolding w l by simp
  have "bytes_at m (Base p) (wbytes (butlast us @ [last us]))" using assms by (simp add: holds_text_def holds_def)
  then have b: "bytes_at m (Base p + of_nat (2 * length (butlast us))) [low_byte (last us), high_byte (last us)]"
    unfolding wbytes_simps(3) by (simp del: of_nat_mult)
  have "Base p + WriteCur p - 2 = Base p + (WriteCur p - 2)" by simp
  then show "load_word m (Base p + WriteCur p - 2) = Some (last us)" using load_unit [OF b] by (simp only: w2)
  show "m (Base p + (WriteCur p - 2)) = Some (low_byte (last us))" unfolding w2 using b by simp
qed

lemma MoveUpPath_W_eq:
  assumes "holds_text m p us" "us \<noteq> []" "has_literal m lit" "0 < n"
  shows "MoveUpPath_W default_dispatch m lit p n
    = Some (length ((wparent ^^ unat n) us) \<noteq> length (wstrip us), p\<lparr>WriteCur := of_nat (2 * length ((wparent ^^ unat n) us))\<rparr>)
    \<and> holds_text m (p\<lparr>WriteCur := of_nat (2 * length ((wparent ^^ unat n) us))\<rparr>) ((wparent ^^ unat n) us)"
proof -
  let ?s = "wstrip us" and ?r = "(wparent ^^ unat n) us"
  let ?c = "(wcut ^^ unat n) (wstrip us)" and ?p = "p\<lparr>WriteCur := of_nat (2 * length (wstrip us))\<rparr>"
  have n: "0 < unat n" using assms(4) by (simp add: word_gt_0 unat_gt_0)
  have w: "WriteCur p = of_nat (2 * length us)" "2 * length us < 2 ^ 64" using holds_text_length [OF assms(1)] by simp_all
  obtain t where t: "us = ?s @ t" using wstrip_prefix by blast
  then have h: "holds_text m ?p ?s" using holds_text_prefix assms(1) by metis
  have p: "(if last us = bslash then p\<lparr>WriteCur := WriteCur p - 2\<rparr> else p) = ?p"
    using last_unit(1) [OF assms(1,2)] assms(2) w(1) by (simp add: wstrip_def)
  note r = wparents [OF n, of us, unfolded Let_def]
  have pre: "\<exists>v. us = ?r @ v"
  proof (cases "?c = []")
    case False
    from wcuts_split [OF n False] obtain v where "?s = ?c @ bslash # v" by blast
    from arg_cong [OF this, of "\<lambda>s. s @ t"] t have "us = (?c @ bslash # v) @ t" by (rule trans [rotated])
    then have "us = ?r @ (v @ t)" unfolding r using False by simp
    then show ?thesis by blast
  qed (simp add: r)
  then obtain v where v: "us = ?r @ v" by blast
  from arg_cong [OF this, of length] have "length ?r \<le> length us" by (simp del: funpow.simps)
  moreover have "length ?s \<le> length us" using arg_cong [OF t, of length] by simp
  ultimately have "2 * length ?r < 2 ^ 64" "2 * length ?s < 2 ^ 64" using w(2) by linarith+
  then have ne: "(of_nat (2 * length ?r) :: usz) = of_nat (2 * length ?s) \<longleftrightarrow> length ?r = length ?s"
    using of_nat_usz_eq by (simp del: of_nat_mult)
  have "?c \<noteq> [] \<Longrightarrow> length ?c < length ?r" using r by simp
  then have "2 * length ?c < 2 ^ 64" using \<open>2 * length ?r < 2 ^ 64\<close> by (cases "?c = []") auto
  then have pos: "(of_nat (2 * length ?c) :: usz) > 0 \<longleftrightarrow> ?c \<noteq> []" using of_nat_pos [of "2 * length ?c"] by (simp del: of_nat_mult)
  let ?q = "p\<lparr>WriteCur := of_nat (2 * length ?c)\<rparr>"
  have cur: "(if WriteCur ?q > 0 then ?q\<lparr>WriteCur := WriteCur ?q + 2\<rparr> else ?q) = p\<lparr>WriteCur := of_nat (2 * length ?r)\<rparr>"
  proof (cases "?c = []")
    case True
    then show ?thesis by (simp add: r)
  next
    case False
    then have "(of_nat (2 * length ?r) :: usz) = of_nat (2 * length ?c) + 2" unfolding r by simp
    moreover have "WriteCur ?q > 0" using False pos by simp
    ultimately show ?thesis by (simp del: of_nat_mult funpow.simps)
  qed
  have loop: "MoveUp_loop_W default_dispatch m lit ?p 0 n = Some ?q"
    using MoveUp_loop_W_eq [OF h assms(3), of 0 n] by simp
  have "MoveUpPath_W default_dispatch m lit p n = do {
      p \<leftarrow> MoveUp_loop_W default_dispatch m lit ?p 0 n;
      let p = (if WriteCur p > 0 then p\<lparr>WriteCur := WriteCur p + 2\<rparr> else p);
      Some (WriteCur p \<noteq> of_nat (2 * length ?s), p) }"
    unfolding MoveUpPath_W_def last_unit(2) [OF assms(1,2)] by (simp only: bind.simps p Let_def) simp
  then have "MoveUpPath_W default_dispatch m lit p n = Some (length ?r \<noteq> length ?s, p\<lparr>WriteCur := of_nat (2 * length ?r)\<rparr>)"
    unfolding loop bind.simps Let_def cur using ne by (simp del: of_nat_mult funpow.simps)
  moreover have "holds_text m (p\<lparr>WriteCur := of_nat (2 * length ?r)\<rparr>) ?r" using holds_text_prefix assms(1) v by metis
  ultimately show ?thesis by simp
qed

section \<open>Joining paths\<close>

text \<open>\<open>wwalk\<close> is \<open>wresolve\<close> up to the last component.\<close>

fun wwalk :: "nat \<Rightarrow> u16 list \<Rightarrow> u16 list \<Rightarrow> u16 list \<Rightarrow> woutcome + u16 list \<times> u16 list" where
  "wwalk cap tmp cur [] = Inr (tmp, cur)"
| "wwalk cap tmp cur (u # us) =
     (if u \<noteq> bslash \<and> u \<noteq> wslash then wwalk cap tmp (cur @ [u]) us
      else if cur = [wdot] then wwalk cap tmp [] us
      else if cur = [wdot, wdot] then (if tmp = [] then Inl WOutside else wwalk cap (wparent tmp) [] us)
      else if 2 * (length tmp + length cur + 1) \<le> cap then wwalk cap (tmp @ cur @ [bslash]) [] us
      else Inl WFull)"

lemma wresolve_wwalk:
  "wresolve cap tmp cur us = (case wwalk cap tmp cur us of
     Inl e \<Rightarrow> e | Inr (t, c) \<Rightarrow> if 2 * (length t + length c) \<le> cap then WJoined (t @ c) else WFull)"
  by (induction cap tmp cur us rule: wresolve.induct) auto

text \<open>The destination: the characters \<open>ts\<close> in the space of \<open>dst\<close>, and the literal outside it.\<close>

definition wbuilding :: "mem \<Rightarrow> ptr \<Rightarrow> path \<Rightarrow> u16 list \<Rightarrow> bool" where
  "wbuilding m lit dst ts \<longleftrightarrow> building m dst (wbytes ts) \<and> list_all plain ts \<and> Enc dst = EC_UTF16LE
     \<and> has_literal m lit \<and> buf_region dst \<inter> region lit 2 = {}"

abbreviation wholding :: "path \<Rightarrow> u16 list \<Rightarrow> path" where
  "wholding dst ts \<equiv> holding dst (wbytes ts)"

lemma plain_bslash: "plain bslash"
  by (simp add: plain_def low_byte_def high_byte_def)

lemma wbuilding_facts:
  assumes "wbuilding m lit dst ts"
  shows "building m dst (wbytes ts)" "Enc dst = EC_UTF16LE" "has_literal m lit" "buf_region dst \<inter> region lit 2 = {}" "list_all plain ts"
    "holds_text m (wholding dst ts) ts"
  using assms building_facts(2) [of m dst "wbytes ts"] by (auto simp: wbuilding_def holds_text_def)

lemma wbuilding_frame:
  assumes "wbuilding m lit dst ts" "frame dst m m'" "building m' dst (wbytes us)" "list_all plain us"
  shows "wbuilding m' lit dst us"
  using assms frame_bytes_at [OF assms(2), of lit "[0x5C, 0]"] by (simp add: wbuilding_def numeral_2_eq_2)

lemma wappend:
  assumes "wbuilding m lit dst ts" "2 * (length ts + length us) \<le> unat (Size dst)" "list_all plain us"
  obtains m' where "append_result m (wholding dst ts) (wbytes us) = (True, m', wholding dst (ts @ us))"
    "wbuilding m' lit dst (ts @ us)" "frame dst m m'"
proof -
  note f = wbuilding_facts [OF assms(1)]
  have "length (wbytes ts) + length (wbytes us) \<le> unat (Size dst)" using assms(2) by simp
  from append_building [OF f(1) this] obtain m' where m':
    "append_result m (wholding dst ts) (wbytes us) = (True, m', holding dst (wbytes ts @ wbytes us))"
    "building m' dst (wbytes ts @ wbytes us)" "frame dst m m'" .
  moreover have "wbuilding m' lit dst (ts @ us)" using wbuilding_frame [OF assms(1) m'(3), of "ts @ us"] m'(2) f(5) assms(3) by simp
  ultimately show ?thesis using that by simp
qed

lemma wappend_full:
  "wbuilding m lit dst ts \<Longrightarrow> unat (Size dst) < 2 * (length ts + length us) \<Longrightarrow>
    append_result m (wholding dst ts) (wbytes us) = (False, m, wholding dst ts)"
  using append_full [of m dst "wbytes ts" "wbytes us"] by (simp add: wbuilding_def)

lemma append_backslash_eq:
  assumes "wbuilding m lit dst ts"
  shows "AppendStringToString m (Backslash lit) (wholding dst ts) = Some (append_result m (wholding dst ts) (wbytes [bslash]))"
proof -
  note f = wbuilding_facts [OF assms]
  have b: "wbytes [bslash] = [0x5C, 0]" by (simp add: low_byte_def high_byte_def)
  have "holds m (Backslash lit) [0x5C, 0]" using f(3) by (simp add: holds_def Backslash_def)
  moreover have "buf_region dst \<inter> region (Base (Backslash lit)) (length [0x5C :: u8, 0]) = {}" using f(4) by (simp add: Backslash_def numeral_2_eq_2)
  ultimately show ?thesis unfolding b using f(2) by (intro append_dir_eq [OF f(1)]) (simp_all add: Backslash_def)
qed

lemma MoveUpPath_W_building:
  assumes "wbuilding m lit dst ts" "ts \<noteq> []"
  shows "\<exists>r. MoveUpPath_W default_dispatch m lit (wholding dst ts) 1 = Some (r, wholding dst (wparent ts))" "wbuilding m lit dst (wparent ts)"
proof -
  note f = wbuilding_facts [OF assms(1)]
  note u = MoveUpPath_W_eq [OF f(6) assms(2) f(3), of 1]
  then show "\<exists>r. MoveUpPath_W default_dispatch m lit (wholding dst ts) 1 = Some (r, wholding dst (wparent ts))"
    by (simp add: holding_def)
  have h: "holds m (wholding dst (wparent ts)) (wbytes (wparent ts))" "list_all plain (wparent ts)"
    using u by (simp_all add: holds_text_def holding_def)
  have "length (wparent ts) \<le> length ts"
  proof -
    have "length (wcut (wstrip ts)) < length ts"
      using wcut_less [of "wstrip ts"] assms(2) by (cases "wstrip ts = []") (auto simp: wstrip_def split: if_splits)
    then show ?thesis by (simp add: wparent_def Let_def)
  qed
  then have "building m dst (wbytes (wparent ts))" using h(1) f(1) by (simp add: building_def holds_def)
  then show "wbuilding m lit dst (wparent ts)" using h(2) assms(1) by (simp add: wbuilding_def)
qed

lemma Path_char_W_append:
  assumes "wbuilding m lit dst ts" "Enc src = EC_UTF16LE" "list_all plain cur"
    and "bytes_at m (Base src + of_nat k) (wbytes cur)" "buf_region dst \<inter> region (Base src + of_nat k) (2 * length cur) = {}"
    and "recent cur c0 c1" "2 * length cur < 2 ^ 64" "cur \<noteq> [wdot]" "cur \<noteq> [wdot, wdot]" "c = bslash \<or> c = wslash"
    and idx: "i = of_nat k + of_nat (2 * length cur)"
  defines "r \<equiv> Path_char_W default_dispatch lit src i m (wholding dst ts) (of_nat (length cur)) (of_nat k) c0 c1 c"
  shows "if 2 * (length ts + length cur + 1) \<le> unat (Size dst)
    then \<exists>m'. r = Some (m', Some (wholding dst (ts @ cur @ [bslash]), 0, i + 2))
      \<and> wbuilding m' lit dst (ts @ cur @ [bslash]) \<and> frame dst m m'
    else \<exists>m'. r = Some (m', None) \<and> frame dst m m'"
proof -
  note f = wbuilding_facts [OF assms(1)]
  let ?dir = "String (Base src + of_nat k) (i - of_nat k) 0 (Enc src)"
  have "unat (of_nat (2 * length cur) :: usz) = 2 * length cur" using assms(7) by (rule unat_offset)
  then have "holds m ?dir (wbytes cur)" using assms(4) by (simp add: holds_def idx del: of_nat_mult)
  then have a: "AppendStringToString m ?dir (wholding dst ts) = Some (append_result m (wholding dst ts) (wbytes cur))"
    using assms(2,5) f(2) by (intro append_dir_eq [OF f(1)]) simp_all
  have "length cur < 2 ^ 64" using assms(7) by simp
  then have r: "r = do {
      (ok, m, tmp) \<leftarrow> AppendStringToString m ?dir (wholding dst ts);
      if \<not> ok then Some (m, None)
      else do {
        (ok, m, tmp) \<leftarrow> AppendStringToString m (Backslash lit) tmp;
        if \<not> ok then Some (m, None) else Some (m, Some (tmp, 0, i + 2))
      } }"
    using dot_tests [OF assms(6), of wdot] assms(8,9,10) by (auto simp: r_def Path_char_W_def)
  show ?thesis
  proof (cases "2 * (length ts + length cur) \<le> unat (Size dst)")
    case False
    then show ?thesis using wappend_full [OF assms(1), of cur] a r by simp
  next
    case True
    from wappend [OF assms(1) True assms(3)] obtain m1 where
      m1: "append_result m (wholding dst ts) (wbytes cur) = (True, m1, wholding dst (ts @ cur))" "wbuilding m1 lit dst (ts @ cur)" "frame dst m m1" .
    note s = append_backslash_eq [OF m1(2)]
    show ?thesis
    proof (cases "2 * (length (ts @ cur) + length [bslash]) \<le> unat (Size dst)")
      case False
      then show ?thesis using wappend_full [OF m1(2), of "[bslash]"] a r m1 s by (simp del: wbytes_simps)
    next
      case True
      have "list_all plain [bslash]" using plain_bslash by simp
      from wappend [OF m1(2) True this] obtain m2 where
        m2: "append_result m1 (wholding dst (ts @ cur)) (wbytes [bslash]) = (True, m2, wholding dst ((ts @ cur) @ [bslash]))"
        "wbuilding m2 lit dst ((ts @ cur) @ [bslash])" "frame dst m1 m2" .
      with True show ?thesis using a r m1 s frame_trans [OF m1(3) m2(3)] by (simp del: wbytes_simps)
    qed
  qed
qed

lemma load_unit_nth:
  assumes "bytes_at m p (wbytes us)" "k < length us"
  shows "load_word m (p + of_nat (2 * k)) = Some (us ! k)" "m (p + of_nat (2 * k)) = Some (low_byte (us ! k))"
proof -
  have "wbytes us = wbytes (take k us @ us ! k # drop (Suc k) us)" using id_take_nth_drop [OF assms(2)] by simp
  then have "bytes_at m p (wbytes (take k us) @ [low_byte (us ! k), high_byte (us ! k)] @ wbytes (drop (Suc k) us))" using assms(1) by simp
  then have b: "bytes_at m (p + of_nat (2 * k)) [low_byte (us ! k), high_byte (us ! k)]"
    using assms(2) by (simp del: of_nat_mult add: min_absorb2)
  then show "load_word m (p + of_nat (2 * k)) = Some (us ! k)" by (rule load_unit)
  show "m (p + of_nat (2 * k)) = Some (low_byte (us ! k))" using b by simp
qed

definition wwalked ::
  "mem \<Rightarrow> ptr \<Rightarrow> path \<Rightarrow> u16 list \<Rightarrow> woutcome + u16 list \<times> u16 list \<Rightarrow> (mem \<times> (path \<times> usz \<times> usz \<times> usz) option) option \<Rightarrow> bool" where
  "wwalked m lit dst ss w r \<longleftrightarrow>
     (case w of
        Inl WFull \<Rightarrow> (\<exists>m'. r = Some (m', None) \<and> frame dst m m')
      | Inl _ \<Rightarrow> True
      | Inr (ts, cur) \<Rightarrow> (\<exists>m' pre. r = Some (m', Some (wholding dst ts, of_nat (length cur), of_nat (2 * length pre), of_nat (2 * length ss)))
          \<and> ss = pre @ cur \<and> wbuilding m' lit dst ts \<and> frame dst m m'))"

lemma wwalked_frame: "wwalked m' lit dst ss w r \<Longrightarrow> frame dst m m' \<Longrightarrow> wwalked m lit dst ss w r"
  by (auto simp: wwalked_def split: sum.splits woutcome.splits intro: frame_trans)

lemma AppendPath_loop_W_eq:
  assumes "wbuilding m lit dst ts" "Enc src = EC_UTF16LE" "list_all plain ss"
    and "holds m src (wbytes ss)" "buf_region dst \<inter> region (Base src) (2 * length ss) = {}"
    and "ss = pre @ cur @ us" "recent cur c1 c2" "i = of_nat (2 * length pre) + of_nat (2 * length cur)"
  shows "wwalked m lit dst ss (wwalk (unat (Size dst)) ts cur us)
    (AppendPath_loop_W default_dispatch lit src i m (wholding dst ts) (of_nat (length cur)) (of_nat (2 * length pre)) c1 c2)"
  using assms
proof (induction us arbitrary: m ts pre cur c1 c2 i)
  case Nil
  have e: "2 * length ss = unat (WriteCur src)" using Nil.prems(4) by (simp add: holds_def)
  have "of_nat (2 * length ss) = WriteCur src" unfolding e by simp
  moreover have "of_nat (2 * length ss) = i" using Nil.prems(6,8) by (simp add: algebra_simps)
  ultimately have "WriteCur src = i" "of_nat (2 * length ss) = i" by simp_all
  then show ?case using Nil.prems by (subst AppendPath_loop_W.simps) (auto simp: wwalked_def simp del: of_nat_mult)
next
  case (Cons u us)
  note p = Cons.prems
  have w: "2 * length ss = unat (WriteCur src)" "bytes_at m (Base src) (wbytes ss)" using p(4) by (simp_all add: holds_def)
  have len: "2 * length ss < 2 ^ 64" using w(1) unat_lt_2p [of "WriteCur src"] by simp
  have i: "i = of_nat (2 * (length pre + length cur))" using p(8) by (simp add: algebra_simps)
  have lt: "length pre + length cur < length ss" using p(6) by simp
  have ui: "unat i = 2 * (length pre + length cur)" unfolding i by (rule unat_offset, rule le_less_trans [OF _ len]) (use lt in simp)
  then have less: "i < WriteCur src" using lt w(1) by (simp add: word_less_nat_alt)
  have "ss ! (length pre + length cur) = u" by (simp add: p(6) nth_append)
  then have "load_word m (Base src + i) = Some u" using load_unit_nth(1) [OF w(2) lt] i by (simp del: of_nat_mult)
  with less have unf: "AppendPath_loop_W default_dispatch lit src i m (wholding dst ts) (of_nat (length cur)) (of_nat (2 * length pre)) c1 c2
    = do {
        (m, r) \<leftarrow> Path_char_W default_dispatch lit src i m (wholding dst ts) (of_nat (length cur)) (of_nat (2 * length pre)) c1 c2 u;
        case r of
          None \<Rightarrow> Some (m, None)
        | Some (tmp, n, k) \<Rightarrow> AppendPath_loop_W default_dispatch lit src (i + 2) m tmp n k c2 u
      }" (is "?loop = _") by (subst AppendPath_loop_W.simps) (simp del: of_nat_mult)
  have pl: "list_all plain cur" using p(3,6) by simp
  have "bytes_at m (Base src) (wbytes pre @ wbytes cur @ wbytes (u # us))" using w(2) p(6) by simp
  then have cur: "bytes_at m (Base src + of_nat (2 * length pre)) (wbytes cur)" by (simp del: wbytes_simps of_nat_mult)
  have reg: "buf_region dst \<inter> region (Base src + of_nat (2 * length pre)) (2 * length cur) = {}"
    using p(5) region_offset [of "2 * length pre" "2 * length cur" "2 * length ss" "Base src"] lt by fastforce
  have l: "2 * length cur < 2 ^ 64" "length cur < 2 ^ 64" using lt len by linarith+
  note dots = dot_tests [OF p(7) l(2), of wdot]
  have k: "of_nat (2 * length (pre @ cur @ [u])) = i + 2" using i by (simp add: algebra_simps)
  have next_i: "i + 2 = of_nat (2 * length (pre @ cur @ [u])) + of_nat (2 * length [])" using k by simp
  have split: "ss = (pre @ cur @ [u]) @ [] @ us" using p(6) by simp
  consider "u \<noteq> bslash" "u \<noteq> wslash" | "u = bslash \<or> u = wslash" "cur = [wdot]" | "u = bslash \<or> u = wslash" "cur = [wdot, wdot]" "ts = []"
    | "u = bslash \<or> u = wslash" "cur = [wdot, wdot]" "ts \<noteq> []" | "u = bslash \<or> u = wslash" "cur \<noteq> [wdot]" "cur \<noteq> [wdot, wdot]" by blast
  then show ?case
  proof cases
    case 1
    then have "?loop = AppendPath_loop_W default_dispatch lit src (i + 2) m (wholding dst ts) (of_nat (length (cur @ [u]))) (of_nat (2 * length pre)) c2 u"
      unfolding unf by (simp add: Path_char_W_def add.commute del: of_nat_mult)
    moreover have ii: "i + 2 = of_nat (2 * length pre) + of_nat (2 * length (cur @ [u]))" using i by (simp add: algebra_simps)
    have "wwalked m lit dst ss (wwalk (unat (Size dst)) ts (cur @ [u]) us)
        (AppendPath_loop_W default_dispatch lit src (i + 2) m (wholding dst ts) (of_nat (length (cur @ [u]))) (of_nat (2 * length pre)) c2 u)"
      by (rule Cons.IH [OF p(1-5) _ recent_snoc [OF p(7)] ii]) (use p(6) in simp)
    moreover have "wwalk (unat (Size dst)) ts cur (u # us) = wwalk (unat (Size dst)) ts (cur @ [u]) us" using 1 by simp
    ultimately show ?thesis by (simp only:)
  next
    case 2
    then have "?loop = AppendPath_loop_W default_dispatch lit src (i + 2) m (wholding dst ts) (of_nat (length [])) (of_nat (2 * length (pre @ cur @ [u]))) c2 u"
      unfolding unf k using dots by (auto simp: Path_char_W_def simp del: of_nat_mult)
    then show ?thesis
      using 2 Cons.IH [OF p(1-5) split _ next_i, of c2 u] by (auto simp: recent_def simp del: of_nat_mult)
  next
    case 3
    then show ?thesis by (auto simp: wwalked_def)
  next
    case 4
    from MoveUpPath_W_building [OF p(1) 4(3)] obtain r where
      r: "MoveUpPath_W default_dispatch m lit (wholding dst ts) 1 = Some (r, wholding dst (wparent ts))" "wbuilding m lit dst (wparent ts)" by blast
    then have "?loop = AppendPath_loop_W default_dispatch lit src (i + 2) m (wholding dst (wparent ts)) (of_nat (length [])) (of_nat (2 * length (pre @ cur @ [u]))) c2 u"
      unfolding unf k using dots 4 by (auto simp: Path_char_W_def simp del: of_nat_mult)
    then show ?thesis
      using 4 Cons.IH [OF r(2) p(2-5) split _ next_i, of c2 u] by (auto simp: recent_def simp del: of_nat_mult)
  next
    case 5
    have "i = of_nat (2 * length pre) + of_nat (2 * length cur)" by (rule p(8))
    note a = Path_char_W_append [OF p(1,2) pl cur reg p(7) l(1) 5(2,3,1) this]
    show ?thesis
    proof (cases "2 * (length ts + length cur + 1) \<le> unat (Size dst)")
      case True
      with a obtain m1 where
        m1: "Path_char_W default_dispatch lit src i m (wholding dst ts) (of_nat (length cur)) (of_nat (2 * length pre)) c1 c2 u
          = Some (m1, Some (wholding dst (ts @ cur @ [bslash]), 0, i + 2))" "wbuilding m1 lit dst (ts @ cur @ [bslash])" "frame dst m m1"
        by auto
      then have "?loop = AppendPath_loop_W default_dispatch lit src (i + 2) m1 (wholding dst (ts @ cur @ [bslash])) (of_nat (length [])) (of_nat (2 * length (pre @ cur @ [u]))) c2 u"
        unfolding unf k by (simp del: of_nat_mult wbytes_simps)
      moreover have "holds m1 src (wbytes ss)"
        using p(4) frame_bytes_at [OF m1(3), of "Base src" "wbytes ss"] p(5) by (simp add: holds_def)
      ultimately show ?thesis
        using 5 True wwalked_frame [OF Cons.IH [OF m1(2) p(2,3) _ p(5) split _ next_i, of c2 u] m1(3)] by (auto simp: recent_def simp del: of_nat_mult)
    next
      case False
      with a show ?thesis unfolding unf using 5 by (auto simp: wwalked_def simp del: of_nat_mult)
    qed
  qed
qed

text \<open>The loop and what follows it.\<close>

definition path_rest_W :: "dispatch \<Rightarrow> mem \<Rightarrow> ptr \<Rightarrow> path \<Rightarrow> path \<Rightarrow> path \<Rightarrow> (bool \<times> mem \<times> path) option" where
  "path_rest_W d m lit src dst tmp =
     do {
       (m, r) \<leftarrow> AppendPath_loop_W d lit src 0 m tmp 0 0 0 0;
       case r of
         None \<Rightarrow> Some (False, m, dst)
       | Some (tmp, dirCharCount, readStart, readIdx) \<Rightarrow>
           do {
             let dir = String (Base src + readStart) (readIdx - readStart) 0 (Enc src);
             (ok, m, tmp) \<leftarrow>
               (if dirCharCount > 0 then AppendStringToString m dir tmp else Some (True, m, tmp));
             if \<not> ok then Some (False, m, dst)
             else do { m \<leftarrow> store_word m (Base tmp + WriteCur tmp) (0 :: u16); Some (True, m, tmp) }
           }
     }"

text \<open>The contract: two bytes more than \<open>Size\<close> belong to the path.\<close>

definition wjoined :: "mem \<Rightarrow> path \<Rightarrow> woutcome \<Rightarrow> (bool \<times> mem \<times> path) option \<Rightarrow> bool" where
  "wjoined m dst e r \<longleftrightarrow>
     (case e of
        WJoined us \<Rightarrow> \<exists>m'. r = Some (True, m', wholding dst us) \<and> holds_text m' (wholding dst us) us
          \<and> bytes_at m' (Base dst + of_nat (2 * length us)) [0, 0]
          \<and> (\<forall>q. q \<notin> region (Base dst) (unat (Size dst) + 2) \<longrightarrow> m' q = m q) \<and> dom m' = dom m
      | WFull \<Rightarrow> \<exists>m'. r = Some (False, m', dst) \<and> frame dst m m'
      | WOutside \<Rightarrow> True)"

lemma wjoined_frame: "wjoined m' dst e r \<Longrightarrow> frame dst m m' \<Longrightarrow> wjoined m dst e r"
proof -
  assume j: "wjoined m' dst e r" and f: "frame dst m m'"
  have "q \<notin> buf_region dst" if "q \<notin> region (Base dst) (unat (Size dst) + 2)" for q
    using that region_mono [of "unat (Size dst)" "unat (Size dst) + 2" "Base dst"] by auto
  with j f show "wjoined m dst e r" by (auto simp: wjoined_def frame_def split: woutcome.splits)
qed

lemma terminate_path_W:
  assumes "wbuilding m lit dst us" "mapped m (Base dst) (unat (Size dst) + 2)" "unat (Size dst) < 2 ^ 64 - 2"
  shows "\<exists>m'. store_word m (Base dst + of_nat (2 * length us)) (0 :: u16) = Some m' \<and> wjoined m dst (WJoined us) (Some (True, m', wholding dst us))"
proof -
  note f = wbuilding_facts [OF assms(1)]
  let ?p = "Base dst + of_nat (2 * length us)"
  let ?m = "upd_bytes m ?p (word_bytes (0 :: u16))"
  have l: "2 * length us \<le> unat (Size dst)" using f(1) by (simp add: building_def)
  have mp: "mapped m ?p 2" by (rule mapped_offset [OF assms(2)]) (use l in simp)
  have s: "store_word m ?p (0 :: u16) = Some ?m" by (rule store_word_upd) (use mp in simp_all)
  have z: "word_bytes (0 :: u16) = [0, 0]" by (simp add: word_bytes_16 low_byte_def high_byte_def)
  have "2 * length us + 2 \<le> 2 ^ 64" using l assms(3) by linarith
  from region_split_disj [OF this] have ap: "region (Base dst) (2 * length us) \<inter> region ?p 2 = {}" by (simp del: of_nat_mult)
  then have "bytes_at ?m (Base dst) (wbytes us)"
    using f(1) by (subst bytes_at_upd_disj) (simp_all add: building_def del: of_nat_mult)
  then have h: "holds_text ?m (wholding dst us) us"
    using f building_facts(1) [OF f(1)] by (simp add: holds_text_def holds_def del: of_nat_mult)
  have b: "bytes_at ?m ?p [0, 0]" using bytes_at_upd_same [of "[0, 0]" m ?p] by (simp add: z del: bytes_at_Cons of_nat_mult)
  have sub: "region ?p 2 \<subseteq> region (Base dst) (unat (Size dst) + 2)" by (rule region_offset) (use l in simp)
  have out: "?m q = m q" if "q \<notin> region ?p 2" for q using that by (intro upd_bytes_out) (simp_all del: of_nat_mult)
  have "dom ?m = dom m"
  proof -
    have "mapped ?m ?p 2" by (rule mapped_upd [OF mp])
    then have "region ?p 2 \<subseteq> dom ?m" "region ?p 2 \<subseteq> dom m" using mp by (simp_all only: mapped_dom)
    then have "q \<in> dom ?m \<longleftrightarrow> q \<in> dom m" for q
      using out [of q] by (cases "q \<in> region ?p 2") (blast, simp add: domIff)
    then show ?thesis by blast
  qed
  moreover have "\<forall>q. q \<notin> region (Base dst) (unat (Size dst) + 2) \<longrightarrow> ?m q = m q" using out sub by blast
  ultimately have "wjoined m dst (WJoined us) (Some (True, ?m, wholding dst us))"
    using h b by (simp add: wjoined_def del: of_nat_mult bytes_at_Cons region_numeral)
  with s show ?thesis by blast
qed

lemma wwalk_not_joined: "wwalk cap tmp cur us \<noteq> Inl (WJoined xs)"
  by (induction cap tmp cur us rule: wwalk.induct) auto

lemma path_rest_W_correct:
  assumes "wbuilding m lit dst ts" "Enc src = EC_UTF16LE" "list_all plain ss"
    and "holds m src (wbytes ss)" "buf_region dst \<inter> region (Base src) (2 * length ss) = {}"
    and "mapped m (Base dst) (unat (Size dst) + 2)" "unat (Size dst) < 2 ^ 64 - 2"
  shows "wjoined m dst (wresolve (unat (Size dst)) ts [] ss) (path_rest_W default_dispatch m lit src dst (wholding dst ts))"
proof -
  let ?l = "AppendPath_loop_W default_dispatch lit src 0 m (wholding dst ts) 0 0 0 0"
  have w: "wwalked m lit dst ss (wwalk (unat (Size dst)) ts [] ss) ?l"
    using AppendPath_loop_W_eq [OF assms(1-5), of "[]" "[]" ss 0 0 0] by (simp add: recent_def)
  show ?thesis
  proof (cases "wwalk (unat (Size dst)) ts [] ss")
    case (Inl e)
    then show ?thesis using w by (cases e) (auto simp: wwalked_def wresolve_wwalk wjoined_def path_rest_W_def wwalk_not_joined)
  next
    case (Inr tc)
    obtain us cur where tc: "tc = (us, cur)" by (cases tc)
    with w Inr obtain m1 pre where
      l: "?l = Some (m1, Some (wholding dst us, of_nat (length cur), of_nat (2 * length pre), of_nat (2 * length ss)))"
      and ss: "ss = pre @ cur" and b: "wbuilding m1 lit dst us" and fr: "frame dst m m1" by (auto simp: wwalked_def)
    note f = wbuilding_facts [OF b]
    have mp: "mapped m1 (Base dst) (unat (Size dst) + 2)" using assms(6) fr by (simp add: mapped_dom frame_def)
    have len: "2 * length ss < 2 ^ 64" using assms(4) unat_lt_2p [of "WriteCur src"] by (simp add: holds_def)
    have lc: "length cur < 2 ^ 64" "2 * length cur < 2 ^ 64" using len ss by simp_all
    have res: "wresolve (unat (Size dst)) ts [] ss = (if 2 * (length us + length cur) \<le> unat (Size dst) then WJoined (us @ cur) else WFull)"
      using Inr tc by (simp add: wresolve_wwalk)
    let ?dir = "String (Base src + of_nat (2 * length pre)) (of_nat (2 * length ss) - of_nat (2 * length pre)) 0 (Enc src)"
    have n: "(of_nat (length cur) :: usz) > 0 \<longleftrightarrow> cur \<noteq> []" using lc(1) by (simp add: of_nat_pos)
    have pc: "list_all plain cur" using assms(3) ss by simp
    have rest: "path_rest_W default_dispatch m lit src dst (wholding dst ts) =
      do {
        (ok, m, tmp) \<leftarrow> Some (append_result m1 (wholding dst us) (wbytes cur));
        if \<not> ok then Some (False, m, dst)
        else do { m \<leftarrow> store_word m (Base tmp + WriteCur tmp) (0 :: u16); Some (True, m, tmp) }
      }"
    proof (cases "cur = []")
      case True
      then show ?thesis unfolding path_rest_W_def l using n by (simp add: append_Nil)
    next
      case False
      have "bytes_at m1 (Base src) (wbytes ss)" using frame_bytes_at [OF fr, of "Base src" "wbytes ss"] assms(4,5) by (simp add: holds_def)
      then have "bytes_at m1 (Base src) (wbytes pre @ wbytes cur)" by (simp add: ss)
      then have "bytes_at m1 (Base src + of_nat (2 * length pre)) (wbytes cur)" by (simp del: of_nat_mult)
      moreover have "unat (of_nat (2 * length cur) :: usz) = 2 * length cur" by (rule unat_offset [OF lc(2)])
      moreover have "of_nat (2 * length ss) - of_nat (2 * length pre) = (of_nat (2 * length cur) :: usz)" by (simp add: ss algebra_simps)
      ultimately have h: "holds m1 ?dir (wbytes cur)" by (simp add: holds_def del: of_nat_mult)
      have "buf_region dst \<inter> region (Base src + of_nat (2 * length pre)) (2 * length cur) = {}"
        using assms(5) region_offset [of "2 * length pre" "2 * length cur" "2 * length ss" "Base src"] ss by fastforce
      then have "AppendStringToString m1 ?dir (wholding dst us) = Some (append_result m1 (wholding dst us) (wbytes cur))"
        using assms(2) f(2) h by (intro append_dir_eq [OF f(1)]) simp_all
      then show ?thesis unfolding path_rest_W_def l using n False by (simp del: of_nat_mult)
    qed
    show ?thesis
    proof (cases "2 * (length us + length cur) \<le> unat (Size dst)")
      case False
      then show ?thesis using rest res wappend_full [OF b, of cur] fr by (simp add: wjoined_def)
    next
      case True
      from wappend [OF b True pc] obtain m2 where
        m2: "append_result m1 (wholding dst us) (wbytes cur) = (True, m2, wholding dst (us @ cur))" "wbuilding m2 lit dst (us @ cur)" "frame dst m1 m2" .
      have "mapped m2 (Base dst) (unat (Size dst) + 2)" using mp m2(3) by (simp add: mapped_dom frame_def)
      from terminate_path_W [OF m2(2) this assms(7)] obtain m3 where
        m3: "store_word m2 (Base dst + of_nat (2 * length (us @ cur))) (0 :: u16) = Some m3"
        "wjoined m2 dst (WJoined (us @ cur)) (Some (True, m3, wholding dst (us @ cur)))" by blast
      have "path_rest_W default_dispatch m lit src dst (wholding dst ts) = Some (True, m3, wholding dst (us @ cur))"
        unfolding rest m2(1) using m3(1) by (simp del: of_nat_mult wbytes_simps length_append)
      then show ?thesis
        using res True wjoined_frame [OF m3(2) frame_trans [OF fr m2(3)]] by simp
    qed
  qed
qed

lemma AppendPath_W_unfold:
  assumes "WriteCur dst > 0 \<Longrightarrow> m (Base dst + (WriteCur dst - 2)) = Some c"
    and "(if WriteCur dst > 0 \<and> c \<noteq> 0x5C then AppendStringToString m (Backslash lit) dst else Some (True, m, dst)) = Some (ok, m1, tmp)"
    and "ok \<Longrightarrow> m1 (Base src) = Some c'"
  shows "AppendPath_W d m lit src dst = (if \<not> ok then Some (False, m1, dst)
    else path_rest_W d m1 lit (if c' = 0x5C \<or> c' = 0x2F then AdvanceBuffer src 2 else src) dst tmp)"
  using assms by (cases "WriteCur dst > 0") (auto simp: AppendPath_W_def path_rest_W_def Let_def)

lemma low_byte_plain:
  assumes "plain u"
  shows "low_byte u = 0x5C \<longleftrightarrow> u = bslash" "low_byte u = 0x2F \<longleftrightarrow> u = wslash"
  using assms bytes_eq_iff [of u bslash] bytes_eq_iff [of u wslash] by (auto simp: plain_def low_byte_def high_byte_def)

lemma advance_source_W:
  assumes "holds m src (wbytes (u # us))" "buf_region dst \<inter> region (Base src) (2 * length (u # us)) = {}"
  shows "holds m (AdvanceBuffer src 2) (wbytes us)" "buf_region dst \<inter> region (Base (AdvanceBuffer src 2)) (2 * length us) = {}"
proof -
  have "unat (WriteCur src) = 2 + 2 * length us" using assms(1) by (simp add: holds_def)
  then have "unat (WriteCur src - 2) = 2 * length us" by (subst unat_sub) (simp_all add: word_le_nat_alt)
  then show "holds m (AdvanceBuffer src 2) (wbytes us)" using assms(1) by (simp add: holds_def AdvanceBuffer_def add.assoc)
  have "region (Base src + of_nat 2) (2 * length us) \<subseteq> region (Base src) (2 * length (u # us))" by (rule region_offset) simp
  then show "buf_region dst \<inter> region (Base (AdvanceBuffer src 2)) (2 * length us) = {}" using assms(2) by (auto simp: AdvanceBuffer_def)
qed

lemma AppendPath_W_joins:
  assumes "holds_text m dst ds" "buf_ok m dst" "holds_text m src ss" "ss \<noteq> []"
    and "mapped m (Base dst) (unat (Size dst) + 2)" "unat (Size dst) < 2 ^ 64 - 2"
    and "buf_region dst \<inter> region (Base src) (2 * length ss) = {}"
    and "has_literal m lit" "buf_region dst \<inter> region lit 2 = {}"
  shows "wjoined m dst (wjoin (unat (Size dst)) ds ss) (AppendPath_W default_dispatch m lit src dst)"
proof -
  let ?ss = "if ss \<noteq> [] \<and> (hd ss = bslash \<or> hd ss = wslash) then tl ss else ss"
  obtain u us where ss: "ss = u # us" using assms(4) by (cases ss) auto
  let ?c' = "low_byte u" and ?src = "if low_byte u = 0x5C \<or> low_byte u = 0x2F then AdvanceBuffer src 2 else src"
  have h: "holds m dst (wbytes ds)" "holds m src (wbytes ss)" and pl: "list_all plain ds" "list_all plain ss"
    and enc: "Enc dst = EC_UTF16LE" "Enc src = EC_UTF16LE" using assms(1,3) by (simp_all add: holds_text_def)
  have dst: "dst = wholding dst ds" and n: "unat (WriteCur dst) = 2 * length ds" using h(1) by (simp_all add: holding_def holds_def)
  have b: "wbuilding m lit dst ds"
    using h(1) pl(1) enc(1) assms(2,8,9) by (simp add: wbuilding_def building_def holds_def buf_ok_def word_le_nat_alt)
  have rest: "wjoined m dst (wresolve (unat (Size dst)) ts [] ?ss) (path_rest_W default_dispatch m1 lit ?src dst (wholding dst ts))"
    if m1: "wbuilding m1 lit dst ts" "frame dst m m1" for m1 ts
  proof -
    have h1: "holds m1 src (wbytes ss)" using frame_bytes_at [OF m1(2), of "Base src" "wbytes ss"] h(2) assms(7) by (simp add: holds_def)
    have "plain u" using pl(2) ss by simp
    note lb = low_byte_plain [OF this]
    have "holds m1 ?src (wbytes ?ss) \<and> buf_region dst \<inter> region (Base ?src) (2 * length ?ss) = {} \<and> Enc ?src = EC_UTF16LE \<and> list_all plain ?ss"
      using h1 assms(7) enc(2) pl(2) advance_source_W [of m1 src u us dst] lb ss by (auto simp: AdvanceBuffer_def simp del: wbytes_simps)
    moreover have "mapped m1 (Base dst) (unat (Size dst) + 2)" using assms(5) m1(2) by (simp add: mapped_dom frame_def)
    ultimately have "wjoined m1 dst (wresolve (unat (Size dst)) ts [] ?ss) (path_rest_W default_dispatch m1 lit ?src dst (wholding dst ts))"
      by (intro path_rest_W_correct [OF m1(1) _ _ _ _ _ assms(6)]) simp_all
    then show ?thesis by (rule wjoined_frame [OF _ m1(2)])
  qed
  have c': "m (Base src) = Some ?c'" using h(2) ss by (simp add: holds_def)
  show ?thesis
  proof (cases "ds = [] \<or> last ds = bslash")
    case True
    have "WriteCur dst > 0 \<Longrightarrow> m (Base dst + (WriteCur dst - 2)) = Some 0x5C"
    proof -
      assume "WriteCur dst > 0"
      then have "ds \<noteq> []" using n by (auto simp: word_gt_0 unat_eq_zero)
      then show ?thesis using last_unit(3) [OF assms(1)] True by (simp add: low_byte_def)
    qed
    then have "AppendPath_W default_dispatch m lit src dst = path_rest_W default_dispatch m lit ?src dst dst"
      using AppendPath_W_unfold [of dst m "0x5C" lit True m dst src ?c'] c' by simp
    moreover have "2 * length ds \<le> unat (Size dst)" using wbuilding_facts(1) [OF b] by (simp add: building_def)
    ultimately show ?thesis using rest [OF b frame_refl] dst True by (simp add: wjoin_def wopen_def)
  next
    case False
    then have ne: "ds \<noteq> []" "last ds \<noteq> bslash" by simp_all
    then have pos: "WriteCur dst > 0" using n by (simp add: word_less_nat_alt)
    have "plain (last ds)" using pl(1) ne(1) by (simp add: list_all_iff)
    then have lb: "low_byte (last ds) \<noteq> 0x5C" using low_byte_plain(1) ne(2) by blast
    note last = last_unit(3) [OF assms(1) ne(1)]
    have pb: "list_all plain [bslash]" using plain_bslash by simp
    show ?thesis
    proof (cases "2 * (length ds + length [bslash]) \<le> unat (Size dst)")
      case True
      from wappend [OF b True pb] obtain m1 where
        m1: "append_result m (wholding dst ds) (wbytes [bslash]) = (True, m1, wholding dst (ds @ [bslash]))"
        "wbuilding m1 lit dst (ds @ [bslash])" "frame dst m m1" .
      have "Base src \<notin> buf_region dst" using assms(7) ss region_memI [of 0 "2 * length ss" "Base src"] by auto
      then have "m1 (Base src) = Some ?c'" using m1(3) c' by (simp add: frame_def)
      then have "AppendPath_W default_dispatch m lit src dst = path_rest_W default_dispatch m1 lit ?src dst (wholding dst (ds @ [bslash]))"
        using AppendPath_W_unfold [of dst m "low_byte (last ds)" lit True m1 "wholding dst (ds @ [bslash])" src ?c'] last pos lb m1(1)
          append_backslash_eq [OF b] dst by (simp del: wbytes_simps)
      then show ?thesis using rest [OF m1(2,3)] True ne by (simp add: wjoin_def wopen_def)
    next
      case False
      then have "unat (Size dst) < 2 * (length ds + length [bslash])" by simp
      from wappend_full [OF b this] have "AppendPath_W default_dispatch m lit src dst = Some (False, m, dst)"
        using AppendPath_W_unfold [of dst m "low_byte (last ds)" lit False m dst src ?c'] last pos lb
          append_backslash_eq [OF b] dst by (simp del: wbytes_simps)
      then show ?thesis using False ne by (simp add: wjoin_def wopen_def wjoined_def)
    qed
  qed
qed


section \<open>Zero-terminated strings\<close>

lemma unit_zero: "low_byte u = 0 \<and> high_byte u = 0 \<longleftrightarrow> u = 0"
  using bytes_eq_iff [of u 0] by (simp add: low_byte_def high_byte_def)

lemma scan_zero_units:
  "bytes_at m p (wbytes us @ [0, 0]) \<Longrightarrow> 0 \<notin> set us \<Longrightarrow> scan_zero 2 m p = Some (p + of_nat (2 * length us))"
proof (induction us arbitrary: p)
  case Nil
  then show ?case by (subst scan_zero.simps) (simp add: numeral_2_eq_2)
next
  case (Cons u us)
  then have "scan_zero 2 m (p + 2) = Some (p + 2 + of_nat (2 * length us))" by (simp add: add.assoc)
  moreover have "load_bytes m p 2 = Some [low_byte u, high_byte u]" using Cons.prems(1) by (intro load_bytes_at) simp_all
  moreover have "low_byte u \<noteq> 0 \<or> high_byte u \<noteq> 0" using unit_zero [of u] Cons.prems(2) by auto
  ultimately show ?case by (subst scan_zero.simps) (auto simp: add.assoc)
qed

lemma wcslen_at:
  assumes "bytes_at m p (wbytes us @ [0, 0])" "0 \<notin> set us" "2 * length us < 2 ^ 64"
  shows "wcslen m p = Some (of_nat (length us))"
proof -
  have "unat (of_nat (2 * length us) :: usz) = 2 * length us" by (rule unat_offset [OF assms(3)])
  then have "of_nat (2 * length us) div 2 = (of_nat (length us) :: usz)"
    by (simp add: word_unat_eq_iff unat_div unat_of_nat del: of_nat_mult)
  then show ?thesis using scan_zero_units [OF assms(1,2)] by (simp add: wcslen_def del: of_nat_mult)
qed

lemma load_units_at: "bytes_at m p (wbytes us) \<Longrightarrow> load_units m p (length us) = Some us"
proof (induction us arbitrary: p)
  case (Cons u us)
  then have "load_word m p = Some u" by (intro load_unit) simp
  then show ?case using Cons by (simp add: add.assoc)
qed simp

lemma wstring_at:
  assumes "bytes_at m p (wbytes us @ [0, 0])" "0 \<notin> set us" "2 * length us < 2 ^ 64"
  shows "wstring m p = Some us"
proof -
  have "bytes_at m p (wbytes us)" using assms(1) unfolding bytes_at_append by blast
  moreover have "unat (of_nat (length us) :: usz) = length us" by (rule unat_offset) (use assms(3) in simp)
  ultimately show ?thesis using wcslen_at [OF assms] load_units_at by (simp add: wstring_def)
qed

section \<open>Main results\<close>

text \<open>
  Moving a path up \<open>n\<close> times on Windows takes off its last \<open>n\<close> components (\<open>wparent\<close>, repeated), keeps the
  backslash after what is left, and answers whether anything was taken off; this holds for every path whose
  characters are \<open>plain\<close>.
\<close>

theorem MoveUpPath_W_correct:
  assumes "holds_text m p us" "us \<noteq> []" "has_literal m lit" "0 < n"
  shows "MoveUpPath_W default_dispatch m lit p n
    = Some (length ((wparent ^^ unat n) us) \<noteq> length (wstrip us), p\<lparr>WriteCur := of_nat (2 * length ((wparent ^^ unat n) us))\<rparr>)
    \<and> holds_text m (p\<lparr>WriteCur := of_nat (2 * length ((wparent ^^ unat n) us))\<rparr>) ((wparent ^^ unat n) us)"
  using assms by (rule MoveUpPath_W_eq)

text \<open>
  C7: on Windows, for a source that is not empty and two paths of \<open>plain\<close> characters only, that is without the
  characters that the bytewise tests of the code take for a separator (any from U+5C00 to U+5CFF, and those others
  than the slash and the backslash whose low byte is 2F or 5C), joining the source to the destination gives the path
  that \<open>wjoin\<close> resolves, with its terminating zero and nothing else written; it fails exactly when the path that it
  builds does not fit, and then leaves the destination as it was. For other characters this is false:
  \<open>AppendPath_W_drops_a_character\<close> shows it.
\<close>

theorem AppendPath_W_correct:
  assumes "holds_text m dst ds" "buf_ok m dst" "holds_text m src ss" "ss \<noteq> []"
    and "mapped m (Base dst) (unat (Size dst) + 2)" "unat (Size dst) < 2 ^ 64 - 2"
    and "buf_region dst \<inter> region (Base src) (2 * length ss) = {}"
    and "has_literal m lit" "buf_region dst \<inter> region lit 2 = {}"
  shows "wjoined m dst (wjoin (unat (Size dst)) ds ss) (AppendPath_W default_dispatch m lit src dst)"
  using assms by (rule AppendPath_W_joins)

lemma last_match_intro:
  assumes "match_at ys xs i" "i \<le> length xs" "\<And>j. i < j \<Longrightarrow> \<not> match_at ys xs j"
  shows "last_match ys xs = Some i"
  unfolding last_match_def find_rev_upt_Some using assms by auto

lemma last_backslash_split:
  assumes "high_byte u = 0x5C" "low_byte v = 0" "list_all plain (v # vs)" "bslash \<notin> set (v # vs)"
  shows "last_match [0x5C, 0] (wbytes (us @ u # v # vs)) = Some (2 * length us + 1)"
proof (rule last_match_intro)
  show "match_at [0x5C, 0] (wbytes (us @ u # v # vs)) (2 * length us + 1)"
    using assms(1,2) by (simp add: match_at_def)
  fix j
  assume j: "2 * length us + 1 < j"
  have "match_at [0x5C, 0] (wbytes (us @ u # v # vs)) j \<longleftrightarrow> match_at [0x5C, 0] (wbytes (v # vs)) (j - (2 * length us + 2))"
  proof -
    have "drop j (wbytes (us @ u # v # vs)) = drop (j - (2 * length us + 2)) (wbytes (v # vs))"
      using j by (simp add: wbytes_simps(3) [of us] drop_Cons' del: wbytes_simps(3))
    then show ?thesis by (simp add: match_at_def)
  qed
  then show "\<not> match_at [0x5C, 0] (wbytes (us @ u # v # vs)) j"
    using match_backslash [OF assms(3)] assms(4) by (metis nth_mem)
qed (use length_wbytes [of "us @ u # v # vs"] in simp)

text \<open>
  C34: the search for a backslash goes by bytes. Where a character from U+5C00 to U+5CFF stands before one whose low
  byte is zero, and no backslash follows, \<open>MoveUpPath\<close> takes the two bytes across them for the backslash: the path
  it leaves ends in the middle of a character.
\<close>

theorem MoveUpPath_W_cuts_a_character:
  assumes "holds m p (wbytes (us @ u # v # vs))" "Enc p = EC_UTF16LE" "has_literal m lit"
    and "high_byte u = 0x5C" "low_byte v = 0" "list_all plain (v # vs)" "bslash \<notin> set (v # vs)"
  shows "MoveUpPath_W default_dispatch m lit p 1 = Some (True, p\<lparr>WriteCur := of_nat (2 * length us + 3)\<rparr>)"
proof -
  let ?xs = "us @ u # v # vs"
  have n: "2 * length us + 4 + 2 * length vs < 2 ^ 64" and w: "WriteCur p = of_nat (length (wbytes ?xs))"
    using assms(1) unat_lt_2p [of "WriteCur p"] by (auto simp: holds_def word_unat_eq_iff unat_of_nat)
  have h: "holds m (Buf (Backslash lit)) [0x5C, 0]" "holds m (Buf p) (wbytes ?xs)"
    using assms(1,3) by (simp_all add: holds_def Backslash_def)
  have "BufferInBuffer default_dispatch m (Buf (Backslash lit)) (Buf p) (RETURN_IDX_FIND OR SEARCH_REVERSE)
    = Some (search_result (RETURN_IDX_FIND OR SEARCH_REVERSE) (Base p) (WriteCur (Backslash lit)) (last_match [0x5C, 0] (wbytes ?xs)))"
    using match_reverse [OF h(1) _ h(2)] by (simp add: flag_defs)
  then have f: "StringInString default_dispatch m (Backslash lit) p (RETURN_IDX_FIND OR SEARCH_REVERSE) = Some (of_nat (2 * length us + 1))"
    using assms(2) last_backslash_split [OF assms(4-7)] by (simp add: StringInString_def search_result_def flag_defs Backslash_def del: wbytes_simps)
  have ne: "(of_nat (2 * length us + 1) :: usz) \<noteq> INVALID_IDX" by (rule of_nat_ne_INVALID) (use n in linarith)
  obtain as a where sp: "v # vs = as @ [a]" by (cases "v # vs" rule: rev_cases) auto
  then have "bytes_at m (Base p) (wbytes (us @ u # as) @ [low_byte a, high_byte a])"
    using assms(1) by (simp add: holds_def)
  then have b: "bytes_at m (Base p + of_nat (2 * length (us @ u # as))) [low_byte a, high_byte a]"
    by (simp del: of_nat_mult wbytes_simps)
  have "length (us @ u # v # vs) = Suc (length (us @ u # as))" using sp by simp
  then have "Base p + WriteCur p - 2 = Base p + of_nat (2 * length (us @ u # as))" by (simp add: w)
  then have l: "load_word m (Base p + WriteCur p - 2) = Some a" using load_unit [OF b] by (simp only:)
  have "a \<noteq> bslash" using assms(7) sp by auto
  moreover have "MoveUp_loop_W default_dispatch m lit p 0 1 = Some (p\<lparr>WriteCur := of_nat (2 * length us + 1)\<rparr>)"
    using f ne by (subst MoveUp_loop_W.simps, simp, subst MoveUp_loop_W.simps, simp)
  moreover have "(0 :: usz) < of_nat (2 * length us + 1)" using n by (simp add: word_less_nat_alt unat_of_nat del: of_nat_mult of_nat_add of_nat_Suc)
  moreover have "of_nat (2 * length us + 3) \<noteq> WriteCur p"
  proof
    assume e: "of_nat (2 * length us + 3) = WriteCur p"
    have "unat (of_nat (2 * length us + 3) :: usz) = unat (of_nat (length (wbytes ?xs)) :: usz)"
      by (rule arg_cong [OF e [unfolded w]])
    then have "2 * length us + 3 = 2 * (length us + Suc (Suc (length vs)))" using n by (simp add: unat_of_nat del: of_nat_mult of_nat_add of_nat_Suc)
    then show False by presburger
  qed
  ultimately show ?thesis using l by (simp add: MoveUpPath_W_def algebra_simps)
qed

text \<open>
  \<open>_AppendPathToPath\<close> looks at the low byte of the source's first character. A character such as U+012F or U+015C,
  which is no slash but has the low byte of one, is dropped: the path is joined with what follows it.
\<close>

theorem AppendPath_W_drops_a_character:
  assumes "holds_text m dst ds" "buf_ok m dst" "ds = [] \<or> last ds = bslash"
    and "holds m src (wbytes (u # us))" "Enc src = EC_UTF16LE" "low_byte u = 0x5C \<or> low_byte u = 0x2F" "list_all plain us"
    and "mapped m (Base dst) (unat (Size dst) + 2)" "unat (Size dst) < 2 ^ 64 - 2"
    and "buf_region dst \<inter> region (Base src) (2 * length (u # us)) = {}"
    and "has_literal m lit" "buf_region dst \<inter> region lit 2 = {}"
  shows "wjoined m dst (wresolve (unat (Size dst)) ds [] us) (AppendPath_W default_dispatch m lit src dst)"
proof -
  have h: "holds m dst (wbytes ds)" "list_all plain ds" "Enc dst = EC_UTF16LE" using assms(1) by (simp_all add: holds_text_def)
  have b: "wbuilding m lit dst ds"
    using h assms(2,11,12) by (simp add: wbuilding_def building_def holds_def buf_ok_def word_le_nat_alt)
  have dst: "dst = wholding dst ds" using h(1) by (simp add: holding_def holds_def)
  have "WriteCur dst > 0 \<Longrightarrow> m (Base dst + (WriteCur dst - 2)) = Some 0x5C"
  proof -
    assume "WriteCur dst > 0"
    then have "ds \<noteq> []" using h(1) by (auto simp: word_gt_0 unat_eq_zero holds_def)
    then show ?thesis using last_unit(3) [OF assms(1)] assms(3) by (simp add: low_byte_def)
  qed
  moreover have "m (Base src) = Some (low_byte u)" using assms(4) by (simp add: holds_def)
  ultimately have "AppendPath_W default_dispatch m lit src dst = path_rest_W default_dispatch m lit (AdvanceBuffer src 2) dst (wholding dst ds)"
    using AppendPath_W_unfold [of dst m "0x5C" lit True m dst src "low_byte u"] assms(6) dst by simp
  moreover have "Enc (AdvanceBuffer src 2) = EC_UTF16LE" using assms(5) by (simp add: AdvanceBuffer_def)
  from path_rest_W_correct [OF b this assms(7) advance_source_W [OF assms(4,10)] assms(8,9)]
  have "wjoined m dst (wresolve (unat (Size dst)) ds [] us) (path_rest_W default_dispatch m lit (AdvanceBuffer src 2) dst (wholding dst ds))" .
  ultimately show ?thesis by simp
qed


section \<open>Concrete paths\<close>

text \<open>A path with room for 16 bytes at \<open>0x100\<close>, a name of one character at \<open>0x200\<close> and the literal at \<open>0x300\<close>.\<close>

definition wex_mem :: "u16 list \<Rightarrow> u16 \<Rightarrow> mem" where
  "wex_mem us c = upd_bytes (upd_bytes (upd_bytes Map.empty 0x100 (take 18 (wbytes us @ replicate 18 0))) 0x200 (wbytes [c])) 0x300 [0x5C, 0]"

definition wex_dir :: "u16 list \<Rightarrow> path" where
  "wex_dir us = String 0x100 (of_nat (2 * length us)) 16 EC_UTF16LE"

definition wex_name :: path where
  "wex_name = String 0x200 2 0 EC_UTF16LE"

lemma wex_facts:
  assumes "length us \<le> 8"
  shows "holds (wex_mem us c) (wex_dir us) (wbytes us)" "buf_ok (wex_mem us c) (wex_dir us)" "mapped (wex_mem us c) 0x100 18"
    "holds (wex_mem us c) wex_name (wbytes [c])" "has_literal (wex_mem us c) 0x300"
    "buf_region (wex_dir us) \<inter> region (Base wex_name) 2 = {}" "buf_region (wex_dir us) \<inter> region 0x300 2 = {}"
proof -
  let ?bs = "take 18 (wbytes us @ replicate 18 0)" and ?m = "wex_mem us c"
  let ?m1 = "upd_bytes (upd_bytes Map.empty 0x100 ?bs) 0x200 (wbytes [c])"
  have "region 0x100 16 \<inter> region (0x200 :: ptr) 2 = {}" "region 0x100 16 \<inter> region (0x300 :: ptr) 2 = {}"
    by (simp_all add: region_Suc)
  then show "buf_region (wex_dir us) \<inter> region (Base wex_name) 2 = {}" "buf_region (wex_dir us) \<inter> region 0x300 2 = {}"
    by (simp_all add: wex_dir_def wex_name_def del: region_numeral)
  have l: "length ?bs = 18" by simp
  have d: "region 0x100 18 \<inter> region (0x200 :: ptr) 2 = {}" "region 0x100 18 \<inter> region (0x300 :: ptr) 2 = {}"
    "region 0x200 2 \<inter> region (0x300 :: ptr) 2 = {}" by (simp_all add: region_Suc)
  have "bytes_at ?m1 0x100 ?bs" "bytes_at ?m1 0x200 (wbytes [c])"
    by (rule two_blocks; (simp only: l length_wbytes)?; simp add: region_Suc)+
  moreover have n: "length (wbytes [c]) = 2" "length [0x5C, 0 :: u8] = 2" "(2 :: nat) \<le> 2 ^ 64" by simp_all
  ultimately have b: "bytes_at ?m 0x100 ?bs" "bytes_at ?m 0x200 (wbytes [c])"
    unfolding wex_mem_def using d by (simp_all only: bytes_at_upd_disj l n)
  show "has_literal ?m 0x300" unfolding wex_mem_def by (rule bytes_at_upd_same) simp
  have "?bs = wbytes us @ take (18 - 2 * length us) (replicate 18 0)" using assms by simp
  then have b': "bytes_at ?m 0x100 (wbytes us @ take (18 - 2 * length us) (replicate 18 0))" using b(1) by simp
  then have "bytes_at ?m 0x100 (wbytes us)" by (simp only: bytes_at_append)
  moreover have u: "unat (of_nat (2 * length us) :: usz) = 2 * length us" by (rule unat_offset) (use assms in simp)
  ultimately show "holds ?m (wex_dir us) (wbytes us)" by (simp add: holds_def wex_dir_def del: of_nat_mult)
  show mp: "mapped ?m 0x100 18" using bytes_at_mapped [OF b(1)] by (simp only: l)
  show "buf_ok ?m (wex_dir us)"
    using mapped_mono [OF mp, of 16] assms u by (simp add: buf_ok_def wex_dir_def word_le_nat_alt del: of_nat_mult)
  show "holds ?m wex_name (wbytes [c])" using b(2) by (simp add: holds_def wex_name_def)
qed

lemmas wex_simps = plain_def low_byte_def high_byte_def wex_dir_def wex_name_def

theorem MoveUpPath_W_correct_witness:
  "MoveUpPath_W default_dispatch (wex_mem [0x61, bslash, 0x62, bslash] 0) 0x300 (wex_dir [0x61, bslash, 0x62, bslash]) 1
    = Some (True, String 0x100 4 16 EC_UTF16LE)"
proof -
  let ?us = "[0x61, bslash, 0x62, bslash] :: u16 list"
  have l: "length ?us \<le> 8" by simp
  note f = wex_facts(1-5) [OF l, of 0] wex_facts(6,7) [OF l]
  have "holds_text (wex_mem ?us 0) (wex_dir ?us) ?us" using f(1) by (simp add: holds_text_def) (simp add: wex_simps)
  moreover have "(wparent ^^ unat (1 :: usz)) ?us = [0x61, bslash]" by (simp add: wparent_def wstrip_def wcut_def)
  ultimately show ?thesis
    using MoveUpPath_W_correct [OF _ _ f(5), of "wex_dir ?us" ?us 1] by (simp add: wstrip_def wex_dir_def String_def)
qed

theorem AppendPath_W_correct_witness:
  "\<exists>m'. AppendPath_W default_dispatch (wex_mem [0x61] 0x62) 0x300 wex_name (wex_dir [0x61])
      = Some (True, m', String 0x100 6 16 EC_UTF16LE)
    \<and> holds_text m' (String 0x100 6 16 EC_UTF16LE) [0x61, bslash, 0x62]"
proof -
  have l: "length [0x61 :: u16] \<le> 8" by simp
  note f = wex_facts(1-5) [OF l, of "0x62"] wex_facts(6,7) [OF l]
  let ?m = "wex_mem [0x61] 0x62" and ?d = "wex_dir [0x61]"
  have h: "holds_text ?m ?d [0x61]" "holds_text ?m wex_name [0x62]"
    using f(1,4) by (simp_all add: holds_text_def) (simp_all add: wex_simps)
  have "wjoined ?m ?d (wjoin (unat (Size ?d)) [0x61] [0x62]) (AppendPath_W default_dispatch ?m 0x300 wex_name ?d)"
    by (rule AppendPath_W_correct [OF h(1) f(2) h(2) _ _ _ _ f(5) f(7)])
      (use f(3,6) in \<open>simp_all add: wex_dir_def\<close>)
  moreover have "wjoin (unat (Size ?d)) [0x61] [0x62] = WJoined [0x61, bslash, 0x62]" by (simp add: wjoin_def wopen_def wex_dir_def)
  moreover have "wholding ?d [0x61, bslash, 0x62] = String 0x100 6 16 EC_UTF16LE" by (simp add: holding_def wex_dir_def String_def)
  ultimately show ?thesis unfolding wjoined_def by auto
qed

theorem MoveUpPath_W_cuts_a_character_witness:
  "MoveUpPath_W default_dispatch (wex_mem [0x5C71, 0x4E00] 0) 0x300 (wex_dir [0x5C71, 0x4E00]) 1
    = Some (True, String 0x100 3 16 EC_UTF16LE)"
proof -
  have l: "length [0x5C71, 0x4E00 :: u16] \<le> 8" by simp
  note f = wex_facts(1-5) [OF l, of 0] wex_facts(6,7) [OF l]
  show ?thesis
    using MoveUpPath_W_cuts_a_character [of "wex_mem [0x5C71, 0x4E00] 0" "wex_dir [0x5C71, 0x4E00]" "[]" "0x5C71" "0x4E00" "[]" "0x300"] f(1,5)
    by (simp add: wex_simps String_def)
qed

theorem AppendPath_W_drops_a_character_witness:
  "\<exists>m'. AppendPath_W default_dispatch (wex_mem [0x61, bslash] 0x12F) 0x300 wex_name (wex_dir [0x61, bslash])
      = Some (True, m', String 0x100 4 16 EC_UTF16LE)
    \<and> holds_text m' (String 0x100 4 16 EC_UTF16LE) [0x61, bslash]"
proof -
  have l: "length [0x61, bslash :: u16] \<le> 8" by simp
  note f = wex_facts(1-5) [OF l, of "0x12F"] wex_facts(6,7) [OF l]
  let ?m = "wex_mem [0x61, bslash] 0x12F" and ?d = "wex_dir [0x61, bslash]"
  have h: "holds_text ?m ?d [0x61, bslash]" using f(1) by (simp add: holds_text_def) (simp add: wex_simps)
  have "wjoined ?m ?d (wresolve (unat (Size ?d)) [0x61, bslash] [] []) (AppendPath_W default_dispatch ?m 0x300 wex_name ?d)"
    by (rule AppendPath_W_drops_a_character [OF h f(2) _ f(4) _ _ _ _ _ _ f(5) f(7)])
      (use f(3,6) in \<open>simp_all add: wex_simps\<close>)
  moreover have "wresolve (unat (Size ?d)) [0x61, bslash] [] [] = WJoined [0x61, bslash]" by (simp add: wex_dir_def)
  moreover have "wholding ?d [0x61, bslash] = String 0x100 4 16 EC_UTF16LE" by (simp add: holding_def wex_dir_def String_def)
  ultimately show ?thesis unfolding wjoined_def by auto
qed

end
