(* ===== verification/WinFiles.thy ===== *)
theory WinFiles
  imports Files WinPaths
begin

text \<open>
  Memory from the system and files on Windows (\<open>src/tinybase-platform-win32.c\<close>, lines 65 to 432). The calls of
  the Windows API are the parameter \<open>os\<close>, functions of their arguments and of the state \<open>'w\<close> of the system.
  Names of files are strings of \<open>wchar_t\<close>. \<open>win32\<close> states what the documentation promises of these calls for
  regular files.
\<close>

unbundle bit_operations_syntax

section \<open>The system\<close>

text \<open>The fields of \<open>OVERLAPPED\<close> that the code sets, and the handle that it writes behind that structure.\<close>

record async_W =
  Offset :: u32
  OffsetHigh :: u32
  AsyncFile :: handle

record 'w win =
  win_VirtualAlloc :: "mem \<Rightarrow> ptr \<Rightarrow> usz \<Rightarrow> u32 \<Rightarrow> u32 \<Rightarrow> 'w \<Rightarrow> ptr \<times> 'w"
  win_VirtualFree :: "ptr \<Rightarrow> 'w \<Rightarrow> 'w"
  win_CreateFile :: "u16 list \<Rightarrow> u32 \<Rightarrow> u32 \<Rightarrow> u32 \<Rightarrow> u32 \<Rightarrow> 'w \<Rightarrow> handle \<times> 'w"
  win_CloseHandle :: "handle \<Rightarrow> 'w \<Rightarrow> bool \<times> 'w"
  win_DeleteFile :: "u16 list \<Rightarrow> 'w \<Rightarrow> bool \<times> 'w"
  win_GetLastError :: "'w \<Rightarrow> u32"
  win_SetFileAttributes :: "u16 list \<Rightarrow> u32 \<Rightarrow> 'w \<Rightarrow> bool \<times> 'w"
  win_GetFileAttributes :: "u16 list \<Rightarrow> 'w \<Rightarrow> u32"
  win_GetFileSize :: "handle \<Rightarrow> 'w \<Rightarrow> u32 \<times> u32"
  win_SetFilePointer :: "handle \<Rightarrow> u32 \<Rightarrow> u32 \<Rightarrow> u32 \<Rightarrow> 'w \<Rightarrow> u32 \<times> 'w"
  win_ReadFile :: "handle \<Rightarrow> u32 \<Rightarrow> 'w \<Rightarrow> u8 list option \<times> 'w"
  win_WriteFile :: "handle \<Rightarrow> u8 list \<Rightarrow> 'w \<Rightarrow> u32 option \<times> 'w"
  win_ReadFileOverlapped :: "handle \<Rightarrow> ptr \<Rightarrow> u32 \<Rightarrow> async_W \<Rightarrow> 'w \<Rightarrow> bool \<times> 'w"
  win_WriteFileOverlapped :: "handle \<Rightarrow> ptr \<Rightarrow> u32 \<Rightarrow> async_W \<Rightarrow> 'w \<Rightarrow> bool \<times> 'w"
  win_GetOverlappedResult :: "handle \<Rightarrow> async_W \<Rightarrow> bool \<Rightarrow> 'w \<Rightarrow> u32 option \<times> 'w"
  win_GetFileTime :: "handle \<Rightarrow> 'w \<Rightarrow> (u32 \<times> u32) option"
  win_CopyFile :: "u16 list \<Rightarrow> u16 list \<Rightarrow> bool \<Rightarrow> 'w \<Rightarrow> bool \<times> 'w"
  win_MoveFile :: "u16 list \<Rightarrow> u16 list \<Rightarrow> 'w \<Rightarrow> bool \<times> 'w"

text \<open>A 64-bit number from its high and its low double word.\<close>

definition quad :: "u32 \<Rightarrow> u32 \<Rightarrow> usz" where
  "quad hi lo = push_bit 32 (ucast hi) OR ucast lo"

section \<open>Memory\<close>

definition MEM_HUGEPAGE :: u32 where "MEM_HUGEPAGE = 0x10"

text \<open>The constants of \<open>winnt.h\<close>.\<close>

definition PAGE_NOACCESS :: u32 where "PAGE_NOACCESS = 0x1"
definition PAGE_READONLY :: u32 where "PAGE_READONLY = 0x2"
definition PAGE_READWRITE :: u32 where "PAGE_READWRITE = 0x4"
definition PAGE_EXECUTE :: u32 where "PAGE_EXECUTE = 0x10"
definition PAGE_EXECUTE_READ :: u32 where "PAGE_EXECUTE_READ = 0x20"
definition PAGE_EXECUTE_READWRITE :: u32 where "PAGE_EXECUTE_READWRITE = 0x40"
definition MEM_COMMIT :: u32 where "MEM_COMMIT = 0x1000"
definition MEM_RESERVE :: u32 where "MEM_RESERVE = 0x2000"
definition MEM_LARGE_PAGES :: u32 where "MEM_LARGE_PAGES = 0x20000000"

definition page_access :: "u32 \<Rightarrow> u32" where
  "page_access flags =
     (if has_flag flags MEM_GUARD then PAGE_NOACCESS
      else if has_flag flags MEM_EXEC
      then
        if has_flag flags MEM_WRITE then PAGE_EXECUTE_READWRITE
        else if has_flag flags MEM_READ then PAGE_EXECUTE_READ
        else PAGE_EXECUTE
      else if has_flag flags MEM_WRITE then PAGE_READWRITE
      else PAGE_READONLY)"

definition ClearMemory_W :: "mem \<Rightarrow> 'a buffer_scheme \<Rightarrow> (mem \<times> 'a buffer_scheme) option" where
  "ClearMemory_W m b = do { m \<leftarrow> memset m (Base b) 0 (Size b); Some (m, b\<lparr>WriteCur := 0\<rparr>) }"

definition GetMemory_W ::
  "'w win \<Rightarrow> usz \<Rightarrow> mem \<Rightarrow> 'w \<Rightarrow> usz \<Rightarrow> ptr \<Rightarrow> u32 \<Rightarrow> buffer \<times> mem \<times> 'w" where
  "GetMemory_W os pageSize m w n address flags =
     (let access = page_access flags;
          hugePages = (if has_flag flags MEM_HUGEPAGE then MEM_LARGE_PAGES else 0);
          allocType = MEM_RESERVE OR MEM_COMMIT OR hugePages;
          (p, w) = win_VirtualAlloc os m address n allocType access w
      in if p \<noteq> 0
         then (Buffer p 0 (if pageSize \<noteq> 0 then Align n pageSize else n),
               upd_bytes m p (replicate (unat (Align n 4096)) 0), w)
         else (empty_buffer, m, w))"

text \<open>\<open>VirtualFree\<close> gives back the whole region of \<open>VirtualAlloc\<close>, which is that of the buffer in whole pages.\<close>

definition FreeMemory_W :: "'w win \<Rightarrow> mem \<Rightarrow> 'w \<Rightarrow> buffer \<Rightarrow> buffer \<times> mem \<times> 'w" where
  "FreeMemory_W os m w b =
     (empty_buffer, pop_local m (Base b) (unat (Align (Size b) 4096)), win_VirtualFree os (Base b) w)"

text \<open>\<open>heapAlloc\<close> and \<open>HeapFree\<close> give and take the address of a block.\<close>

definition GetMemoryFromHeap_W :: "(usz \<Rightarrow> ptr) \<Rightarrow> mem \<Rightarrow> usz \<Rightarrow> buffer \<times> mem" where
  "GetMemoryFromHeap_W heapAlloc m n =
     (let p = heapAlloc n in
      if p \<noteq> 0 then (Buffer p 0 n, upd_bytes m p (replicate (unat n) 0)) else (empty_buffer, m))"

definition FreeMemoryFromHeap_W :: "mem \<Rightarrow> buffer \<Rightarrow> buffer \<times> mem" where
  "FreeMemoryFromHeap_W m b = (empty_buffer, if Base b \<noteq> 0 then pop_local m (Base b) (unat (Size b)) else m)"

section \<open>Opening files\<close>

definition DELETE_SHARE :: u32 where "DELETE_SHARE = 0x10"

definition GENERIC_READ :: u32 where "GENERIC_READ = 0x80000000"
definition GENERIC_WRITE :: u32 where "GENERIC_WRITE = 0x40000000"
definition FILE_APPEND_DATA :: u32 where "FILE_APPEND_DATA = 0x4"
definition FILE_SHARE_READ :: u32 where "FILE_SHARE_READ = 0x1"
definition FILE_SHARE_WRITE :: u32 where "FILE_SHARE_WRITE = 0x2"
definition FILE_SHARE_DELETE :: u32 where "FILE_SHARE_DELETE = 0x4"
definition FILE_FLAG_OVERLAPPED :: u32 where "FILE_FLAG_OVERLAPPED = 0x40000000"
definition FILE_ATTRIBUTE_HIDDEN :: u32 where "FILE_ATTRIBUTE_HIDDEN = 0x2"
definition FILE_ATTRIBUTE_DIRECTORY :: u32 where "FILE_ATTRIBUTE_DIRECTORY = 0x10"
definition FILE_ATTRIBUTE_NORMAL :: u32 where "FILE_ATTRIBUTE_NORMAL = 0x80"
definition CREATE_NEW :: u32 where "CREATE_NEW = 1"
definition CREATE_ALWAYS :: u32 where "CREATE_ALWAYS = 2"
definition OPEN_EXISTING :: u32 where "OPEN_EXISTING = 3"
definition OPEN_ALWAYS :: u32 where "OPEN_ALWAYS = 4"
definition ERROR_ACCESS_DENIED :: u32 where "ERROR_ACCESS_DENIED = 5"
definition ERROR_IO_PENDING :: u32 where "ERROR_IO_PENDING = 997"

definition file_access :: "u32 \<Rightarrow> u32" where
  "file_access flags =
     (if has_flag flags (READ_SOLO OR READ_SHARE) then GENERIC_READ else 0)
     OR (if has_flag flags (WRITE_SOLO OR WRITE_SHARE) then GENERIC_WRITE else 0)
     OR (if has_flag flags APPEND_FILE then FILE_APPEND_DATA else 0)"

definition file_share :: "u32 \<Rightarrow> u32" where
  "file_share flags =
     (if has_flag flags READ_SHARE then FILE_SHARE_READ else 0)
     OR (if has_flag flags WRITE_SHARE then FILE_SHARE_WRITE else 0)
     OR (if has_flag flags DELETE_SHARE then FILE_SHARE_DELETE else 0)"

definition NewFile_W :: "'w win \<Rightarrow> mem \<Rightarrow> 'w \<Rightarrow> ptr \<Rightarrow> u32 \<Rightarrow> u32 \<Rightarrow> (handle \<times> 'w) option" where
  "NewFile_W os m w filename creationMode flags =
     do {
       let attributes =
         (if has_flag flags ASYNC_FILE then FILE_FLAG_OVERLAPPED else 0)
         OR (if has_flag flags HIDDEN_FILE then FILE_ATTRIBUTE_HIDDEN else 0);
       name \<leftarrow> wstring m filename;
       Some (win_CreateFile os name (file_access flags) (file_share flags) creationMode attributes w)
     }"

definition CreateNewFile_W :: "'w win \<Rightarrow> mem \<Rightarrow> 'w \<Rightarrow> ptr \<Rightarrow> u32 \<Rightarrow> (handle \<times> 'w) option" where
  "CreateNewFile_W os m w filename flags =
     NewFile_W os m w filename (if has_flag flags FORCE_CREATE then CREATE_ALWAYS else CREATE_NEW) flags"

definition OpenFileHandle_W :: "'w win \<Rightarrow> mem \<Rightarrow> 'w \<Rightarrow> ptr \<Rightarrow> u32 \<Rightarrow> (handle \<times> 'w) option" where
  "OpenFileHandle_W os m w filename flags =
     NewFile_W os m w filename (if has_flag flags FORCE_OPEN then OPEN_ALWAYS else OPEN_EXISTING) flags"

definition CloseFileHandle_W :: "'w win \<Rightarrow> 'w \<Rightarrow> handle \<Rightarrow> 'w" where
  "CloseFileHandle_W os w f = snd (win_CloseHandle os f w)"

definition RemoveFile_W :: "'w win \<Rightarrow> mem \<Rightarrow> 'w \<Rightarrow> ptr \<Rightarrow> (bool \<times> 'w) option" where
  "RemoveFile_W os m w filename =
     do {
       name \<leftarrow> wstring m filename;
       Some
         (case win_DeleteFile os name w of
            (True, w) \<Rightarrow> (True, w)
          | (False, w) \<Rightarrow>
              if win_GetLastError os w = ERROR_ACCESS_DENIED
              then let (_, w) = win_SetFileAttributes os name FILE_ATTRIBUTE_NORMAL w in win_DeleteFile os name w
              else (False, w))
     }"

section \<open>Reading and writing files\<close>

definition INVALID_FILE_SIZE :: u32 where "INVALID_FILE_SIZE = 0xFFFFFFFF"
definition INVALID_SET_FILE_POINTER :: u32 where "INVALID_SET_FILE_POINTER = 0xFFFFFFFF"
definition FILE_BEGIN :: u32 where "FILE_BEGIN = 0"

definition FileSizeOf_W :: "'w win \<Rightarrow> 'w \<Rightarrow> handle \<Rightarrow> usz" where
  "FileSizeOf_W os w f =
     (let (lo, hi) = win_GetFileSize os f w in if lo \<noteq> INVALID_FILE_SIZE then quad hi lo else USZ_MAX)"

definition SeekFile_W :: "'w win \<Rightarrow> 'w \<Rightarrow> handle \<Rightarrow> usz \<Rightarrow> bool \<times> 'w" where
  "SeekFile_W os w f pos =
     (let posHi = ucast (drop_bit 32 pos);
          (result, w) = win_SetFilePointer os f (ucast (pos AND 0xFFFFFFFF)) posHi FILE_BEGIN w
      in (result \<noteq> INVALID_SET_FILE_POINTER, w))"

abbreviation U32_MAX_usz :: usz where "U32_MAX_usz \<equiv> 0xFFFFFFFF"

text \<open>The loop of \<open>ReadFromFile\<close>; nothing bounds the number of reads that return no byte.\<close>

partial_function (option) ReadFromFile_loop_W ::
  "'w win \<Rightarrow> handle \<Rightarrow> mem \<Rightarrow> 'w \<Rightarrow> ptr \<Rightarrow> usz \<Rightarrow> (bool \<times> mem \<times> 'w) option" where
  "ReadFromFile_loop_W os f m w p remainsToRead =
     (if remainsToRead > 0
      then
        let readSize = (if remainsToRead > U32_MAX_usz then 0xFFFFFFFF else ucast remainsToRead);
            (r, w) = win_ReadFile os f readSize w
        in case r of
             None \<Rightarrow> Some (False, m, w)
           | Some bs \<Rightarrow>
               do {
                 m \<leftarrow> store_bytes m p bs;
                 ReadFromFile_loop_W os f m w (p + of_nat (length bs)) (remainsToRead - of_nat (length bs))
               }
      else Some (True, m, w))"

definition ReadFromFile_W ::
  "'w win \<Rightarrow> mem \<Rightarrow> 'w \<Rightarrow> handle \<Rightarrow> 'a buffer_scheme \<Rightarrow> usz \<Rightarrow> usz \<Rightarrow> (bool \<times> mem \<times> 'a buffer_scheme \<times> 'w) option" where
  "ReadFromFile_W os m w f dst amountToRead startPos =
     (let fileSize = FileSizeOf_W os w f in
      if startPos + amountToRead \<le> fileSize \<and> amountToRead \<le> Size dst - WriteCur dst
      then do {
        let (_, w) = SeekFile_W os w f startPos;
        (ok, m, w) \<leftarrow> ReadFromFile_loop_W os f m w (Base dst + WriteCur dst) amountToRead;
        if \<not> ok then Some (False, m, dst, w)
        else Some (True, m, dst\<lparr>WriteCur := WriteCur dst + amountToRead\<rparr>, w)
      }
      else Some (False, m, dst, w))"

definition ReadEntireFile_W :: "'w win \<Rightarrow> usz \<Rightarrow> mem \<Rightarrow> 'w \<Rightarrow> handle \<Rightarrow> (buffer \<times> mem \<times> 'w) option" where
  "ReadEntireFile_W os pageSize m w f =
     do {
       let fileSize = FileSizeOf_W os w f;
       let (b, m, w) = GetMemory_W os pageSize m w fileSize 0 (MEM_READ OR MEM_WRITE);
       if Base b \<noteq> 0
       then do {
         (ok, m, b, w) \<leftarrow> ReadFromFile_W os m w f b fileSize 0;
         Some (if ok then (b\<lparr>WriteCur := fileSize\<rparr>, m, w) else FreeMemory_W os m w b)
       }
       else Some (b, m, w)
     }"

text \<open>The loop of \<open>AppendToFile\<close>.\<close>

partial_function (option) AppendToFile_loop_W ::
  "'w win \<Rightarrow> handle \<Rightarrow> mem \<Rightarrow> 'w \<Rightarrow> ptr \<Rightarrow> usz \<Rightarrow> (bool \<times> 'w) option" where
  "AppendToFile_loop_W os f m w p remainsToWrite =
     (if remainsToWrite > 0
      then do {
        let writeSize = (ucast (Min remainsToWrite U32_MAX_usz) :: u32);
        bs \<leftarrow> load_bytes m p (unat writeSize);
        let (r, w) = win_WriteFile os f bs w;
        case r of
          None \<Rightarrow> Some (False, w)
        | Some bytesWritten \<Rightarrow>
            AppendToFile_loop_W os f m w (p + ucast bytesWritten) (remainsToWrite - ucast bytesWritten)
      }
      else Some (True, w))"

definition AppendToFile_W :: "'w win \<Rightarrow> mem \<Rightarrow> 'w \<Rightarrow> handle \<Rightarrow> buffer \<Rightarrow> (bool \<times> 'w) option" where
  "AppendToFile_W os m w f content = AppendToFile_loop_W os f m w (Base content) (WriteCur content)"

definition WriteEntireFile_W :: "'w win \<Rightarrow> mem \<Rightarrow> 'w \<Rightarrow> handle \<Rightarrow> buffer \<Rightarrow> (bool \<times> 'w) option" where
  "WriteEntireFile_W os m w f content = (let (_, w) = SeekFile_W os w f 0 in AppendToFile_W os m w f content)"

definition WriteToFile_W :: "'w win \<Rightarrow> mem \<Rightarrow> 'w \<Rightarrow> handle \<Rightarrow> buffer \<Rightarrow> usz \<Rightarrow> (bool \<times> 'w) option" where
  "WriteToFile_W os m w f content startPos =
     (let (_, w) = SeekFile_W os w f startPos in AppendToFile_W os m w f content)"

section \<open>Asynchronous calls\<close>

text \<open>The loops of \<open>ReadFileAsync\<close> and \<open>WriteFileAsync\<close>, which issue one call for each 4 GB.\<close>

definition overlapped_at :: "async_W \<Rightarrow> usz \<Rightarrow> async_W" where
  "overlapped_at a pos = a\<lparr>Offset := ucast (pos AND 0xFFFFFFFF), OffsetHigh := ucast (drop_bit 32 pos AND 0xFFFFFFFF)\<rparr>"

abbreviation async_chunk :: "usz \<Rightarrow> u32" where
  "async_chunk n \<equiv> ucast (Min n U32_MAX_usz)"

lemma unat_chunk: "unat (ucast (async_chunk n) :: usz) = min (unat n) 0xFFFFFFFF"
proof -
  have "unat (Min n U32_MAX_usz) = min (unat n) 0xFFFFFFFF" by (auto simp: Min_def word_le_nat_alt)
  moreover have "min (unat n) 0xFFFFFFFF < 2 ^ 32" by (simp add: min_less_iff_disj)
  ultimately show ?thesis by (simp add: unsigned_ucast_eq unsigned_take_bit_eq take_bit_nat_eq_self)
qed

lemma chunk_step:
  assumes "i < (n :: usz)"
  shows "unat (i + ucast (async_chunk (n - i))) = unat i + min (unat n - unat i) 0xFFFFFFFF"
proof -
  have "unat (n - i) = unat n - unat i" using assms by (intro unat_sub) simp
  then have c: "unat (ucast (async_chunk (n - i)) :: usz) = min (unat n - unat i) 0xFFFFFFFF" by (simp add: unat_chunk)
  have "unat i + min (unat n - unat i) 0xFFFFFFFF \<le> unat n" using assms by (simp add: word_less_nat_alt)
  then have "unat i + unat (ucast (async_chunk (n - i)) :: usz) < 2 ^ LENGTH(64)"
    unfolding c using unat_lt_2p [of n] by simp
  then have "unat (i + ucast (async_chunk (n - i))) = unat i + unat (ucast (async_chunk (n - i)) :: usz)"
    by (rule unat_add_lem [THEN iffD1])
  then show ?thesis by (simp only: c)
qed

lemma chunk_progress: "i < (n :: usz) \<Longrightarrow> unat n - unat (i + ucast (async_chunk (n - i))) < unat n - unat i"
  using chunk_step [of i n] by (simp add: word_less_nat_alt)

function ReadFileAsync_loop_W ::
  "'w win \<Rightarrow> handle \<Rightarrow> 'w \<Rightarrow> ptr \<Rightarrow> usz \<Rightarrow> usz \<Rightarrow> usz \<Rightarrow> async_W \<Rightarrow> bool \<times> async_W \<times> 'w" where
  "ReadFileAsync_loop_W os f w p amountRead amountToRead startPos a =
     (if amountRead < amountToRead
      then
        let a = overlapped_at a startPos;
            bytesToRead = async_chunk (amountToRead - amountRead);
            (r, w) = win_ReadFileOverlapped os f p bytesToRead a w
        in if \<not> r \<and> win_GetLastError os w \<noteq> ERROR_IO_PENDING then (False, a, w)
           else ReadFileAsync_loop_W os f w (p + ucast bytesToRead) (amountRead + ucast bytesToRead) amountToRead
                  (startPos + ucast bytesToRead) a
      else (True, a, w))"
  by pat_completeness auto
termination
  by (relation "measure (\<lambda>(os, f, w, p, i, n, s, a). unat n - unat i)") (simp_all add: chunk_progress)

definition ReadFileAsync_W ::
  "'w win \<Rightarrow> 'w \<Rightarrow> handle \<Rightarrow> 'a buffer_scheme \<Rightarrow> usz \<Rightarrow> usz \<Rightarrow> async_W \<Rightarrow> bool \<times> 'a buffer_scheme \<times> async_W \<times> 'w" where
  "ReadFileAsync_W os w f dst amountToRead startPos async =
     (if amountToRead \<le> Size dst - WriteCur dst
      then
        let (ok, a, w) = ReadFileAsync_loop_W os f w (Base dst + WriteCur dst) 0 amountToRead startPos async
        in if \<not> ok then (False, dst, a, w)
           else (True, dst\<lparr>WriteCur := WriteCur dst + amountToRead\<rparr>, a\<lparr>AsyncFile := f\<rparr>, w)
      else (False, dst, async, w))"

text \<open>\<open>writeChunk\<close> is the smaller of the amount to write and the largest double word.\<close>

abbreviation write_chunk :: "usz \<Rightarrow> usz \<Rightarrow> u32" where
  "write_chunk rest n \<equiv> ucast (Min rest (Min n U32_MAX_usz))"

lemma write_chunk_eq: "i < n \<Longrightarrow> write_chunk (n - i) n = async_chunk (n - i)" for i n :: usz
proof -
  assume "i < n"
  then have "unat (n - i) = unat n - unat i" by (intro unat_sub) simp
  then have "n - i \<le> n" by (simp add: word_le_nat_alt)
  then show ?thesis by (auto simp: Min_def)
qed

function WriteFileAsync_loop_W ::
  "'w win \<Rightarrow> handle \<Rightarrow> 'w \<Rightarrow> ptr \<Rightarrow> usz \<Rightarrow> usz \<Rightarrow> usz \<Rightarrow> async_W \<Rightarrow> bool \<times> async_W \<times> 'w" where
  "WriteFileAsync_loop_W os f w p amountWritten amountToWrite startPos a =
     (if amountWritten < amountToWrite
      then
        let a = overlapped_at a startPos;
            bytesToWrite = write_chunk (amountToWrite - amountWritten) amountToWrite;
            (r, w) = win_WriteFileOverlapped os f p bytesToWrite a w
        in if \<not> r \<and> win_GetLastError os w \<noteq> ERROR_IO_PENDING then (False, a, w)
           else WriteFileAsync_loop_W os f w (p + ucast bytesToWrite) (amountWritten + ucast bytesToWrite) amountToWrite
                  (startPos + ucast bytesToWrite) a
      else (True, a, w))"
  by pat_completeness auto
termination
  by (relation "measure (\<lambda>(os, f, w, p, i, n, s, a). unat n - unat i)") (simp_all add: write_chunk_eq chunk_progress)

definition WriteFileAsync_W :: "'w win \<Rightarrow> 'w \<Rightarrow> handle \<Rightarrow> ptr \<Rightarrow> usz \<Rightarrow> usz \<Rightarrow> async_W \<Rightarrow> bool \<times> async_W \<times> 'w" where
  "WriteFileAsync_W os w f src amountToWrite startPos async =
     (let (ok, a, w) = WriteFileAsync_loop_W os f w src 0 amountToWrite startPos async
      in if \<not> ok then (False, a, w) else (True, a\<lparr>AsyncFile := f\<rparr>, w))"

declare ReadFileAsync_loop_W.simps [simp del] WriteFileAsync_loop_W.simps [simp del]

definition WaitOnIoCompletion_W :: "'w win \<Rightarrow> 'w \<Rightarrow> handle \<Rightarrow> async_W \<Rightarrow> bool \<Rightarrow> usz \<times> 'w" where
  "WaitOnIoCompletion_W os w f async block =
     (let (r, w) = win_GetOverlappedResult os f async block w;
          bytesTransferred = (case r of None \<Rightarrow> 0 | Some n \<Rightarrow> n)
      in (ucast bytesTransferred, w))"

section \<open>Whole files\<close>

definition FileLastWriteTime_W :: "'w win \<Rightarrow> 'w \<Rightarrow> handle \<Rightarrow> usz" where
  "FileLastWriteTime_W os w f = (case win_GetFileTime os f w of None \<Rightarrow> USZ_MAX | Some (hi, lo) \<Rightarrow> quad hi lo)"

definition FilesAreEqual_W :: "'w win \<Rightarrow> usz \<Rightarrow> mem \<Rightarrow> 'w \<Rightarrow> handle \<Rightarrow> handle \<Rightarrow> (bool \<times> mem \<times> 'w) option" where
  "FilesAreEqual_W os pageSize m w A B =
     (if FileSizeOf_W os w A = FileSizeOf_W os w B
      then do {
        (a, m, w) \<leftarrow> ReadEntireFile_W os pageSize m w A;
        (b, m, w) \<leftarrow> ReadEntireFile_W os pageSize m w B;
        if Base a \<noteq> 0 \<and> Base b \<noteq> 0
        then do {
          r \<leftarrow> EqualBuffers m a b;
          let (_, m, w) = FreeMemory_W os m w a;
          let (_, m, w) = FreeMemory_W os m w b;
          Some (r, m, w)
        }
        else Some (False, m, w)
      }
      else Some (False, m, w))"

definition DuplicateFile_W :: "'w win \<Rightarrow> mem \<Rightarrow> 'w \<Rightarrow> ptr \<Rightarrow> ptr \<Rightarrow> bool \<Rightarrow> (bool \<times> 'w) option" where
  "DuplicateFile_W os m w srcPath dstPath overwriteIfExists =
     do {
       src \<leftarrow> wstring m srcPath;
       dst \<leftarrow> wstring m dstPath;
       Some (win_CopyFile os src dst (\<not> overwriteIfExists) w)
     }"

definition ChangeFileLocation_W :: "'w win \<Rightarrow> mem \<Rightarrow> 'w \<Rightarrow> ptr \<Rightarrow> ptr \<Rightarrow> (bool \<times> 'w) option" where
  "ChangeFileLocation_W os m w srcPath dstPath =
     do { src \<leftarrow> wstring m srcPath; dst \<leftarrow> wstring m dstPath; Some (win_MoveFile os src dst w) }"

definition INVALID_FILE_ATTRIBUTES :: u32 where "INVALID_FILE_ATTRIBUTES = 0xFFFFFFFF"

definition IsFileHidden_W :: "'w win \<Rightarrow> mem \<Rightarrow> 'w \<Rightarrow> ptr \<Rightarrow> bool option" where
  "IsFileHidden_W os m w filename =
     do { name \<leftarrow> wstring m filename; Some (has_flag (win_GetFileAttributes os name w) FILE_ATTRIBUTE_HIDDEN) }"

definition IsExistingPath_W :: "'w win \<Rightarrow> mem \<Rightarrow> 'w \<Rightarrow> ptr \<Rightarrow> bool option" where
  "IsExistingPath_W os m w filepath =
     do { name \<leftarrow> wstring m filepath; Some (win_GetFileAttributes os name w \<noteq> INVALID_FILE_ATTRIBUTES) }"

definition IsExistingDir_W :: "'w win \<Rightarrow> mem \<Rightarrow> 'w \<Rightarrow> ptr \<Rightarrow> bool option" where
  "IsExistingDir_W os m w filepath =
     do {
       name \<leftarrow> wstring m filepath;
       let attributes = win_GetFileAttributes os name w;
       Some (attributes \<noteq> INVALID_FILE_ATTRIBUTES \<and> has_flag attributes FILE_ATTRIBUTE_DIRECTORY)
     }"


section \<open>What the system promises\<close>

text \<open>
  Regular files: a handle has a content and an offset. \<open>ReadFile\<close> and \<open>WriteFile\<close> may fail or transfer less than
  asked for, but they transfer something unless nothing was asked for or the end of the file has been reached. The
  largest double word, which says failure, is also the low half of some sizes and positions.
\<close>

definition win_read_law :: "'w win \<Rightarrow> ('w \<Rightarrow> handle \<Rightarrow> u8 list option) \<Rightarrow> ('w \<Rightarrow> handle \<Rightarrow> nat) \<Rightarrow> bool" where
  "win_read_law os content offset \<longleftrightarrow>
     (\<forall>w h bs n r w'. content w h = Some bs \<longrightarrow> win_ReadFile os h n w = (r, w') \<longrightarrow>
        content w' = content w
        \<and> (\<forall>ys. r = Some ys \<longrightarrow> (\<exists>k\<le>unat n. ys = take k (drop (offset w h) bs))
             \<and> (ys = [] \<longrightarrow> n = 0 \<or> length bs \<le> offset w h) \<and> offset w' = (offset w)(h := offset w h + length ys)))"

definition win_write_law :: "'w win \<Rightarrow> ('w \<Rightarrow> handle \<Rightarrow> u8 list option) \<Rightarrow> ('w \<Rightarrow> handle \<Rightarrow> nat) \<Rightarrow> bool" where
  "win_write_law os content offset \<longleftrightarrow>
     (\<forall>w h bs xs r w'. content w h = Some bs \<longrightarrow> win_WriteFile os h xs w = (r, w') \<longrightarrow>
        (case r of
           None \<Rightarrow> content w' = content w
         | Some k \<Rightarrow> unat k \<le> length xs \<and> (xs \<noteq> [] \<longrightarrow> k \<noteq> 0)
             \<and> content w' = (content w)(h \<mapsto> overwrite bs (offset w h) (take (unat k) xs))
             \<and> offset w' = (offset w)(h := offset w h + unat k)))"

definition win_seek_law :: "'w win \<Rightarrow> ('w \<Rightarrow> handle \<Rightarrow> u8 list option) \<Rightarrow> ('w \<Rightarrow> handle \<Rightarrow> nat) \<Rightarrow> bool" where
  "win_seek_law os content offset \<longleftrightarrow>
     (\<forall>w h bs. content w h = Some bs \<longrightarrow> length bs < 2 ^ 63
        \<and> win_GetFileSize os h w = (ucast (of_nat (length bs) :: usz), ucast (drop_bit 32 (of_nat (length bs) :: usz)))
        \<and> (\<forall>lo hi r w'. win_SetFilePointer os h lo hi FILE_BEGIN w = (r, w') \<longrightarrow> content w' = content w
             \<and> (if sint (quad hi lo) < 0 then r = INVALID_SET_FILE_POINTER \<and> offset w' = offset w
                else r = lo \<and> offset w' = (offset w)(h := unat (quad hi lo)))))"

definition win32 :: "'w win \<Rightarrow> ('w \<Rightarrow> handle \<Rightarrow> u8 list option) \<Rightarrow> ('w \<Rightarrow> handle \<Rightarrow> nat) \<Rightarrow> bool" where
  "win32 os content offset \<longleftrightarrow>
     win_seek_law os content offset \<and> win_read_law os content offset \<and> win_write_law os content offset"

lemma win32D:
  assumes "win32 os content offset" "content w h = Some bs"
  shows "length bs < 2 ^ 63"
    "win_GetFileSize os h w = (ucast (of_nat (length bs) :: usz), ucast (drop_bit 32 (of_nat (length bs) :: usz)))"
    "win_SetFilePointer os h lo hi FILE_BEGIN w = (k, w') \<Longrightarrow> content w' = content w
      \<and> (if sint (quad hi lo) < 0 then k = INVALID_SET_FILE_POINTER \<and> offset w' = offset w
         else k = lo \<and> offset w' = (offset w)(h := unat (quad hi lo)))"
    "win_ReadFile os h n w = (r, w') \<Longrightarrow> content w' = content w"
    "win_ReadFile os h n w = (Some ys, w') \<Longrightarrow> (\<exists>k\<le>unat n. ys = take k (drop (offset w h) bs))
      \<and> (ys = [] \<longrightarrow> n = 0 \<or> length bs \<le> offset w h) \<and> offset w' = (offset w)(h := offset w h + length ys)"
    "win_WriteFile os h xs w = (None, w') \<Longrightarrow> content w' = content w"
    "win_WriteFile os h xs w = (Some k, w') \<Longrightarrow> unat k \<le> length xs \<and> (xs \<noteq> [] \<longrightarrow> k \<noteq> 0)
      \<and> content w' = (content w)(h \<mapsto> overwrite bs (offset w h) (take (unat k) xs)) \<and> offset w' = (offset w)(h := offset w h + unat k)"
proof -
  have seek: "win_seek_law os content offset" and rd: "win_read_law os content offset" and wr: "win_write_law os content offset"
    using assms(1) by (simp_all add: win32_def)
  show "length bs < 2 ^ 63"
    "win_GetFileSize os h w = (ucast (of_nat (length bs) :: usz), ucast (drop_bit 32 (of_nat (length bs) :: usz)))"
    using seek assms(2) by (simp_all add: win_seek_law_def)
  show "win_SetFilePointer os h lo hi FILE_BEGIN w = (k, w') \<Longrightarrow> content w' = content w
      \<and> (if sint (quad hi lo) < 0 then k = INVALID_SET_FILE_POINTER \<and> offset w' = offset w
         else k = lo \<and> offset w' = (offset w)(h := unat (quad hi lo)))"
    using seek assms(2) unfolding win_seek_law_def by blast
  show "win_ReadFile os h n w = (r, w') \<Longrightarrow> content w' = content w"
    "win_ReadFile os h n w = (Some ys, w') \<Longrightarrow> (\<exists>k\<le>unat n. ys = take k (drop (offset w h) bs))
      \<and> (ys = [] \<longrightarrow> n = 0 \<or> length bs \<le> offset w h) \<and> offset w' = (offset w)(h := offset w h + length ys)"
    using rd assms(2) unfolding win_read_law_def by blast+
  note wr [unfolded win_write_law_def, rule_format, OF assms(2)]
  from this [of xs None w'] this [of xs "Some k" w']
  show "win_WriteFile os h xs w = (None, w') \<Longrightarrow> content w' = content w"
    "win_WriteFile os h xs w = (Some k, w') \<Longrightarrow> unat k \<le> length xs \<and> (xs \<noteq> [] \<longrightarrow> k \<noteq> 0)
      \<and> content w' = (content w)(h \<mapsto> overwrite bs (offset w h) (take (unat k) xs)) \<and> offset w' = (offset w)(h := offset w h + unat k)"
    by simp_all
qed

lemma quad_halves [simp]: "quad (ucast (drop_bit 32 p)) (ucast p) = p"
proof (rule bit_word_eqI)
  fix n assume "n < LENGTH(64)"
  then show "bit (quad (ucast (drop_bit 32 p)) (ucast p)) n \<longleftrightarrow> bit p n"
    by (auto simp: quad_def bit_or_iff bit_push_bit_iff bit_ucast_iff bit_drop_bit_eq)
qed

lemma and_mask_32 [simp]: "(ucast (p AND 0xFFFFFFFF) :: u32) = ucast (p :: usz)"
proof -
  have "p AND 0xFFFFFFFF = take_bit 32 p" by (simp add: take_bit_eq_mask mask_eq_exp_minus_1)
  then show ?thesis by (simp only:) (rule bit_word_eqI, simp add: bit_ucast_iff bit_take_bit_iff)
qed

lemma FileSizeOf_W_eq:
  assumes "win32 os content offset" "content w f = Some bs"
  shows "FileSizeOf_W os w f = (if (ucast (of_nat (length bs) :: usz) :: u32) = 0xFFFFFFFF then USZ_MAX else of_nat (length bs))"
  using win32D(2) [OF assms] by (simp add: FileSizeOf_W_def INVALID_FILE_SIZE_def)

text \<open>
  \<open>SeekFile\<close> moves to every position below 2^63, but says that it has not where the low half of the position is
  the largest double word.
\<close>

lemma SeekFile_W_eq:
  assumes "win32 os content offset" "content w f = Some bs"
  obtains w' where "SeekFile_W os w f pos = (unat pos < 2 ^ 63 \<and> (ucast pos :: u32) \<noteq> 0xFFFFFFFF, w')" "content w' = content w"
    "unat pos < 2 ^ 63 \<Longrightarrow> offset w' = (offset w)(f := unat pos)" "2 ^ 63 \<le> unat pos \<Longrightarrow> offset w' = offset w"
proof -
  obtain r w' where l: "win_SetFilePointer os f (ucast pos) (ucast (drop_bit 32 pos)) FILE_BEGIN w = (r, w')"
    by (cases "win_SetFilePointer os f (ucast pos) (ucast (drop_bit 32 pos)) FILE_BEGIN w")
  note law = win32D(3) [OF assms l]
  have s: "sint pos < 0 \<longleftrightarrow> 2 ^ 63 \<le> unat pos" using sint_high [of pos] sint_low [of pos] by (cases "unat pos < 2 ^ 63") auto
  have "SeekFile_W os w f pos = (r \<noteq> 0xFFFFFFFF, w')" by (simp add: SeekFile_W_def l INVALID_SET_FILE_POINTER_def)
  then show ?thesis
    by (intro that [of w']) (use law s in \<open>auto simp: INVALID_SET_FILE_POINTER_def split: if_splits\<close>)
qed


text \<open>Reading, or writing, through a handle never fails.\<close>

definition reads_succeed :: "'w win \<Rightarrow> handle \<Rightarrow> bool" where
  "reads_succeed os f \<longleftrightarrow> (\<forall>n w. fst (win_ReadFile os f n w) \<noteq> None)"

definition writes_succeed :: "'w win \<Rightarrow> handle \<Rightarrow> bool" where
  "writes_succeed os f \<longleftrightarrow> (\<forall>xs w. fst (win_WriteFile os f xs w) \<noteq> None)"

section \<open>Reading\<close>

abbreviation read_size :: "usz \<Rightarrow> u32" where
  "read_size n \<equiv> (if n > U32_MAX_usz then 0xFFFFFFFF else ucast n)"

lemma unat_read_size: "unat (read_size n) = min (unat n) 0xFFFFFFFF"
proof (cases "n > U32_MAX_usz")
  case True
  then show ?thesis by (simp add: word_less_nat_alt)
next
  case False
  then have "unat n \<le> 0xFFFFFFFF" by (simp add: word_less_nat_alt)
  then show ?thesis using False by (simp add: unsigned_ucast_eq unsigned_take_bit_eq take_bit_nat_eq_self)
qed

lemma read_size_0: "0 < n \<Longrightarrow> read_size n \<noteq> 0"
proof
  assume "0 < n" "read_size n = 0"
  then have "unat (read_size n) = 0" "0 < unat n" by (simp_all add: word_less_nat_alt)
  then show False unfolding unat_read_size by simp
qed

text \<open>One read into the space of a buffer.\<close>

lemma read_step_W:
  assumes "win32 os content offset" "content w f = Some bs" "buf_ok m d" "holds m d xs" "unat n \<le> space d"
    and "win_ReadFile os f (read_size n) w = (Some ys, w')"
  obtains m' where "store_bytes m (Base d + WriteCur d) ys = Some m'" "holds m' (d\<lparr>WriteCur := WriteCur d + of_nat (length ys)\<rparr>) (xs @ ys)"
    "buf_ok m' (d\<lparr>WriteCur := WriteCur d + of_nat (length ys)\<rparr>)" "\<forall>q. q \<notin> buf_region d \<longrightarrow> m' q = m q"
    "unat (n - of_nat (length ys)) = unat n - length ys" "length ys \<le> unat n"
    "space (d\<lparr>WriteCur := WriteCur d + of_nat (length ys)\<rparr>) = space d - length ys" "holds m' d xs"
proof -
  from win32D(5) [OF assms(1,2,6)] obtain k where "k \<le> unat (read_size n)" "ys = take k (drop (offset w f) bs)" by blast
  then have len: "length ys \<le> unat n" unfolding unat_read_size by (simp add: min.coboundedI2)
  then have fit: "length ys \<le> space d" using assms(5) by simp
  obtain m' d' where a: "append_result m d ys = (True, m', d')" using fit by (simp add: append_result_def)
  note f = append_fits [OF a]
  have st: "store_bytes m (Base d + WriteCur d) ys = Some m'"
    using tail_mapped [OF assms(3) fit] fit space_lt [of d] f(2) by (intro store_bytes_upd [THEN trans]) auto
  have u: "unat (of_nat (length ys) :: usz) = length ys" using len unat_lt_2p [of n] by (intro unat_offset) simp
  have h: "holds m' d' (xs @ ys)" by (rule append_holds [OF assms(3,4) a])
  show ?thesis
  proof (rule that [OF st])
    show "holds m' (d\<lparr>WriteCur := WriteCur d + of_nat (length ys)\<rparr>) (xs @ ys)" using h by (simp only: f(3))
    show "buf_ok m' (d\<lparr>WriteCur := WriteCur d + of_nat (length ys)\<rparr>)" using append_buf_ok [OF assms(3) a] by (simp only: f(3))
    show "\<forall>q. q \<notin> buf_region d \<longrightarrow> m' q = m q" using append_frame [OF assms(3) a] by blast
    show "unat (n - of_nat (length ys)) = unat n - length ys" using u len by (subst unat_sub) (simp_all add: word_le_nat_alt)
    show "space (d\<lparr>WriteCur := WriteCur d + of_nat (length ys)\<rparr>) = space d - length ys"
      using unat_WriteCur_add [OF assms(3) fit] by (simp add: space_def)
    show "holds m' d xs" using h assms(4) f(3) by (simp add: holds_def)
  qed (rule len)
qed

text \<open>What the loop leaves when the file holds all that it is to read.\<close>

definition read_done :: "mem \<Rightarrow> 'a buffer_scheme \<Rightarrow> u8 list \<Rightarrow> usz \<Rightarrow> u8 list \<Rightarrow> bool \<Rightarrow> mem \<Rightarrow> bool" where
  "read_done m d xs n zs ok m' \<longleftrightarrow> (\<forall>q. q \<notin> buf_region d \<longrightarrow> m' q = m q) \<and> holds m' d xs
     \<and> (ok \<longrightarrow> holds m' (d\<lparr>WriteCur := WriteCur d + n\<rparr>) (xs @ zs) \<and> buf_ok m' (d\<lparr>WriteCur := WriteCur d + n\<rparr>))"

lemma ReadFromFile_loop_W_reads:
  assumes "win32 os content offset" "content w f = Some bs" "buf_ok m d" "holds m d xs" "unat n \<le> space d"
    and "offset w f + unat n \<le> length bs"
  shows "\<exists>ok m' w'. ReadFromFile_loop_W os f m w (Base d + WriteCur d) n = Some (ok, m', w') \<and> content w' = content w
    \<and> read_done m d xs n (take (unat n) (drop (offset w f) bs)) ok m' \<and> (reads_succeed os f \<longrightarrow> ok)"
  using assms(2-)
proof (induction "unat n" arbitrary: n w m d xs rule: less_induct)
  case less
  show ?case
  proof (cases "0 < n")
    case False
    then have "n = 0" by (simp add: word_gt_0)
    moreover have "read_done m d xs 0 [] True m" using less.prems by (simp add: read_done_def)
    ultimately show ?thesis by (subst ReadFromFile_loop_W.simps) auto
  next
    case True
    let ?n = "read_size n" and ?off = "offset w f"
    obtain r w1 where rd: "win_ReadFile os f ?n w = (r, w1)" by (cases "win_ReadFile os f ?n w")
    have c1: "content w1 = content w" by (rule win32D(4) [OF assms(1) less.prems(1) rd])
    show ?thesis
    proof (cases r)
      case None
      have "read_done m d xs n (take (unat n) (drop ?off bs)) False m" using less.prems by (simp add: read_done_def)
      moreover have "\<not> reads_succeed os f" using rd None unfolding reads_succeed_def by (metis fst_conv)
      ultimately show ?thesis using None True rd c1 by (subst ReadFromFile_loop_W.simps) (auto simp: Let_def)
    next
      case (Some ys)
      let ?d = "d\<lparr>WriteCur := WriteCur d + of_nat (length ys)\<rparr>" and ?k = "n - of_nat (length ys)"
      note rd = rd [unfolded Some]
      obtain m1 where m1: "store_bytes m (Base d + WriteCur d) ys = Some m1" "holds m1 ?d (xs @ ys)" "buf_ok m1 ?d"
        "\<forall>q. q \<notin> buf_region d \<longrightarrow> m1 q = m q" "unat ?k = unat n - length ys" "length ys \<le> unat n"
        "space ?d = space d - length ys" "holds m1 d xs"
        by (rule read_step_W [OF assms(1) less.prems(1-4) rd])
      from win32D(5) [OF assms(1) less.prems(1) rd] obtain j where
        j: "ys = take j (drop ?off bs)" "ys = [] \<longrightarrow> ?n = 0 \<or> length bs \<le> ?off" and o: "offset w1 f = ?off + length ys" by auto
      have "ys \<noteq> []"
      proof
        assume "ys = []"
        then have "length bs \<le> ?off" using j(2) read_size_0 [OF True] by blast
        then show False using less.prems(5) True by (simp add: word_less_nat_alt)
      qed
      then have lt: "unat ?k < unat n" using m1(5,6) by (cases ys) auto
      have ys: "ys = take (length ys) (drop ?off bs)" using j(1) by (metis append_eq_conv_conj append_take_drop_id)
      have "\<exists>ok m' w'. ReadFromFile_loop_W os f m1 w1 (Base ?d + WriteCur ?d) ?k = Some (ok, m', w') \<and> content w' = content w1
        \<and> read_done m1 ?d (xs @ ys) ?k (take (unat ?k) (drop (offset w1 f) bs)) ok m' \<and> (reads_succeed os f \<longrightarrow> ok)"
        by (rule less.hyps [OF lt _ m1(3,2)]) (use c1 less.prems m1(5-7) o in simp_all)
      then obtain ok m' w' where l: "ReadFromFile_loop_W os f m1 w1 (Base ?d + WriteCur ?d) ?k = Some (ok, m', w')" "content w' = content w1"
        and dn: "read_done m1 ?d (xs @ ys) ?k (take (unat ?k) (drop (offset w1 f) bs)) ok m'" "reads_succeed os f \<longrightarrow> ok" by blast
      have "take (unat n) (drop ?off bs) = ys @ take (unat ?k) (drop (offset w1 f) bs)"
        using ys m1(5,6) o take_add [of "length ys" "unat n - length ys" "drop ?off bs"] by (simp add: add.commute)
      moreover have "holds m' d xs" using dn(1) m1(8) by (simp add: read_done_def holds_def)
      ultimately have "read_done m d xs n (take (unat n) (drop ?off bs)) ok m'"
        using dn(1) m1(4) by (simp add: read_done_def)
      moreover have "ReadFromFile_loop_W os f m w (Base d + WriteCur d) n = Some (ok, m', w')"
        using True rd m1(1) l(1) by (subst ReadFromFile_loop_W.simps) (simp add: Let_def add.assoc)
      ultimately show ?thesis using l(2) c1 dn(2) by auto
    qed
  qed
qed

text \<open>When the file holds less, and no read fails, the loop does not end: at the end of the file it reads no byte.\<close>

lemma ReadFromFile_loop_W_ends:
  assumes "win32 os content offset" "reads_succeed os f"
    and "ReadFromFile_loop_W os f m w p n = Some r" "content w f = Some bs"
  shows "n = 0 \<or> offset w f + unat n \<le> length bs"
proof -
  let ?P = "\<lambda>os' f' (m :: mem) w (p :: ptr) n (r :: bool \<times> mem \<times> 'a).
    os' = os \<longrightarrow> f' = f \<longrightarrow> content w f = Some bs \<longrightarrow> n = 0 \<or> offset w f + unat n \<le> length bs"
  have "?P os f m w p n r"
  proof (rule ReadFromFile_loop_W.raw_induct [where P = ?P, OF _ assms(3)], intro impI)
    fix loop os' f' m w p n r
    assume IH: "\<And>os' f' m w p n r. loop os' f' m w p n = Some r \<Longrightarrow> ?P os' f' m w p n r"
      and run: "(if n > 0
         then
           let readSize = read_size n; (r, w) = win_ReadFile os' f' readSize w
           in case r of
                None \<Rightarrow> Some (False, m, w)
              | Some bs \<Rightarrow> do { m \<leftarrow> store_bytes m p bs; loop os' f' m w (p + of_nat (length bs)) (n - of_nat (length bs)) }
         else Some (True, m, w)) = Some r"
      and e: "os' = os" "f' = f" and c: "content w f = Some bs"
    show "n = 0 \<or> offset w f + unat n \<le> length bs"
    proof (cases "0 < n")
      case False
      then show ?thesis by (simp add: word_gt_0)
    next
      case True
      obtain r1 w1 where rd: "win_ReadFile os f (read_size n) w = (r1, w1)" by (cases "win_ReadFile os f (read_size n) w")
      then obtain ys where ys: "r1 = Some ys" using assms(2) unfolding reads_succeed_def by (metis fst_conv not_None_eq)
      note rd = rd [unfolded ys]
      let ?k = "n - of_nat (length ys)"
      obtain m1 where "loop os f m1 w1 (p + of_nat (length ys)) ?k = Some r"
        using run True rd e by (auto simp: Let_def bind_eq_Some_conv)
      from IH [OF this] have ih: "?k = 0 \<or> offset w1 f + unat ?k \<le> length bs"
        using win32D(4) [OF assms(1) c rd] c by simp
      from win32D(5) [OF assms(1) c rd] obtain j where
        j: "j \<le> unat (read_size n)" "ys = take j (drop (offset w f) bs)" and o: "offset w1 f = offset w f + length ys" by auto
      have len: "length ys \<le> unat n" using j unfolding unat_read_size by (simp add: min.coboundedI2)
      have k: "unat ?k = unat n - length ys"
        using len unat_lt_2p [of n] by (subst unat_sub) (simp_all add: word_le_nat_alt unat_offset)
      have le: "length ys \<le> length bs - offset w f" using j(2) by simp
      have n: "0 < unat n" using True by (simp add: word_less_nat_alt)
      from ih show ?thesis
      proof
        assume "?k = 0"
        then have "unat ?k = 0" by (simp only: unat_0)
        then have "unat n = length ys" using k len by linarith
        then show ?thesis using le n by linarith
      next
        assume "offset w1 f + unat ?k \<le> length bs"
        then show ?thesis using k o len by linarith
      qed
    qed
  qed
  with assms(4) show ?thesis by blast
qed


section \<open>Writing\<close>

text \<open>What is in a file after some bytes were written; none leave it as it is, wherever the offset.\<close>

definition written :: "u8 list \<Rightarrow> nat \<Rightarrow> u8 list \<Rightarrow> u8 list" where
  "written bs off ys = (if ys = [] then bs else overwrite bs off ys)"

lemma overwrite_overwrite: "overwrite (overwrite bs off xs) (off + length xs) ys = overwrite bs off (xs @ ys)"
proof -
  let ?p = "take off (bs @ replicate (off - length bs) 0)"
  have "length ?p = off" by simp
  then show ?thesis by (simp add: overwrite_def ac_simps)
qed

lemma written_overwrite: "xs \<noteq> [] \<Longrightarrow> written (overwrite bs off xs) (off + length xs) ys = written bs off (xs @ ys)"
  by (simp add: written_def overwrite_overwrite)

lemma unat_up: "unat (ucast (u :: u32) :: usz) = unat u"
proof -
  have "unat u < 2 ^ LENGTH(32)" by (rule unsigned_less)
  then show ?thesis by (simp add: unsigned_ucast_eq take_bit_nat_eq_self)
qed

lemma AppendToFile_loop_W_writes:
  assumes "win32 os content offset" "content w f = Some bs" "bytes_at m p cs" "length cs = unat n"
  shows "\<exists>ok k w'. AppendToFile_loop_W os f m w p n = Some (ok, w') \<and> k \<le> length cs \<and> (ok \<longrightarrow> k = length cs)
    \<and> content w' = (content w)(f \<mapsto> written bs (offset w f) (take k cs)) \<and> (writes_succeed os f \<longrightarrow> ok)"
  using assms(2-)
proof (induction "unat n" arbitrary: n w bs p cs rule: less_induct)
  case less
  show ?case
  proof (cases "0 < n")
    case False
    then have "n = 0" by (simp add: word_gt_0)
    then show ?thesis using less.prems by (subst AppendToFile_loop_W.simps) (auto simp: written_def fun_eq_iff)
  next
    case True
    then have pos: "0 < unat n" by (simp add: word_less_nat_alt)
    let ?n = "async_chunk n"
    have un: "unat ?n = min (unat n) 0xFFFFFFFF" using unat_chunk [of n] by (simp only: unat_up)
    let ?xs = "take (unat ?n) cs"
    have ne: "?xs \<noteq> []" using un pos less.prems(3) by auto
    have ld: "load_bytes m p (unat ?n) = Some ?xs"
    proof -
      have "bytes_at m p (?xs @ drop (unat ?n) cs)" using less.prems(2) by simp
      then have "bytes_at m p ?xs" unfolding bytes_at_append by blast
      moreover have "length ?xs = unat ?n" using less.prems(3) un by simp
      ultimately show ?thesis by (metis load_bytes_at)
    qed
    obtain r w1 where wr: "win_WriteFile os f ?xs w = (r, w1)" by (cases "win_WriteFile os f ?xs w")
    show ?thesis
    proof (cases r)
      case None
      have "content w1 = content w" using win32D(6) [OF assms(1) less.prems(1)] wr None by blast
      then have "content w1 = (content w)(f \<mapsto> written bs (offset w f) (take 0 cs))"
        using less.prems(1) by (auto simp: written_def fun_eq_iff)
      moreover have "AppendToFile_loop_W os f m w p n = Some (False, w1)"
        using True ld wr None by (subst AppendToFile_loop_W.simps) (simp add: Let_def)
      moreover have "\<not> writes_succeed os f" using wr None unfolding writes_succeed_def by (metis fst_conv)
      ultimately show ?thesis by blast
    next
      case (Some b)
      let ?k = "unat b" and ?m = "n - ucast b"
      from win32D(7) [OF assms(1) less.prems(1) wr [unfolded Some]] ne
      have b: "?k \<le> length ?xs" "b \<noteq> 0" "content w1 = (content w)(f \<mapsto> overwrite bs (offset w f) (take ?k ?xs))"
        "offset w1 = (offset w)(f := offset w f + ?k)" by auto
      have k: "?k \<le> unat n" "?k \<le> unat ?n" "0 < ?k" using b(1,2) un less.prems(3) by (auto simp: unat_gt_0)
      then have tk: "take ?k ?xs = take ?k cs" by (simp add: min_def)
      have u: "unat (ucast b :: usz) = ?k" by (rule unat_up)
      have m: "unat ?m = unat n - ?k" using u k(1) by (subst unat_sub) (simp_all add: word_le_nat_alt)
      have c1: "content w1 f = Some (overwrite bs (offset w f) (take ?k cs))" using b(3) tk by simp
      have "bytes_at m p (take ?k cs @ drop ?k cs)" using less.prems(2) by simp
      moreover have "length (take ?k cs) = ?k" using k(1) less.prems(3) by simp
      ultimately have bt: "bytes_at m (p + of_nat ?k) (drop ?k cs)" unfolding bytes_at_append by metis
      have "(of_nat ?k :: usz) = ucast b" by (simp add: word_unat_eq_iff u)
      with bt have bt: "bytes_at m (p + ucast b) (drop ?k cs)" by simp
      have "unat ?m < unat n" "length (drop ?k cs) = unat ?m" using m k less.prems(3) by simp_all
      from less.hyps [OF this(1) c1 bt this(2)] obtain ok j w' where
        l: "AppendToFile_loop_W os f m w1 (p + ucast b) ?m = Some (ok, w')" "j \<le> length (drop ?k cs)" "ok \<longrightarrow> j = length (drop ?k cs)"
          "content w' = (content w1)(f \<mapsto> written (overwrite bs (offset w f) (take ?k cs)) (offset w1 f) (take j (drop ?k cs)))"
          "writes_succeed os f \<longrightarrow> ok" by blast
      have "length (take ?k cs) = ?k" "take ?k cs \<noteq> []" using k less.prems(3) by auto
      then have "written (overwrite bs (offset w f) (take ?k cs)) (offset w1 f) (take j (drop ?k cs)) = written bs (offset w f) (take (?k + j) cs)"
        using written_overwrite [of "take ?k cs" bs "offset w f" "take j (drop ?k cs)"] b(4) by (simp add: take_add)
      then have "content w' = (content w)(f \<mapsto> written bs (offset w f) (take (?k + j) cs))" using l(4) b(3) by simp
      moreover have "AppendToFile_loop_W os f m w p n = Some (ok, w')"
        using True ld wr Some l(1) by (subst AppendToFile_loop_W.simps) (simp add: Let_def)
      moreover have "?k + j \<le> length cs" "ok \<longrightarrow> ?k + j = length cs" using l(2,3) k(1) less.prems(3) by auto
      ultimately show ?thesis using l(5) by blast
    qed
  qed
qed


section \<open>Main results\<close>

lemma FileSizeOf_W_exact:
  assumes "win32 os content offset" "content w f = Some bs" "(ucast (of_nat (length bs) :: usz) :: u32) \<noteq> 0xFFFFFFFF"
  shows "FileSizeOf_W os w f = of_nat (length bs)" "unat (of_nat (length bs) :: usz) = length bs"
  using FileSizeOf_W_eq [OF assms(1,2)] assms(3) win32D(1) [OF assms(1,2)] by (simp, intro unat_offset) simp

lemma ReadFromFile_W_cases:
  assumes "win32 os content offset" "content w f = Some bs" "buf_ok m dst" "holds m dst xs"
    and "unat start < 2 ^ 63" "unat start + unat n < 2 ^ 64" "(ucast (of_nat (length bs) :: usz) :: u32) \<noteq> 0xFFFFFFFF"
  shows "if unat start + unat n \<le> length bs \<and> unat n \<le> space dst
    then \<exists>ok m' dst' w'. ReadFromFile_W os m w f dst n start = Some (ok, m', dst', w')
      \<and> content w' = content w \<and> (\<forall>q. q \<notin> buf_region dst \<longrightarrow> m' q = m q) \<and> (reads_succeed os f \<longrightarrow> ok)
      \<and> (if ok then holds m' dst' (xs @ take (unat n) (drop (unat start) bs)) \<and> buf_ok m' dst'
         else dst' = dst \<and> holds m' dst xs)
    else ReadFromFile_W os m w f dst n start = Some (False, m, dst, w)"
proof -
  note sz = FileSizeOf_W_exact [OF assms(1,2,7)]
  have "unat (start + n) = unat start + unat n" using assms(6) by (subst unat_add_lem [THEN iffD1]) simp_all
  then have in_file: "start + n \<le> FileSizeOf_W os w f \<longleftrightarrow> unat start + unat n \<le> length bs"
    using sz by (simp add: word_le_nat_alt)
  have fits: "n \<le> Size dst - WriteCur dst \<longleftrightarrow> unat n \<le> space dst" using unat_space [OF assms(3)] by (simp add: word_le_nat_alt)
  show ?thesis
  proof (cases "unat start + unat n \<le> length bs \<and> unat n \<le> space dst")
    case False
    then show ?thesis using in_file fits by (auto simp: ReadFromFile_W_def Let_def)
  next
    case True
    obtain ok0 w0 where s: "SeekFile_W os w f start = (ok0, w0)" "content w0 = content w" "offset w0 = (offset w)(f := unat start)"
      using SeekFile_W_eq [OF assms(1,2), of start] assms(5) by metis
    have c0: "content w0 f = Some bs" "offset w0 f + unat n \<le> length bs" using s(2,3) assms(2) True by simp_all
    from ReadFromFile_loop_W_reads [OF assms(1) c0(1) assms(3,4) _ c0(2)] True obtain ok m' w' where
      l: "ReadFromFile_loop_W os f m w0 (Base dst + WriteCur dst) n = Some (ok, m', w')" "content w' = content w0"
        "read_done m dst xs n (take (unat n) (drop (offset w0 f) bs)) ok m'" "reads_succeed os f \<longrightarrow> ok" by blast
    have "ReadFromFile_W os m w f dst n start = Some (ok, m', if ok then dst\<lparr>WriteCur := WriteCur dst + n\<rparr> else dst, w')"
      using True in_file fits s(1) l(1) by (simp add: ReadFromFile_W_def Let_def)
    then show ?thesis using True l(2-4) s(2,3) by (simp add: read_done_def)
  qed
qed

text \<open>
  C12: \<open>ReadFromFile\<close> on Windows, from a position below \<open>2 ^ 63\<close>, for a range whose end does not wrap, on a file
  of whose size the low double word is not \<open>0xFFFFFFFF\<close>: a range that is inside the file and fits in the buffer is
  appended to the buffer, however many reads it takes, and true returned, unless one of the reads fails; then the
  buffer holds what it did. Any other range is refused and nothing changes. Under these conditions it always returns;
  outside of them it may not, as C36 shows.
\<close>

theorem ReadFromFile_W_correct:
  assumes "win32 os content offset" "content w f = Some bs" "buf_ok m dst" "holds m dst xs"
    and "unat start < 2 ^ 63" "unat start + unat n < 2 ^ 64" "(ucast (of_nat (length bs) :: usz) :: u32) \<noteq> 0xFFFFFFFF"
  shows "if unat start + unat n \<le> length bs \<and> unat n \<le> space dst
    then \<exists>ok m' dst' w'. ReadFromFile_W os m w f dst n start = Some (ok, m', dst', w')
      \<and> content w' = content w \<and> (\<forall>q. q \<notin> buf_region dst \<longrightarrow> m' q = m q) \<and> (reads_succeed os f \<longrightarrow> ok)
      \<and> (if ok then holds m' dst' (xs @ take (unat n) (drop (unat start) bs)) \<and> buf_ok m' dst'
         else dst' = dst \<and> holds m' dst xs)
    else ReadFromFile_W os m w f dst n start = Some (False, m, dst, w)"
  using assms by (rule ReadFromFile_W_cases)

text \<open>
  C36: the range test of \<open>ReadFromFile\<close> is passed by a range that goes beyond the end of the file, when the sum
  wraps or when the size of the file cannot be told: then the reads at the end of the file, which succeed with no
  bytes, are repeated for ever. The bytes read fit in the buffer, so that no write to memory is what fails.
\<close>

theorem ReadFromFile_W_never_returns:
  assumes "win32 os content offset" "content w f = Some bs" "reads_succeed os f" "buf_ok m dst"
    and "start + n \<le> FileSizeOf_W os w f" "n \<le> Size dst - WriteCur dst" "n \<noteq> 0"
    and "length bs < (if unat start < 2 ^ 63 then unat start else offset w f) + unat n"
  shows "ReadFromFile_W os m w f dst n start = None"
proof -
  obtain ok0 w0 where s: "SeekFile_W os w f start = (ok0, w0)" "content w0 = content w"
    "unat start < 2 ^ 63 \<Longrightarrow> offset w0 = (offset w)(f := unat start)" "2 ^ 63 \<le> unat start \<Longrightarrow> offset w0 = offset w"
    using SeekFile_W_eq [OF assms(1,2), of start] by metis
  have "offset w0 f = (if unat start < 2 ^ 63 then unat start else offset w f)" using s(3,4) by auto
  then have out: "length bs < offset w0 f + unat n" using assms(8) by simp
  have "content w0 f = Some bs" using s(2) assms(2) by simp
  from ReadFromFile_loop_W_ends [OF assms(1,3) _ this] out assms(7)
  have "ReadFromFile_loop_W os f m w0 (Base dst + WriteCur dst) n \<noteq> Some r" for r by (metis linorder_not_less)
  then have "ReadFromFile_loop_W os f m w0 (Base dst + WriteCur dst) n = None" using not_None_eq by blast
  then show ?thesis using assms(5,6) s(1) by (simp add: ReadFromFile_W_def Let_def)
qed

lemma WriteToFile_W_cases:
  assumes "win32 os content offset" "content w f = Some bs" "holds m c cs" "unat start < 2 ^ 63"
  shows "\<exists>ok k w'. WriteToFile_W os m w f c start = Some (ok, w') \<and> k \<le> length cs \<and> (ok \<longrightarrow> k = length cs)
    \<and> content w' = (content w)(f \<mapsto> written bs (unat start) (take k cs)) \<and> (writes_succeed os f \<longrightarrow> ok)"
proof -
  obtain ok0 w0 where s: "SeekFile_W os w f start = (ok0, w0)" "content w0 = content w" "offset w0 = (offset w)(f := unat start)"
    using SeekFile_W_eq [OF assms(1,2), of start] assms(4) by metis
  have c0: "content w0 f = Some bs" using s(2) assms(2) by simp
  have "bytes_at m (Base c) cs" "length cs = unat (WriteCur c)" using assms(3) by (simp_all add: holds_def)
  from AppendToFile_loop_W_writes [OF assms(1) c0 this] show ?thesis
    using s by (simp add: WriteToFile_W_def AppendToFile_W_def)
qed

text \<open>
  \<open>WriteToFile\<close> on Windows returns: true after all the bytes of the buffer have been put in the file at the
  position given, over what was there and behind zeros when that is beyond its end, false after some first part of
  them has. No other file changes.
\<close>

theorem WriteToFile_W_correct:
  assumes "win32 os content offset" "content w f = Some bs" "holds m c cs" "unat start < 2 ^ 63"
  shows "\<exists>ok k w'. WriteToFile_W os m w f c start = Some (ok, w') \<and> k \<le> length cs \<and> (ok \<longrightarrow> k = length cs)
    \<and> content w' = (content w)(f \<mapsto> written bs (unat start) (take k cs)) \<and> (writes_succeed os f \<longrightarrow> ok)"
  using assms by (rule WriteToFile_W_cases)

text \<open>
  C19: what \<open>WriteToFile\<close> has written on Windows, \<open>ReadFromFile\<close> reads back.
\<close>

theorem WriteToFile_W_ReadFromFile_W:
  assumes "win32 os content offset" "content w f = Some bs" "holds m c cs" "cs \<noteq> []" "unat start + length cs < 2 ^ 63"
    and "WriteToFile_W os m w f c start = Some (True, w1)" "reads_succeed os f"
    and "buf_ok m dst" "holds m dst xs" "length cs \<le> space dst"
    and "(ucast (of_nat (max (length bs) (unat start + length cs)) :: usz) :: u32) \<noteq> 0xFFFFFFFF"
  shows "\<exists>m' dst' w2. ReadFromFile_W os m w1 f dst (WriteCur c) start = Some (True, m', dst', w2) \<and> holds m' dst' (xs @ cs)"
proof -
  have lc: "unat (WriteCur c) = length cs" using assms(3) by (simp add: holds_def)
  have "content w1 = (content w)(f \<mapsto> written bs (unat start) cs)"
    using WriteToFile_W_cases [OF assms(1-3), of start] assms(5,6) by auto
  then have c1: "content w1 f = Some (overwrite bs (unat start) cs)" using assms(4) by (simp add: written_def)
  have "(ucast (of_nat (length (overwrite bs (unat start) cs)) :: usz) :: u32) \<noteq> 0xFFFFFFFF"
    using assms(11) by (simp only: length_overwrite not_False_eq_True)
  from ReadFromFile_W_cases [OF assms(1) c1 assms(8,9) _ _ this, of start "WriteCur c"] show ?thesis
    using assms(5,7,10) lc overwrite_read [of cs "unat start" bs] by (auto simp: length_overwrite)
qed

text \<open>
  The attributes of a file that does not exist are the largest double word, which has every bit:
  \<open>IsFileHidden\<close> says of every missing file that it is hidden.
\<close>

theorem IsFileHidden_W_missing:
  assumes "IsExistingPath_W os m w name = Some False"
  shows "IsFileHidden_W os m w name = Some True"
  using assms by (auto simp: IsExistingPath_W_def IsFileHidden_W_def INVALID_FILE_ATTRIBUTES_def FILE_ATTRIBUTE_HIDDEN_def bind_eq_Some_conv)


section \<open>A system\<close>

text \<open>Handles with a content and an offset each; a read takes two bytes at most, and no name exists.\<close>

type_synonym wdisk = "handle \<Rightarrow> (u8 list \<times> nat) option"

definition wsim_read :: "handle \<Rightarrow> u32 \<Rightarrow> wdisk \<Rightarrow> u8 list option \<times> wdisk" where
  "wsim_read h n w =
     (case w h of
        None \<Rightarrow> (Some [], w)
      | Some (bs, off) \<Rightarrow> (let ys = take (min 2 (unat n)) (drop off bs) in (Some ys, w(h \<mapsto> (bs, off + length ys)))))"

definition wsim_write :: "handle \<Rightarrow> u8 list \<Rightarrow> wdisk \<Rightarrow> u32 option \<times> wdisk" where
  "wsim_write h xs w =
     (case w h of
        None \<Rightarrow> (None, w)
      | Some (bs, off) \<Rightarrow>
          if off + length xs < 2 ^ 63 \<and> length xs < 2 ^ 32
          then (Some (of_nat (length xs)), w(h \<mapsto> (overwrite bs off xs, off + length xs))) else (None, w))"

definition wsim_seek :: "handle \<Rightarrow> u32 \<Rightarrow> u32 \<Rightarrow> u32 \<Rightarrow> wdisk \<Rightarrow> u32 \<times> wdisk" where
  "wsim_seek h lo hi method w =
     (case w h of
        None \<Rightarrow> (INVALID_SET_FILE_POINTER, w)
      | Some (bs, off) \<Rightarrow> if sint (quad hi lo) < 0 then (INVALID_SET_FILE_POINTER, w) else (lo, w(h \<mapsto> (bs, unat (quad hi lo)))))"

definition wsim_size :: "handle \<Rightarrow> wdisk \<Rightarrow> u32 \<times> u32" where
  "wsim_size h w =
     (case w h of
        None \<Rightarrow> (INVALID_FILE_SIZE, 0)
      | Some (bs, off) \<Rightarrow> (ucast (of_nat (length bs) :: usz), ucast (drop_bit 32 (of_nat (length bs) :: usz))))"

text \<open>A system that refuses every call.\<close>

definition no_files :: "'w win" where
  "no_files = \<lparr>win_VirtualAlloc = (\<lambda>m p n a b w. (0, w)), win_VirtualFree = (\<lambda>p w. w),
     win_CreateFile = (\<lambda>name a b c d w. (USZ_MAX, w)), win_CloseHandle = (\<lambda>h w. (True, w)),
     win_DeleteFile = (\<lambda>name w. (False, w)), win_GetLastError = (\<lambda>w. 2), win_SetFileAttributes = (\<lambda>name a w. (False, w)),
     win_GetFileAttributes = (\<lambda>name w. INVALID_FILE_ATTRIBUTES), win_GetFileSize = (\<lambda>h w. (INVALID_FILE_SIZE, 0)),
     win_SetFilePointer = (\<lambda>h lo hi b w. (INVALID_SET_FILE_POINTER, w)),
     win_ReadFile = (\<lambda>h n w. (None, w)), win_WriteFile = (\<lambda>h xs w. (None, w)), win_ReadFileOverlapped = (\<lambda>h p n a w. (False, w)),
     win_WriteFileOverlapped = (\<lambda>h p n a w. (False, w)), win_GetOverlappedResult = (\<lambda>h a b w. (None, w)),
     win_GetFileTime = (\<lambda>h w. None), win_CopyFile = (\<lambda>a b c w. (False, w)), win_MoveFile = (\<lambda>a b w. (False, w))\<rparr>"

definition wsim :: "wdisk win" where
  "wsim = no_files\<lparr>win_CloseHandle := (\<lambda>h w. (True, w(h := None))), win_GetFileSize := wsim_size,
     win_SetFilePointer := wsim_seek, win_ReadFile := wsim_read, win_WriteFile := wsim_write\<rparr>"

definition wsim_content :: "wdisk \<Rightarrow> handle \<Rightarrow> u8 list option" where
  "wsim_content w h = (case w h of Some (bs, off) \<Rightarrow> if length bs < 2 ^ 63 then Some bs else None | None \<Rightarrow> None)"

definition wsim_offset :: "wdisk \<Rightarrow> handle \<Rightarrow> nat" where
  "wsim_offset w h = (case w h of Some (bs, off) \<Rightarrow> off | None \<Rightarrow> 0)"

lemma wsim_content_Some: "wsim_content w h = Some bs \<longleftrightarrow> (\<exists>off. w h = Some (bs, off) \<and> length bs < 2 ^ 63)"
  by (auto simp: wsim_content_def split: option.splits)

lemma wsim_fields:
  "win_ReadFile wsim = wsim_read" "win_WriteFile wsim = wsim_write" "win_SetFilePointer wsim = wsim_seek" "win_GetFileSize wsim = wsim_size"
  "win_GetFileAttributes wsim = (\<lambda>name w. INVALID_FILE_ATTRIBUTES)"
  by (simp_all add: wsim_def no_files_def)

lemma wsim_update:
  "w h = Some (bs, off) \<Longrightarrow> length bs < 2 ^ 63 \<Longrightarrow> length ys < 2 ^ 63 \<Longrightarrow> wsim_content (w(h \<mapsto> (ys, k))) = (wsim_content w)(h \<mapsto> ys)"
  "w h = Some (bs, off) \<Longrightarrow> length bs < 2 ^ 63 \<Longrightarrow> (wsim_content w)(h \<mapsto> bs) = wsim_content w"
  "w h = Some (bs, off) \<Longrightarrow> wsim_offset (w(h \<mapsto> (ys, k))) = (wsim_offset w)(h := k)"
  by (auto simp: wsim_content_def wsim_offset_def fun_eq_iff)

lemma wsim_seek_law: "win_seek_law wsim wsim_content wsim_offset"
  unfolding win_seek_law_def wsim_fields wsim_content_Some wsim_seek_def wsim_size_def
  by (auto simp: wsim_update split: if_splits)

lemma wsim_read_law: "win_read_law wsim wsim_content wsim_offset"
  unfolding win_read_law_def
proof (intro allI impI)
  fix w h bs n r w'
  assume c: "wsim_content w h = Some bs" and rd: "win_ReadFile wsim h n w = (r, w')"
  obtain off where w: "w h = Some (bs, off)" "length bs < 2 ^ 63" using c by (auto simp: wsim_content_Some)
  let ?ys = "take (min 2 (unat n)) (drop off bs)"
  have r: "r = Some ?ys" "w' = w(h \<mapsto> (bs, off + length ?ys))" using rd w by (simp_all add: wsim_fields wsim_read_def Let_def)
  have "wsim_content w' = wsim_content w" "wsim_offset w' = (wsim_offset w)(h := off + length ?ys)" "wsim_offset w h = off"
    using wsim_update w by (auto simp: r(2)) (simp_all add: wsim_offset_def)
  moreover have "?ys = [] \<longrightarrow> n = 0 \<or> length bs \<le> off" by (auto simp: min_def unat_eq_zero split: if_splits)
  ultimately show "wsim_content w' = wsim_content w \<and> (\<forall>ys. r = Some ys \<longrightarrow> (\<exists>k\<le>unat n. ys = take k (drop (wsim_offset w h) bs))
      \<and> (ys = [] \<longrightarrow> n = 0 \<or> length bs \<le> wsim_offset w h) \<and> wsim_offset w' = (wsim_offset w)(h := wsim_offset w h + length ys))"
    using r(1) by (auto intro: min.cobounded2)
qed

lemma wsim_write_law: "win_write_law wsim wsim_content wsim_offset"
  unfolding win_write_law_def
proof (intro allI impI)
  fix w h bs xs r w'
  assume c: "wsim_content w h = Some bs" and wr: "win_WriteFile wsim h xs w = (r, w')"
  obtain off where w: "w h = Some (bs, off)" "length bs < 2 ^ 63" using c by (auto simp: wsim_content_Some)
  show "case r of None \<Rightarrow> wsim_content w' = wsim_content w
    | Some k \<Rightarrow> unat k \<le> length xs \<and> (xs \<noteq> [] \<longrightarrow> k \<noteq> 0)
        \<and> wsim_content w' = (wsim_content w)(h \<mapsto> overwrite bs (wsim_offset w h) (take (unat k) xs))
        \<and> wsim_offset w' = (wsim_offset w)(h := wsim_offset w h + unat k)"
  proof (cases "off + length xs < 2 ^ 63 \<and> length xs < 2 ^ 32")
    case False
    then show ?thesis using wr w by (auto simp: wsim_fields wsim_write_def)
  next
    case True
    have u: "unat (of_nat (length xs) :: u32) = length xs" using True by (simp add: unat_of_nat take_bit_nat_eq_self)
    have r: "r = Some (of_nat (length xs))" "w' = w(h \<mapsto> (overwrite bs off xs, off + length xs))"
      using wr w True by (simp_all add: wsim_fields wsim_write_def)
    have "xs \<noteq> [] \<longrightarrow> (of_nat (length xs) :: u32) \<noteq> 0" using u by (metis length_0_conv unat_0)
    moreover have "wsim_offset w h = off" using w by (simp add: wsim_offset_def)
    moreover have l: "length (overwrite bs off xs) < 2 ^ 63" using True w(2) by (simp add: length_overwrite)
    ultimately show ?thesis using wsim_update(1) [where w = w and h = h, OF w(1) w(2) l] wsim_update(3) [where w = w and h = h, OF w(1)] u by (simp add: r)
  qed
qed

lemma wsim_win32: "win32 wsim wsim_content wsim_offset"
  unfolding win32_def using wsim_seek_law wsim_read_law wsim_write_law by blast

lemma wsim_reads: "reads_succeed wsim f"
  by (auto simp: reads_succeed_def wsim_fields wsim_read_def Let_def split: option.splits)

definition ex_wdisk :: wdisk where
  "ex_wdisk = [3 \<mapsto> ([1, 2, 3, 4], 4)]"

lemma ex_wdisk_content: "wsim_content ex_wdisk 3 = Some [1, 2, 3, 4]" "wsim_offset ex_wdisk 3 = 4"
  by (simp_all add: ex_wdisk_def wsim_content_def wsim_offset_def)

theorem ReadFromFile_W_correct_witness:
  "\<exists>m' dst' w'. ReadFromFile_W wsim ex_mem ex_wdisk 3 ex_dst 3 1 = Some (True, m', dst', w') \<and> holds m' dst' [7, 2, 3, 4]"
  using ReadFromFile_W_correct [where content = wsim_content and offset = wsim_offset, OF wsim_win32 ex_wdisk_content(1) ex_facts(1,3), of 1 3] wsim_reads [of 3]
  by (auto simp: ex_dst_space)

theorem ReadFromFile_W_never_returns_witness:
  "ReadFromFile_W wsim ex_mem ex_wdisk 3 ex_dst 2 0xFFFFFFFFFFFFFFFF = None"
proof -
  have "FileSizeOf_W wsim ex_wdisk 3 = 4" using FileSizeOf_W_exact(1) [where content = wsim_content and offset = wsim_offset, OF wsim_win32 ex_wdisk_content(1)] by simp
  then show ?thesis
    by (intro ReadFromFile_W_never_returns [where content = wsim_content and offset = wsim_offset, OF wsim_win32 ex_wdisk_content(1) wsim_reads ex_facts(1)])
      (simp_all add: ex_wdisk_content ex_dst_def)
qed

theorem WriteToFile_W_correct_witness:
  "\<exists>ok k w'. WriteToFile_W wsim ex_mem ex_wdisk 3 ex_src 1 = Some (ok, w') \<and> k \<le> 2 \<and> (ok \<longrightarrow> k = 2)
    \<and> wsim_content w' 3 = Some (written [1, 2, 3, 4] 1 (take k [1, 2]))"
proof -
  obtain ok k w' where "WriteToFile_W wsim ex_mem ex_wdisk 3 ex_src 1 = Some (ok, w')" "k \<le> length [1, 2 :: u8]"
    "ok \<longrightarrow> k = length [1, 2 :: u8]" "wsim_content w' = (wsim_content ex_wdisk)(3 \<mapsto> written [1, 2, 3, 4] (unat (1 :: usz)) (take k [1, 2]))"
    using WriteToFile_W_correct [where content = wsim_content and offset = wsim_offset, OF wsim_win32 ex_wdisk_content(1) ex_facts(2), of 1]
    by auto
  then show ?thesis by (intro exI [of _ ok] exI [of _ k] exI [of _ w']) simp
qed

theorem WriteToFile_W_ReadFromFile_W_witness:
  "\<exists>w1. WriteToFile_W wsim ex_mem ex_wdisk 3 ex_src 1 = Some (True, w1)
    \<and> (\<exists>m' dst' w2. ReadFromFile_W wsim ex_mem w1 3 ex_dst 2 1 = Some (True, m', dst', w2) \<and> holds m' dst' [7, 1, 2])"
proof -
  have ld: "load_bytes ex_mem 0x10 2 = Some [1, 2]" using ex_facts(2) by (intro load_bytes_at) (simp_all add: holds_def ex_src_def)
  let ?w0 = "ex_wdisk(3 \<mapsto> ([1, 2, 3, 4], 1))" and ?w1 = "ex_wdisk(3 \<mapsto> ([1, 1, 2, 4], Suc (Suc (Suc 0))))"
  have q: "quad 0 1 = 1" by (simp add: quad_def)
  have sk: "SeekFile_W wsim ex_wdisk 3 1 = (True, ?w0)"
    using q by (simp add: SeekFile_W_def wsim_fields wsim_seek_def ex_wdisk_def INVALID_SET_FILE_POINTER_def)
  have w: "win_WriteFile wsim 3 [1, 2] ?w0 = (Some 2, ?w1)"
    by (simp add: wsim_fields wsim_write_def overwrite_def ex_wdisk_def)
  have wr: "WriteToFile_W wsim ex_mem ex_wdisk 3 ex_src 1 = Some (True, ?w1)"
    using sk w ld
    by (simp add: WriteToFile_W_def AppendToFile_W_def ex_src_def)
      (subst AppendToFile_loop_W.simps, simp add: Min_def, subst AppendToFile_loop_W.simps, simp)
  from WriteToFile_W_ReadFromFile_W [where content = wsim_content and offset = wsim_offset,
      OF wsim_win32 ex_wdisk_content(1) ex_facts(2) _ _ wr wsim_reads ex_facts(1,3)] wr show ?thesis
    by (auto simp: ex_dst_space ex_src_def)
qed

theorem IsFileHidden_W_missing_witness:
  "IsFileHidden_W wsim [0x100 \<mapsto> 0x78, 0x101 \<mapsto> 0, 0x102 \<mapsto> 0, 0x103 \<mapsto> 0] ex_wdisk 0x100 = Some True"
proof -
  let ?m = "[0x100 \<mapsto> 0x78, 0x101 \<mapsto> 0, 0x102 \<mapsto> 0, 0x103 \<mapsto> 0] :: mem"
  have "bytes_at ?m 0x100 (wbytes [0x78] @ [0, 0])" by (simp add: low_byte_def high_byte_def)
  then have "wstring ?m 0x100 = Some [0x78]" by (rule wstring_at) simp_all
  then have "IsExistingPath_W wsim ?m ex_wdisk 0x100 = Some False" by (simp add: IsExistingPath_W_def wsim_fields)
  then show ?thesis by (rule IsFileHidden_W_missing)
qed

end
