(* ===== verification/WinDirs.thy ===== *)
theory WinDirs
  imports Removal WinFiles
begin

text \<open>
  Directories on Windows (\<open>src/tinybase-platform-win32.c\<close>, lines 603 to 708). The calls of the Windows API are the
  parameter \<open>os\<close>, which holds those for files. \<open>remove_first\<close> states on names what \<open>RemoveDir\<close> does to the file
  system; the function with its buffers on the stack refines it.
\<close>

unbundle bit_operations_syntax

section \<open>The system\<close>

text \<open>An entry found: its attributes and its name. A search that fails gives no entry.\<close>

type_synonym found = "(u32 \<times> u16 list) option"

record 'w windirs =
  winfiles :: "'w win"
  win_CreateDirectory :: "u16 list \<Rightarrow> 'w \<Rightarrow> bool \<times> 'w"
  win_RemoveDirectory :: "u16 list \<Rightarrow> 'w \<Rightarrow> bool \<times> 'w"
  win_FindFirstFile :: "u16 list \<Rightarrow> 'w \<Rightarrow> handle \<times> found \<times> 'w"
  win_FindNextFile :: "handle \<Rightarrow> 'w \<Rightarrow> found \<times> 'w"
  win_FindClose :: "handle \<Rightarrow> 'w \<Rightarrow> 'w"

section \<open>Making directories\<close>

definition ERROR_PATH_NOT_FOUND :: u32 where "ERROR_PATH_NOT_FOUND = 3"

text \<open>The loop of \<open>MakeDir\<close>. \<open>buf\<close> is the address of the local array \<open>WorkPathBuf\<close>.\<close>

partial_function (option) MakeDir_loop_W ::
  "'w windirs \<Rightarrow> dispatch \<Rightarrow> ptr \<Rightarrow> ptr \<Rightarrow> mem \<Rightarrow> 'w \<Rightarrow> path \<Rightarrow> bool \<Rightarrow> (mem \<times> 'w \<times> path \<times> bool) option" where
  "MakeDir_loop_W os d lit buf m w workPath result =
     do {
       backslashIdx \<leftarrow> StringInString d m (Backslash lit) workPath RETURN_IDX_FIND;
       if backslashIdx = INVALID_IDX then Some (m, w, workPath, result)
       else do {
         let backslashPtr = Base workPath + backslashIdx;
         m \<leftarrow> store_word m backslashPtr (0 :: u16);
         name \<leftarrow> wstring m buf;
         let (result, w) = win_CreateDirectory os name w;
         m \<leftarrow> store_word m backslashPtr bslash;
         MakeDir_loop_W os d lit buf m w
           (workPath\<lparr>Base := Base workPath + (backslashIdx + 2), WriteCur := WriteCur workPath - (backslashIdx + 2)\<rparr>) result
       }
     }"

definition MakeDir_W :: "'w windirs \<Rightarrow> dispatch \<Rightarrow> mem \<Rightarrow> ptr \<Rightarrow> ptr \<Rightarrow> 'w \<Rightarrow> ptr \<Rightarrow> (bool \<times> 'w) option" where
  "MakeDir_W os d m lit buf w dirPath =
     do {
       name \<leftarrow> wstring m dirPath;
       let (result, w) = win_CreateDirectory os name w;
       if \<not> result \<and> win_GetLastError (winfiles os) w = ERROR_PATH_NOT_FOUND
       then do {
         let m = push_local m buf (replicate (unat MAX_PATH_SIZE_W) 0);
         (_, m, workPath) \<leftarrow> AppendArrayToPath_W d m lit dirPath (Path_W buf);
         (m, w, workPath, result) \<leftarrow> MakeDir_loop_W os d lit buf m w workPath result;
         if WriteCur workPath > 0
         then do { name \<leftarrow> wstring m buf; Some (win_CreateDirectory os name w) }
         else Some (result, w)
       }
       else Some (result, w)
     }"

section \<open>Listing and removing directories\<close>

text \<open>\<open>star\<close> is the address of the literal \<open>L"*"\<close>. \<open>OSDir\<close> is the handle of the search, \<open>EntryName\<close> the address of \<open>cFileName\<close>.\<close>

definition InitIterDir_W :: "dispatch \<Rightarrow> mem \<Rightarrow> ptr \<Rightarrow> ptr \<Rightarrow> iter_dir \<Rightarrow> path \<Rightarrow> (mem \<times> iter_dir) option" where
  "InitIterDir_W d m lit star iter dirPath =
     do {
       (m, _) \<leftarrow> ClearBuffer m (AllFiles iter);
       (_, m, p) \<leftarrow> AppendPathToPath_W d m lit dirPath (Path_W (AllFilesBuf iter));
       (_, m, p) \<leftarrow> AppendDataToPath_W d m lit star 2 p;
       Some (m, iter\<lparr>AllFiles := p\<rparr>)
     }"

definition put_found :: "mem \<Rightarrow> ptr \<Rightarrow> found \<Rightarrow> mem option" where
  "put_found m p e = (case e of None \<Rightarrow> Some m | Some (_, name) \<Rightarrow> store_bytes m p (wbytes name @ [0, 0]))"

definition INVALID_HANDLE_VALUE :: handle where "INVALID_HANDLE_VALUE = USZ_MAX"

text \<open>The first two entries, taken for those of the directory itself and of its parent, are skipped.\<close>

definition ListFiles_W :: "'w windirs \<Rightarrow> mem \<Rightarrow> 'w \<Rightarrow> iter_dir \<Rightarrow> (bool \<times> mem \<times> iter_dir \<times> 'w) option" where
  "ListFiles_W os m w iter =
     do {
       (m, iter, w) \<leftarrow>
         (if OSDir iter = 0
          then do {
            name \<leftarrow> wstring m (AllFilesBuf iter);
            let (h, e, w) = win_FindFirstFile os name w;
            m \<leftarrow> put_found m (EntryName iter) e;
            let (e, w) = win_FindNextFile os h w;
            m \<leftarrow> put_found m (EntryName iter) e;
            Some (m, iter\<lparr>OSDir := h\<rparr>, w)
          }
          else Some (m, iter, w));
       let (e, w) = win_FindNextFile os (OSDir iter) w;
       case e of
         None \<Rightarrow> Some (False, m, iter\<lparr>OSDir := INVALID_HANDLE_VALUE\<rparr>, win_FindClose os (OSDir iter) w)
       | Some (attributes, _) \<Rightarrow>
           do {
             m \<leftarrow> put_found m (EntryName iter) e;
             Some (True, m, iter\<lparr>Filename := EntryName iter, IsDir := has_flag attributes FILE_ATTRIBUTE_DIRECTORY\<rparr>, w)
           }
     }"

text \<open>The variable \<open>Iter\<close> of \<open>RemoveDir\<close> at \<open>stack\<close>; the next call uses the memory below.\<close>

definition new_iter_W :: "ptr \<Rightarrow> mem \<Rightarrow> mem \<times> iter_dir" where
  "new_iter_W stack m =
     (push_local (push_local m stack (replicate 520 0)) (stack + 612) (replicate 520 0),
      \<lparr>AllFilesBuf = stack, AllFiles = String 0 0 0 EC_ASCII, Filename = 0, OSDir = 0, EntryName = stack + 612, IsDir = False\<rparr>)"

definition end_iter_W :: "ptr \<Rightarrow> mem \<Rightarrow> mem" where
  "end_iter_W stack m = pop_local (pop_local m (stack + 612) 520) stack 520"

partial_function (option) RemoveDir_W ::
  "'w windirs \<Rightarrow> dispatch \<Rightarrow> ptr \<Rightarrow> ptr \<Rightarrow> ptr \<Rightarrow> mem \<Rightarrow> 'w \<Rightarrow> ptr \<Rightarrow> bool \<Rightarrow> (bool \<times> mem \<times> 'w) option" where
  "RemoveDir_W os d lit star stack m w dirPath removeAllFiles =
     (if removeAllFiles
      then do {
        removePath \<leftarrow> PathCString_W m dirPath;
        let (m, iter) = new_iter_W stack m;
        (m, iter) \<leftarrow> InitIterDir_W d m lit star iter removePath;
        (more, m, iter, w) \<leftarrow> ListFiles_W os m w iter;
        if more
        then do {
          let scratchPath = AllFiles iter;
          (_, scratchPath) \<leftarrow> MoveUpPath_W d m lit scratchPath 1;
          filename \<leftarrow> PathCString_W m (Filename iter);
          (_, m, scratchPath) \<leftarrow> AppendPathToPath_W d m lit filename scratchPath;
          if IsDir iter
          then do {
            (r, m, w) \<leftarrow> RemoveDir_W os d lit star (stack - frame_size) m w (Base scratchPath) True;
            Some (r, end_iter_W stack m, w)
          }
          else do { (r, w) \<leftarrow> RemoveFile_W (winfiles os) m w (Base scratchPath); Some (r, end_iter_W stack m, w) }
        }
        else do {
          name \<leftarrow> wstring m dirPath;
          let (r, w) = win_RemoveDirectory os name w;
          Some (r, end_iter_W stack m, w)
        }
      }
      else do { name \<leftarrow> wstring m dirPath; let (r, w) = win_RemoveDirectory os name w; Some (r, m, w) })"

definition ChangeDirLocation_W :: "'w windirs \<Rightarrow> mem \<Rightarrow> 'w \<Rightarrow> ptr \<Rightarrow> ptr \<Rightarrow> (bool \<times> 'w) option" where
  "ChangeDirLocation_W os m w srcPath dstPath =
     do { src \<leftarrow> wstring m srcPath; dst \<leftarrow> wstring m dstPath; Some (win_MoveFile (winfiles os) src dst w) }"

section \<open>Specification\<close>

text \<open>
  \<open>tidy\<close>: a path of components none of which is \<open>.\<close> or \<open>..\<close>, with no slash; \<open>cur\<close> is the beginning of the
  component that the path continues.
\<close>

fun tidy :: "u16 list \<Rightarrow> u16 list \<Rightarrow> bool" where
  "tidy cur [] \<longleftrightarrow> cur \<noteq> [wdot] \<and> cur \<noteq> [wdot, wdot]"
| "tidy cur (u # us) \<longleftrightarrow>
     u \<noteq> wslash \<and> (if u = bslash then cur \<noteq> [wdot] \<and> cur \<noteq> [wdot, wdot] \<and> tidy [] us else tidy (cur @ [u]) us)"

definition wstar :: u16 where "wstar = 0x2A"

text \<open>A name that the code copies and joins as it is.\<close>

definition good_name :: "u16 list \<Rightarrow> bool" where
  "good_name name \<longleftrightarrow> name \<noteq> [] \<and> length name < 260 \<and> list_all plain name \<and> 0 \<notin> set name \<and> bslash \<notin> set name \<and> tidy [] name"

definition short :: "found \<Rightarrow> bool" where
  "short e \<longleftrightarrow> (case e of None \<Rightarrow> True | Some (_, name) \<Rightarrow> length name < 260)"

text \<open>The call of \<open>RemoveFile\<close> on a name.\<close>

definition remove_file :: "'w win \<Rightarrow> u16 list \<Rightarrow> 'w \<Rightarrow> bool \<times> 'w" where
  "remove_file os name w =
     (case win_DeleteFile os name w of
        (True, w) \<Rightarrow> (True, w)
      | (False, w) \<Rightarrow>
          if win_GetLastError os w = ERROR_ACCESS_DENIED
          then let (_, w) = win_SetFileAttributes os name FILE_ATTRIBUTE_NORMAL w in win_DeleteFile os name w
          else (False, w))"

text \<open>
  What happens to the directory \<open>ds\<close>: the search skips two entries; if there is no other, the directory is removed;
  if there is one, that file is removed, or the same is done to that directory, and nothing else. \<open>n\<close> bounds the
  depth. None: too deep, or a name that is too long or not good.
\<close>

fun remove_first :: "nat \<Rightarrow> 'w windirs \<Rightarrow> u16 list \<Rightarrow> 'w \<Rightarrow> (bool \<times> 'w) option" where
  "remove_first 0 os ds w = None"
| "remove_first (Suc n) os ds w =
     (let (h, e1, w) = win_FindFirstFile os (wopen ds @ [wstar]) w;
          (e2, w) = win_FindNextFile os h w;
          (e3, w) = win_FindNextFile os h w
      in if \<not> (2 * length (wopen ds @ [wstar]) \<le> 518 \<and> h \<noteq> 0 \<and> short e1 \<and> short e2) then None
         else case e3 of
           None \<Rightarrow> Some (win_RemoveDirectory os ds (win_FindClose os h w))
         | Some (attributes, name) \<Rightarrow>
             if good_name name \<and> 2 * length (wopen ds @ name) \<le> 518
             then if has_flag attributes FILE_ATTRIBUTE_DIRECTORY then remove_first n os (wopen ds @ name) w
                  else Some (remove_file (winfiles os) (wopen ds @ name) w)
             else None)"


section \<open>Joining paths\<close>

lemma tidy_append: "tidy cur (us @ bslash # vs) \<longleftrightarrow> tidy cur us \<and> tidy [] vs"
  by (induction cur us rule: tidy.induct) auto

lemma tidy_resolve:
  "tidy cur us \<Longrightarrow> 2 * (length tmp + length cur + length us) \<le> cap \<Longrightarrow> wresolve cap tmp cur us = WJoined (tmp @ cur @ us)"
proof (induction cur us arbitrary: tmp rule: tidy.induct)
  case (2 cur u us)
  show ?case
  proof (cases "u = bslash")
    case True
    then have "wresolve cap (tmp @ cur @ [bslash]) [] us = WJoined ((tmp @ cur @ [bslash]) @ [] @ us)"
      using 2(3,4) by (intro 2(1)) simp_all
    then show ?thesis using True 2(3,4) by simp
  next
    case False
    then have "wresolve cap tmp (cur @ [u]) us = WJoined (tmp @ (cur @ [u]) @ us)"
      using 2(3,4) by (intro 2(2)) simp_all
    then show ?thesis using False 2(3) by simp
  qed
qed simp

text \<open>The path of a directory, with no separator in front.\<close>

definition dir_path :: "u16 list \<Rightarrow> bool" where
  "dir_path ds \<longleftrightarrow> ds \<noteq> [] \<and> hd ds \<noteq> bslash \<and> list_all plain ds \<and> 0 \<notin> set ds \<and> tidy [] ds"

lemma dir_pathD:
  assumes "dir_path ds"
  shows "ds \<noteq> []" "hd ds \<noteq> bslash" "hd ds \<noteq> wslash" "list_all plain ds" "0 \<notin> set ds" "tidy [] ds"
  using assms by (cases ds; auto simp: dir_path_def)+

lemma wopen_split:
  assumes "dir_path ds"
  obtains es where "wopen ds = es @ [bslash]" "es \<noteq> []" "hd es = hd ds" "tidy [] es" "list_all plain es" "0 \<notin> set es"
proof (cases "last ds = bslash")
  case True
  note d = dir_pathD [OF assms]
  have ds: "ds = butlast ds @ [bslash]" using d(1) True by (metis append_butlast_last_id)
  have ne: "butlast ds \<noteq> []"
  proof
    assume "butlast ds = []"
    then have "hd ds = bslash" by (subst ds) simp
    then show False using d(2) by simp
  qed
  have "tidy [] (butlast ds @ bslash # [])" using d(6) ds by simp
  then have "tidy [] (butlast ds)" unfolding tidy_append by blast
  moreover have "hd (butlast ds) = hd ds" using ds ne by (metis hd_append2)
  moreover have "list_all plain (butlast ds)" "0 \<notin> set (butlast ds)" using d(4,5) in_set_butlastD by (fastforce simp: list_all_iff)+
  ultimately show ?thesis using that [of "butlast ds"] ds ne True d(1) by (simp add: wopen_def)
next
  case False
  then show ?thesis using that [of ds] dir_pathD [OF assms] by (simp add: wopen_def)
qed

lemma wopen_name:
  assumes "dir_path ds" "good_name name"
  shows "dir_path (wopen ds @ name)"
proof -
  obtain es where e: "wopen ds = es @ [bslash]" "es \<noteq> []" "hd es = hd ds" "tidy [] es" "list_all plain es" "0 \<notin> set es"
    by (rule wopen_split [OF assms(1)])
  have "tidy [] (es @ bslash # name)" using e(4) assms(2) unfolding tidy_append good_name_def by blast
  then show ?thesis using e assms plain_bslash by (simp add: dir_path_def good_name_def)
qed

lemma wjoin_dir:
  assumes "dir_path ds" "2 * length ds \<le> cap"
  shows "wjoin cap [] ds = WJoined ds"
  using dir_pathD [OF assms(1)] assms(2) tidy_resolve [of "[]" ds "[]" cap] by (simp add: wjoin_def wopen_def)

lemma wjoin_name:
  assumes "tidy [] name" "name \<noteq> []" "hd name \<noteq> bslash" "2 * length (wopen ds @ name) \<le> cap"
  shows "wjoin cap ds name = WJoined (wopen ds @ name)"
proof -
  have "hd name \<noteq> wslash" using assms(1,2) by (cases name) auto
  then show ?thesis using assms tidy_resolve [of "[]" name "wopen ds" cap] by (simp add: wjoin_def)
qed

lemma wopen_wopen [simp]: "wopen (wopen ds) = wopen ds"
  by (simp add: wopen_def)

lemma wparent_star:
  assumes "dir_path ds" "bslash \<notin> set name" "name \<noteq> []"
  shows "wparent (wopen ds @ name) = wopen ds"
proof -
  obtain es where e: "wopen ds = es @ [bslash]" "es \<noteq> []" by (rule wopen_split [OF assms(1)])
  have "last name \<noteq> bslash" using assms(2,3) last_in_set by metis
  then have s: "wstrip (wopen ds @ name) = es @ bslash # name" using assms(3) e by (simp add: wstrip_def)
  have "wcut (es @ bslash # name) = es" using assms(2) by (simp add: wcut_def dropWhile_append)
  then show ?thesis using s e by (simp add: wparent_def)
qed

section \<open>Paths in memory\<close>

lemma Path_W_sel [simp]: "Base (Path_W p) = p" "Size (Path_W p) = 518" "WriteCur (Path_W p) = 0" "Enc (Path_W p) = EC_UTF16LE"
  by (simp_all add: Path_W_def MAX_PATH_SIZE_W_def)

text \<open>The size of the arrays, which the simplifier is not to unfold.\<close>

definition wsize :: nat where "wsize = 520"

lemma wsize_facts: "518 + 2 = wsize" "518 \<le> wsize" "wsize \<le> 2 ^ 64" "wsize < 2 ^ 64" "wsize - 2 = 518" "unat MAX_PATH_SIZE_W = wsize"
  by (simp_all add: wsize_def MAX_PATH_SIZE_W_def)

text \<open>A path in an array of 520 bytes at \<open>p\<close>, with its terminating zero.\<close>

definition path_at :: "mem \<Rightarrow> ptr \<Rightarrow> u16 list \<Rightarrow> bool" where
  "path_at m p us \<longleftrightarrow> bytes_at m p (wbytes us) \<and> list_all plain us \<and> 2 * length us \<le> 518 \<and> mapped m p wsize"

lemma path_at_holds: "path_at m p us \<Longrightarrow> holds_text m (wholding (Path_W p) us) us"
  by (simp add: path_at_def holds_text_def holds_def unat_offset del: of_nat_mult)

lemma join_path:
  assumes "path_at m p ds" "holds_text m src ss" "ss \<noteq> []" "region p wsize \<inter> region (Base src) (2 * length ss) = {}"
    and "has_literal m lit" "region p wsize \<inter> region lit 2 = {}" "wjoin 518 ds ss = WJoined es" "2 * length es \<le> 518"
  obtains m' where "AppendPath_W default_dispatch m lit src (wholding (Path_W p) ds) = Some (True, m', wholding (Path_W p) es)"
    "path_at m' p es" "bytes_at m' p (wbytes es @ [0, 0])" "dom m' = dom m" "\<forall>q. q \<notin> region p wsize \<longrightarrow> m' q = m q"
proof -
  let ?dst = "wholding (Path_W p) ds"
  have mp: "mapped m p wsize" using assms(1) by (simp add: path_at_def)
  have u: "unat (of_nat (2 * length ds) :: usz) = 2 * length ds" using assms(1) by (intro unat_offset) (simp add: path_at_def)
  have ok: "buf_ok m ?dst" using mapped_mono [OF mp wsize_facts(2)] u assms(1) by (simp add: buf_ok_def word_le_nat_alt path_at_def del: of_nat_mult mapped_numeral)
  have sub: "region p 518 \<subseteq> region p wsize" by (rule region_mono) (rule wsize_facts)
  have d: "buf_region ?dst \<inter> region (Base src) (2 * length ss) = {}" "buf_region ?dst \<inter> region lit 2 = {}"
  proof -
    have r: "buf_region ?dst = region p 518" by simp
    show "buf_region ?dst \<inter> region (Base src) (2 * length ss) = {}" "buf_region ?dst \<inter> region lit 2 = {}"
      unfolding r using assms(4,6) sub by blast+
  qed
  have sz: "unat (Size ?dst) = 518" "Base ?dst = p" by simp_all
  have mp': "mapped m (Base ?dst) (unat (Size ?dst) + 2)" unfolding sz wsize_facts(1) by (rule mp)
  have l: "unat (Size ?dst) < 2 ^ 64 - 2" unfolding sz by simp
  note AppendPath_W_joins [OF path_at_holds [OF assms(1)] ok assms(2,3) mp' l d(1) assms(5) d(2)]
  then obtain m' where m': "AppendPath_W default_dispatch m lit src ?dst = Some (True, m', wholding (Path_W p) es)"
    "holds_text m' (wholding (Path_W p) es) es" "bytes_at m' (p + of_nat (2 * length es)) [0, 0]"
    "\<forall>q. q \<notin> region p wsize \<longrightarrow> m' q = m q" "dom m' = dom m"
    unfolding wjoined_def sz wsize_facts(1) assms(7) woutcome.case holding_holding by blast
  have b: "bytes_at m' p (wbytes es)" using m'(2) by (simp add: holds_text_def holds_def)
  have "path_at m' p es" using b m'(2,5) mp assms(8) by (simp add: path_at_def holds_text_def mapped_dom)
  moreover have "bytes_at m' p (wbytes es @ [0, 0])" using b m'(3) by (simp del: of_nat_mult bytes_at_Cons wbytes_simps)
  ultimately show ?thesis using that m'(1,4,5) by blast
qed


lemma cstring_path:
  assumes "bytes_at m p (wbytes us @ [0, 0])" "0 \<notin> set us" "list_all plain us" "2 * length us \<le> 520"
  obtains src where "PathCString_W m p = Some src" "Base src = p" "Enc src = EC_UTF16LE" "WriteCur src = of_nat (2 * length us)"
    "holds_text m src us" "unat (WriteCur src) = 2 * length us"
proof -
  let ?src = "(String p 0 0 EC_UTF16LE)\<lparr>WriteCur := of_nat (2 * length us)\<rparr>"
  have l: "2 * length us < 2 ^ 64" using assms(4) by simp
  have u: "unat (of_nat (2 * length us) :: usz) = 2 * length us" by (rule unat_offset [OF l])
  have "of_nat (2 * length us) \<le> MAX_PATH_SIZE_W"
    unfolding word_le_nat_alt u wsize_facts(6) wsize_def by (rule assms(4))
  then have "PathCString_W m p = Some ?src"
    using wcslen_at [OF assms(1,2) l] by (simp add: PathCString_W_def Min_def)
  moreover have "bytes_at m p (wbytes us)" using assms(1) unfolding bytes_at_append by blast
  then have "holds_text m ?src us" using u assms(3) by (simp add: holds_text_def holds_def del: of_nat_mult)
  ultimately show ?thesis using that [of ?src] u by (simp del: of_nat_mult)
qed

section \<open>Frames on the stack\<close>

abbreviation found_at :: "ptr \<Rightarrow> ptr" where "found_at stack \<equiv> stack + 612"

lemma frame_layout_W:
  "region stack wsize \<subseteq> region stack frame_bytes" "region (found_at stack) wsize \<subseteq> region stack frame_bytes"
  "region stack wsize \<inter> region (found_at stack) wsize = {}"
proof -
  have at: "found_at stack = stack + of_nat 612" and w: "wsize = 520" and n: "frame_bytes = 8192"
    by (simp_all add: wsize_def frame_size_def)
  show "region stack wsize \<subseteq> region stack frame_bytes" unfolding w n by (rule region_mono) simp
  show "region (found_at stack) wsize \<subseteq> region stack frame_bytes" unfolding at w n by (rule region_offset) simp
  have "region stack 612 \<inter> region (found_at stack) wsize = {}" unfolding at w by (rule region_split_disj) simp
  moreover have "region stack wsize \<subseteq> region stack 612" unfolding w by (rule region_mono) simp
  ultimately show "region stack wsize \<inter> region (found_at stack) wsize = {}" by blast
qed

lemma inside_frame_W:
  assumes "\<forall>q. q \<notin> region stack wsize \<longrightarrow> m2 q = m1 q" "\<forall>q. q \<notin> region stack frame_bytes \<longrightarrow> m1 q = m q"
  shows "\<forall>q. q \<notin> region stack frame_bytes \<longrightarrow> m2 q = m q"
proof (intro allI impI)
  fix q assume "q \<notin> region stack frame_bytes"
  moreover from this have "q \<notin> region stack wsize" using frame_layout_W(1) [of stack] by (rule contra_subsetD [rotated])
  ultimately show "m2 q = m q" using assms by simp
qed

definition pushed_W :: "ptr \<Rightarrow> mem \<Rightarrow> mem" where
  "pushed_W stack m = upd_bytes (upd_bytes m stack (replicate wsize 0)) (found_at stack) (replicate wsize 0)"

lemma new_iter_pushed_W:
  "new_iter_W stack m = (pushed_W stack m,
     \<lparr>AllFilesBuf = stack, AllFiles = String 0 0 0 EC_ASCII, Filename = 0, OSDir = 0, EntryName = found_at stack, IsDir = False\<rparr>)"
  by (simp add: new_iter_W_def pushed_W_def push_local_def wsize_def)

lemma pushed_facts_W:
  "mapped (pushed_W stack m) stack wsize" "mapped (pushed_W stack m) (found_at stack) wsize"
  "dom (pushed_W stack m) = dom m \<union> region stack wsize \<union> region (found_at stack) wsize"
  "q \<notin> region stack frame_bytes \<Longrightarrow> pushed_W stack m q = m q"
proof -
  have l: "length (replicate wsize (0 :: u8)) \<le> 2 ^ 64" using wsize_facts(3) by simp
  show d: "dom (pushed_W stack m) = dom m \<union> region stack wsize \<union> region (found_at stack) wsize"
    unfolding pushed_W_def dom_upd [OF l] by (simp only: length_replicate)
  then show "mapped (pushed_W stack m) stack wsize" "mapped (pushed_W stack m) (found_at stack) wsize"
    unfolding mapped_dom by blast+
  show "pushed_W stack m q = m q" if "q \<notin> region stack frame_bytes"
  proof -
    have o: "q \<notin> region stack wsize" "q \<notin> region (found_at stack) wsize" using that frame_layout_W(1,2) [of stack] by blast+
    have "upd_bytes (upd_bytes m stack (replicate wsize 0)) (found_at stack) (replicate wsize 0) q = upd_bytes m stack (replicate wsize 0) q"
      by (rule upd_bytes_out) (use o l in \<open>simp_all only: length_replicate not_False_eq_True\<close>)
    also have "\<dots> = m q" by (rule upd_bytes_out) (use o l in \<open>simp_all only: length_replicate not_False_eq_True\<close>)
    finally show ?thesis unfolding pushed_W_def .
  qed
qed

lemma end_iter_restores_W:
  assumes "region stack frame_bytes \<inter> dom m = {}" "dom m2 = dom m \<union> region stack wsize \<union> region (found_at stack) wsize"
    and "\<forall>q. q \<notin> region stack frame_bytes \<longrightarrow> m2 q = m q"
  shows "end_iter_W stack m2 = m"
proof
  fix q
  have pop: "end_iter_W stack m2 q = (if q \<in> region stack wsize \<or> q \<in> region (found_at stack) wsize then None else m2 q)"
    unfolding end_iter_W_def wsize_def [symmetric] by (simp add: pop_region wsize_facts(3) [simplified])
  show "end_iter_W stack m2 q = m q"
  proof (cases "q \<in> region stack frame_bytes")
    case True
    then have "m q = None" using assms(1) by blast
    moreover have "m2 q = None" if "q \<notin> region stack wsize" "q \<notin> region (found_at stack) wsize"
      using that True assms(1,2) by blast
    ultimately show ?thesis using pop by auto
  next
    case False
    then show ?thesis using pop assms(3) frame_layout_W(1,2) [of stack] by auto
  qed
qed

section \<open>Starting and searching\<close>

definition literals :: "mem \<Rightarrow> ptr \<Rightarrow> ptr \<Rightarrow> bool" where
  "literals m lit star \<longleftrightarrow> has_literal m lit \<and> bytes_at m star [0x2A, 0]"

abbreviation searching :: "ptr \<Rightarrow> u16 list \<Rightarrow> iter_dir" where
  "searching stack ds \<equiv> \<lparr>AllFilesBuf = stack, AllFiles = wholding (Path_W stack) (wopen ds @ [wstar]), Filename = 0, OSDir = 0,
     EntryName = found_at stack, IsDir = False\<rparr>"

lemma literals_agree:
  assumes "literals m lit star" "region stack frame_bytes \<inter> dom m = {}" "\<forall>q. q \<notin> region stack frame_bytes \<longrightarrow> m' q = m q"
  shows "literals m' lit star" "region stack frame_bytes \<inter> region lit 2 = {}" "region stack frame_bytes \<inter> region star 2 = {}"
proof -
  have l: "bytes_at m lit [0x5C, 0]" "bytes_at m star [0x2A, 0]" using assms(1) by (simp_all only: literals_def)
  have n: "length [0x5C, 0 :: u8] = 2" "length [0x2A, 0 :: u8] = 2" by simp_all
  have "region lit 2 \<subseteq> dom m" "region star 2 \<subseteq> dom m"
    using bytes_at_mapped [OF l(1)] bytes_at_mapped [OF l(2)] unfolding mapped_dom n by blast+
  then show d: "region stack frame_bytes \<inter> region lit 2 = {}" "region stack frame_bytes \<inter> region star 2 = {}"
    using assms(2) by blast+
  have "\<forall>q\<in>region lit 2. m' q = m q" "\<forall>q\<in>region star 2. m' q = m q" using d assms(3) by blast+
  then show "literals m' lit star"
    using bytes_at_agree [OF l(1), unfolded n] bytes_at_agree [OF l(2), unfolded n] by (simp only: literals_def simp_thms)
qed

lemma path_at_Nil: "mapped m p wsize \<Longrightarrow> path_at m p []"
  by (simp add: path_at_def)

lemma start_W:
  assumes "bytes_at m dirPath (wbytes ds @ [0, 0])" "dir_path ds" "2 * length (wopen ds @ [wstar]) \<le> 518"
    and "region stack frame_bytes \<inter> dom m = {}" "literals m lit star"
  obtains src m' where "PathCString_W m dirPath = Some src"
    "InitIterDir_W default_dispatch (pushed_W stack m) lit star
      \<lparr>AllFilesBuf = stack, AllFiles = String 0 0 0 EC_ASCII, Filename = 0, OSDir = 0, EntryName = found_at stack, IsDir = False\<rparr> src
      = Some (m', searching stack ds)"
    "path_at m' stack (wopen ds @ [wstar])" "bytes_at m' stack (wbytes (wopen ds @ [wstar]) @ [0, 0])"
    "dom m' = dom m \<union> region stack wsize \<union> region (found_at stack) wsize" "\<forall>q. q \<notin> region stack frame_bytes \<longrightarrow> m' q = m q"
proof -
  note d = dir_pathD [OF assms(2)]
  let ?m0 = "pushed_W stack m"
  have len: "2 * length ds \<le> 518" using assms(3) by (simp add: wopen_def split: if_splits)
  then have len': "2 * length ds \<le> 520" by simp
  obtain src where src: "PathCString_W m dirPath = Some src" "Base src = dirPath" "Enc src = EC_UTF16LE"
    "WriteCur src = of_nat (2 * length ds)" "holds_text m src ds" "unat (WriteCur src) = 2 * length ds"
    by (rule cstring_path [OF assms(1) d(5,4) len'])
  have o0: "\<forall>q. q \<notin> region stack frame_bytes \<longrightarrow> ?m0 q = m q" using pushed_facts_W(4) by blast
  have bd: "bytes_at m dirPath (wbytes ds)" using assms(1) unfolding bytes_at_append by blast
  then have "region dirPath (2 * length ds) \<subseteq> dom m" using bytes_at_mapped [OF bd] unfolding mapped_dom length_wbytes by blast
  then have dp: "region dirPath (2 * length ds) \<inter> region stack frame_bytes = {}" using assms(4) by blast
  have "bytes_at ?m0 dirPath (wbytes ds)" by (rule bytes_at_agree [OF bd]) (use o0 dp in \<open>unfold length_wbytes, blast\<close>)
  then have h0: "holds_text ?m0 src ds" using src(2,5) by (simp add: holds_text_def holds_def)
  note lit0 = literals_agree [OF assms(5,4) o0]
  have hl: "has_literal ?m0 lit" using lit0(1) by (simp only: literals_def)
  have ap: "region stack wsize \<inter> region (Base src) (2 * length ds) = {}" "region stack wsize \<inter> region lit 2 = {}"
    using dp lit0(2) frame_layout_W(1) [of stack] src(2) by blast+
  have e0: "wholding (Path_W stack) [] = Path_W stack" by (simp add: holding_def Path_W_def String_def)
  obtain m1 where m1: "AppendPath_W default_dispatch ?m0 lit src (wholding (Path_W stack) []) = Some (True, m1, wholding (Path_W stack) ds)"
    "path_at m1 stack ds" "bytes_at m1 stack (wbytes ds @ [0, 0])" "dom m1 = dom ?m0" "\<forall>q. q \<notin> region stack wsize \<longrightarrow> m1 q = ?m0 q"
    by (rule join_path [OF path_at_Nil [OF pushed_facts_W(1)] h0 d(1) ap(1) hl ap(2) wjoin_dir [OF assms(2) len] len])
  have a1: "AppendPathToPath_W default_dispatch ?m0 lit src (Path_W stack) = Some (True, m1, wholding (Path_W stack) ds)"
  proof -
    have "WriteCur src \<le> 518" unfolding word_le_nat_alt src(6) using len by simp
    then have "Enc src = Enc (Path_W stack) \<and> WriteCur src \<le> Size (Path_W stack) - WriteCur (Path_W stack)"
      by (simp only: src(3) Path_W_sel diff_zero simp_thms)
    then show ?thesis using m1(1) unfolding e0 AppendPathToPath_W_def by (simp only: if_True simp_thms)
  qed
  have o1: "\<forall>q. q \<notin> region stack frame_bytes \<longrightarrow> m1 q = m q" by (rule inside_frame_W [OF m1(5) o0])
  note lit1 = literals_agree [OF assms(5,4) o1]
  let ?star = "(Path_W star)\<lparr>WriteCur := 2\<rparr>"
  have hs: "holds_text m1 ?star [wstar]"
    using lit1(1) by (simp add: literals_def holds_text_def holds_def wstar_def plain_def low_byte_def high_byte_def)
  have hl1: "has_literal m1 lit" using lit1(1) by (simp only: literals_def)
  have bs: "Base ?star = star" by simp
  have ap1: "region stack wsize \<inter> region (Base ?star) (2 * length [wstar]) = {}"
    unfolding bs using lit1(3) frame_layout_W(1) [of stack] by (simp del: region_numeral) blast
  have st: "tidy [] [wstar]" "[wstar] \<noteq> []" "hd [wstar] \<noteq> bslash" by (simp_all add: wstar_def)
  obtain m2 where m2: "AppendPath_W default_dispatch m1 lit ?star (wholding (Path_W stack) ds) = Some (True, m2, wholding (Path_W stack) (wopen ds @ [wstar]))"
    "path_at m2 stack (wopen ds @ [wstar])" "bytes_at m2 stack (wbytes (wopen ds @ [wstar]) @ [0, 0])" "dom m2 = dom m1"
    "\<forall>q. q \<notin> region stack wsize \<longrightarrow> m2 q = m1 q"
    by (rule join_path [OF m1(2) hs st(2) ap1 hl1 ap(2) wjoin_name [OF st assms(3)] assms(3)])
  have i: "InitIterDir_W default_dispatch ?m0 lit star
      \<lparr>AllFilesBuf = stack, AllFiles = String 0 0 0 EC_ASCII, Filename = 0, OSDir = 0, EntryName = found_at stack, IsDir = False\<rparr> src
    = Some (m2, searching stack ds)"
    using a1 m2(1) by (simp add: InitIterDir_W_def ClearBuffer_def AppendDataToPath_W_def del: wbytes_simps)
  have "\<forall>q. q \<notin> region stack frame_bytes \<longrightarrow> m2 q = m q" by (rule inside_frame_W [OF m2(5) o1])
  then show ?thesis using that [OF src(1) i m2(2,3)] m1(4) m2(4) pushed_facts_W(3) [of stack m] by simp
qed


lemma put_found_stores:
  assumes "mapped m p wsize" "short e"
  obtains m' where "put_found m p e = Some m'" "dom m' = dom m" "\<forall>q. q \<notin> region p wsize \<longrightarrow> m' q = m q"
    "\<And>a name. e = Some (a, name) \<Longrightarrow> bytes_at m' p (wbytes name @ [0, 0])"
proof (cases e)
  case None
  then show ?thesis using that [of m] by (simp add: put_found_def)
next
  case (Some x)
  obtain a name where x: "x = (a, name)" by (cases x)
  let ?bs = "wbytes name @ [0, 0]" and ?m = "upd_bytes m p (wbytes name @ [0, 0])"
  have "length name < 260" using assms(2) Some x by (simp add: short_def)
  then have l: "length ?bs \<le> wsize" by (simp add: wsize_def)
  then have l2: "length ?bs \<le> 2 ^ 64" using wsize_facts(3) by (rule le_trans)
  have mp: "mapped m p (length ?bs)" using assms(1) l by (rule mapped_mono)
  have sub: "region p (length ?bs) \<subseteq> region p wsize" by (rule region_mono [OF l])
  have "dom ?m = dom m" using dom_upd [OF l2] mp by (auto simp only: mapped_dom)
  moreover have "?m q = m q" if "q \<notin> region p wsize" for q using that sub by (intro upd_bytes_out [OF _ l2]) blast
  moreover have "bytes_at ?m p ?bs" by (rule bytes_at_upd_same [OF l2])
  moreover have "put_found m p e = Some ?m" using Some x store_bytes_upd [OF mp l2] by (simp add: put_found_def)
  ultimately show ?thesis using that [of ?m] Some x by simp
qed

text \<open>The first call of \<open>ListFiles\<close>.\<close>

lemma ListFiles_W_first:
  assumes "wstring m stack = Some (wopen ds @ [wstar])" "mapped m (found_at stack) wsize"
    and "win_FindFirstFile os (wopen ds @ [wstar]) w = (h, e1, w1)" "win_FindNextFile os h w1 = (e2, w2)" "win_FindNextFile os h w2 = (e3, w3)"
    and "h \<noteq> 0" "short e1" "short e2" "short e3"
  obtains m' where "dom m' = dom m" "\<forall>q. q \<notin> region (found_at stack) wsize \<longrightarrow> m' q = m q"
    "\<And>a name. e3 = Some (a, name) \<Longrightarrow> bytes_at m' (found_at stack) (wbytes name @ [0, 0])"
    "ListFiles_W os m w (searching stack ds) = (case e3 of
       None \<Rightarrow> Some (False, m', (searching stack ds)\<lparr>OSDir := INVALID_HANDLE_VALUE\<rparr>, win_FindClose os h w3)
     | Some (a, name) \<Rightarrow> Some (True, m', (searching stack ds)\<lparr>OSDir := h, Filename := found_at stack,
         IsDir := has_flag a FILE_ATTRIBUTE_DIRECTORY\<rparr>, w3))"
proof -
  let ?p = "found_at stack"
  obtain m1 where m1: "put_found m ?p e1 = Some m1" "dom m1 = dom m" "\<forall>q. q \<notin> region ?p wsize \<longrightarrow> m1 q = m q"
    by (rule put_found_stores [OF assms(2,7)])
  have mp1: "mapped m1 ?p wsize" using assms(2) m1(2) by (simp only: mapped_dom)
  obtain m2 where m2: "put_found m1 ?p e2 = Some m2" "dom m2 = dom m1" "\<forall>q. q \<notin> region ?p wsize \<longrightarrow> m2 q = m1 q"
    by (rule put_found_stores [OF mp1 assms(8)])
  have mp2: "mapped m2 ?p wsize" using mp1 m2(2) by (simp only: mapped_dom)
  obtain m3 where m3: "put_found m2 ?p e3 = Some m3" "dom m3 = dom m2" "\<forall>q. q \<notin> region ?p wsize \<longrightarrow> m3 q = m2 q"
    "\<And>a name. e3 = Some (a, name) \<Longrightarrow> bytes_at m3 ?p (wbytes name @ [0, 0])"
    by (rule put_found_stores [OF mp2 assms(9)]) blast
  show ?thesis
  proof (rule that [of m3])
    show "dom m3 = dom m" using m1(2) m2(2) m3(2) by simp
    show "\<forall>q. q \<notin> region ?p wsize \<longrightarrow> m3 q = m q" using m1(3) m2(3) m3(3) by simp
    have "m3 = m2" if "e3 = None" using m3(1) that by (simp add: put_found_def)
    then show "ListFiles_W os m w (searching stack ds) = (case e3 of
       None \<Rightarrow> Some (False, m3, (searching stack ds)\<lparr>OSDir := INVALID_HANDLE_VALUE\<rparr>, win_FindClose os h w3)
     | Some (a, name) \<Rightarrow> Some (True, m3, (searching stack ds)\<lparr>OSDir := h, Filename := ?p,
         IsDir := has_flag a FILE_ATTRIBUTE_DIRECTORY\<rparr>, w3))"
      using assms(1,3-5) m1(1) m2(1) m3(1) by (cases e3) (auto simp: ListFiles_W_def)
  qed (rule m3(4))
qed

lemma path_at_wstring:
  assumes "bytes_at m p (wbytes us @ [0, 0])" "0 \<notin> set us" "2 * length us \<le> 518"
  shows "wstring m p = Some us"
  by (rule wstring_at [OF assms(1,2)]) (use assms(3) in simp)

lemma path_at_agree:
  assumes "path_at m p us" "\<forall>q\<in>region p wsize. m' q = m q" "dom m' = dom m"
  shows "path_at m' p us"
proof -
  have b: "bytes_at m p (wbytes us)" and l: "2 * length us \<le> 518" using assms(1) by (simp_all only: path_at_def)
  have "region p (length (wbytes us)) \<subseteq> region p wsize" using l wsize_facts(2) by (intro region_mono) simp
  then have "bytes_at m' p (wbytes us)" using assms(2) by (intro bytes_at_agree [OF b]) blast
  then show ?thesis using assms(1,3) by (simp only: path_at_def mapped_dom)
qed

lemma path_at_prefix: "path_at m p (us @ vs) \<Longrightarrow> path_at m p us"
  by (simp add: path_at_def del: mapped_numeral)

text \<open>The name that was found, put behind the directory.\<close>

lemma append_found:
  assumes "path_at m stack (wopen ds @ [wstar])" "bytes_at m (found_at stack) (wbytes name @ [0, 0])" "dir_path ds" "good_name name"
    and "2 * length (wopen ds @ name) \<le> 518" "has_literal m lit" "region stack frame_bytes \<inter> region lit 2 = {}"
  obtains r fn m' where "MoveUpPath_W default_dispatch m lit (wholding (Path_W stack) (wopen ds @ [wstar])) 1 = Some (r, wholding (Path_W stack) (wopen ds))"
    "PathCString_W m (found_at stack) = Some fn"
    "AppendPathToPath_W default_dispatch m lit fn (wholding (Path_W stack) (wopen ds)) = Some (True, m', wholding (Path_W stack) (wopen ds @ name))"
    "wstring m' stack = Some (wopen ds @ name)" "bytes_at m' stack (wbytes (wopen ds @ name) @ [0, 0])"
    "dom m' = dom m" "\<forall>q. q \<notin> region stack wsize \<longrightarrow> m' q = m q"
proof -
  let ?us = "wopen ds @ [wstar]" and ?dst = "wholding (Path_W stack) (wopen ds)" and ?p = "wopen ds @ name"
  have g: "name \<noteq> []" "length name < 260" "list_all plain name" "0 \<notin> set name" "bslash \<notin> set name" "tidy [] name"
    using assms(4) by (simp_all add: good_name_def)
  have "bslash \<notin> set [wstar]" by (simp add: wstar_def)
  then have "(wparent ^^ unat (1 :: usz)) ?us = wopen ds" using wparent_star [OF assms(3)] by simp
  then have "\<exists>r. MoveUpPath_W default_dispatch m lit (wholding (Path_W stack) ?us) 1 = Some (r, (wholding (Path_W stack) ?us)\<lparr>WriteCur := of_nat (2 * length (wopen ds))\<rparr>)"
    using MoveUpPath_W_eq [OF path_at_holds [OF assms(1)] _ assms(6), of 1] by (simp del: of_nat_mult)
  moreover have "(wholding (Path_W stack) ?us)\<lparr>WriteCur := of_nat (2 * length (wopen ds))\<rparr> = ?dst" by (simp add: holding_def)
  ultimately obtain r where up: "MoveUpPath_W default_dispatch m lit (wholding (Path_W stack) ?us) 1 = Some (r, ?dst)" by auto
  have l520: "2 * length name \<le> 520" using g(2) by simp
  obtain fn where fn: "PathCString_W m (found_at stack) = Some fn" "Base fn = found_at stack" "Enc fn = EC_UTF16LE"
    "holds_text m fn name" "unat (WriteCur fn) = 2 * length name"
    by (rule cstring_path [OF assms(2) g(4,3) l520])
  have pa: "path_at m stack (wopen ds)" by (rule path_at_prefix [OF assms(1)])
  have "region (found_at stack) (2 * length name) \<subseteq> region (found_at stack) wsize" using g(2) by (intro region_mono) (simp add: wsize_def)
  then have ap: "region stack wsize \<inter> region (Base fn) (2 * length name) = {}"
    unfolding fn(2) using frame_layout_W(3) [of stack] by blast
  have apl: "region stack wsize \<inter> region lit 2 = {}" using assms(7) frame_layout_W(1) [of stack] by blast
  have hd: "hd name \<noteq> bslash" using g(1,5) by (cases name) auto
  have e: "2 * length (wopen (wopen ds) @ name) \<le> 518" using assms(5) by simp
  have j: "wjoin 518 (wopen ds) name = WJoined ?p" using wjoin_name [OF g(6,1) hd e] by simp
  obtain m' where m': "AppendPath_W default_dispatch m lit fn ?dst = Some (True, m', wholding (Path_W stack) ?p)"
    "path_at m' stack ?p" "bytes_at m' stack (wbytes ?p @ [0, 0])" "dom m' = dom m" "\<forall>q. q \<notin> region stack wsize \<longrightarrow> m' q = m q"
    by (rule join_path [OF pa fn(4) g(1) ap assms(6) apl j assms(5)])
  have a: "AppendPathToPath_W default_dispatch m lit fn ?dst = Some (True, m', wholding (Path_W stack) ?p)"
  proof -
    have u: "unat (WriteCur ?dst) = 2 * length (wopen ds)" using assms(5) by (simp add: unat_offset del: of_nat_mult)
    have "unat (Size ?dst - WriteCur ?dst) = 518 - 2 * length (wopen ds)"
      using u assms(5) by (subst unat_sub) (simp_all add: word_le_nat_alt del: of_nat_mult)
    then have c: "WriteCur fn \<le> Size ?dst - WriteCur ?dst" unfolding word_le_nat_alt fn(5) using assms(5) by simp
    show ?thesis unfolding AppendPathToPath_W_def by (rule trans [OF if_P m'(1)]) (use c fn(3) in simp)
  qed
  have "0 \<notin> set ?p" by (rule dir_pathD(5) [OF wopen_name [OF assms(3,4)]])
  from that [OF up fn(1) a path_at_wstring [OF m'(3) this assms(5)] m'(3,4,5)] show ?thesis .
qed


section \<open>Refinement\<close>

lemma RemoveFile_W_name: "wstring m p = Some name \<Longrightarrow> RemoveFile_W os m w p = Some (remove_file os name w)"
  by (simp add: RemoveFile_W_def remove_file_def)

lemma remove_first_unfold:
  assumes "remove_first (Suc n) os ds w = Some x"
  obtains h e1 w1 e2 w2 e3 w3 where "win_FindFirstFile os (wopen ds @ [wstar]) w = (h, e1, w1)" "win_FindNextFile os h w1 = (e2, w2)"
    "win_FindNextFile os h w2 = (e3, w3)" "2 * length (wopen ds @ [wstar]) \<le> 518" "h \<noteq> 0" "short e1" "short e2" "short e3"
    "case e3 of None \<Rightarrow> x = win_RemoveDirectory os ds (win_FindClose os h w3)
     | Some (a, name) \<Rightarrow> good_name name \<and> 2 * length (wopen ds @ name) \<le> 518
         \<and> (if has_flag a FILE_ATTRIBUTE_DIRECTORY then remove_first n os (wopen ds @ name) w3 = Some x
            else x = remove_file (winfiles os) (wopen ds @ name) w3)"
proof -
  obtain h e1 w1 where f1: "win_FindFirstFile os (wopen ds @ [wstar]) w = (h, e1, w1)" by (cases "win_FindFirstFile os (wopen ds @ [wstar]) w")
  obtain e2 w2 where f2: "win_FindNextFile os h w1 = (e2, w2)" by (cases "win_FindNextFile os h w1")
  obtain e3 w3 where f3: "win_FindNextFile os h w2 = (e3, w3)" by (cases "win_FindNextFile os h w2")
  have c: "2 * length (wopen ds @ [wstar]) \<le> 518 \<and> h \<noteq> 0 \<and> short e1 \<and> short e2"
    using assms f1 f2 f3 by (auto simp: Let_def split: if_splits)
  have r: "case e3 of None \<Rightarrow> x = win_RemoveDirectory os ds (win_FindClose os h w3)
     | Some (a, name) \<Rightarrow> good_name name \<and> 2 * length (wopen ds @ name) \<le> 518
         \<and> (if has_flag a FILE_ATTRIBUTE_DIRECTORY then remove_first n os (wopen ds @ name) w3 = Some x
            else x = remove_file (winfiles os) (wopen ds @ name) w3)"
    using assms c f1 f2 f3 by (auto simp: Let_def split: option.splits if_splits)
  then have "short e3" by (cases e3) (auto simp: short_def good_name_def)
  then show ?thesis using that f1 f2 f3 c r by blast
qed

lemma RemoveDir_W_refined:
  "remove_first n os ds w = Some (r, w') \<Longrightarrow> bytes_at m dirPath (wbytes ds @ [0, 0]) \<Longrightarrow> dir_path ds
    \<Longrightarrow> (below (n - 1) stack \<union> region stack frame_bytes) \<inter> dom m = {} \<Longrightarrow> n * frame_bytes \<le> 2 ^ 64 \<Longrightarrow> literals m lit star
    \<Longrightarrow> RemoveDir_W os default_dispatch lit star stack m w dirPath True = Some (r, m, w')"
proof (induction n arbitrary: ds w m dirPath stack)
  case (Suc n)
  obtain h e1 w1 e2 w2 e3 w3 where f: "win_FindFirstFile os (wopen ds @ [wstar]) w = (h, e1, w1)" "win_FindNextFile os h w1 = (e2, w2)"
    "win_FindNextFile os h w2 = (e3, w3)" "2 * length (wopen ds @ [wstar]) \<le> 518" "h \<noteq> 0" "short e1" "short e2" "short e3"
    and x: "case e3 of None \<Rightarrow> (r, w') = win_RemoveDirectory os ds (win_FindClose os h w3)
     | Some (a, name) \<Rightarrow> good_name name \<and> 2 * length (wopen ds @ name) \<le> 518
         \<and> (if has_flag a FILE_ATTRIBUTE_DIRECTORY then remove_first n os (wopen ds @ name) w3 = Some (r, w')
            else (r, w') = remove_file (winfiles os) (wopen ds @ name) w3)"
    by (rule remove_first_unfold [OF Suc.prems(1)]) blast
  have free: "region stack frame_bytes \<inter> dom m = {}" "below n stack \<inter> dom m = {}" using Suc.prems(4) by auto
  note d = dir_pathD [OF Suc.prems(3)]
  obtain src m1 where s: "PathCString_W m dirPath = Some src"
    "InitIterDir_W default_dispatch (pushed_W stack m) lit star
      \<lparr>AllFilesBuf = stack, AllFiles = String 0 0 0 EC_ASCII, Filename = 0, OSDir = 0, EntryName = found_at stack, IsDir = False\<rparr> src
      = Some (m1, searching stack ds)"
    "path_at m1 stack (wopen ds @ [wstar])" "bytes_at m1 stack (wbytes (wopen ds @ [wstar]) @ [0, 0])"
    "dom m1 = dom m \<union> region stack wsize \<union> region (found_at stack) wsize" "\<forall>q. q \<notin> region stack frame_bytes \<longrightarrow> m1 q = m q"
    by (rule start_W [OF Suc.prems(2,3) f(4) free(1) Suc.prems(6)])
  have z: "0 \<notin> set (wopen ds @ [wstar])" using d(5) by (auto simp: wopen_def wstar_def)
  have mp: "mapped m1 (found_at stack) wsize" using s(5) unfolding mapped_dom by blast
  obtain m2 where m2: "dom m2 = dom m1" "\<forall>q. q \<notin> region (found_at stack) wsize \<longrightarrow> m2 q = m1 q"
    "\<And>a name. e3 = Some (a, name) \<Longrightarrow> bytes_at m2 (found_at stack) (wbytes name @ [0, 0])"
    "ListFiles_W os m1 w (searching stack ds) = (case e3 of
       None \<Rightarrow> Some (False, m2, (searching stack ds)\<lparr>OSDir := INVALID_HANDLE_VALUE\<rparr>, win_FindClose os h w3)
     | Some (a, name) \<Rightarrow> Some (True, m2, (searching stack ds)\<lparr>OSDir := h, Filename := found_at stack,
         IsDir := has_flag a FILE_ATTRIBUTE_DIRECTORY\<rparr>, w3))"
    by (rule ListFiles_W_first [OF path_at_wstring [OF s(4) z f(4)] mp f(1-3,5-8)]) blast
  have o2: "\<forall>q. q \<notin> region stack frame_bytes \<longrightarrow> m2 q = m q"
  proof (intro allI impI)
    fix q assume "q \<notin> region stack frame_bytes"
    moreover from this have "q \<notin> region (found_at stack) wsize" using frame_layout_W(2) [of stack] by (rule contra_subsetD [rotated])
    ultimately show "m2 q = m q" using m2(2) s(6) by simp
  qed
  have dom2: "dom m2 = dom m \<union> region stack wsize \<union> region (found_at stack) wsize" using m2(1) s(5) by simp
  show ?case
  proof (cases e3)
    case None
    have "bytes_at m2 dirPath (wbytes ds @ [0, 0])"
    proof (rule bytes_at_agree [OF Suc.prems(2)])
      have "region dirPath (length (wbytes ds @ [0, 0])) \<subseteq> dom m" using bytes_at_mapped [OF Suc.prems(2)] unfolding mapped_dom by blast
      then show "\<forall>q\<in>region dirPath (length (wbytes ds @ [0, 0])). m2 q = m q" using o2 free(1) by blast
    qed
    moreover have "2 * length ds \<le> 518" using f(4) by (simp add: wopen_def split: if_splits)
    ultimately have "wstring m2 dirPath = Some ds" using path_at_wstring d(5) by blast
    moreover have "end_iter_W stack m2 = m" by (rule end_iter_restores_W [OF free(1) dom2 o2])
    moreover have "win_RemoveDirectory os ds (win_FindClose os h w3) = (r, w')" using x None by simp
    ultimately show ?thesis using s(1,2) m2(4) None
      by (subst RemoveDir_W.simps) (simp add: new_iter_pushed_W del: wbytes_simps)
  next
    case (Some e)
    obtain a name where e: "e = (a, name)" by (cases e)
    have g: "good_name name" "2 * length (wopen ds @ name) \<le> 518" using x Some e by simp_all
    have disj: "\<forall>q\<in>region stack wsize. m2 q = m1 q" using m2(2) frame_layout_W(3) [of stack] by blast
    have p2: "path_at m2 stack (wopen ds @ [wstar])" by (rule path_at_agree [OF s(3) disj m2(1)])
    note lit2 = literals_agree [OF Suc.prems(6) free(1) o2]
    have hl: "has_literal m2 lit" using lit2(1) by (simp only: literals_def)
    have bn: "bytes_at m2 (found_at stack) (wbytes name @ [0, 0])" using m2(3) Some e by simp
    obtain r0 fn m3 where a: "MoveUpPath_W default_dispatch m2 lit (wholding (Path_W stack) (wopen ds @ [wstar])) 1 = Some (r0, wholding (Path_W stack) (wopen ds))"
      "PathCString_W m2 (found_at stack) = Some fn"
      "AppendPathToPath_W default_dispatch m2 lit fn (wholding (Path_W stack) (wopen ds)) = Some (True, m3, wholding (Path_W stack) (wopen ds @ name))"
      "wstring m3 stack = Some (wopen ds @ name)" "bytes_at m3 stack (wbytes (wopen ds @ name) @ [0, 0])"
      "dom m3 = dom m2" "\<forall>q. q \<notin> region stack wsize \<longrightarrow> m3 q = m2 q"
      by (rule append_found [OF p2 bn Suc.prems(3) g hl lit2(2)])
    have o3: "\<forall>q. q \<notin> region stack frame_bytes \<longrightarrow> m3 q = m q" by (rule inside_frame_W [OF a(7) o2])
    have dom3: "dom m3 = dom m \<union> region stack wsize \<union> region (found_at stack) wsize" using a(6) dom2 by simp
    have fin: "end_iter_W stack m3 = m" by (rule end_iter_restores_W [OF free(1) dom3 o3])
    have b: "Base (wholding (Path_W stack) (wopen ds @ name)) = stack" by simp
    show ?thesis
    proof (cases "has_flag a FILE_ATTRIBUTE_DIRECTORY")
      case False
      have "RemoveFile_W (winfiles os) m3 w3 stack = Some (r, w')" using RemoveFile_W_name [OF a(4)] x Some e False by simp
      then show ?thesis using s(1,2) m2(4) Some e False a(1-3) fin b
        by (subst RemoveDir_W.simps) (simp add: new_iter_pushed_W del: wbytes_simps)
    next
      case True
      have rf: "remove_first n os (wopen ds @ name) w3 = Some (r, w')" using x Some e True by simp
      have sz: "n * frame_bytes \<le> 2 ^ 64" "Suc n * frame_bytes \<le> 2 ^ 64" using Suc.prems(5) by simp_all
      have "n \<noteq> 0" using rf by (cases n) auto
      then have "below n stack = below (n - 1) (stack - frame_size) \<union> region (stack - frame_size) frame_bytes"
        using below_Suc [of "n - 1" stack] by simp
      moreover have "below n stack \<inter> dom m3 = {}"
        using free(2) dom3 below_apart [OF sz(2), of stack] frame_layout_W(1,2) [of stack] by blast
      ultimately have "RemoveDir_W os default_dispatch lit star (stack - frame_size) m3 w3 stack True = Some (r, m3, w')"
        using literals_agree(1) [OF Suc.prems(6) free(1) o3]
        by (intro Suc.IH [OF rf a(5) wopen_name [OF Suc.prems(3) g(1)] _ sz(1)]) simp_all
      then show ?thesis using s(1,2) m2(4) Some e True a(1-3) fin b
        by (subst RemoveDir_W.simps) (simp add: new_iter_pushed_W del: wbytes_simps)
    qed
  qed
qed simp


section \<open>Main results\<close>

text \<open>
  C5: \<open>RemoveDir\<close> with \<open>RemoveAllFiles\<close> on Windows does to the file system what \<open>remove_first\<close> says, at any depth,
  and leaves the memory as it was: it goes down through the first entries only, and removes the one file, or the one
  empty directory, that it ends at.
\<close>

theorem RemoveDir_W_refines:
  assumes "remove_first n os ds w = Some (r, w')" "bytes_at m dirPath (wbytes ds @ [0, 0])" "dir_path ds"
    and "(below (n - 1) stack \<union> region stack frame_bytes) \<inter> dom m = {}" "n * frame_bytes \<le> 2 ^ 64" "literals m lit star"
  shows "RemoveDir_W os default_dispatch lit star stack m w dirPath True = Some (r, m, w')"
  using assms by (rule RemoveDir_W_refined)

text \<open>
  C35: when the first entry found in a directory is a file that can be deleted, \<open>RemoveDir\<close> deletes it and returns true: the
  other entries and the directory itself are still there, and the search is not closed.
\<close>

theorem RemoveDir_W_keeps_directory:
  assumes "win_FindFirstFile os (wopen ds @ [wstar]) w = (h, e1, w1)" "win_FindNextFile os h w1 = (e2, w2)"
    and "win_FindNextFile os h w2 = (Some (a, name), w3)" "\<not> has_flag a FILE_ATTRIBUTE_DIRECTORY" "h \<noteq> 0" "short e1" "short e2" "good_name name"
    and "2 * length (wopen ds @ [wstar]) \<le> 518" "2 * length (wopen ds @ name) \<le> 518"
    and "win_DeleteFile (winfiles os) (wopen ds @ name) w3 = (True, w4)"
    and "bytes_at m dirPath (wbytes ds @ [0, 0])" "dir_path ds"
    and "(below 0 stack \<union> region stack frame_bytes) \<inter> dom m = {}" "literals m lit star"
  shows "RemoveDir_W os default_dispatch lit star stack m w dirPath True = Some (True, m, w4)"
proof -
  have "remove_first 1 os ds w = Some (True, w4)"
    using assms(1-11) by (simp add: remove_file_def)
  moreover have "(below (1 - 1) stack \<union> region stack frame_bytes) \<inter> dom m = {}" "1 * frame_bytes \<le> 2 ^ 64"
    using assms(14) by simp_all
  ultimately show ?thesis using assms(12,13,15) by (intro RemoveDir_W_refined)
qed

section \<open>A concrete directory\<close>

text \<open>A directory with one file; the state counts the entries that were given and the files deleted.\<close>

definition one_file :: "nat windirs" where
  "one_file = \<lparr>winfiles = no_files\<lparr>win_DeleteFile := (\<lambda>name w. (True, w + 10))\<rparr>,
     win_CreateDirectory = (\<lambda>name w. (False, w)), win_RemoveDirectory = (\<lambda>name w. (False, w)),
     win_FindFirstFile = (\<lambda>name w. (1, Some (0x10, [wdot]), w)),
     win_FindNextFile = (\<lambda>h w. (if w = 0 then Some (0x10, [wdot, wdot]) else if w = 1 then Some (0x20, [0x61]) else None, Suc w)),
     win_FindClose = (\<lambda>h w. w)\<rparr>"

definition one_file_mem :: mem where
  "one_file_mem = [0x100 \<mapsto> 0x64, 0x101 \<mapsto> 0, 0x102 \<mapsto> 0, 0x103 \<mapsto> 0, 0x200 \<mapsto> 0x5C, 0x201 \<mapsto> 0, 0x300 \<mapsto> 0x2A, 0x301 \<mapsto> 0]"

lemma one_file_facts:
  "bytes_at one_file_mem 0x100 (wbytes [0x64] @ [0, 0])" "literals one_file_mem 0x200 0x300" "dir_path [0x64]" "good_name [0x61]"
  "(below 0 0x100000 \<union> region 0x100000 frame_bytes) \<inter> dom one_file_mem = {}"
proof -
  show "bytes_at one_file_mem 0x100 (wbytes [0x64] @ [0, 0])" "literals one_file_mem 0x200 0x300"
    by (simp_all add: one_file_mem_def literals_def low_byte_def high_byte_def)
  show "dir_path [0x64]" "good_name [0x61]" by (simp_all add: dir_path_def good_name_def plain_def low_byte_def high_byte_def)
  have r: "q \<in> region p n \<longleftrightarrow> unat (q - p) < n" if "n \<le> 3 * 8192" for q p n by (rule in_region_iff) (use that in simp)
  have f: "frame_bytes = 8192" by (simp add: frame_size_def)
  show "(below 0 0x100000 \<union> region 0x100000 frame_bytes) \<inter> dom one_file_mem = {}"
    unfolding below_def f one_file_mem_def by (auto simp: r frame_size_def simp del: region_numeral)
qed

theorem RemoveDir_W_refines_witness:
  "RemoveDir_W one_file default_dispatch 0x200 0x300 0x100000 one_file_mem 2 0x100 True = Some (False, one_file_mem, 4)"
proof -
  have "remove_first 1 one_file [0x64] 2 = Some (False, 4)" by (simp add: one_file_def wopen_def short_def)
  moreover have "(below (1 - 1) 0x100000 \<union> region 0x100000 frame_bytes) \<inter> dom one_file_mem = {}" "1 * frame_bytes \<le> 2 ^ 64"
    using one_file_facts(5) by simp_all
  ultimately show ?thesis using one_file_facts(1,2,3) by (intro RemoveDir_W_refines)
qed

theorem RemoveDir_W_keeps_directory_witness:
  "RemoveDir_W one_file default_dispatch 0x200 0x300 0x100000 one_file_mem 0 0x100 True = Some (True, one_file_mem, 12)"
proof -
  have f: "win_FindFirstFile one_file (wopen [0x64] @ [wstar]) 0 = (1, Some (0x10, [wdot]), 0)"
    "win_FindNextFile one_file 1 0 = (Some (0x10, [wdot, wdot]), 1)" "win_FindNextFile one_file 1 1 = (Some (0x20, [0x61]), 2)"
    "\<not> has_flag (0x20 :: u32) FILE_ATTRIBUTE_DIRECTORY" "(1 :: handle) \<noteq> 0" "short (Some (0x10, [wdot]))" "short (Some (0x10, [wdot, wdot]))"
    by (simp_all add: one_file_def FILE_ATTRIBUTE_DIRECTORY_def short_def)
  have l: "2 * length (wopen [0x64] @ [wstar]) \<le> 518" "2 * length (wopen [0x64] @ [0x61]) \<le> 518" by (simp_all add: wopen_def)
  have d: "win_DeleteFile (winfiles one_file) (wopen [0x64] @ [0x61]) 2 = (True, 12)" by (simp add: one_file_def)
  show ?thesis by (rule RemoveDir_W_keeps_directory [OF f one_file_facts(4) l d one_file_facts(1,3,5,2)])
qed

end
