(* ===== verification/WinServices.thy ===== *)
theory WinServices
  imports Services WinFiles
begin

text \<open>
  The other services on Windows (\<open>src/tinybase-platform-win32.c\<close>, lines 16 to 52 and 714 to 908): information about
  the system, timing, external libraries, threads, mutexes and semaphores. The calls of the Windows API are the
  parameter \<open>srv\<close>, which holds those for files. The handle in the array of a mutex or a semaphore is the word it is.
\<close>

unbundle bit_operations_syntax

section \<open>The system\<close>

record system_info =
  dwPageSize :: u32
  lpMinimumApplicationAddress :: ptr
  lpMaximumApplicationAddress :: ptr
  dwAllocationGranularity :: u32
  dwNumberOfProcessors :: u32

text \<open>\<open>IsWindowsVistaOrGreater\<close> to \<open>IsWindows10OrGreater\<close> compare with the version of the system.\<close>

datatype win_version = Vista | Seven | Eight | Eight_Point_One | Ten

record systemtime =
  wYear :: u16
  wMonth :: u16
  wDayOfWeek :: u16
  wDay :: u16
  wHour :: u16
  wMinute :: u16
  wSecond :: u16

record 'w winsrv =
  srvfiles :: "'w win"
  win_GetSystemInfo :: "'w \<Rightarrow> system_info"
  win_QueryPerformanceFrequency :: "'w \<Rightarrow> int"
  win_QueryPerformanceCounter :: "'w \<Rightarrow> int \<times> 'w"
  win_IsWindowsServer :: bool
  win_OrGreater :: "win_version \<Rightarrow> bool"
  win_GetSystemTime :: "'w \<Rightarrow> systemtime \<times> 'w"
  win_GetLocalTime :: "'w \<Rightarrow> systemtime \<times> 'w"
  win_LoadLibrary :: "u16 list \<Rightarrow> 'w \<Rightarrow> handle \<times> 'w"
  win_GetProcAddress :: "handle \<Rightarrow> u8 list \<Rightarrow> 'w \<Rightarrow> ptr"
  win_FreeLibrary :: "handle \<Rightarrow> 'w \<Rightarrow> bool \<times> 'w"
  win_CreateThread :: "usz \<Rightarrow> ptr \<Rightarrow> ptr \<Rightarrow> 'w \<Rightarrow> handle \<times> 'w"
  win_SetPriorityClass :: "handle \<Rightarrow> u32 \<Rightarrow> 'w \<Rightarrow> bool \<times> 'w"
  win_GetPriorityClass :: "handle \<Rightarrow> 'w \<Rightarrow> u32"
  win_WaitForSingleObject :: "handle \<Rightarrow> u32 \<Rightarrow> 'w \<Rightarrow> u32 \<times> 'w"
  win_TerminateThread :: "handle \<Rightarrow> u32 \<Rightarrow> 'w \<Rightarrow> bool \<times> 'w"
  win_CreateMutex :: "bool \<Rightarrow> 'w \<Rightarrow> handle \<times> 'w"
  win_ReleaseMutex :: "handle \<Rightarrow> 'w \<Rightarrow> bool \<times> 'w"
  win_CreateSemaphore :: "32 word \<Rightarrow> 32 word \<Rightarrow> 'w \<Rightarrow> handle \<times> 'w"
  win_ReleaseSemaphore :: "handle \<Rightarrow> 32 word \<Rightarrow> 'w \<Rightarrow> bool \<times> 'w"

section \<open>Information about the system\<close>

text \<open>The text of the version, and how much of it is copied: the last letter of Vista included.\<close>

definition os_version :: "bool \<Rightarrow> (win_version \<Rightarrow> bool) \<Rightarrow> u8 list" where
  "os_version server orGreater =
     (if server
      then
        if orGreater Ten then [0x53, 0x31, 0x36, 0x52, 0x31]
        else if orGreater Eight_Point_One then [0x53, 0x31, 0x32, 0x52, 0x32]
        else if orGreater Eight then [0x53, 0x31, 0x32, 0x52, 0x31]
        else if orGreater Seven then [0x53, 0x30, 0x38, 0x52, 0x32]
        else if orGreater Vista then [0x53, 0x30, 0x38, 0x52, 0x31]
        else [0x53, 0x2E, 0x2E, 0x2E]
      else
        if orGreater Ten then [0x57, 0x31, 0x30, 0x2E, 0x30]
        else if orGreater Eight_Point_One then [0x57, 0x30, 0x38, 0x2E, 0x31]
        else if orGreater Eight then [0x57, 0x30, 0x38, 0x2E, 0x30]
        else if orGreater Seven then [0x57, 0x30, 0x37, 0x2E, 0x30]
        else if orGreater Vista then [0x57, 0x56, 0x69, 0x73, 0x74, 0x61]
        else [0x57, 0x2E, 0x2E, 0x2E])"

text \<open>The literal that is copied lies at \<open>sp\<close>.\<close>

definition LoadSystemInfo_W :: "'w winsrv \<Rightarrow> mem \<Rightarrow> ptr \<Rightarrow> 'w \<Rightarrow> sys_info \<Rightarrow> (mem \<times> sys_info) option" where
  "LoadSystemInfo_W srv m sp w g =
     do {
       let info = win_GetSystemInfo srv w;
       let g = g\<lparr>PageSize := ucast (dwPageSize info),
                 AddressRange := (lpMinimumApplicationAddress info, lpMaximumApplicationAddress info),
                 MemBlockSize := ucast (dwAllocationGranularity info), NumThreads := ucast (dwNumberOfProcessors info)\<rparr>;
       let g = g\<lparr>TimingFreq := f64_of (win_QueryPerformanceFrequency srv w)\<rparr>;
       let version = os_version (win_IsWindowsServer srv) (win_OrGreater srv);
       (_, m) \<leftarrow> CopyData (push_local m sp version) (OSVersion g) 8 sp (of_nat (length version));
       Some (pop_local m sp (length version), g)
     }"

section \<open>Timing\<close>

definition StartTiming_W :: "'w winsrv \<Rightarrow> 'w \<Rightarrow> timing \<Rightarrow> timing \<times> 'w" where
  "StartTiming_W srv w info = (let (counter, w) = win_QueryPerformanceCounter srv w in (info\<lparr>Start := counter\<rparr>, w))"

definition StopTiming_W :: "'w winsrv \<Rightarrow> sys_info \<Rightarrow> 'w \<Rightarrow> timing \<Rightarrow> (timing \<times> 'w) option" where
  "StopTiming_W srv g w info =
     do {
       let (counter, w) = win_QueryPerformanceCounter srv w;
       d \<leftarrow> chk64 (counter - Start info);
       Some (info\<lparr>End := counter, Diff := f64_div (f64_of d) (TimingFreq g)\<rparr>, w)
     }"

definition datetime_of_W :: "systemtime \<Rightarrow> datetime option" where
  "datetime_of_W t =
     do {
       wday \<leftarrow> weekday_of (uint (wDayOfWeek t));
       Some \<lparr>Year = uint (wYear t), Month = uint (wMonth t), Day = uint (wDay t), Hour = uint (wHour t),
             Minute = uint (wMinute t), Second = uint (wSecond t), WeekDay = wday\<rparr>
     }"

definition CurrentSystemTime_W :: "'w winsrv \<Rightarrow> 'w \<Rightarrow> (datetime \<times> 'w) option" where
  "CurrentSystemTime_W srv w = do { let (t, w) = win_GetSystemTime srv w; dt \<leftarrow> datetime_of_W t; Some (dt, w) }"

definition CurrentLocalTime_W :: "'w winsrv \<Rightarrow> 'w \<Rightarrow> (datetime \<times> 'w) option" where
  "CurrentLocalTime_W srv w = do { let (t, w) = win_GetLocalTime srv w; dt \<leftarrow> datetime_of_W t; Some (dt, w) }"

section \<open>External libraries\<close>

definition LoadExternalLibrary_W :: "'w winsrv \<Rightarrow> mem \<Rightarrow> 'w \<Rightarrow> ptr \<Rightarrow> (handle \<times> 'w) option" where
  "LoadExternalLibrary_W srv m w libPath = do { name \<leftarrow> wstring m libPath; Some (win_LoadLibrary srv name w) }"

definition LoadExternalSymbol_W :: "'w winsrv \<Rightarrow> mem \<Rightarrow> 'w \<Rightarrow> handle \<Rightarrow> ptr \<Rightarrow> ptr option" where
  "LoadExternalSymbol_W srv m w library symbolName = do { name \<leftarrow> cstring m symbolName; Some (win_GetProcAddress srv library name w) }"

definition UnloadExternalLibrary_W :: "'w winsrv \<Rightarrow> 'w \<Rightarrow> handle \<Rightarrow> bool \<times> 'w" where
  "UnloadExternalLibrary_W srv w library = win_FreeLibrary srv library w"

section \<open>Threads\<close>

definition SCHEDULE_UNKNOWN :: int where "SCHEDULE_UNKNOWN = 0"

text \<open>The constants of \<open>winbase.h\<close>.\<close>

definition NORMAL_PRIORITY_CLASS :: u32 where "NORMAL_PRIORITY_CLASS = 0x20"
definition IDLE_PRIORITY_CLASS :: u32 where "IDLE_PRIORITY_CLASS = 0x40"
definition HIGH_PRIORITY_CLASS :: u32 where "HIGH_PRIORITY_CLASS = 0x80"
definition REALTIME_PRIORITY_CLASS :: u32 where "REALTIME_PRIORITY_CLASS = 0x100"
definition BELOW_NORMAL_PRIORITY_CLASS :: u32 where "BELOW_NORMAL_PRIORITY_CLASS = 0x4000"
definition ABOVE_NORMAL_PRIORITY_CLASS :: u32 where "ABOVE_NORMAL_PRIORITY_CLASS = 0x8000"
definition INFINITE :: u32 where "INFINITE = 0xFFFFFFFF"
definition WAIT_FAILED :: u32 where "WAIT_FAILED = 0xFFFFFFFF"

lemmas priority_class_defs = NORMAL_PRIORITY_CLASS_def IDLE_PRIORITY_CLASS_def HIGH_PRIORITY_CLASS_def
  REALTIME_PRIORITY_CLASS_def BELOW_NORMAL_PRIORITY_CLASS_def ABOVE_NORMAL_PRIORITY_CLASS_def

definition InitThread_W :: "'w winsrv \<Rightarrow> 'w \<Rightarrow> ptr \<Rightarrow> ptr \<Rightarrow> bool \<Rightarrow> thread \<times> 'w" where
  "InitThread_W srv w threadProc threadArg waitable =
     (let (h, w) = win_CreateThread srv 0x200000 threadProc threadArg w in (\<lparr>Handle = h\<rparr>, w))"

definition ChangeThreadScheduling_W :: "'w winsrv \<Rightarrow> 'w \<Rightarrow> thread \<Rightarrow> int \<Rightarrow> (bool \<times> 'w) option" where
  "ChangeThreadScheduling_W srv w thread newScheduling =
     do {
       priority \<leftarrow> chk32 (newScheduling * uint NORMAL_PRIORITY_CLASS);
       Some (win_SetPriorityClass srv (Handle thread) (word_of_int priority) w)
     }"

definition GetThreadScheduling_W :: "'w winsrv \<Rightarrow> 'w \<Rightarrow> thread \<Rightarrow> int" where
  "GetThreadScheduling_W srv w thread =
     (let c = win_GetPriorityClass srv (Handle thread) w in
      if c = ABOVE_NORMAL_PRIORITY_CLASS \<or> c = HIGH_PRIORITY_CLASS \<or> c = REALTIME_PRIORITY_CLASS then SCHEDULE_HIGH
      else if c = BELOW_NORMAL_PRIORITY_CLASS \<or> c = IDLE_PRIORITY_CLASS then SCHEDULE_LOW
      else if c = NORMAL_PRIORITY_CLASS then SCHEDULE_NORMAL
      else SCHEDULE_UNKNOWN)"

definition CloseThread_W :: "'w winsrv \<Rightarrow> 'w \<Rightarrow> thread \<Rightarrow> bool \<times> 'w" where
  "CloseThread_W srv w thread = (let (_, w) = win_CloseHandle (srvfiles srv) (Handle thread) w in (True, w))"

definition WaitOnThread_W :: "'w winsrv \<Rightarrow> 'w \<Rightarrow> thread \<Rightarrow> bool \<times> 'w" where
  "WaitOnThread_W srv w thread =
     (let (r, w) = win_WaitForSingleObject srv (Handle thread) INFINITE w in
      if r \<noteq> WAIT_FAILED then CloseThread_W srv w thread else (False, w))"

definition KillThread_W :: "'w winsrv \<Rightarrow> 'w \<Rightarrow> thread \<Rightarrow> bool \<times> 'w" where
  "KillThread_W srv w thread =
     (let (r, w) = win_TerminateThread srv (Handle thread) 0 w in if r then CloseThread_W srv w thread else (False, w))"

section \<open>Mutexes and semaphores\<close>

definition InitMutex_W :: "'w winsrv \<Rightarrow> 'w \<Rightarrow> handle \<times> 'w" where
  "InitMutex_W srv w = win_CreateMutex srv False w"

definition CloseMutex_W :: "'w winsrv \<Rightarrow> 'w \<Rightarrow> handle \<Rightarrow> bool \<times> 'w" where
  "CloseMutex_W srv w mutex = win_CloseHandle (srvfiles srv) mutex w"

definition LockOnMutex_W :: "'w winsrv \<Rightarrow> 'w \<Rightarrow> handle \<Rightarrow> bool \<times> 'w" where
  "LockOnMutex_W srv w mutex = (let (r, w) = win_WaitForSingleObject srv mutex INFINITE w in (r \<noteq> WAIT_FAILED, w))"

definition UnlockMutex_W :: "'w winsrv \<Rightarrow> 'w \<Rightarrow> handle \<Rightarrow> bool \<times> 'w" where
  "UnlockMutex_W srv w mutex = win_ReleaseMutex srv mutex w"

definition InitSemaphore_W :: "'w winsrv \<Rightarrow> 'w \<Rightarrow> 32 word \<Rightarrow> handle \<times> 'w" where
  "InitSemaphore_W srv w initCount = win_CreateSemaphore srv initCount 0x7FFFFFFF w"

definition CloseSemaphore_W :: "'w winsrv \<Rightarrow> 'w \<Rightarrow> handle \<Rightarrow> bool \<times> 'w" where
  "CloseSemaphore_W srv w sem = win_CloseHandle (srvfiles srv) sem w"

definition IncreaseSemaphore_W :: "'w winsrv \<Rightarrow> 'w \<Rightarrow> handle \<Rightarrow> bool \<times> 'w" where
  "IncreaseSemaphore_W srv w sem = win_ReleaseSemaphore srv sem 1 w"

definition WaitOnSemaphore_W :: "'w winsrv \<Rightarrow> 'w \<Rightarrow> handle \<Rightarrow> bool \<times> 'w" where
  "WaitOnSemaphore_W srv w sem = (let (r, w) = win_WaitForSingleObject srv sem INFINITE w in (r \<noteq> WAIT_FAILED, w))"

section \<open>Properties\<close>

text \<open>What the calls do to the value of a semaphore, below its maximum.\<close>

definition sem_law_W :: "'w winsrv \<Rightarrow> ('w \<Rightarrow> handle \<Rightarrow> nat) \<Rightarrow> bool" where
  "sem_law_W srv val \<longleftrightarrow>
     (\<forall>h w r w'. win_ReleaseSemaphore srv h 1 w = (r, w') \<longrightarrow> val w' h = (if r then Suc (val w h) else val w h))
     \<and> (\<forall>h w r w'. win_WaitForSingleObject srv h INFINITE w = (r, w') \<longrightarrow>
          val w h = (if r = WAIT_FAILED then val w' h else Suc (val w' h)))"

fun sem_run_W :: "'w winsrv \<Rightarrow> sem_op list \<Rightarrow> handle \<Rightarrow> 'w \<Rightarrow> (sem_op \<times> bool) list \<times> 'w" where
  "sem_run_W srv [] h w = ([], w)"
| "sem_run_W srv (a # as) h w =
     (let (r, w) = (case a of Inc \<Rightarrow> IncreaseSemaphore_W srv w h | Wait \<Rightarrow> WaitOnSemaphore_W srv w h);
          (rs, w) = sem_run_W srv as h w
      in ((a, r) # rs, w))"

text \<open>
  Over any sequence of operations on Windows, the value of a semaphore has grown by the number of calls of
  \<open>IncreaseSemaphore\<close> that returned true, less the number of calls of \<open>WaitOnSemaphore\<close> that returned true; on
  Linux it is those that return false that count.
\<close>

theorem Semaphore_W_counts:
  assumes "sem_law_W srv val" "sem_run_W srv ops h w = (rs, w')"
  shows "val w' h + length (filter ((=) (Wait, True)) rs) = val w h + length (filter ((=) (Inc, True)) rs)"
  using assms(2)
proof (induction ops arbitrary: w rs)
  case (Cons a as)
  obtain r w1 where step: "(case a of Inc \<Rightarrow> IncreaseSemaphore_W srv w h | Wait \<Rightarrow> WaitOnSemaphore_W srv w h) = (r, w1)" by fastforce
  obtain rs1 w2 where run: "sem_run_W srv as h w1 = (rs1, w2)" by fastforce
  have rs: "rs = (a, r) # rs1" "w2 = w'" using Cons.prems step run by simp_all
  have "val w1 h + (if (a, r) = (Wait, True) then 1 else 0) = val w h + (if (a, r) = (Inc, True) then 1 else 0)"
  proof (cases a)
    case Inc
    then have "win_ReleaseSemaphore srv h 1 w = (r, w1)" using step by (simp add: IncreaseSemaphore_W_def)
    then have "val w1 h = (if r then Suc (val w h) else val w h)" using assms(1) unfolding sem_law_W_def by blast
    then show ?thesis using Inc by simp
  next
    case Wait
    then obtain e where e: "win_WaitForSingleObject srv h INFINITE w = (e, w1)" "r = (e \<noteq> WAIT_FAILED)"
      using step by (auto simp: WaitOnSemaphore_W_def split: prod.splits)
    then have "val w h = (if e = WAIT_FAILED then val w1 h else Suc (val w1 h))" using assms(1) unfolding sem_law_W_def by blast
    then show ?thesis using Wait e(2) by simp
  qed
  then show ?case using Cons.IH [OF run [unfolded rs(2)]] by (auto simp: rs(1) split: if_splits)
qed simp

text \<open>
  With a priority class that stays as it was set, \<open>GetThreadScheduling\<close> returns what \<open>ChangeThreadScheduling\<close> has
  set, for the three schedulings there are: their numbers, times the normal class, are classes of that kind.
\<close>

theorem ThreadScheduling_W_round_trip:
  assumes "\<And>h c w w'. win_SetPriorityClass srv h c w = (True, w') \<Longrightarrow> win_GetPriorityClass srv h w' = c"
    and "ChangeThreadScheduling_W srv w thread new = Some (True, w')" "new \<in> {SCHEDULE_NORMAL, SCHEDULE_LOW, SCHEDULE_HIGH}"
  shows "GetThreadScheduling_W srv w' thread = new"
proof -
  have "win_SetPriorityClass srv (Handle thread) (word_of_int (new * 0x20)) w = (True, w')"
    using assms(2,3) by (auto simp: ChangeThreadScheduling_W_def chk32_def schedule_defs NORMAL_PRIORITY_CLASS_def)
  from assms(1) [OF this] show ?thesis
    using assms(3) by (auto simp: GetThreadScheduling_W_def schedule_defs priority_class_defs)
qed


section \<open>A concrete system\<close>

text \<open>The state is the value of a semaphore and the priority class.\<close>

definition sim_winsrv :: "(nat \<times> u32) winsrv" where
  "sim_winsrv = \<lparr>srvfiles = no_files,
     win_GetSystemInfo = (\<lambda>w. \<lparr>dwPageSize = 4096, lpMinimumApplicationAddress = 0x10000, lpMaximumApplicationAddress = 0x7FFFFFFEFFFF,
       dwAllocationGranularity = 0x10000, dwNumberOfProcessors = 4\<rparr>),
     win_QueryPerformanceFrequency = (\<lambda>w. 10000000), win_QueryPerformanceCounter = (\<lambda>w. (0, w)),
     win_IsWindowsServer = False, win_OrGreater = (\<lambda>v. True),
     win_GetSystemTime = (\<lambda>w. (\<lparr>wYear = 2024, wMonth = 2, wDayOfWeek = 4, wDay = 29, wHour = 0, wMinute = 0, wSecond = 0\<rparr>, w)),
     win_GetLocalTime = (\<lambda>w. (\<lparr>wYear = 2024, wMonth = 2, wDayOfWeek = 4, wDay = 29, wHour = 0, wMinute = 0, wSecond = 0\<rparr>, w)),
     win_LoadLibrary = (\<lambda>name w. (0, w)), win_GetProcAddress = (\<lambda>l s w. 0), win_FreeLibrary = (\<lambda>l w. (False, w)),
     win_CreateThread = (\<lambda>n f x w. (8, w)), win_SetPriorityClass = (\<lambda>h c w. (True, (fst w, c))), win_GetPriorityClass = (\<lambda>h w. snd w),
     win_WaitForSingleObject = (\<lambda>h t w. case fst w of 0 \<Rightarrow> (WAIT_FAILED, w) | Suc n \<Rightarrow> (0, (n, snd w))),
     win_TerminateThread = (\<lambda>h c w. (False, w)), win_CreateMutex = (\<lambda>b w. (12, w)), win_ReleaseMutex = (\<lambda>h w. (True, w)),
     win_CreateSemaphore = (\<lambda>n k w. (16, (unat n, snd w))), win_ReleaseSemaphore = (\<lambda>h n w. (True, (Suc (fst w), snd w)))\<rparr>"

theorem Semaphore_W_counts_witness:
  "\<exists>w'. sem_run_W sim_winsrv [Inc, Inc, Wait] 16 (0, 0) = ([(Inc, True), (Inc, True), (Wait, True)], w') \<and> fst w' = 1"
proof -
  have law: "sem_law_W sim_winsrv (\<lambda>w h. fst w)"
    by (auto simp: sem_law_W_def sim_winsrv_def WAIT_FAILED_def split: nat.splits)
  obtain rs w' where run: "sem_run_W sim_winsrv [Inc, Inc, Wait] 16 (0, 0) = (rs, w')"
    by (cases "sem_run_W sim_winsrv [Inc, Inc, Wait] 16 (0, 0)")
  moreover have "rs = [(Inc, True), (Inc, True), (Wait, True)]"
    using run by (simp add: sim_winsrv_def IncreaseSemaphore_W_def WaitOnSemaphore_W_def WAIT_FAILED_def)
  moreover have "fst w' = 1" using Semaphore_W_counts [OF law run] calculation(2) by simp
  ultimately show ?thesis by blast
qed

theorem ThreadScheduling_W_round_trip_witness:
  "GetThreadScheduling_W sim_winsrv (0, 0x40) \<lparr>Handle = 8\<rparr> = SCHEDULE_LOW"
proof -
  have keeps: "win_GetPriorityClass sim_winsrv h w' = c" if "win_SetPriorityClass sim_winsrv h c w = (True, w')" for h c w w'
    using that by (auto simp: sim_winsrv_def)
  have set: "ChangeThreadScheduling_W sim_winsrv (0, 0) \<lparr>Handle = 8\<rparr> SCHEDULE_LOW = Some (True, (0, 0x40))"
    by (simp add: ChangeThreadScheduling_W_def chk32_def schedule_defs NORMAL_PRIORITY_CLASS_def sim_winsrv_def)
  have low: "SCHEDULE_LOW \<in> {SCHEDULE_NORMAL, SCHEDULE_LOW, SCHEDULE_HIGH}" by simp
  show ?thesis by (rule ThreadScheduling_W_round_trip [OF keeps set low])
qed

end
