(* ===== verification/Operators.thy ===== *)
theory Operators
  imports NumText Atomic Simd
begin

text \<open>
  The operators for C++ of \<open>src/tinybase-strings.h\<close> (lines 315 to 322), the macros that push typed space into an
  arena (\<open>src/tinybase-memory.h\<close>), and \<open>LoadCPUArch\<close> of \<open>src/tinybase-types.h\<close> with what it means for the
  choice of the searches. The left operand of \<open>+\<close> is passed by value: the bytes behind it are written all the same.
\<close>

section \<open>Operators on strings\<close>

definition plus_array :: "mem \<Rightarrow> tb_string \<Rightarrow> ptr \<Rightarrow> (mem \<times> tb_string) option" where
  "plus_array m A src = do { (_, m, A) \<leftarrow> AppendArrayToString m src A; Some (m, A) }"

definition plus_assign_array :: "mem \<Rightarrow> tb_string \<Rightarrow> ptr \<Rightarrow> (mem \<times> tb_string) option" where
  "plus_assign_array m A src = do { (m, A) \<leftarrow> plus_array m A src; Some (m, A) }"

definition plus_string :: "mem \<Rightarrow> tb_string \<Rightarrow> tb_string \<Rightarrow> (mem \<times> tb_string) option" where
  "plus_string m A src = do { (_, m, A) \<leftarrow> AppendStringToString m src A; Some (m, A) }"

definition plus_assign_string :: "mem \<Rightarrow> tb_string \<Rightarrow> tb_string \<Rightarrow> (mem \<times> tb_string) option" where
  "plus_assign_string m A src = do { (m, A) \<leftarrow> plus_string m A src; Some (m, A) }"

text \<open>\<open>sp\<close> is the address of the locals of \<open>AppendIntToString\<close>.\<close>

definition plus_int :: "mem \<Rightarrow> ptr \<Rightarrow> tb_string \<Rightarrow> int \<Rightarrow> (mem \<times> tb_string) option" where
  "plus_int m sp A i = do { (_, m, A) \<leftarrow> AppendIntToString m sp i A; Some (m, A) }"

definition plus_assign_int :: "mem \<Rightarrow> ptr \<Rightarrow> tb_string \<Rightarrow> int \<Rightarrow> (mem \<times> tb_string) option" where
  "plus_assign_int m sp A i = do { (m, A) \<leftarrow> plus_int m sp A i; Some (m, A) }"

definition eq_string :: "mem \<Rightarrow> tb_string \<Rightarrow> tb_string \<Rightarrow> bool option" where
  "eq_string m A B = EqualBuffers m (Buf A) (Buf B)"

section \<open>Typed space in an arena\<close>

text \<open>The size of the type comes from \<open>sizeof\<close>.\<close>

definition PushSize :: "'a buffer_scheme \<Rightarrow> usz \<Rightarrow> ptr \<times> 'a buffer_scheme" where
  "PushSize arena n = PushIntoArena arena n"

definition PushStruct :: "'a buffer_scheme \<Rightarrow> usz \<Rightarrow> ptr \<times> 'a buffer_scheme" where
  "PushStruct arena sizeofType = PushIntoArena arena sizeofType"

definition PushArray :: "'a buffer_scheme \<Rightarrow> usz \<Rightarrow> usz \<Rightarrow> ptr \<times> 'a buffer_scheme" where
  "PushArray arena count sizeofType = PushIntoArena arena (count * sizeofType)"

section \<open>What the processor can do\<close>

text \<open>
  \<open>CPUIDLeaf1\<close> and \<open>CPUIDLeaf7a\<close>, zero before, are filled by \<open>cpuid\<close> of a leaf and a subleaf, with Microsoft's compiler
  only.
\<close>

definition LoadCPUArch :: "compiler \<Rightarrow> (nat \<Rightarrow> nat \<Rightarrow> u32 list) \<Rightarrow> u32 list \<times> u32 list \<Rightarrow> u32 list \<times> u32 list" where
  "LoadCPUArch cc cpuid leaves = (case cc of TT_MSVC \<Rightarrow> (cpuid 1 0, cpuid 7 0) | TT_GCC \<Rightarrow> leaves)"

section \<open>Properties\<close>

lemma holds_elsewhere:
  assumes "holds m b xs" "\<forall>q. q \<notin> R \<longrightarrow> m' q = m q" "R \<inter> region (Base b) (length xs) = {}"
  shows "holds m' b xs"
proof -
  have "m' (Base b + of_nat j) = Some (xs ! j)" if j: "j < length xs" for j
  proof -
    have "Base b + of_nat j \<notin> R" using assms(3) region_memI [OF j, of "Base b"] by blast
    then show ?thesis using assms(1,2) j by (simp add: holds_def bytes_at_def)
  qed
  then show ?thesis using assms(1) by (simp add: holds_def bytes_at_def)
qed

text \<open>
  C31: \<open>A += i\<close> for any \<open>i\<close> but the smallest. With room for the text, it appends the sign and the decimal digits
  of \<open>i\<close>, and the result compares equal to every string of the same encoding that holds the text of \<open>A\<close> followed
  by that of \<open>i\<close>. Without room it leaves \<open>A\<close> and the memory as they are, and nothing tells the caller: the
  operator drops the result of \<open>AppendIntToString\<close>.
\<close>

theorem plus_assign_int_equals:
  assumes "has_text m A cs" "buf_ok m A" "region sp 80 \<inter> dom m = {}" "\<bar>i\<bar> < 2 ^ 63"
  shows "if length (enc_text (Enc A) (int_text i)) \<le> space A
    then \<exists>m' A'. plus_assign_int m sp A i = Some (m', A') \<and> has_text m' A' (cs @ int_text i)
      \<and> (\<forall>B. has_text m B (cs @ int_text i) \<and> Enc B = Enc A
            \<and> buf_region A \<inter> region (Base B) (length (enc_text (Enc A) (cs @ int_text i))) = {}
          \<longrightarrow> eq_string m' A' B = Some True)
    else plus_assign_int m sp A i = Some (m, A)"
proof (cases "length (enc_text (Enc A) (int_text i)) \<le> space A")
  case True
  from append_text [OF assms(1,2) True int_text_ok] obtain m' A' where
    a: "AppendIntToString m sp i A = Some (True, m', A')" and t: "has_text m' A' (cs @ int_text i)" "Enc A' = Enc A"
      "\<forall>q. q \<notin> buf_region A \<longrightarrow> m' q = m q"
    using AppendIntToString_eq [OF assms(2,3), of i] assms(4) by auto
  let ?bs = "enc_text (Enc A) (cs @ int_text i)"
  have "eq_string m' A' B = Some True"
    if "has_text m B (cs @ int_text i)" "Enc B = Enc A" "buf_region A \<inter> region (Base B) (length ?bs) = {}" for B
  proof -
    have "holds m (Buf B) ?bs" using that(1,2) by (simp add: has_text_def holds_def)
    then have "holds m' (Buf B) ?bs" using holds_elsewhere [OF _ t(3), of "Buf B" ?bs] that(3) by simp
    moreover have "holds m' (Buf A') ?bs" using t(1,2) by (simp add: has_text_def holds_def)
    ultimately show ?thesis unfolding eq_string_def by (subst EqualBuffers_eq) simp_all
  qed
  then show ?thesis using a t(1) True by (auto simp: plus_assign_int_def plus_int_def)
next
  case False
  then show ?thesis using append_int.failure [OF assms(2), of sp "Enc A" i] assms(3,4)
    by (simp add: plus_assign_int_def plus_int_def)
qed

definition ex_sum :: mem where
  "ex_sum = ex_euro(0x1000 \<mapsto> 0x00, 0x1001 \<mapsto> 0x2D, 0x1002 \<mapsto> 0x00, 0x1003 \<mapsto> 0x34, 0x1004 \<mapsto> 0x00, 0x1005 \<mapsto> 0x32)"

lemma ex_sum_text: "int_text (- 42) = [0x2D, 0x34, 0x32]"
  by (simp add: int_text_decimal decimal_big decimal_small digit_char_def)

lemma ex_sum_bytes: "enc_text EC_UTF16BE [0x2D, 0x34, 0x32] = [0x00, 0x2D, 0x00, 0x34, 0x00, 0x32]"
  by (simp add: char_bytes_def code_bytes_def utf16_units_def unit_bytes_def)

theorem plus_assign_int_equals_witness:
  "\<exists>m' A'. plus_assign_int ex_sum 0x80 (ex_out 0) (- 42) = Some (m', A')
     \<and> has_text m' A' [0x2D, 0x34, 0x32] \<and> eq_string m' A' (String 0x1000 6 6 EC_UTF16BE) = Some True"
proof -
  have a: "has_text ex_sum (ex_out 0) []" by (simp add: has_text_def holds_def ex_out_def)
  have b: "buf_ok ex_sum (ex_out 0)" by (simp add: buf_ok_def ex_out_def ex_sum_def ex_euro_def)
  have c: "region (0x80 :: ptr) 80 \<inter> dom ex_sum = {}" by (simp add: ex_sum_def ex_euro_def)
  have d: "has_text ex_sum (String 0x1000 6 6 EC_UTF16BE) [0x2D, 0x34, 0x32]"
    by (simp add: has_text_def holds_def char_bytes_def code_bytes_def utf16_units_def unit_bytes_def ex_sum_def enc_ok_def)
  have e: "buf_region (ex_out 0) \<inter> region (0x1000 :: ptr) 6 = {}" by (simp add: ex_out_def)
  have f: "Enc (ex_out 0) = EC_UTF16BE" "\<bar>- 42 :: int\<bar> < 2 ^ 63" by (simp_all add: ex_out_def)
  have g: "length (enc_text (Enc (ex_out 0)) (int_text (- 42))) \<le> space (ex_out 0)"
    using ex_text_length [of "int_text (- 42)"] by (simp add: ex_sum_text)
  have "has_text ex_sum (String 0x1000 6 6 EC_UTF16BE) ([] @ int_text (- 42))" using d by (simp only: ex_sum_text append.simps(1))
  moreover have "Enc (String 0x1000 6 6 EC_UTF16BE) = Enc (ex_out 0)" by (simp add: f(1))
  moreover have "buf_region (ex_out 0) \<inter> region (Base (String 0x1000 6 6 EC_UTF16BE)) (length (enc_text (Enc (ex_out 0)) ([] @ int_text (- 42)))) = {}"
    using e by (simp only: f(1) ex_sum_text append.simps(1) ex_sum_bytes String_sel list.size) (simp add: numeral_eq_Suc)
  ultimately obtain m' A' where "plus_assign_int ex_sum 0x80 (ex_out 0) (- 42) = Some (m', A')" "has_text m' A' ([] @ int_text (- 42))"
    "eq_string m' A' (String 0x1000 6 6 EC_UTF16BE) = Some True"
    using plus_assign_int_equals [OF a b c f(2)] g by (simp only: if_True) blast
  then show ?thesis by (simp only: ex_sum_text append.simps(1)) blast
qed

text \<open>
  \<open>==\<close> compares the bytes only: on two strings that hold the same bytes it is true whatever their encodings, where
  \<open>EqualStrings\<close> is false for different ones.
\<close>

theorem eq_string_ignores_encoding:
  assumes "holds m A xs" "holds m B ys" "Enc A \<noteq> Enc B"
  shows "eq_string m A B = Some (xs = ys) \<and> EqualStrings m A B = Some False"
proof -
  have "holds m (Buf A) xs" "holds m (Buf B) ys" using assms(1,2) by (simp_all add: holds_def)
  then show ?thesis using assms(3) by (simp add: eq_string_def EqualStrings_def EqualBuffers_eq)
qed

definition ex_pair :: mem where
  "ex_pair = [0x10 \<mapsto> 0x41, 0x11 \<mapsto> 0x42, 0x20 \<mapsto> 0x41, 0x21 \<mapsto> 0x42]"

theorem eq_string_ignores_encoding_witness:
  "eq_string ex_pair (String 0x10 2 2 EC_UTF8) (String 0x20 2 2 EC_UTF16LE) = Some True
   \<and> EqualStrings ex_pair (String 0x10 2 2 EC_UTF8) (String 0x20 2 2 EC_UTF16LE) = Some False"
proof -
  have "holds ex_pair (String 0x10 2 2 EC_UTF8) [0x41, 0x42]" "holds ex_pair (String 0x20 2 2 EC_UTF16LE) [0x41, 0x42]"
    by (simp_all add: holds_def ex_pair_def)
  from eq_string_ignores_encoding [OF this] show ?thesis by simp
qed

text \<open>
  The size that \<open>PushArray\<close> asks for is a product that may wrap: an array of at least \<open>2 ^ 64\<close> bytes is granted
  when what is left of its size modulo \<open>2 ^ 64\<close> fits.
\<close>

theorem PushArray_wraps:
  assumes "2 ^ 64 \<le> unat count * unat n" "unat (WriteCur arena) + unat count * unat n mod 2 ^ 64 \<le> unat (Size arena)"
  shows "\<exists>arena'. PushArray arena count n = (Base arena + WriteCur arena, arena') \<and> unat (Size arena) < unat count * unat n"
proof -
  have p: "unat (count * n) = unat count * unat n mod 2 ^ 64" by (simp add: unat_word_ariths)
  have "unat (WriteCur arena) + unat (count * n) < 2 ^ LENGTH(64)" using assms(2) p unat_lt_2p [of "Size arena"] by simp
  then have "unat (WriteCur arena + count * n) = unat (WriteCur arena) + unat (count * n)" by (rule unat_add_lem [THEN iffD1])
  then have "WriteCur arena + count * n \<le> Size arena" using assms(2) p by (simp add: word_le_nat_alt)
  then show ?thesis using assms(1) unat_lt_2p [of "Size arena"] by (simp add: PushArray_def PushIntoArena_def)
qed

theorem PushArray_wraps_witness:
  "\<exists>arena'. PushArray (Buffer 0x1000 0 64) 0x2000000000000001 8 = (0x1000, arena')"
  using PushArray_wraps [of "0x2000000000000001" 8 "Buffer 0x1000 0 64"] by (auto simp: unat_numeral)

text \<open>
  Built with GCC, whatever the processor can do, \<open>LoadCPUArch\<close> and \<open>InitBuffersArch\<close> leave the portable searches in
  place; with Microsoft's compiler a processor with AVX2 gets the searches for it.
\<close>

theorem LoadCPUArch_selects:
  shows "(let (leaf1, leaf7) = LoadCPUArch TT_GCC cpuid (replicate 4 0, replicate 4 0) in InitBuffersArch leaf1 leaf7 d) = d
    \<and> (bit (cpuid 7 0 ! 1) 5 \<longrightarrow>
       (let (leaf1, leaf7) = LoadCPUArch TT_MSVC cpuid (replicate 4 0, replicate 4 0) in InitBuffersArch leaf1 leaf7 d)
       = \<lparr>ByteInBufferIdx = ByteInBufferIdxAVX2, BufferInBufferIdx = BufferInBufferIdxAVX2\<rparr>)"
  by (cases d) (simp add: LoadCPUArch_def InitBuffersArch_def Let_def)

theorem LoadCPUArch_selects_witness:
  "(let (leaf1, leaf7) = LoadCPUArch TT_MSVC (\<lambda>leaf sub. [0, 0xFFFFFFFF, 0, 0]) (replicate 4 0, replicate 4 0)
    in InitBuffersArch leaf1 leaf7 default_dispatch) = \<lparr>ByteInBufferIdx = ByteInBufferIdxAVX2, BufferInBufferIdx = BufferInBufferIdxAVX2\<rparr>"
proof -
  have "bit ((\<lambda>(leaf :: nat) (sub :: nat). [0, 0xFFFFFFFF, 0, 0 :: u32]) 7 0 ! 1) 5" by simp
  with LoadCPUArch_selects [of "\<lambda>leaf sub. [0, 0xFFFFFFFF, 0, 0]" default_dispatch] show ?thesis by blast
qed

end
