(* ===== verification/Appends.thy ===== *)
theory Appends
  imports FloatText
begin

text \<open>
  What every append of \<open>src/tinybase-strings.c\<close> keeps, whatever it is given: programs that append characters,
  bytes, strings in any encoding (valid or not) and numbers, one after the other, to one string.
\<close>

section \<open>Programs of appends\<close>

text \<open>The repeated appends are left out: \<open>AppendBufferToBufferNTimes_wraps\<close> shows them leave the buffer.\<close>

datatype append_call =
    PutData ptr usz
  | PutArray ptr
  | PutString tb_string
  | PutChar mb_char
  | PutUInt usz
  | PutInt int
  | PutFloat f64 usz bool

text \<open>\<open>sp\<close> is the address of the locals of the function called.\<close>

primrec do_append :: "cmath option \<Rightarrow> ptr \<Rightarrow> mem \<Rightarrow> tb_string \<Rightarrow> append_call \<Rightarrow> (bool \<times> mem \<times> tb_string) option" where
  "do_append lib sp m dst (PutData p n) = AppendDataToString m p n dst"
| "do_append lib sp m dst (PutArray p) = AppendArrayToString m p dst"
| "do_append lib sp m dst (PutString src) = AppendStringToString m src dst"
| "do_append lib sp m dst (PutChar ch) = AppendCharToString m sp ch dst"
| "do_append lib sp m dst (PutUInt n) = AppendUIntToString m sp n dst"
| "do_append lib sp m dst (PutInt i) = AppendIntToString m sp i dst"
| "do_append lib sp m dst (PutFloat x places sn) = AppendFloatToString lib m sp x places sn dst"

fun do_appends :: "cmath option \<Rightarrow> ptr \<Rightarrow> mem \<Rightarrow> tb_string \<Rightarrow> append_call list \<Rightarrow> (mem \<times> tb_string) option" where
  "do_appends lib sp m dst [] = Some (m, dst)"
| "do_appends lib sp m dst (c # cs) =
     do { (_, m, dst) \<leftarrow> do_append lib sp m dst c; do_appends lib sp m dst cs }"

section \<open>Growing\<close>

text \<open>\<open>changed_in\<close>: the memory differs in the region only, and the same cells exist.\<close>

definition changed_in :: "ptr set \<Rightarrow> mem \<Rightarrow> mem \<Rightarrow> bool" where
  "changed_in R m m' \<longleftrightarrow> dom m' = dom m \<and> (\<forall>q. q \<notin> R \<longrightarrow> m' q = m q)"

definition grown :: "mem \<Rightarrow> tb_string \<Rightarrow> mem \<Rightarrow> tb_string \<Rightarrow> bool" where
  "grown m d m' d' \<longleftrightarrow> Base d' = Base d \<and> Size d' = Size d \<and> Enc d' = Enc d \<and> WriteCur d \<le> WriteCur d' \<and> WriteCur d' \<le> Size d
     \<and> changed_in (region (Base d + WriteCur d) (space d)) m m'"

lemma changed_refl [simp]: "changed_in R m m"
  by (simp add: changed_in_def)

lemma changed_trans: "changed_in R m m1 \<Longrightarrow> changed_in R m1 m2 \<Longrightarrow> changed_in R m m2"
  by (simp add: changed_in_def)

lemma changed_mono: "changed_in R m m' \<Longrightarrow> R \<subseteq> R' \<Longrightarrow> changed_in R' m m'"
  by (auto simp: changed_in_def)

lemma store_bytes_changed: "store_bytes m p bs = Some m' \<Longrightarrow> changed_in (region p (length bs)) m m'"
proof (induction bs arbitrary: m p)
  case Nil
  then show ?case by simp
next
  case (Cons b bs)
  from Cons.prems obtain c where c: "m p = Some c" and s: "store_bytes (m(p \<mapsto> b)) (p + 1) bs = Some m'"
    by (cases "m p") (simp_all add: store8_def)
  have "changed_in (region p (length (b # bs))) m (m(p \<mapsto> b))" using c by (auto simp: changed_in_def region_Suc)
  moreover have "changed_in (region p (length (b # bs))) (m(p \<mapsto> b)) m'"
    by (rule changed_mono [OF Cons.IH [OF s]]) (simp add: region_Suc subset_insertI)
  ultimately show ?case by (rule changed_trans)
qed

lemma load_bytes_length: "load_bytes m p n = Some bs \<Longrightarrow> length bs = n"
  by (induction n arbitrary: p bs) (auto simp: bind_eq_Some_conv)

lemma CopyData_changed: "CopyData m dst n src k = Some (r, m') \<Longrightarrow> (r \<longrightarrow> k \<le> n) \<and> (\<not> r \<longrightarrow> m' = m) \<and> changed_in (region dst (unat n)) m m'"
proof -
  assume a: "CopyData m dst n src k = Some (r, m')"
  show ?thesis
  proof (cases "k \<le> n")
    case True
    then have "memcpy m dst src k = Some m'" "r" using a by (auto simp: CopyData_def bind_eq_Some_conv)
    then obtain bs where b: "load_bytes m src (unat k) = Some bs" "store_bytes m dst bs = Some m'"
      by (auto simp: memcpy_def bind_eq_Some_conv split: if_splits)
    have "region dst (length bs) \<subseteq> region dst (unat n)"
      using load_bytes_length [OF b(1)] True by (intro region_mono) (simp add: word_le_nat_alt)
    then have "changed_in (region dst (unat n)) m m'" by (rule changed_mono [OF store_bytes_changed [OF b(2)]])
    then show ?thesis using True \<open>r\<close> by simp
  next
    case False
    then show ?thesis using a by (simp add: CopyData_def)
  qed
qed

lemma grown_refl: "WriteCur d \<le> Size d \<Longrightarrow> grown m d m d"
  by (simp add: grown_def)

lemma grown_trans:
  assumes "grown m d m1 d1" "grown m1 d1 m2 d2"
  shows "grown m d m2 d2"
proof -
  have w: "unat (WriteCur d) \<le> unat (WriteCur d1)" "unat (WriteCur d1) \<le> unat (Size d)"
    using assms(1) by (simp_all add: grown_def word_le_nat_alt)
  have "region (Base d + WriteCur d + of_nat (unat (WriteCur d1) - unat (WriteCur d))) (space d1) \<subseteq> region (Base d + WriteCur d) (space d)"
    using w assms(1) by (intro region_offset) (simp add: space_def grown_def)
  then have "region (Base d1 + WriteCur d1) (space d1) \<subseteq> region (Base d + WriteCur d) (space d)"
    using w assms(1) by (simp add: of_nat_diff grown_def)
  then have "changed_in (region (Base d + WriteCur d) (space d)) m1 m2"
    using assms(2) changed_mono by (auto simp: grown_def)
  then show ?thesis using assms by (auto simp: grown_def intro: changed_trans)
qed

lemma grown_buf_ok: "grown m d m' d' \<Longrightarrow> buf_ok m d \<Longrightarrow> buf_ok m' d'"
  by (simp add: grown_def buf_ok_def changed_in_def mapped_dom)

text \<open>The content grows at its end.\<close>

lemma grown_holds:
  assumes "grown m d m' d'" "buf_ok m d" "holds m d xs"
  shows "\<exists>ys. holds m' d' (xs @ ys)"
proof -
  have ok: "buf_ok m' d'" using grown_buf_ok assms(1,2) by blast
  then have "mapped m' (Base d') (unat (WriteCur d'))" using mapped_mono by (auto simp: buf_ok_def word_le_nat_alt)
  then obtain zs where zs: "length zs = unat (WriteCur d')" "bytes_at m' (Base d') zs" by (rule mapped_bytes_at)
  have le: "length xs \<le> length zs" using assms(1,3) zs(1) by (simp add: grown_def holds_def word_le_nat_alt)
  have "take (length xs) zs = xs"
  proof (rule nth_equalityI)
    show "length (take (length xs) zs) = length xs" using le by simp
    fix i assume "i < length (take (length xs) zs)"
    then have i: "i < length xs" "i < length zs" using le by simp_all
    have "Base d + of_nat i \<notin> region (Base d + WriteCur d) (space d)"
      using head_tail_disj [OF assms(2)] i(1) assms(3) region_memI [of i "length xs" "Base d"]
      by (auto simp: holds_def)
    then have "m' (Base d + of_nat i) = m (Base d + of_nat i)" using assms(1) by (simp add: grown_def changed_in_def)
    then show "take (length xs) zs ! i = xs ! i"
      using zs(2) assms(1,3) i by (simp add: bytes_at_def holds_def grown_def)
  qed
  then have "zs = xs @ drop (length xs) zs" by (metis append_take_drop_id)
  then show ?thesis using zs by (metis holds_def)
qed

section \<open>Each append grows its string\<close>

lemma grown_step:
  assumes "WriteCur d \<le> Size d" "n \<le> Size d - WriteCur d" "changed_in (region (Base d + WriteCur d) (space d)) m m'"
  shows "grown m d m' (d\<lparr>WriteCur := WriteCur d + n\<rparr>)"
proof -
  have "WriteCur d \<le> WriteCur d + n" "WriteCur d + n \<le> Size d" using assms(1,2) by (uint_arith)+
  then show ?thesis using assms(3) by (simp add: grown_def)
qed

lemma unat_space': "WriteCur d \<le> Size d \<Longrightarrow> unat (Size d - WriteCur d) = space d"
  by (simp add: space_def unat_sub)

lemma AppendDataToBuffer_grown:
  assumes "AppendDataToBuffer m p n d = Some (r, m', d')" "WriteCur d \<le> Size d"
  shows "grown m d m' d'"
proof -
  obtain r1 where "CopyData m (Base d + WriteCur d) (Size d - WriteCur d) p n = Some (r1, m')"
      "d' = (if r1 then d\<lparr>WriteCur := WriteCur d + n\<rparr> else d)"
    using assms(1) by (auto simp: AppendDataToBuffer_def bind_eq_Some_conv)
  then show ?thesis
    using CopyData_changed [of m "Base d + WriteCur d" "Size d - WriteCur d" p n r1 m'] assms(2)
    by (auto simp: unat_space' intro: grown_step grown_refl)
qed

text \<open>Through locals at \<open>sp\<close> that are pushed before and popped after.\<close>

lemma local_changed:
  assumes "changed_in R (push_local m sp bs) m'" "length bs \<le> n" "n \<le> 128" "region sp 128 \<inter> dom m = {}"
  shows "changed_in R m (pop_local m' sp n)"
proof -
  have out: "m q = None" if "unat (q - sp) < n" for q
  proof -
    have "unat (q - sp) < 128" using that assms(3) by linarith
    then have "q \<in> region sp 128" by (subst in_region_iff) (simp, simp)
    then show ?thesis using assms(4) by blast
  qed
  have same: "pop_local m' sp n q = (if unat (q - sp) < n then m q else m' q)" for q
    using out by (simp add: pop_local_def)
  have push: "push_local m sp bs q = m q" if "\<not> unat (q - sp) < n" for q
    using that assms(2) by (simp add: push_local_def upd_bytes_def)
  have "dom m' = dom (push_local m sp bs)" using assms(1) by (simp add: changed_in_def)
  then have "m' q = None \<longleftrightarrow> push_local m sp bs q = None" for q by (metis domIff)
  then have "pop_local m' sp n q = None \<longleftrightarrow> m q = None" for q
    using push [of q] same [of q] by (cases "unat (q - sp) < n") simp_all
  then have "dom (pop_local m' sp n) = dom m" by (intro set_eqI) (simp add: domIff)
  moreover have "pop_local m' sp n q = m q" if "q \<notin> R" for q
    using assms(1) that push [of q] same [of q] by (cases "unat (q - sp) < n") (simp_all add: changed_in_def)
  ultimately show ?thesis by (simp add: changed_in_def)
qed

lemma local_grown:
  assumes "grown (push_local m sp bs) d m' d'" "length bs \<le> n" "n \<le> 128" "region sp 128 \<inter> dom m = {}"
  shows "grown m d (pop_local m' sp n) d'"
proof -
  have "changed_in (region (Base d + WriteCur d) (space d)) m (pop_local m' sp n)"
    by (rule local_changed [OF _ assms(2-4)]) (use assms(1) in \<open>simp add: grown_def\<close>)
  then show ?thesis using assms(1) by (simp add: grown_def)
qed

lemma set_char_length: "set_char arr i b = Some arr' \<Longrightarrow> length arr' = length arr"
  by (auto simp: set_char_def split: if_splits)

lemma Digits_loop_length: "Digits_loop i n c off p k arr = Some arr' \<Longrightarrow> length arr' = length arr"
proof (induction i n c off p k arr rule: Digits_loop.induct)
  case (1 i n c off p k arr)
  show ?case
  proof (cases "i < n")
    case True
    obtain a where "set_char arr (p + ((n - i - 1) * c + off)) (word_of_int (k mod 10 + 0x30)) = Some a"
      "Digits_loop (i + 1) n c off p (k div 10) a = Some arr'"
      using "1.prems" True by (subst (asm) Digits_loop.simps) (auto simp: bind_eq_Some_conv Let_def)
    then show ?thesis using "1.IH" [OF True refl] set_char_length by metis
  next
    case False
    then show ?thesis using "1.prems" by (subst (asm) Digits_loop.simps) simp
  qed
qed

lemma put_decimals_length: "put_decimals lib lo n c off p arr = Some arr' \<Longrightarrow> length arr' = length arr"
  by (auto simp: put_decimals_def bind_eq_Some_conv dest: Digits_loop_length)

lemmas lengths = set_char_length Digits_loop_length put_decimals_length

lemma local_append:
  assumes "AppendDataToBuffer (push_local m sp arr) sp n d = Some (r, m', d')" "WriteCur d \<le> Size d"
    and "length arr \<le> k" "k \<le> 128" "region sp 128 \<inter> dom m = {}"
  shows "grown m d (pop_local m' sp k) d'"
  using local_grown [OF AppendDataToBuffer_grown [OF assms(1,2)] assms(3-5)] .

text \<open>A result that comes through a local array, or leaves all as it is.\<close>

definition through_local :: "mem \<Rightarrow> ptr \<Rightarrow> nat \<Rightarrow> tb_string \<Rightarrow> bool \<times> mem \<times> tb_string \<Rightarrow> bool" where
  "through_local m sp k d res \<longleftrightarrow> (case res of (r, m', d') \<Rightarrow> (m' = m \<and> d' = d) \<or>
     (\<exists>arr n m1. length arr = k \<and> AppendDataToBuffer (push_local m sp arr) sp n d = Some (r, m1, d') \<and> m' = pop_local m1 sp k))"

lemma through_local_grown:
  assumes "through_local m sp k d (r, m', d')" "WriteCur d \<le> Size d" "k \<le> 128" "region sp 128 \<inter> dom m = {}"
  shows "grown m d m' d'"
  using assms(1) local_append [OF _ assms(2) _ assms(3,4)] grown_refl [OF assms(2)] by (fastforce simp: through_local_def)

lemma through_localI:
  "AppendDataToBuffer (push_local m sp arr) sp n d = Some (r, m1, d') \<Longrightarrow> length arr = k
    \<Longrightarrow> through_local m sp k d (r, pop_local m1 sp k, d')"
  by (auto simp: through_local_def)

lemma through_local_same: "through_local m sp k d (r, m, d)"
  by (simp add: through_local_def)

lemma AppendUIntToString_local: "AppendUIntToString m sp n d = Some res \<Longrightarrow> through_local m sp 80 d res"
  unfolding AppendUIntToString_def Let_def
  by (auto simp: bind_eq_Some_conv dest!: lengths intro!: through_localI through_local_same split: if_splits)

lemma AppendIntToString_local: "AppendIntToString m sp i d = Some res \<Longrightarrow> through_local m sp 80 d res"
  unfolding AppendIntToString_def Let_def
  by (auto simp: bind_eq_Some_conv dest!: lengths intro!: through_localI through_local_same split: if_splits)

lemma AppendCharToString_local: "AppendCharToString m sp ch d = Some res \<Longrightarrow> through_local m sp 4 d res"
  unfolding AppendCharToString_def AppendBufferToBuffer_data Let_def
  by (auto simp: bind_eq_Some_conv intro!: through_localI)

lemma AppendFloatToStringRegular_local: "AppendFloatToStringRegular lib m sp x n d = Some res \<Longrightarrow> through_local m sp 128 d res"
  unfolding AppendFloatToStringRegular_def Let_def
  by (cases "n > 0"; cases "negative x")
    (auto simp: bind_eq_Some_conv dest!: lengths intro!: through_localI through_local_same split: if_splits)

lemma AppendFloatToStringInSN_local: "AppendFloatToStringInSN lib m sp x n d = Some res \<Longrightarrow> through_local m sp 128 d res"
  unfolding AppendFloatToStringInSN_def Let_def
  by (auto simp: bind_eq_Some_conv dest!: lengths intro!: through_localI through_local_same split: if_splits)

text \<open>What the writers of characters promise for any character: no more than the size asked for is written.\<close>

locale bounded_writer =
  fixes sz :: "mb_char \<Rightarrow> encoding \<Rightarrow> u32" and put :: "mem \<Rightarrow> ptr \<Rightarrow> mb_char \<Rightarrow> u32 \<Rightarrow> mem option"
  assumes size_le: "sz ch enc \<le> 4"
    and put_changed: "put m p ch (sz ch enc) = Some m' \<Longrightarrow> changed_in (region p (unat (sz ch enc))) m m'"
begin

lemma transcode_grown:
  assumes "Transcode_loop sz put m src d start i = Some (r, m', d')"
    and "start \<le> WriteCur d" "WriteCur d \<le> Size d" "unat (Size d) < 2 ^ 64 - 4"
  shows "grown m (d\<lparr>WriteCur := start\<rparr>) m' d'"
proof -
  let ?P = "\<lambda>sz' put' m src' d start' (i :: usz) (res :: bool \<times> mem \<times> tb_string). sz' = sz \<longrightarrow> put' = put \<longrightarrow> start' \<le> WriteCur d
    \<longrightarrow> WriteCur d \<le> Size d \<longrightarrow> unat (Size d) < 2 ^ 64 - 4 \<longrightarrow> grown m (d\<lparr>WriteCur := start'\<rparr>) (fst (snd res)) (snd (snd res))"
  have "?P sz put m src d start i (r, m', d')"
  proof (rule Transcode_loop.raw_induct [where P = ?P, OF _ assms(1)], intro impI)
    fix loop sz' put' m src d start i and res :: "bool \<times> mem \<times> tb_string"
    assume IH: "\<And>sz' put' m src d start i res. loop sz' put' m src d start i = Some res \<Longrightarrow> ?P sz' put' m src d start i res"
      and e: "sz' = sz" "put' = put" and ok: "start \<le> WriteCur d" "WriteCur d \<le> Size d" "unat (Size d) < 2 ^ 64 - 4"
      and run: "(if i < WriteCur src
      then do {
        ch \<leftarrow> GetNextChar m (Base src + i) (Enc src);
        let charSize = GetMultibyteCharSize ch (Enc src);
        let decoded = DecodeChar ch (Enc src);
        let encoded = EncodeChar decoded (Enc d);
        let encodedSize = sz' encoded (Enc d);
        if WriteCur d + ucast encodedSize \<le> Size d
        then do {
          m' \<leftarrow> put' m (Base d + WriteCur d) encoded encodedSize;
          loop sz' put' m' src (d\<lparr>WriteCur := WriteCur d + ucast encodedSize\<rparr>) start (i + ucast charSize)
        }
        else Some (False, m, d\<lparr>WriteCur := start\<rparr>)
      }
      else Some (True, m, d)) = Some res"
    have start: "grown m (d\<lparr>WriteCur := start\<rparr>) m d" "grown m (d\<lparr>WriteCur := start\<rparr>) m (d\<lparr>WriteCur := start\<rparr>)"
      using ok by (auto simp: grown_def)
    show "grown m (d\<lparr>WriteCur := start\<rparr>) (fst (snd res)) (snd (snd res))"
    proof (cases "i < WriteCur src")
      case False
      then show ?thesis using run start(1) by auto
    next
      case True
      with run obtain ch where ch: "GetNextChar m (Base src + i) (Enc src) = Some ch" by (auto simp: bind_eq_Some_conv)
      define encoded where "encoded = EncodeChar (DecodeChar ch (Enc src)) (Enc d)"
      let ?n = "ucast (sz encoded (Enc d)) :: usz"
      show ?thesis
      proof (cases "WriteCur d + ?n \<le> Size d")
        case False
        then show ?thesis using run True ch e start(2) by (auto simp: encoded_def Let_def)
      next
        case fits: True
        with run True ch e obtain m1 where m1: "put m (Base d + WriteCur d) encoded (sz encoded (Enc d)) = Some m1"
          and l: "loop sz put m1 src (d\<lparr>WriteCur := WriteCur d + ?n\<rparr>) start (i + ucast (GetMultibyteCharSize ch (Enc src))) = Some res"
          by (auto simp: encoded_def Let_def bind_eq_Some_conv)
        have "unat (sz encoded (Enc d)) \<le> 4" using size_le [of encoded "Enc d"] by (simp add: word_le_nat_alt)
        then have n4: "unat ?n \<le> 4" "unat ?n = unat (sz encoded (Enc d))"
          by (simp_all add: unsigned_ucast_eq take_bit_nat_eq_self)
        have sum: "unat (WriteCur d + ?n) = unat (WriteCur d) + unat ?n"
          using n4 ok by (subst unat_add_lem [THEN iffD1]) (simp_all add: word_le_nat_alt)
        then have le: "start \<le> WriteCur d + ?n" "unat ?n \<le> space d" "?n \<le> Size d - WriteCur d" using ok fits
          by (simp_all add: word_le_nat_alt space_def unat_sub)
        have "changed_in (region (Base d + WriteCur d) (space d)) m m1"
          using changed_mono [OF put_changed [OF m1]] n4(2) le(2) region_mono by metis
        then have "grown m d m1 (d\<lparr>WriteCur := WriteCur d + ?n\<rparr>)" using ok(2) le(3) by (intro grown_step)
        from grown_trans [OF start(1) this]
        have "grown m (d\<lparr>WriteCur := start\<rparr>) m1 (d\<lparr>WriteCur := start\<rparr>)" by (auto simp: grown_def)
        moreover have "grown m1 (d\<lparr>WriteCur := start\<rparr>) (fst (snd res)) (snd (snd res))"
          using IH [OF l] le(1) fits ok(3) by simp
        ultimately show ?thesis by (rule grown_trans)
      qed
    qed
  qed
  then show ?thesis using assms(2-4) by simp
qed

end

lemma GetMultibyteCharSize_le: "GetMultibyteCharSize ch enc \<le> 4"
  by (auto simp: GetMultibyteCharSize_def split: encoding.splits)

lemma stored_changed: "store_bytes m p bs = Some m' \<Longrightarrow> length bs = k \<Longrightarrow> changed_in (region p k) m m'"
  using store_bytes_changed by blast

interpretation put_le: bounded_writer GetMultibyteCharSize put_LE
proof (unfold_locales, goal_cases)
  case (2 m p ch enc m')
  then show ?case unfolding put_LE_def
    by (cases "GetMultibyteCharSize ch enc \<in> {1, 2, 3, 4}")
      (auto intro: stored_changed simp del: region_numeral region_Suc_0 store_bytes.simps)
qed (rule GetMultibyteCharSize_le)

interpretation put_16be: bounded_writer GetMultibyteCharSize put_UTF16BE
proof (unfold_locales, goal_cases)
  case (2 m p ch enc m')
  then show ?case unfolding put_UTF16BE_def Let_def
    by (auto intro: stored_changed simp del: region_numeral region_Suc_0 store_bytes.simps split: if_splits)
qed (rule GetMultibyteCharSize_le)

interpretation put_32be: bounded_writer "\<lambda>_ _. 4" put_UTF32BE
proof (unfold_locales, goal_cases)
  case (2 m p ch enc m')
  then show ?case unfolding put_UTF32BE_def Let_def
    by (auto intro: stored_changed simp del: region_numeral region_Suc_0 store_bytes.simps)
qed simp

lemma Transcode_grown:
  assumes "Transcode m src d = Some (r, m', d')" "WriteCur d \<le> Size d" "unat (Size d) < 2 ^ 64 - 4"
  shows "grown m d m' d'"
proof -
  have "d\<lparr>WriteCur := WriteCur d\<rparr> = d" by simp
  then show ?thesis
    using assms put_le.transcode_grown [of m src d "WriteCur d" 0 r m' d'] put_16be.transcode_grown [of m src d "WriteCur d" 0 r m' d']
      put_32be.transcode_grown [of m src d "WriteCur d" 0 r m' d']
    by (cases "Enc d") (simp_all add: Transcode_def TranscodeLE_def TranscodeUTF16BE_def TranscodeUTF32BE_def)
qed

lemma do_append_grown:
  assumes "do_append lib sp m d c = Some (r, m', d')" "WriteCur d \<le> Size d" "unat (Size d) < 2 ^ 64 - 4" "region sp 128 \<inter> dom m = {}"
  shows "grown m d m' d'"
proof -
  note local = through_local_grown [OF _ assms(2) _ assms(4)]
  show ?thesis
  proof (cases c)
    case (PutArray p)
    then obtain n where "AppendDataToBuffer m p n d = Some (r, m', d')"
      using assms(1) by (auto simp: AppendArrayToString_def bind_eq_Some_conv)
    then show ?thesis using assms(2) by (rule AppendDataToBuffer_grown)
  next
    case (PutString src)
    then show ?thesis
      using assms(1) AppendDataToBuffer_grown [OF _ assms(2)] Transcode_grown [OF _ assms(2,3)]
      by (auto simp: AppendStringToString_def AppendBufferToBuffer_data split: if_splits)
  next
    case (PutFloat x n sn)
    then show ?thesis
      using assms(1) local [OF AppendFloatToStringRegular_local] local [OF AppendFloatToStringInSN_local]
      by (cases sn) (simp_all add: AppendFloatToString_def)
  qed (use assms(1,2) in \<open>simp_all add: AppendDataToString_def AppendDataToBuffer_grown
        local [OF AppendUIntToString_local] local [OF AppendIntToString_local] local [OF AppendCharToString_local]\<close>)
qed

section \<open>Property\<close>

text \<open>
  C10: after any sequence of appends to a well-formed string, whatever is appended and whether it succeeds or not, valid
  text or not, the string is well formed, its memory, its size and its encoding are the same, its content begins with what
  it was, and no byte outside it has changed, none is mapped or unmapped.
\<close>

theorem appends_keep_string:
  assumes "do_appends lib sp m d cs = Some (m', d')" "buf_ok m d" "holds m d xs"
    and "unat (Size d) < 2 ^ 64 - 4" "region sp 128 \<inter> dom m = {}"
  shows "buf_ok m' d' \<and> Base d' = Base d \<and> Size d' = Size d \<and> Enc d' = Enc d \<and> (\<exists>ys. holds m' d' (xs @ ys))
    \<and> dom m' = dom m \<and> (\<forall>q. q \<notin> buf_region d \<longrightarrow> m' q = m q)"
proof -
  have "grown m d m' d'"
    using assms(1,2,4,5)
  proof (induction cs arbitrary: m d)
    case Nil
    then show ?case by (simp add: grown_refl buf_ok_def)
  next
    case (Cons c cs)
    then obtain r m1 d1 where c: "do_append lib sp m d c = Some (r, m1, d1)" and cs: "do_appends lib sp m1 d1 cs = Some (m', d')"
      by (auto simp: bind_eq_Some_conv)
    have g: "grown m d m1 d1" using do_append_grown [OF c _ Cons.prems(3,4)] Cons.prems(2) by (simp add: buf_ok_def)
    have "grown m1 d1 m' d'"
      using cs grown_buf_ok [OF g Cons.prems(2)] Cons.prems(3,4) g by (intro Cons.IH) (simp_all add: grown_def changed_in_def)
    then show ?case by (rule grown_trans [OF g])
  qed
  moreover from this have "buf_ok m' d'" "\<exists>ys. holds m' d' (xs @ ys)" using grown_buf_ok grown_holds assms(2,3) by blast+
  moreover have "region (Base d + WriteCur d) (space d) \<subseteq> buf_region d" using tail_region [OF assms(2)] by simp
  ultimately show ?thesis by (auto simp: grown_def changed_in_def)
qed

lemma load_bytes_numeral:
  "load_bytes m p (numeral k) = do { b \<leftarrow> m p; bs \<leftarrow> load_bytes m (p + 1) (pred_numeral k); Some (b # bs) }"
  by (simp add: numeral_eq_Suc)

lemma ex_appends:
  "\<exists>m' d'. do_appends None 0x80 ex_euro (ex_out 0) [PutData 0x10 2, PutData 0x10 4, PutData 0x10 4] = Some (m', d')"
  by (simp add: ex_out_def ex_euro_def AppendDataToString_def AppendDataToBuffer_def CopyData_def memcpy_def overlap_def store8_def
      load_bytes_numeral)

theorem appends_keep_string_witness:
  "\<exists>m' d' ys. do_appends None 0x80 ex_euro (ex_out 0) [PutData 0x10 2, PutData 0x10 4, PutData 0x10 4] = Some (m', d')
     \<and> buf_ok m' d' \<and> Size d' = 8 \<and> holds m' d' ys \<and> m' 0x10 = Some 0x41"
proof -
  obtain m' d' where run: "do_appends None 0x80 ex_euro (ex_out 0) [PutData 0x10 2, PutData 0x10 4, PutData 0x10 4] = Some (m', d')"
    using ex_appends by blast
  have "unat (Size (ex_out 0)) < 2 ^ 64 - 4" "region 0x80 128 \<inter> dom ex_euro = {}" by (simp_all add: ex_out_def ex_euro_def)
  moreover have "holds ex_euro (ex_out 0) []" by (simp add: holds_def ex_out_def)
  ultimately have "buf_ok m' d'" "Size d' = Size (ex_out 0)" "\<exists>ys. holds m' d' ([] @ ys)" "\<forall>q. q \<notin> buf_region (ex_out 0) \<longrightarrow> m' q = ex_euro q"
    using appends_keep_string [OF run ex_out_ok, of "[]"] by simp_all
  then show ?thesis using run by (auto simp: ex_out_def ex_euro_def)
qed

end
