(* ===== verification/Spec2Isabelle.thy ===== *)
theory Spec2Isabelle
  imports Prelude Types Buffers Query Simd Encoding Strings NumText Atomic RingBuffer FreeList Paths Files Dirs Removal Doubles FloatText Services WinPaths WinFiles WinDirs WinServices Operators Appends
begin

text \<open>
  A verification development of TinyBase, a C library of buffers, strings in six encodings, queues for threads, and
  a platform layer for Linux and Windows (\<open>src/src/\<close>; \<open>src/README.md\<close> gives the overview).

  The parts of the program and how they interact. \<open>tinybase-types.h\<close> holds the types and bit helpers that all files
  use. \<open>tinybase-memory\<close> works on \<open>buffer\<close>s (base, cursor, size), and everything that appends goes through its
  \<open>CopyData\<close>; its searches are called through function pointers that \<open>InitBuffersArch\<close> may redirect to SIMD versions.
  \<open>tinybase-strings\<close> adds an encoding to a buffer and rests on \<open>tinybase-encoding.c\<close> for characters and on the
  searches of buffers. \<open>tinybase-queues\<close> rests on \<open>tinybase-atomic.c\<close>. The platform layer, written once for Linux
  and once for Windows, has paths (strings that it joins and cuts), files, directories, threads and clocks, and calls
  the operating system; its paths use the strings, its directories the paths and the files.

  How the code is represented. A machine integer is a word of its width (\<open>usz\<close> is \<open>64 word\<close>), so additions wrap as
  in C; signed integers (\<open>isz\<close>, \<open>i32\<close>) are \<open>int\<close> with an explicit test (\<open>chk64\<close>, \<open>chk32\<close>) wherever signed arithmetic
  could overflow, which is undefined in C. Memory (\<open>mem\<close>) is a partial map from 64-bit addresses to bytes: a load or a
  store at an address that is not mapped gives None. An \<open>option\<close> result is thus None for an undefined behaviour or for
  a loop that does not end (loops are \<open>fun\<close>, \<open>function\<close> with a termination proof, or \<open>partial_function (option)\<close>
  where the code may run for ever). The error returns of the code are values inside the Some. Structures that the
  code passes by pointer are passed and returned. Local arrays lie at an address given to the function (\<open>sp\<close>, \<open>stack\<close>,
  \<open>buf\<close>) in memory that is not mapped otherwise (\<open>push_local\<close>, \<open>pop_local\<close>); literals whose address the code takes lie
  at \<open>lit\<close> and \<open>star\<close>. Code outside the repository is a parameter: the system calls (\<open>'w os\<close>, \<open>'w dos\<close>,
  \<open>('w, 'a) services\<close> on Linux, \<open>'w win\<close>, \<open>'w windirs\<close>, \<open>'w winsrv\<close> on Windows), the C math library (\<open>cmath\<close>) and
  \<open>cpuid\<close>. What is relied on is stated by named laws (\<open>posix\<close>, \<open>win32\<close>, \<open>mkdir_law\<close>, \<open>priority_law\<close>, \<open>sem_law\<close>, ...),
  each satisfied by an example system that the witnesses use. Two of them ask for more than every system gives, and
  the results that need them say so: \<open>pow_rounded\<close>, that \<open>pow\<close> rounds a power of ten correctly (IEEE 754 recommends
  it, C leaves it open), and \<open>mkdir_unhindered\<close>, that \<open>mkdir\<close> fails for no other reason than an existing directory or
  a missing parent; \<open>mkdir_law\<close> alone allows any failure. A suffix \<open>_W\<close> marks the Windows version of a function.

  The theories.
  \<^item> \<open>Prelude\<close>: words, memory, regions, \<open>memcpy\<close> and \<open>memset\<close>, the collection \<open>mem_simps\<close> and the lemmas on them.
  \<^item> \<open>Types\<close>, \<open>Doubles\<close>: \<open>tinybase-types.h\<close>. The bit helpers on x86-64 in their GCC and Microsoft variants;
    \<open>f64\<close> as a rational, an infinity or a NaN, with rounding to nearest even to 53 bits, and the wrappers of the math library.
  \<^item> \<open>Buffers\<close>, \<open>Query\<close>, \<open>Simd\<close>: \<open>tinybase-memory.c\<close>. The locale \<open>appender\<close> is the contract of an append (all or
    nothing, nothing else written), interpreted for the appends of buffers, characters and numbers; \<open>search_dispatch\<close>
    is what the queries need of the function pointers, interpreted for the portable and the SIMD searches, so that all
    queries are proved once. The AVX2 search for runs does not satisfy it.
  \<^item> \<open>Encoding\<close>, \<open>Strings\<close>: \<open>tinybase-encoding.c\<close> and \<open>tinybase-strings.c\<close>. The bytes of a character are specified
    after the standards (\<open>char_bytes\<close>); the functions read, measure, transcode and append text as specified
    (\<open>char_writer\<close> is what transcoding needs of the three writers).
  \<^item> \<open>NumText\<close>, \<open>FloatText\<close>, \<open>Operators\<close>: numbers to text and back, the C++ operators, the typed arena macros, \<open>LoadCPUArch\<close>.
  \<^item> \<open>Appends\<close>: any sequence of appends keeps a string well formed, also for invalid text (locale \<open>bounded_writer\<close>).
  \<^item> \<open>Atomic\<close>, \<open>RingBuffer\<close>, \<open>FreeList\<close>: \<open>tinybase-atomic.c\<close> for both compilers and \<open>tinybase-queues.c\<close>. A call
    is also a state machine whose steps are the accesses to shared memory (\<open>push_step\<close>, \<open>pop_step\<close>, \<open>ring_step\<close>); runs
    interleave the steps of any number of threads, and the invariants are proved over all reachable states. The memory
    is sequentially consistent. Called one at a time, the free list implements a queue (\<open>queue_ops\<close>), but initialising makes an empty one
    only of memory in which the stub's link is null (\<open>list_ready\<close>), which the code does not see to.
  \<^item> \<open>Paths\<close>, \<open>Files\<close>, \<open>Dirs\<close>, \<open>Removal\<close>, \<open>Services\<close>: \<open>tinybase-platform-linux.c\<close>.
    Joining refines a specification on components; \<open>RemoveDir\<close>, which recurses with its buffers on the stack, refines
    \<open>remove_tree\<close> on names.
  \<^item> \<open>WinPaths\<close>, \<open>WinFiles\<close>, \<open>WinDirs\<close>, \<open>WinServices\<close>: \<open>tinybase-platform-win32.c\<close>, in UTF-16LE, with
    \<open>wresolve\<close> and \<open>remove_first\<close> as the specifications. The searches for a backslash go by bytes, so the results on
    paths are for \<open>plain\<close> characters, and two theorems show what happens for the others; on both systems the results on
    reading a file exclude positions and sums beyond the range of the test, where the negative results are.

  What the lemmas show. Functional behaviour on every branch, with the frame (no byte outside the destination changes);
  round trips (characters, integers, doubles, paths, files, scheduling); equivalence of the SIMD and the portable
  searches; invariants of the queues over all interleavings; refinement of specifications (paths, removal of directories,
  queues); termination of the loops, and the inputs for which a loop does not end; and a number of theorems that
  exhibit where the code does not do what its documentation says.

  Bounds and fuel. No execution is bounded except in the specifications \<open>remove_tree\<close> and \<open>remove_first\<close>, whose number
  bounds the depth of the directories and the entries read: the refinement holds for every number with which they have a
  result, and the functions of the code have no such bound. A stack frame of \<open>RemoveDir\<close> is \<open>frame_bytes\<close> long and \<open>n\<close> of
  them must fit the address space. \<open>AppendFloatToString\<close> is exact up to 17 decimals and \<open>2 ^ 52\<close> units, the numbers for
  which the code's single multiplication by a power of ten is exact.

  Not modelled: the tests and build files; \<open>__BufferInBufferIdxAVX2\<close>, which nothing calls; the variants of types for 32-bit
  builds, and other processors than x86-64, which the sources leave open; access rights of mapped memory, so that a store to memory mapped read-only
  is not undefined here; weak memory orders; the content of the macros that only name types or calling conventions.
\<close>

end
